(* ===== verification/Prelude.thy ===== *)
theory Prelude
  imports Main "HOL-Library.Word"
begin

unbundle bit_operations_syntax

text \<open>
  Shared vocabulary of the development: the machine types of the i386 build (32-bit
  pointers, \<open>size_t\<close> and \<open>unsigned long\<close>), error numbers as values, byte-addressed
  memory with the C string functions the sources use on it, and the generic lemmas about
  words, lists and memory on which the component theories rest.
\<close>

section \<open>Machine types\<close>

type_synonym u8 = "8 word"
type_synonym u16 = "16 word"
type_synonym u32 = "32 word"
type_synonym u64 = "64 word"
type_synonym bytes = "u8 list"

text \<open>
  A status code \<open>rc\<close> of the sources is 0 for success or a negated error number.  The
  model keeps the symbolic name of the error: \<open>None\<close> is 0, \<open>Some e\<close> is \<open>-e\<close>.
\<close>

datatype errno =
    EACCES | EADDRINUSE | EAFNOSUPPORT | ECANCELED | ECONNRESET | EINVAL | EIO | ENETUNREACH
  | ENOBUFS | ENOENT | ENOMEM | ENOSPC | ENOTCONN | ENOTSUP | ENOTTY | ENXIO | EPIPE | EPROTONOSUPPORT | ERANGE | ESTALE
  | ETIMEDOUT | EOther nat

type_synonym rc = "errno option"

named_theorems word_unat \<open>reading word arithmetic as natural-number arithmetic\<close>

section \<open>Words\<close>

lemma unat_u32_less [simp]: "unat (w :: u32) < 4294967296"
  using unsigned_less [of w] by simp

lemma sint_u32_nonneg: "0 \<le> sint (w :: u32) \<longleftrightarrow> unat w < 2147483648"
proof -
  have "0 \<le> sint w \<longleftrightarrow> \<not> bit w 31"
    by (simp add: sint_uint bit_simps flip: not_less)
  also have "\<dots> \<longleftrightarrow> unat w < 2 ^ 31"
  proof -
    have "bit w 31 \<longleftrightarrow> bit (unat w) 31"
      by (simp add: bit_unsigned_iff)
    also have "\<dots> \<longleftrightarrow> odd (unat w div 2 ^ 31)"
      by (simp add: bit_iff_odd)
    also have "\<dots> \<longleftrightarrow> \<not> unat w < 2 ^ 31"
    proof -
      have "unat w div 2 ^ 31 < 2"
        using unat_u32_less [of w] by (simp add: div_less_iff_less_mult)
      then have "unat w div 2 ^ 31 = 0 \<or> unat w div 2 ^ 31 = 1"
        by arith
      then show ?thesis
        by (auto simp: div_eq_0_iff)
    qed
    finally show ?thesis by simp
  qed
  finally show ?thesis by simp
qed

lemma unat_add_u32 [word_unat]:
  "unat a + unat b < 4294967296 \<Longrightarrow> unat (a + b :: u32) = unat a + unat b"
  by (simp add: unat_word_ariths)

lemma unat_sub_u32 [word_unat]:
  "unat b \<le> unat a \<Longrightarrow> unat (a - b :: u32) = unat a - unat b"
  by (simp add: unat_sub_if')

lemma unat_sub_wrap_u32:
  "unat a < unat b \<Longrightarrow> unat (a - b :: u32) = 4294967296 - (unat b - unat a)"
  by (simp add: unat_sub_if_size word_size) 


lemma take_bit_u32_unat: "unat (take_bit n (w :: u32)) = unat w mod 2 ^ n"
  by (metis take_bit_eq_mod unsigned_take_bit_eq)

lemma and_not_mask_eq: "w AND NOT (mask n) = w - take_bit n (w :: u32)"
proof -
  have "w = (w AND mask n) + (w AND NOT (mask n))"
  proof -
    have "(w AND mask n) AND (w AND NOT (mask n)) = 0"
      by (rule bit_word_eqI) (simp add: bit_simps)
    then have "(w AND mask n) + (w AND NOT (mask n)) = (w AND mask n) OR (w AND NOT (mask n))"
      by (simp add: plus_and_or flip: disjunctive_add_eq_or)
    also have "\<dots> = w"
      by (rule bit_word_eqI) (auto simp: bit_simps)
    finally show ?thesis by simp
  qed
  then show ?thesis
    by (simp add: take_bit_eq_mask algebra_simps)
qed

lemma unat_and_not_mask: "unat (w AND NOT (mask n) :: u32) = unat w div 2 ^ n * 2 ^ n"
proof -
  have "unat (take_bit n w) \<le> unat w"
    by (simp add: take_bit_u32_unat)
  then have "unat (w - take_bit n w) = unat w - unat w mod 2 ^ n"
    by (simp add: unat_sub_u32 take_bit_u32_unat)
  then show ?thesis
    by (simp add: and_not_mask_eq minus_mod_eq_div_mult)
qed

lemma and_exp_word: "x AND 2 ^ n = (if bit x n then 2 ^ n else (0 :: 'a::len word))"
  by (auto intro!: bit_word_eqI simp: bit_simps)

lemma unat_drop_bit_div: "unat (drop_bit n (x :: 'a::len word)) = unat x div 2 ^ n"
  by (metis unat_drop_bit_eq drop_bit_eq_div)

lemma unat_of_nat_small: "n < 2 ^ 32 \<Longrightarrow> unat (of_nat n :: u32) = n"
  by (simp add: unat_of_nat)

lemma unat_u8_less: "unat (b :: u8) < 256"
  using unsigned_less [of b] by simp

lemma unat_ucast_u8 [simp]: "unat (ucast (b :: u8) :: u32) = unat b"
  using take_bit_nat_eq_self [of "unat b" 32] order_less_trans [OF unat_u8_less, of "2 ^ 32" b]
  by (simp add: unsigned_ucast_eq)

lemma not_bit_u8: "8 \<le> n \<Longrightarrow> \<not> bit (w :: u8) n"
  using bit_imp_le_length [of w n] by auto

lemma not_bit_u32: "32 \<le> n \<Longrightarrow> \<not> bit (w :: u32) n"
  using bit_imp_le_length [of w n] by auto

section \<open>Byte order\<close>

text \<open>Network byte order.\<close>

definition be16 :: "u16 \<Rightarrow> bytes" where
  "be16 x = [ucast (drop_bit 8 x), ucast x]"

definition be32 :: "u32 \<Rightarrow> bytes" where
  "be32 x = [ucast (drop_bit 24 x), ucast (drop_bit 16 x), ucast (drop_bit 8 x), ucast x]"

section \<open>Memory\<close>

text \<open>
  Byte-addressed memory, with the little-endian 32-bit accesses and the block operations
  that the sources perform through pointers.
\<close>

type_synonym memory = "u32 \<Rightarrow> u8"

definition load32 :: "memory \<Rightarrow> u32 \<Rightarrow> u32" where
  "load32 m a = ucast (m a) OR push_bit 8 (ucast (m (a + 1))) OR
     push_bit 16 (ucast (m (a + 2))) OR push_bit 24 (ucast (m (a + 3)))"

definition store32 :: "memory \<Rightarrow> u32 \<Rightarrow> u32 \<Rightarrow> memory" where
  "store32 m a v = m(a := ucast v, a + 1 := ucast (drop_bit 8 v),
     a + 2 := ucast (drop_bit 16 v), a + 3 := ucast (drop_bit 24 v))"

definition mem_copy :: "memory \<Rightarrow> u32 \<Rightarrow> u32 \<Rightarrow> u32 \<Rightarrow> memory" where
  "mem_copy m dst src n = (\<lambda>a. if a - dst < n then m (src + (a - dst)) else m a)"

definition mem_set :: "memory \<Rightarrow> u32 \<Rightarrow> u8 \<Rightarrow> u32 \<Rightarrow> memory" where
  "mem_set m dst c n = (\<lambda>a. if a - dst < n then c else m a)"

lemma load32_store32 [simp]: "load32 (store32 m a v) a = v"
proof (rule bit_word_eqI)
  fix n assume "n < LENGTH(32)"
  then consider "n < 8" | "8 \<le> n" "n < 16" | "16 \<le> n" "n < 24" | "24 \<le> n" "n < 32"
    by (cases "n < 8"; cases "n < 16"; cases "n < 24") auto
  then show "bit (load32 (store32 m a v) a) n \<longleftrightarrow> bit v n"
    by cases (auto simp: load32_def store32_def bit_simps)
qed

end
