(* ===== verification/Malloc.thy ===== *)
theory Malloc
  imports Prelude
begin

unbundle bit_operations_syntax

text \<open>
  The memory allocator, \<open>core/malloc.c\<close>.

  The list of free blocks is kept as the list of (address, size) pairs in list order; the
  header of a free block (\<open>struct memory_block\<close>), which the code stores in the free memory
  itself, is this pair and the list position, so the bytes of free memory are not touched
  by the model.  The header of an allocated block (\<open>struct autosized_block\<close>) is stored in
  \<open>hmem\<close> as in the code.  On i386 \<open>struct memory_block\<close> has 16 bytes, which makes
  \<open>MIN_MEMBLOCK_SIZE\<close> 16, and the \<open>data\<close> of an autosized block has offset 4.

  An allocation may run the cache discarders, which are functions on the whole state: the
  heap record is extensible and a discarder works on any extension of it.  The code loops
  until an allocation succeeds or nothing is discarded, so the operations that allocate
  are partial: \<open>None\<close> is a call that does not return, or that corrupts the free list.
\<close>

section \<open>State\<close>

type_synonym block = "u32 \<times> u32"

record heap =
  free_blocks :: "block list"
  freemem :: u32
  hmem :: memory

definition MIN_MEMBLOCK_SIZE :: u32 where
  "MIN_MEMBLOCK_SIZE = 16"

definition NOWHERE :: u32 where
  "NOWHERE = NOT 0"

definition HEAP_SIZE :: u32 where
  "HEAP_SIZE = 512 * 1024"

text \<open>\<open>offsetof ( struct autosized_block, data )\<close>\<close>

definition AUTOSIZED_DATA :: u32 where
  "AUTOSIZED_DATA = 4"

section \<open>Cache discarders\<close>

type_synonym 'a discarder = "'a heap_scheme \<Rightarrow> u32 \<times> 'a heap_scheme"

fun discard_cache :: "'a discarder list \<Rightarrow> 'a discarder" where
  "discard_cache [] h = (0, h)"
| "discard_cache (discarder # ds) h =
     (let (discarded, h') = discarder h in
      if discarded \<noteq> 0 then (discarded, h') else discard_cache ds h')"

partial_function (option) discard_all_cache ::
  "'a discarder list \<Rightarrow> 'a heap_scheme \<Rightarrow> 'a heap_scheme option" where
  "discard_all_cache ds h =
     (let (discarded, h') = discard_cache ds h in
      if discarded \<noteq> 0 then discard_all_cache ds h' else Some h')"

section \<open>Allocation\<close>

text \<open>
  The search of \<open>alloc_memblock\<close> through the free list for the first block with enough
  space, and its split into pre-block, block and post-block.  \<open>voff\<close> is the offset that
  \<open>virt_to_phys\<close> adds.
\<close>

fun alloc_scan :: "u32 \<Rightarrow> u32 \<Rightarrow> u32 \<Rightarrow> u32 \<Rightarrow> block list \<Rightarrow> (u32 \<times> block list) option" where
  "alloc_scan voff sz align_mask offset [] = None"
| "alloc_scan voff sz align_mask offset ((pre, bsize) # rest) =
     (let pre_size = (offset - (pre + voff)) AND align_mask;
          post_size = bsize - pre_size - sz
      in if 0 \<le> sint post_size then
           (let block = pre + pre_size;
                post = block + sz;
                post_list = (if MIN_MEMBLOCK_SIZE \<le> post_size then [(post, post_size)] else []);
                pre_list = (if pre_size < MIN_MEMBLOCK_SIZE then [] else [(pre, pre_size)])
            in Some (block, pre_list @ post_list @ rest))
         else map_option (\<lambda>(ptr, bl). (ptr, (pre, bsize) # bl))
                (alloc_scan voff sz align_mask offset rest))"

text \<open>The rounding of a size that allocation and freeing share.\<close>

definition round_size :: "u32 \<Rightarrow> u32" where
  "round_size sz = (sz + MIN_MEMBLOCK_SIZE - 1) AND NOT (MIN_MEMBLOCK_SIZE - 1)"

partial_function (option) alloc_loop ::
  "u32 \<Rightarrow> 'a discarder list \<Rightarrow> u32 \<Rightarrow> u32 \<Rightarrow> u32 \<Rightarrow> 'a heap_scheme \<Rightarrow>
   (u32 \<times> 'a heap_scheme) option" where
  "alloc_loop voff ds sz align_mask offset h =
     (case alloc_scan voff sz align_mask offset (free_blocks h) of
        Some (ptr, bl) \<Rightarrow> Some (ptr, h\<lparr>free_blocks := bl, freemem := freemem h - sz\<rparr>)
      | None \<Rightarrow>
          (let (discarded, h') = discard_cache ds h in
           if discarded \<noteq> 0 then alloc_loop voff ds sz align_mask offset h'
           else Some (0, h')))"

definition alloc_memblock ::
  "u32 \<Rightarrow> 'a discarder list \<Rightarrow> u32 \<Rightarrow> u32 \<Rightarrow> u32 \<Rightarrow> 'a heap_scheme \<Rightarrow>
   (u32 \<times> 'a heap_scheme) option" where
  "alloc_memblock voff ds sz align offset h =
     (let sz' = round_size sz;
          align_mask = (align - 1) OR (MIN_MEMBLOCK_SIZE - 1)
      in alloc_loop voff ds sz' align_mask offset h)"

section \<open>Freeing\<close>

text \<open>
  The loop of \<open>free_memblock\<close>.  The result is the block being freed (which absorbs an
  immediately preceding block), the last value of \<open>gap_after\<close>, the blocks before the
  insertion point and the blocks from it on.  \<open>None\<close> is the case in which the insertion
  point itself has just been deleted from the list, where the code would link the block
  before itself.
\<close>

fun free_scan :: "u32 \<Rightarrow> block \<Rightarrow> u32 \<Rightarrow> block list \<Rightarrow>
    (block \<times> u32 \<times> block list \<times> block list) option" where
  "free_scan sz freeing gap_after [] = Some (freeing, gap_after, [], [])"
| "free_scan sz (freeing, fsize) _ ((block, bsize) # rest) =
     (let gap_before = freeing - (block + bsize);
          gap_after = block - (freeing + fsize)
      in if gap_before = 0 then
           (if 0 \<le> sint gap_after then None
            else free_scan sz (block, bsize + sz) gap_after rest)
         else if 0 \<le> sint gap_after then
           Some ((freeing, fsize), gap_after, [], (block, bsize) # rest)
         else map_option (\<lambda>(fr, gap, before, after). (fr, gap, (block, bsize) # before, after))
                (free_scan sz (freeing, fsize) gap_after rest))"

definition free_link :: "block \<times> u32 \<times> block list \<times> block list \<Rightarrow> block list option" where
  "free_link s =
     (case s of ((freeing, fsize), gap_after, before, after) \<Rightarrow>
       (if gap_after = 0 then
          (case after of
             [] \<Rightarrow> None
           | (block, bsize) # rest \<Rightarrow> Some (before @ (freeing, fsize + bsize) # rest))
        else Some (before @ (freeing, fsize) # after)))"

definition free_memblock :: "u32 \<Rightarrow> u32 \<Rightarrow> 'a heap_scheme \<Rightarrow> 'a heap_scheme option" where
  "free_memblock ptr sz h =
     (if ptr = 0 then Some h
      else
        (let sz' = round_size sz in
         (case free_scan sz' (ptr, sz') (-1) (free_blocks h) of
            None \<Rightarrow> None
          | Some s \<Rightarrow>
              map_option (\<lambda>bl. h\<lparr>free_blocks := bl, freemem := freemem h + sz'\<rparr>)
                (free_link s))))"

section \<open>Resizing and the C library interface\<close>

text \<open>The part of \<open>realloc\<close> that allocates and labels the new block.\<close>

definition realloc_new ::
  "u32 \<Rightarrow> 'a discarder list \<Rightarrow> u32 \<Rightarrow> 'a heap_scheme \<Rightarrow> (u32 \<times> 'a heap_scheme) option" where
  "realloc_new voff ds new_size h =
     (if new_size \<noteq> 0 then
        (let new_total_size = new_size + AUTOSIZED_DATA in
         (case alloc_memblock voff ds new_total_size 1 0 h of
            None \<Rightarrow> None
          | Some (new_block, h') \<Rightarrow>
              if new_block = 0 then Some (0, h')
              else Some (new_block + AUTOSIZED_DATA,
                         h'\<lparr>hmem := store32 (hmem h') new_block new_total_size\<rparr>)))
      else Some (NOWHERE, h))"

text \<open>The part of \<open>realloc\<close> that copies the old data and frees the old block.\<close>

definition realloc_old ::
  "u32 \<Rightarrow> u32 \<Rightarrow> u32 \<Rightarrow> 'a heap_scheme \<Rightarrow> 'a heap_scheme option" where
  "realloc_old old_ptr new_ptr new_size h =
     (if old_ptr \<noteq> 0 \<and> old_ptr \<noteq> NOWHERE then
        (let old_block = old_ptr - AUTOSIZED_DATA;
             old_total_size = load32 (hmem h) old_block;
             old_size = old_total_size - AUTOSIZED_DATA;
             h' = h\<lparr>hmem := mem_copy (hmem h) new_ptr old_ptr
                             (if old_size < new_size then old_size else new_size)\<rparr>
         in free_memblock old_block old_total_size h')
      else Some h)"

definition realloc ::
  "u32 \<Rightarrow> 'a discarder list \<Rightarrow> u32 \<Rightarrow> u32 \<Rightarrow> 'a heap_scheme \<Rightarrow> (u32 \<times> 'a heap_scheme) option" where
  "realloc voff ds old_ptr new_size h =
     (case realloc_new voff ds new_size h of
        None \<Rightarrow> None
      | Some (new_ptr, h') \<Rightarrow>
          if new_ptr = 0 then Some (0, h')
          else map_option (\<lambda>h''. (new_ptr, h'')) (realloc_old old_ptr new_ptr new_size h'))"

definition malloc ::
  "u32 \<Rightarrow> 'a discarder list \<Rightarrow> u32 \<Rightarrow> 'a heap_scheme \<Rightarrow> (u32 \<times> 'a heap_scheme) option" where
  "malloc voff ds sz h = realloc voff ds 0 sz h"

definition free :: "u32 \<Rightarrow> 'a discarder list \<Rightarrow> u32 \<Rightarrow> 'a heap_scheme \<Rightarrow> 'a heap_scheme option" where
  "free voff ds ptr h = map_option snd (realloc voff ds ptr 0 h)"

definition zalloc ::
  "u32 \<Rightarrow> 'a discarder list \<Rightarrow> u32 \<Rightarrow> 'a heap_scheme \<Rightarrow> (u32 \<times> 'a heap_scheme) option" where
  "zalloc voff ds sz h =
     map_option (\<lambda>(data, h'). (data, if data \<noteq> 0 then h'\<lparr>hmem := mem_set (hmem h') data 0 sz\<rparr> else h'))
       (malloc voff ds sz h)"

definition mpopulate :: "u32 \<Rightarrow> u32 \<Rightarrow> 'a heap_scheme \<Rightarrow> 'a heap_scheme option" where
  "mpopulate start len h = free_memblock start (len AND NOT (MIN_MEMBLOCK_SIZE - 1)) h"

text \<open>\<open>init_heap\<close> populates the pool with the heap array, at address \<open>heap_addr\<close>.\<close>

definition init_heap :: "u32 \<Rightarrow> 'a heap_scheme \<Rightarrow> 'a heap_scheme option" where
  "init_heap heap_addr h = mpopulate heap_addr HEAP_SIZE h"

section \<open>Well-formed free lists\<close>

text \<open>
  The addresses of a block and of a free list, as sets of natural numbers.  A free list is
  well formed in \<open>[lo, hi)\<close> when its blocks are in order of address, none is smaller than
  \<open>MIN_MEMBLOCK_SIZE\<close>, and between any two of them there is a gap (adjacent free blocks
  have been merged).
\<close>

definition block_set :: "block \<Rightarrow> nat set" where
  "block_set b = {unat (fst b) ..< unat (fst b) + unat (snd b)}"

definition free_set :: "block list \<Rightarrow> nat set" where
  "free_set bl = (\<Union>b \<in> set bl. block_set b)"

fun blocks_ok :: "nat \<Rightarrow> nat \<Rightarrow> block list \<Rightarrow> bool" where
  "blocks_ok lo hi [] = True"
| "blocks_ok lo hi ((b, s) # bl) =
     (lo \<le> unat b \<and> 16 \<le> unat s \<and> unat b + unat s \<le> hi \<and> blocks_ok (Suc (unat b + unat s)) hi bl)"

definition region_ok :: "nat \<Rightarrow> nat \<Rightarrow> bool" where
  "region_ok lo hi \<longleftrightarrow> 0 < lo \<and> lo \<le> hi \<and> hi < 4294967296 \<and> hi - lo < 2147483648"

lemma free_set_simps [simp]:
  "free_set [] = {}"
  "free_set (b # bl) = block_set b \<union> free_set bl"
  "free_set (xs @ ys) = free_set xs \<union> free_set ys"
  by (auto simp: free_set_def)

lemma block_set_pair [simp]: "block_set (b, s) = {unat b ..< unat b + unat s}"
  by (simp add: block_set_def)

lemma blocks_ok_mono: "blocks_ok lo hi bl \<Longrightarrow> lo' \<le> lo \<Longrightarrow> blocks_ok lo' hi bl"
  by (cases bl) auto

lemma blocks_ok_bounds: "blocks_ok lo hi bl \<Longrightarrow> free_set bl \<subseteq> {lo ..< hi}"
proof (induction bl arbitrary: lo)
  case Nil
  then show ?case by simp
next
  case (Cons p bl)
  obtain b s where p: "p = (b, s)" by force
  from Cons.prems p have "free_set bl \<subseteq> {Suc (unat b + unat s) ..< hi}"
    using Cons.IH by simp
  with Cons.prems p show ?case by fastforce
qed

section \<open>Freeing\<close>

lemma free_scan_before:
  assumes "region_ok lo hi" "blocks_ok (unat f + unat fs) hi bl" "lo \<le> unat f" "unat f + unat fs \<le> hi"
    and "16 \<le> unat fs" "gap \<noteq> 0"
  shows "\<exists>gap'. free_scan sz (f, fs) gap bl = Some ((f, fs), gap', [], bl) \<and>
     (gap' = 0 \<longleftrightarrow> (\<exists>b s rest. bl = (b, s) # rest \<and> unat b = unat f + unat fs))"
proof (cases bl)
  case Nil
  then show ?thesis using assms by simp
next
  case (Cons p rest)
  obtain b s where p: "p = (b, s)" by force
  note b = assms(2) [unfolded Cons p, simplified]
  have fin: "unat (f + fs) = unat f + unat fs"
    using assms by (intro unat_add_u32) (auto simp: region_ok_def)
  have bin: "unat (b + s) = unat b + unat s"
    using assms b by (intro unat_add_u32) (auto simp: region_ok_def)
  have ga: "unat (b - (f + fs)) = unat b - (unat f + unat fs)"
    using b fin by (subst unat_sub_u32) auto
  have "unat f \<noteq> unat (b + s)"
    using b bin assms by simp
  then have gb: "f - (b + s) \<noteq> 0"
    by auto
  have "unat (b - (f + fs)) < 2147483648"
    using ga b assms by (auto simp: region_ok_def)
  then have pos: "0 \<le> sint (b - (f + fs))"
    by (simp add: sint_u32_nonneg)
  have "b - (f + fs) = 0 \<longleftrightarrow> unat b = unat f + unat fs"
    using ga b unat_eq_0 [of "b - (f + fs)"] by auto
  then show ?thesis
    using gb pos Cons p by (simp add: Let_def)
qed

fun free_total :: "block list \<Rightarrow> nat" where
  "free_total [] = 0"
| "free_total ((b, s) # bl) = unat s + free_total bl"

lemma free_total_append [simp]: "free_total (xs @ ys) = free_total xs + free_total ys"
  by (induction xs rule: free_total.induct) auto

lemma blocks_ok_after:
  assumes "blocks_ok lo hi bl" "f \<le> lo" "{f ..< f + n} \<inter> free_set bl = {}"
  shows "blocks_ok (f + n) hi bl"
proof (cases bl)
  case (Cons p rest)
  obtain b s where p: "p = (b, s)" by force
  have "unat b \<in> free_set bl"
    using assms(1) Cons p by simp
  then have "unat b \<notin> {f ..< f + n}"
    using assms(3) by blast
  then show ?thesis
    using assms(1,2) Cons p by auto
qed simp

lemma free_link_before:
  assumes "region_ok lo hi" "blocks_ok (unat f + unat fs) hi bl" "lo \<le> unat f" "unat f + unat fs \<le> hi"
    and "16 \<le> unat fs"
    and gap: "gap = 0 \<longleftrightarrow> (\<exists>b s rest. bl = (b, s) # rest \<and> unat b = unat f + unat fs)"
  shows "\<exists>bl'. free_link ((f, fs), gap, before, bl) = Some (before @ bl') \<and> blocks_ok (unat f) hi bl' \<and>
     free_set bl' = {unat f ..< unat f + unat fs} \<union> free_set bl \<and> free_total bl' = unat fs + free_total bl"
proof (cases "gap = 0")
  case True
  then obtain b s rest where bl: "bl = (b, s) # rest" and b: "unat b = unat f + unat fs"
    using gap by auto
  have *: "unat (fs + s) = unat fs + unat s"
    using assms(1,2,3) bl b by (intro unat_add_u32) (auto simp: region_ok_def)
  show ?thesis
    using assms True bl b * by (auto simp: free_link_def add.assoc)
next
  case False
  then have "blocks_ok (Suc (unat f + unat fs)) hi bl"
    using gap assms(2) by (cases bl) auto
  then show ?thesis
    using assms False by (auto simp: free_link_def)
qed


lemma intervals_disjoint:
  assumes "{a ..< a + n} \<inter> {b ..< b + m} = {}" "0 < n" "0 < (m :: nat)"
  shows "a + n \<le> b \<or> b + m \<le> a"
proof (rule ccontr)
  assume "\<not> ?thesis"
  then have "max a b \<in> {a ..< a + n} \<inter> {b ..< b + m}"
    using assms(2,3) by auto
  with assms(1) show False by blast
qed

text \<open>The invariant of the loop, and what it leaves for the three cases of one iteration.\<close>

definition can_free :: "nat \<Rightarrow> nat \<Rightarrow> nat \<Rightarrow> block \<Rightarrow> block list \<Rightarrow> bool" where
  "can_free lo0 lo hi b bl \<longleftrightarrow> region_ok lo0 hi \<and> lo0 \<le> lo \<and> blocks_ok lo hi bl \<and> lo \<le> unat (fst b) \<and>
     unat (fst b) + unat (snd b) \<le> hi \<and> 16 \<le> unat (snd b) \<and> block_set b \<inter> free_set bl = {}"

definition freed :: "nat \<Rightarrow> nat \<Rightarrow> block \<Rightarrow> block list \<Rightarrow> block list \<Rightarrow> bool" where
  "freed lo hi b bl bl' \<longleftrightarrow> blocks_ok lo hi bl' \<and> free_set bl' = block_set b \<union> free_set bl \<and>
     free_total bl' = unat (snd b) + free_total bl"

definition free_list :: "u32 \<Rightarrow> block \<Rightarrow> u32 \<Rightarrow> block list \<Rightarrow> block list option" where
  "free_list sz fr gap bl = Option.bind (free_scan sz fr gap bl) free_link"

lemma free_link_Cons:
  "free_link (fr, gap, p # before, after) = map_option (Cons p) (free_link (fr, gap, before, after))"
  by (auto simp: free_link_def split: prod.splits list.splits)

lemma free_list_skip:
  assumes "f - (b + s) \<noteq> 0" "\<not> 0 \<le> sint (b - (f + fs))"
  shows "free_list sz (f, fs) gap ((b, s) # rest) =
    map_option (Cons (b, s)) (free_list sz (f, fs) (b - (f + fs)) rest)"
proof (cases "free_scan sz (f, fs) (b - (f + fs)) rest")
  case None
  then show ?thesis using assms by (simp add: free_list_def Let_def)
next
  case (Some r)
  then show ?thesis using assms
    by (cases r) (simp add: free_list_def Let_def free_link_Cons)
qed

lemma free_list_here:
  assumes "can_free lo0 lo hi (f, fs) bl" "blocks_ok (unat f + unat fs) hi bl" "gap \<noteq> 0"
  shows "\<exists>bl'. free_list sz (f, fs) gap bl = Some bl' \<and> freed (unat f) hi (f, fs) bl bl'"
proof -
  have pre: "region_ok lo hi" "lo \<le> unat f" "unat f + unat fs \<le> hi" "16 \<le> unat fs"
    using assms(1) by (auto simp: can_free_def region_ok_def)
  obtain gap' where scan: "free_scan sz (f, fs) gap bl = Some ((f, fs), gap', [], bl)"
    "gap' = 0 \<longleftrightarrow> (\<exists>b s r. bl = (b, s) # r \<and> unat b = unat f + unat fs)"
    using free_scan_before [OF pre(1) assms(2) pre(2-4) assms(3)] by metis
  from free_link_before [OF pre(1) assms(2) pre(2-4) scan(2), of "[]"] scan(1)
  show ?thesis
    by (auto simp: free_list_def freed_def)
qed

lemma free_list_merge:
  assumes "can_free lo0 lo hi (f, fs) ((b, s) # rest)" "unat b + unat s = unat f" "gap \<noteq> 0"
  shows "\<exists>bl'. free_list fs (b, s + fs) gap rest = Some bl' \<and> freed lo hi (f, fs) ((b, s) # rest) bl'"
proof -
  note pre = assms(1) [unfolded can_free_def, simplified]
  have sum: "unat (s + fs) = unat s + unat fs"
    using pre assms(2) by (intro unat_add_u32) (auto simp: region_ok_def)
  have disj: "{unat f ..< unat f + unat fs} \<inter> free_set rest = {}"
    using pre by auto
  then have ok: "blocks_ok (unat b + unat (s + fs)) hi rest"
    using pre assms(2) sum blocks_ok_after [of "Suc (unat b + unat s)" hi rest "unat f" "unat fs"]
    by (simp add: add.assoc [symmetric])
  have "block_set (b, s + fs) \<inter> free_set rest = {}"
    using blocks_ok_bounds [OF ok] by fastforce
  then have "can_free lo0 (unat b) hi (b, s + fs) rest"
    using pre sum assms(2) ok blocks_ok_mono [OF ok, of "unat b"] unfolding can_free_def
    by auto
  from free_list_here [OF this ok assms(3), of fs] show ?thesis
    using pre sum assms(2) unfolding freed_def
    by (auto intro: blocks_ok_mono)
qed

lemma free_list_ok:
  assumes "can_free lo0 lo hi (f, fs) bl" "gap \<noteq> 0"
  shows "\<exists>bl'. free_list fs (f, fs) gap bl = Some bl' \<and> freed lo hi (f, fs) bl bl'"
  using assms
proof (induction bl arbitrary: lo gap)
  case Nil
  then show ?case by (auto simp: free_list_def free_link_def can_free_def freed_def)
next
  case (Cons p rest)
  obtain b s where p: "p = (b, s)" by force
  note pre = Cons.prems(1) [unfolded can_free_def p, simplified]
  have fin: "unat (f + fs) = unat f + unat fs" and bin: "unat (b + s) = unat b + unat s"
    using pre by (auto intro!: unat_add_u32 simp: region_ok_def)
  have "{unat f ..< unat f + unat fs} \<inter> {unat b ..< unat b + unat s} = {}"
    using pre by blast
  then have side: "unat f + unat fs \<le> unat b \<or> unat b + unat s \<le> unat f"
    using pre by (intro intervals_disjoint) auto
  show ?case
  proof (cases "unat f + unat fs \<le> unat b")
    case True
    then have "blocks_ok (unat f + unat fs) hi (p # rest)"
      using pre p by simp
    from free_list_here [OF Cons.prems(1) this Cons.prems(2), of fs] show ?thesis
      using pre p by (auto simp: freed_def intro: blocks_ok_mono)
  next
    case False
    with side have after: "unat b + unat s \<le> unat f" by simp
    have "unat (b - (f + fs)) = 4294967296 - (unat (f + fs) - unat b)"
      using after fin pre by (intro unat_sub_wrap_u32) simp
    then have neg: "\<not> 0 \<le> sint (b - (f + fs))"
      using pre fin after by (auto simp: sint_u32_nonneg region_ok_def)
    then have ga: "b - (f + fs) \<noteq> 0" by auto
    show ?thesis
    proof (cases "unat b + unat s = unat f")
      case True
      then have "f - (b + s) = 0"
        using bin by (simp add: word_unat_eq_iff unat_sub_u32)
      with free_list_merge [OF Cons.prems(1) [unfolded p] True ga] neg p show ?thesis
        by (simp add: free_list_def Let_def)
    next
      case False
      with after have lt: "Suc (unat b + unat s) \<le> unat f" by simp
      then have "f - (b + s) \<noteq> 0" using bin by auto
      moreover have "can_free lo0 (Suc (unat b + unat s)) hi (f, fs) rest"
        using pre lt unfolding can_free_def by auto
      ultimately show ?thesis
        using Cons.IH [of "Suc (unat b + unat s)" "b - (f + fs)"] ga p pre
        by (auto simp: free_list_skip [OF _ neg] freed_def)
    qed
  qed
qed

section \<open>Allocating\<close>

lemma round_size_unat:
  assumes "unat sz + 15 < 4294967296"
  shows "unat (round_size sz) = (unat sz + 15) div 16 * 16"
proof -
  have "unat (sz + 15) = unat sz + 15"
    using assms by (subst unat_add_u32) auto
  moreover have "round_size sz = (sz + 15) AND NOT (mask 4)"
    by (simp add: round_size_def MIN_MEMBLOCK_SIZE_def mask_numeral add_diff_eq [symmetric])
  ultimately show ?thesis
    by (simp only: unat_and_not_mask) simp
qed

text \<open>
  The number of bytes that alignment skips at the start of a block, and whether a block
  is large enough for them and the request.
\<close>

definition pre_of :: "u32 \<Rightarrow> u32 \<Rightarrow> u32 \<Rightarrow> u32 \<Rightarrow> u32" where
  "pre_of voff align_mask offset b = (offset - (b + voff)) AND align_mask"

definition fits :: "u32 \<Rightarrow> u32 \<Rightarrow> u32 \<Rightarrow> u32 \<Rightarrow> block \<Rightarrow> bool" where
  "fits voff sz align_mask offset b \<longleftrightarrow>
     unat (pre_of voff align_mask offset (fst b)) + unat sz \<le> unat (snd b)"

lemma pre_of_le: "unat (pre_of voff align_mask offset b) \<le> unat align_mask"
  unfolding pre_of_def by (simp add: word_and_le1 flip: word_le_nat_alt)

lemma post_size_nonneg:
  assumes "unat m + unat sz < 2147483648" "unat s < 2147483648" "unat p \<le> unat m"
  shows "0 \<le> sint (s - p - sz :: u32) \<longleftrightarrow> unat p + unat sz \<le> unat s"
    and "unat p + unat sz \<le> unat s \<Longrightarrow> unat (s - p - sz) = unat s - unat p - unat sz"
proof -
  have psz: "unat (p + sz) = unat p + unat sz"
    using assms by (intro unat_add_u32) simp
  show "0 \<le> sint (s - p - sz) \<longleftrightarrow> unat p + unat sz \<le> unat s"
  proof (cases "unat p + unat sz \<le> unat s")
    case True
    then have "unat (s - (p + sz)) = unat s - (unat p + unat sz)"
      using psz by (subst unat_sub_u32) auto
    then show ?thesis
      using True assms by (simp add: sint_u32_nonneg diff_diff_eq)
  next
    case False
    then have "unat (s - (p + sz)) = 4294967296 - (unat p + unat sz - unat s)"
      using psz by (subst unat_sub_wrap_u32) auto
    then show ?thesis
      using False assms by (simp add: sint_u32_nonneg diff_diff_eq)
  qed
  show "unat p + unat sz \<le> unat s \<Longrightarrow> unat (s - p - sz) = unat s - unat p - unat sz"
    using psz by (simp add: diff_diff_eq unat_sub_u32)
qed

text \<open>What a successful search returns, as a relation between the lists before and after.\<close>

definition taken :: "nat \<Rightarrow> nat \<Rightarrow> block \<Rightarrow> block list \<Rightarrow> block list \<Rightarrow> bool" where
  "taken lo hi b bl bl' \<longleftrightarrow> blocks_ok lo hi bl' \<and> block_set b \<subseteq> free_set bl \<and>
     free_set bl' \<subseteq> free_set bl - block_set b \<and>
     free_total bl' + unat (snd b) \<le> free_total bl \<and>
     free_total bl < free_total bl' + unat (snd b) + 31"

lemma taken_first:
  assumes "region_ok lo hi" "blocks_ok lo hi ((b, s) # rest)" "unat p + unat sz + unat q = unat s"
    and "bl' = (if unat p < 16 then [] else [(b, p)]) @
           (if 16 \<le> unat q then [(b + p + sz, q)] else []) @ rest" "16 \<le> unat sz"
  shows "taken lo hi (b + p, sz) ((b, s) # rest) bl'"
proof -
  note ok = assms(2) [simplified]
  have bp: "unat (b + p) = unat b + unat p"
    using ok assms by (intro unat_add_u32) (auto simp: region_ok_def)
  then have bpz: "unat (b + p + sz) = unat b + unat p + unat sz"
    using ok assms by (subst unat_add_u32) (auto simp: region_ok_def)
  have rest: "free_set rest \<subseteq> {Suc (unat b + unat s) ..< hi}"
    using ok by (intro blocks_ok_bounds) auto
  have "blocks_ok lo hi bl'"
    using ok assms(3,4,5) bp bpz by (auto intro: blocks_ok_mono)
  moreover have "block_set (b + p, sz) \<subseteq> free_set ((b, s) # rest)"
    using assms(3) bp by auto
  moreover have "free_set bl' \<subseteq> free_set ((b, s) # rest) - block_set (b + p, sz)"
    using assms(3,4) bp bpz rest by auto
  ultimately show ?thesis
    using assms(3,4) unfolding taken_def by auto
qed

lemma taken_Cons:
  assumes "blocks_ok lo hi (p # rest)" "taken (Suc (unat (fst p) + unat (snd p))) hi x rest rest'"
  shows "taken lo hi x (p # rest) (p # rest')"
proof -
  have "free_set rest \<subseteq> {Suc (unat (fst p) + unat (snd p)) ..< hi}"
    using assms(1) by (cases p) (auto dest: blocks_ok_bounds)
  then have "block_set p \<inter> block_set x = {}"
    using assms(2) by (cases p) (force simp: taken_def)
  then show ?thesis
    using assms by (cases p) (auto simp: taken_def)
qed

lemma alloc_scan_Some:
  assumes "region_ok lo0 hi" "lo0 \<le> lo" "blocks_ok lo hi bl" "unat m + unat sz < 2147483648" "16 \<le> unat sz"
    and "alloc_scan voff sz m off bl = Some (ptr, bl')"
  shows "taken lo hi (ptr, sz) bl bl' \<and>
     (\<exists>b s. (b, s) \<in> set bl \<and> ptr = b + pre_of voff m off b)"
  using assms
proof (induction bl arbitrary: lo bl')
  case Nil
  then show ?case by simp
next
  case (Cons x rest)
  obtain b s where x: "x = (b, s)" by force
  define p where "p = pre_of voff m off b"
  note ok = Cons.prems(3) [unfolded x, simplified]
  have "unat s < 2147483648"
    using ok Cons.prems(1,2) by (auto simp: region_ok_def)
  note post = post_size_nonneg [OF Cons.prems(4) this pre_of_le [of voff m off b], folded p_def]
  have reg: "region_ok lo hi"
    using Cons.prems(1,2) ok by (auto simp: region_ok_def)
  show ?case
  proof (cases "unat p + unat sz \<le> unat s")
    case True
    define q where "q = s - p - sz"
    have q: "unat p + unat sz + unat q = unat s"
      using post(2) [OF True] True by (simp add: q_def)
    have "ptr = b + p" "bl' = (if unat p < 16 then [] else [(b, p)]) @
        (if 16 \<le> unat q then [(b + p + sz, q)] else []) @ rest"
      using Cons.prems(6) post(1) True
      by (auto simp: x Let_def MIN_MEMBLOCK_SIZE_def word_le_nat_alt word_less_nat_alt q_def
          simp flip: pre_of_def p_def)
    then show ?thesis
      using taken_first [OF reg Cons.prems(3) [unfolded x] q _ Cons.prems(5)] x p_def by auto
  next
    case False
    then obtain rest' where scan: "alloc_scan voff sz m off rest = Some (ptr, rest')" and bl': "bl' = x # rest'"
      using Cons.prems(6) post(1) by (auto simp: x Let_def simp flip: pre_of_def p_def)
    have "taken (Suc (unat b + unat s)) hi (ptr, sz) rest rest' \<and>
        (\<exists>b s. (b, s) \<in> set rest \<and> ptr = b + pre_of voff m off b)"
      using ok Cons.prems(2) by (intro Cons.IH [OF Cons.prems(1) _ _ Cons.prems(4,5) scan]) auto
    with taken_Cons [OF Cons.prems(3), of "(ptr, sz)" rest'] show ?thesis
      using bl' x by auto
  qed
qed

lemma alloc_scan_None:
  assumes "blocks_ok lo hi bl" "region_ok lo hi" "unat m + unat sz < 2147483648"
  shows "alloc_scan voff sz m off bl = None \<longleftrightarrow> (\<forall>b \<in> set bl. \<not> fits voff sz m off b)"
  using assms
proof (induction bl arbitrary: lo)
  case Nil
  then show ?case by simp
next
  case (Cons x rest)
  obtain b s where x: "x = (b, s)" by force
  note ok = Cons.prems(1) [unfolded x, simplified]
  have "unat s < 2147483648"
    using ok Cons.prems(2) by (auto simp: region_ok_def)
  from post_size_nonneg(1) [OF Cons.prems(3) this pre_of_le [of voff m off b]]
  have "0 \<le> sint (s - pre_of voff m off b - sz) \<longleftrightarrow> fits voff sz m off x"
    by (simp add: fits_def x)
  moreover have "alloc_scan voff sz m off rest = None \<longleftrightarrow> (\<forall>b \<in> set rest. \<not> fits voff sz m off b)"
    using ok Cons.prems by (intro Cons.IH [of lo]) (auto intro: blocks_ok_mono)
  ultimately show ?case
    by (auto simp: x Let_def simp flip: pre_of_def)
qed

lemma align_mask_eq: "(2 ^ j - 1) OR 15 = (mask (max j 4) :: u32)"
proof -
  have "(mask j OR mask 4 :: u32) = mask (max j 4)"
    by (rule bit_word_eqI) (auto simp: bit_simps max_def)
  then show ?thesis
    by (simp add: mask_eq_exp_minus_1 [of j] mask_numeral)
qed

lemma take_bit_sub_self:
  assumes "j \<le> k"
  shows "take_bit j (take_bit k d - (d :: u32)) = 0"
proof -
  have "take_bit k d - d = - (d AND NOT (mask k))"
    by (simp add: and_not_mask_eq)
  also have "d AND NOT (mask k) = push_bit k (drop_bit k d)"
    by (rule bit_word_eqI) (auto simp: bit_simps)
  also have "- push_bit k (drop_bit k d) = push_bit k (- drop_bit k d)"
    by (simp add: push_bit_minus)
  finally show ?thesis
    using assms by (simp add: take_bit_push_bit)
qed

lemma pre_of_aligned:
  "take_bit j (b + pre_of voff ((2 ^ j - 1) OR 15) off b + voff - off) = 0"
proof -
  define d where "d = off - (b + voff)"
  have "pre_of voff ((2 ^ j - 1) OR 15) off b = take_bit (max j 4) d"
    by (simp add: pre_of_def align_mask_eq take_bit_eq_mask d_def)
  then have "b + pre_of voff ((2 ^ j - 1) OR 15) off b + voff - off = take_bit (max j 4) d - d"
    by (simp add: d_def)
  then show ?thesis by (simp add: take_bit_sub_self)
qed

section \<open>The heap\<close>

definition heap_ok :: "nat \<Rightarrow> nat \<Rightarrow> 'a heap_scheme \<Rightarrow> bool" where
  "heap_ok lo hi h \<longleftrightarrow> region_ok lo hi \<and> blocks_ok lo hi (free_blocks h)"

abbreviation avail :: "'a heap_scheme \<Rightarrow> nat set" where
  "avail h \<equiv> free_set (free_blocks h)"

text \<open>Sizes for which the rounding of the code does not wrap and a request is not negative.\<close>

definition size_ok :: "u32 \<Rightarrow> u32 \<Rightarrow> bool" where
  "size_ok sz align_mask \<longleftrightarrow> 0 < unat sz \<and> unat align_mask + unat sz + 15 < 2147483648"

lemma size_okD:
  assumes "size_ok sz m"
  shows "unat (round_size sz) = (unat sz + 15) div 16 * 16" "16 \<le> unat (round_size sz)"
    "unat sz \<le> unat (round_size sz)" "unat m + unat (round_size sz) < 2147483648"
proof -
  show eq: "unat (round_size sz) = (unat sz + 15) div 16 * 16"
    using assms by (intro round_size_unat) (simp add: size_ok_def)
  have "0 < unat sz" using assms by (simp add: size_ok_def)
  then show "16 \<le> unat (round_size sz)" using eq by presburger
  show "unat sz \<le> unat (round_size sz)" using eq by presburger
  show "unat m + unat (round_size sz) < 2147483648"
    using assms div_times_less_eq_dividend [of "unat sz + 15" 16] unfolding eq size_ok_def by linarith
qed

lemma free_memblock_ok:
  assumes "heap_ok lo hi h" "lo \<le> unat ptr" "unat ptr + unat (round_size sz) \<le> hi"
    and "16 \<le> unat (round_size sz)" "block_set (ptr, round_size sz) \<inter> avail h = {}"
  shows "\<exists>bl'. free_memblock ptr sz h = Some (h\<lparr>free_blocks := bl', freemem := freemem h + round_size sz\<rparr>)
     \<and> freed lo hi (ptr, round_size sz) (free_blocks h) bl'"
proof -
  have "can_free lo lo hi (ptr, round_size sz) (free_blocks h)"
    using assms by (simp add: can_free_def heap_ok_def)
  from free_list_ok [OF this, of "-1"] obtain bl' where
    bl': "free_list (round_size sz) (ptr, round_size sz) (-1) (free_blocks h) = Some bl'"
    "freed lo hi (ptr, round_size sz) (free_blocks h) bl'"
    by auto
  moreover have "ptr \<noteq> 0"
    using assms(1,2) by (auto simp: heap_ok_def region_ok_def)
  ultimately show ?thesis
    by (auto simp: free_memblock_def free_list_def Let_def bind_eq_Some_conv)
qed

inductive discards :: "'a discarder list \<Rightarrow> 'a heap_scheme \<Rightarrow> 'a heap_scheme \<Rightarrow> bool" for ds where
  none: "discards ds h h"
| again: "discard_cache ds h = (n, h') \<Longrightarrow> n \<noteq> 0 \<Longrightarrow> discards ds h' h'' \<Longrightarrow> discards ds h h''"

text \<open>
  A call of \<open>alloc_memblock\<close> that returns has discarded some cached data, then found a block
  or found nothing more to discard.
\<close>

definition alloc_done :: "u32 \<Rightarrow> 'a discarder list \<Rightarrow> u32 \<Rightarrow> u32 \<Rightarrow> u32 \<Rightarrow> 'a heap_scheme \<Rightarrow>
    u32 \<times> 'a heap_scheme \<Rightarrow> bool" where
  "alloc_done voff ds sz m off h r \<longleftrightarrow> (\<exists>h1. discards ds h h1 \<and>
     (case alloc_scan voff sz m off (free_blocks h1) of
        Some (p, bl) \<Rightarrow> r = (p, h1\<lparr>free_blocks := bl, freemem := freemem h1 - sz\<rparr>)
      | None \<Rightarrow> fst r = 0 \<and> discard_cache ds h1 = (0, snd r)))"

lemma alloc_done_step:
  assumes "discard_cache ds h = (n, h')" "n \<noteq> 0" "alloc_done voff ds sz m off h' r"
  shows "alloc_done voff ds sz m off h r"
  using assms discards.again [OF assms(1,2)] unfolding alloc_done_def by blast

lemma alloc_loop_done:
  assumes "alloc_loop voff ds sz m off h = Some r"
  shows "alloc_done voff ds sz m off h r"
proof (rule alloc_loop.raw_induct [where P = alloc_done, OF _ assms])
  fix f :: "u32 \<Rightarrow> 'b discarder list \<Rightarrow> u32 \<Rightarrow> u32 \<Rightarrow> u32 \<Rightarrow> 'b heap_scheme \<Rightarrow> (u32 \<times> 'b heap_scheme) option"
  fix voff ds sz m off h r
  assume IH: "\<And>voff ds sz m off h r. f voff ds sz m off h = Some r \<Longrightarrow> alloc_done voff ds sz m off h r"
    and eq: "(case alloc_scan voff sz m off (free_blocks h) of
        None \<Rightarrow> let (discarded, h') = discard_cache ds h in
           if discarded \<noteq> 0 then f voff ds sz m off h' else Some (0, h')
      | Some (ptr, bl) \<Rightarrow> Some (ptr, h\<lparr>free_blocks := bl, freemem := freemem h - sz\<rparr>)) = Some r"
  obtain n h' where d: "discard_cache ds h = (n, h')" by force
  show "alloc_done voff ds sz m off h r"
  proof (cases "alloc_scan voff sz m off (free_blocks h) = None \<and> n \<noteq> 0")
    case True
    with eq d have "f voff ds sz m off h' = Some r" by simp
    with True d show ?thesis by (blast intro: alloc_done_step IH)
  next
    case False
    with eq d show ?thesis unfolding alloc_done_def
      by (cases r, intro exI [of _ h]) (auto intro: discards.none split: option.splits if_splits)
  qed
qed

section \<open>The interface of the cache discarders\<close>

text \<open>
  What the allocator relies on: a discarder that reports a discard has made the amount of
  cached data smaller, one that reports none has not made it larger, and all of them keep
  an invariant of the state.  Then allocation and \<open>discard_all_cache\<close> return.
\<close>

locale cache_discarders =
  fixes ds :: "'a discarder list"
    and cached :: "'a heap_scheme \<Rightarrow> nat"
    and inv :: "'a heap_scheme \<Rightarrow> bool"
  assumes discarder_inv: "d \<in> set ds \<Longrightarrow> inv h \<Longrightarrow> d h = (n, h') \<Longrightarrow> inv h'"
    and discarder_some: "d \<in> set ds \<Longrightarrow> inv h \<Longrightarrow> d h = (n, h') \<Longrightarrow> n \<noteq> 0 \<Longrightarrow> cached h' < cached h"
    and discarder_none: "d \<in> set ds \<Longrightarrow> inv h \<Longrightarrow> d h = (0, h') \<Longrightarrow> cached h' \<le> cached h"
begin

lemma discard_cache_laws:
  assumes "set ds' \<subseteq> set ds" "inv h" "discard_cache ds' h = (n, h')"
  shows "inv h' \<and> (n \<noteq> 0 \<longrightarrow> cached h' < cached h) \<and> cached h' \<le> cached h"
  using assms
proof (induction ds' arbitrary: h)
  case Nil
  then show ?case by simp
next
  case (Cons d ds')
  obtain k h1 where d: "d h = (k, h1)" by force
  have h1: "inv h1" "k \<noteq> 0 \<Longrightarrow> cached h1 < cached h" "k = 0 \<Longrightarrow> cached h1 \<le> cached h"
    using Cons.prems d discarder_inv [of d h k h1] discarder_some [of d h k h1] discarder_none [of d h h1]
    by simp_all
  show ?case
  proof (cases "k = 0")
    case True
    then have "inv h' \<and> (n \<noteq> 0 \<longrightarrow> cached h' < cached h1) \<and> cached h' \<le> cached h1"
      using Cons.prems d h1 by (intro Cons.IH) auto
    with h1 True show ?thesis by auto
  next
    case False
    with Cons.prems d h1 show ?thesis by auto
  qed
qed

lemma discards_inv: "discards ds h h' \<Longrightarrow> inv h \<Longrightarrow> inv h'"
proof (induction rule: discards.induct)
  case (again h n h' h'')
  then show ?case using discard_cache_laws [OF order_refl again.prems again.hyps(1)] by simp
qed

lemma alloc_loop_returns: "inv h \<Longrightarrow> \<exists>r. alloc_loop voff ds sz m off h = Some r"
proof (induction "cached h" arbitrary: h rule: less_induct)
  case less
  obtain n h' where d: "discard_cache ds h = (n, h')" by force
  from discard_cache_laws [OF order_refl less.prems d] less.hyps [of h'] d show ?case
    by (subst alloc_loop.simps) (auto split: option.split)
qed

lemma discard_all_returns:
  "inv h \<Longrightarrow> \<exists>h' h''. discard_all_cache ds h = Some h' \<and> inv h' \<and> inv h'' \<and> discard_cache ds h'' = (0, h')"
proof (induction "cached h" arbitrary: h rule: less_induct)
  case less
  obtain n h' where d: "discard_cache ds h = (n, h')" by force
  note laws = discard_cache_laws [OF order_refl less.prems d]
  show ?case
  proof (cases "n = 0")
    case True
    with d laws less.prems show ?thesis
      by (subst discard_all_cache.simps) auto
  next
    case False
    with laws less.hyps [of h'] obtain g g' where
      "discard_all_cache ds h' = Some g" "inv g" "inv g'" "discard_cache ds g' = (0, g)" by auto
    with d False show ?thesis
      by (subst discard_all_cache.simps) auto
  qed
qed

end

interpretation no_cache: cache_discarders "[]" "\<lambda>_. 0" "\<lambda>_. True"
  by unfold_locales auto

section \<open>Allocation on the heap\<close>

text \<open>What a successful allocation of a block promises.\<close>

definition allocated :: "nat \<Rightarrow> nat \<Rightarrow> block \<Rightarrow> 'a heap_scheme \<Rightarrow> 'a heap_scheme \<Rightarrow> bool" where
  "allocated lo hi b h h' \<longleftrightarrow> heap_ok lo hi h' \<and> block_set b \<subseteq> avail h \<and>
     avail h' \<subseteq> avail h - block_set b \<and> lo \<le> unat (fst b) \<and> unat (fst b) + unat (snd b) \<le> hi \<and>
     freemem h' = freemem h - snd b \<and> hmem h' = hmem h \<and>
     free_total (free_blocks h') + unat (snd b) \<le> free_total (free_blocks h)"

lemma alloc_scan_allocated:
  assumes "heap_ok lo hi h" "size_ok sz m" "alloc_scan voff (round_size sz) m off (free_blocks h) = Some (p, bl)"
  shows "allocated lo hi (p, round_size sz) h (h\<lparr>free_blocks := bl, freemem := freemem h - round_size sz\<rparr>)"
proof -
  have ok: "region_ok lo hi" "blocks_ok lo hi (free_blocks h)"
    using assms(1) by (auto simp: heap_ok_def)
  have t: "taken lo hi (p, round_size sz) (free_blocks h) bl"
    using alloc_scan_Some [OF ok(1) order_refl ok(2) size_okD(4,2) [OF assms(2)] assms(3)] by blast
  then have sub: "{unat p ..< unat p + unat (round_size sz)} \<subseteq> {lo ..< hi}"
    unfolding taken_def block_set_pair using blocks_ok_bounds [OF ok(2)] by (meson order_trans)
  have "lo \<le> unat p" "unat p + unat (round_size sz) \<le> hi"
    using sub size_okD(2) [OF assms(2)] by (simp_all add: ivl_subset)
  with t ok show ?thesis
    by (auto simp: allocated_def taken_def heap_ok_def)
qed

lemma alloc_memblock_spec:
  assumes "heap_ok lo hi h" "size_ok sz ((align - 1) OR 15)" "alloc_memblock voff ds sz align off h = Some (p, h')"
    and "\<And>h1. discards ds h h1 \<Longrightarrow> heap_ok lo hi h1"
  shows "\<exists>h1. discards ds h h1 \<and> heap_ok lo hi h1 \<and>
    (if p \<noteq> 0
     then allocated lo hi (p, round_size sz) h1 h' \<and>
          (\<exists>b s. (b, s) \<in> set (free_blocks h1) \<and> p = b + pre_of voff ((align - 1) OR 15) off b)
     else discard_cache ds h1 = (0, h') \<and>
          (\<forall>b \<in> set (free_blocks h1). \<not> fits voff (round_size sz) ((align - 1) OR 15) off b))"
proof -
  let ?m = "(align - 1) OR 15"
  have "alloc_loop voff ds (round_size sz) ?m off h = Some (p, h')"
    using assms(3) by (simp add: alloc_memblock_def MIN_MEMBLOCK_SIZE_def Let_def)
  from alloc_loop_done [OF this] obtain h1 where h1: "discards ds h h1"
    and c: "case alloc_scan voff (round_size sz) ?m off (free_blocks h1) of
        Some (q, bl) \<Rightarrow> (p, h') = (q, h1\<lparr>free_blocks := bl, freemem := freemem h1 - round_size sz\<rparr>)
      | None \<Rightarrow> p = 0 \<and> discard_cache ds h1 = (0, h')"
    by (simp only: alloc_done_def fst_conv snd_conv) blast
  have ok: "heap_ok lo hi h1" using assms(4) h1 by blast
  then have reg: "region_ok lo hi" "blocks_ok lo hi (free_blocks h1)" by (auto simp: heap_ok_def)
  show ?thesis
  proof (cases "alloc_scan voff (round_size sz) ?m off (free_blocks h1)")
    case None
    then have "p = 0" "discard_cache ds h1 = (0, h')"
      using c by simp_all
    with h1 ok alloc_scan_None [OF reg(2,1) size_okD(4) [OF assms(2)], THEN iffD1, OF None]
    show ?thesis by auto
  next
    case (Some r)
    then obtain bl where scan: "alloc_scan voff (round_size sz) ?m off (free_blocks h1) = Some (p, bl)"
      and h': "h' = h1\<lparr>free_blocks := bl, freemem := freemem h1 - round_size sz\<rparr>"
      using c by (cases r) auto
    have al: "allocated lo hi (p, round_size sz) h1 h'"
      using alloc_scan_allocated [OF ok assms(2) scan] h' by simp
    then have "p \<noteq> 0" using reg by (auto simp: allocated_def region_ok_def)
    with al h1 ok alloc_scan_Some [OF reg(1) order_refl reg(2) size_okD(4,2) [OF assms(2)] scan]
    show ?thesis by auto
  qed
qed

section \<open>Properties\<close>

text \<open>
  C1.  A block that the allocator returns is aligned as requested, lies inside the free
  memory, is no longer part of it, is at least as large as requested, and leaves a
  well-formed free list, whatever cached data had to be discarded first.  A null result means
  that no free block was large enough and nothing was left to discard.
\<close>

theorem alloc_memblock_correct:
  assumes "heap_ok lo hi h" "size_ok sz ((2 ^ j - 1) OR 15)"
    and "alloc_memblock voff ds sz (2 ^ j) off h = Some (p, h')"
    and "\<And>h1. discards ds h h1 \<Longrightarrow> heap_ok lo hi h1"
  shows "\<exists>h1. discards ds h h1 \<and>
    (if p \<noteq> 0
     then allocated lo hi (p, round_size sz) h1 h' \<and> unat sz \<le> unat (round_size sz) \<and>
          take_bit j (p + voff - off) = 0
     else discard_cache ds h1 = (0, h') \<and>
          (\<forall>b \<in> set (free_blocks h1). \<not> fits voff (round_size sz) ((2 ^ j - 1) OR 15) off b))"
proof -
  let ?m = "(2 ^ j - 1) OR 15 :: u32"
  from alloc_memblock_spec [OF assms] obtain h1 where h1: "discards ds h h1"
    and r: "if p \<noteq> 0
       then allocated lo hi (p, round_size sz) h1 h' \<and>
            (\<exists>b s. (b, s) \<in> set (free_blocks h1) \<and> p = b + pre_of voff ?m off b)
       else discard_cache ds h1 = (0, h') \<and> (\<forall>b \<in> set (free_blocks h1). \<not> fits voff (round_size sz) ?m off b)"
    by blast
  show ?thesis
  proof (cases "p = 0")
    case True
    with h1 r show ?thesis by (intro exI [of _ h1]) simp
  next
    case False
    with r obtain b where "p = b + pre_of voff ?m off b" by auto
    then have "take_bit j (p + voff - off) = 0"
      using pre_of_aligned [of j b voff off] by simp
    with False h1 r size_okD(3) [OF assms(2)] show ?thesis by (intro exI [of _ h1]) simp
  qed
qed

text \<open>
  C2.  Freeing a block that is not free returns, keeps the free list well formed (in order of
  address, with adjacent blocks merged), and adds exactly the addresses of the block to the free
  memory and its size to the count.
\<close>

theorem free_memblock_correct:
  assumes "heap_ok lo hi h" "size_ok sz 0" "lo \<le> unat ptr" "unat ptr + unat (round_size sz) \<le> hi"
    and "block_set (ptr, round_size sz) \<inter> avail h = {}"
  shows "\<exists>h'. free_memblock ptr sz h = Some h' \<and> heap_ok lo hi h' \<and>
     avail h' = block_set (ptr, round_size sz) \<union> avail h \<and>
     free_total (free_blocks h') = unat (round_size sz) + free_total (free_blocks h) \<and>
     freemem h' = freemem h + round_size sz \<and> hmem h' = hmem h"
  using free_memblock_ok [OF assms(1,3,4) size_okD(2) [OF assms(2)] assms(5)] assms(1)
  by (auto simp: freed_def heap_ok_def)

section \<open>Clients of the allocator\<close>

text \<open>
  The contract of an allocator of blocks as its clients use it, and what follows for the blocks
  that are allocated at one time: no two of them overlap and none overlaps free memory.
\<close>

locale block_allocator =
  fixes ok :: "'s \<Rightarrow> bool"
    and free_mem :: "'s \<Rightarrow> nat set"
    and region :: "nat set"
    and footprint :: "'b \<Rightarrow> nat set"
    and valid :: "'b \<Rightarrow> bool"
    and get :: "'r \<Rightarrow> 's \<Rightarrow> ('b \<times> 's) option"
    and put :: "'b \<Rightarrow> 's \<Rightarrow> 's option"
  assumes free_region: "ok s \<Longrightarrow> free_mem s \<subseteq> region"
    and get_ok: "ok s \<Longrightarrow> get r s = Some (b, s') \<Longrightarrow>
      ok s' \<and> valid b \<and> footprint b \<subseteq> free_mem s \<and> free_mem s' \<subseteq> free_mem s - footprint b"
    and put_ok: "ok s \<Longrightarrow> valid b \<Longrightarrow> footprint b \<subseteq> region \<Longrightarrow> footprint b \<inter> free_mem s = {} \<Longrightarrow>
      \<exists>s'. put b s = Some s' \<and> ok s' \<and> free_mem s' = footprint b \<union> free_mem s"
begin

definition owns :: "'s \<Rightarrow> 'b list \<Rightarrow> bool" where
  "owns s live \<longleftrightarrow> ok s \<and> (\<forall>b \<in> set live. valid b \<and> footprint b \<subseteq> region \<and> footprint b \<inter> free_mem s = {}) \<and>
     sorted_wrt (\<lambda>b b'. footprint b \<inter> footprint b' = {}) live"

lemma owns_get:
  assumes "owns s live" "get r s = Some (b, s')"
  shows "owns s' (b # live)"
proof -
  have g: "ok s'" "valid b" "footprint b \<subseteq> free_mem s" "free_mem s' \<subseteq> free_mem s - footprint b"
    using assms get_ok [of s r b s'] by (auto simp: owns_def)
  have "footprint b \<subseteq> region"
    using g free_region assms(1) by (auto simp: owns_def)
  with g assms(1) show ?thesis by (simp add: owns_def) blast
qed

lemma sorted_wrt_remove1: "sorted_wrt R xs \<Longrightarrow> sorted_wrt R (remove1 x xs)"
  by (induction xs) (auto dest: in_set_remove1 [THEN iffD1, rotated] set_remove1_subset [THEN subsetD])

lemma disjoint_remove1:
  "sorted_wrt (\<lambda>b b'. footprint b \<inter> footprint b' = {}) live \<Longrightarrow> b \<in> set live \<Longrightarrow> c \<in> set (remove1 b live) \<Longrightarrow>
     footprint b \<inter> footprint c = {}"
proof (induction live)
  case (Cons a live)
  then show ?case
    by (cases "a = b") (auto dest: set_remove1_subset [THEN subsetD])
qed simp

lemma owns_put:
  assumes "owns s live" "b \<in> set live"
  shows "\<exists>s'. put b s = Some s' \<and> owns s' (remove1 b live) \<and> free_mem s' = footprint b \<union> free_mem s"
proof -
  have pre: "ok s" "valid b" "footprint b \<subseteq> region" "footprint b \<inter> free_mem s = {}"
    and sorted: "sorted_wrt (\<lambda>b b'. footprint b \<inter> footprint b' = {}) live"
    using assms by (auto simp: owns_def)
  from put_ok [OF pre] obtain s' where s': "put b s = Some s'" "ok s'" "free_mem s' = footprint b \<union> free_mem s"
    by blast
  have "footprint c \<inter> free_mem s' = {}" if "c \<in> set (remove1 b live)" for c
    using disjoint_remove1 [OF sorted assms(2) that] s'(3) that assms(1) set_remove1_subset [of b live]
    by (auto simp: owns_def)
  with s' assms(1) show ?thesis
    using sorted_wrt_remove1 [OF sorted] set_remove1_subset [of b live] by (auto simp: owns_def)
qed

end

text \<open>The allocator seen by a client without cached data: a request is a size, the
  exponent of its alignment and its offset, and a block is a pointer and the size that was
  requested.\<close>

definition memblock_get :: "u32 \<Rightarrow> u32 \<times> nat \<times> u32 \<Rightarrow> heap \<Rightarrow> (block \<times> heap) option" where
  "memblock_get voff req h =
     (case req of (sz, j, off) \<Rightarrow>
       if size_ok sz ((2 ^ j - 1) OR 15) then
         (case alloc_memblock voff [] sz (2 ^ j) off h of
            None \<Rightarrow> None
          | Some (p, h') \<Rightarrow> if p = 0 then None else Some ((p, sz), h'))
       else None)"

definition memblock_put :: "block \<Rightarrow> heap \<Rightarrow> heap option" where
  "memblock_put b h = free_memblock (fst b) (snd b) h"

definition footprint :: "block \<Rightarrow> nat set" where
  "footprint b = block_set (fst b, round_size (snd b))"

lemma discards_Nil: "discards [] h h' \<longleftrightarrow> h' = h"
  by (auto elim: discards.cases intro: discards.none)

interpretation mb: block_allocator "heap_ok lo hi" avail "{lo ..< hi}" footprint "\<lambda>b. size_ok (snd b) 0"
  "memblock_get voff" memblock_put for lo hi voff
proof
  fix s :: heap and r b s'
  assume s: "heap_ok lo hi s" and g: "memblock_get voff r s = Some (b, s')"
  obtain sz j off where r: "r = (sz, j, off)" by (cases r)
  from g r obtain p where ok: "size_ok sz ((2 ^ j - 1) OR 15)" and b: "b = (p, sz)" "p \<noteq> 0"
    and al: "alloc_memblock voff [] sz (2 ^ j) off s = Some (p, s')"
    by (auto simp: memblock_get_def split: if_splits option.splits)
  have "allocated lo hi (p, round_size sz) s s'"
    using alloc_memblock_spec [OF s ok al] b s by (auto simp: discards_Nil)
  then show "heap_ok lo hi s' \<and> size_ok (snd b) 0 \<and> footprint b \<subseteq> avail s \<and> avail s' \<subseteq> avail s - footprint b"
    using ok b by (auto simp: allocated_def footprint_def size_ok_def)
next
  fix s :: heap and b
  assume "heap_ok lo hi s" "size_ok (snd b) 0" "footprint b \<subseteq> {lo ..< hi}" "footprint b \<inter> avail s = {}"
  moreover from this have "16 \<le> unat (round_size (snd b))" by (intro size_okD)
  ultimately show "\<exists>s'. memblock_put b s = Some s' \<and> heap_ok lo hi s' \<and> avail s' = footprint b \<union> avail s"
    using free_memblock_ok [of lo hi s "fst b" "snd b"]
    by (auto simp: memblock_put_def footprint_def heap_ok_def freed_def ivl_subset)
qed (auto simp: heap_ok_def dest: blocks_ok_bounds)

text \<open>The states of the heap and of the live allocations that a client can reach.\<close>

definition empty_heap :: "memory \<Rightarrow> heap" where
  "empty_heap m = \<lparr>free_blocks = [], freemem = 0, hmem = m\<rparr>"

inductive heap_client :: "u32 \<Rightarrow> u32 \<Rightarrow> heap \<Rightarrow> block list \<Rightarrow> bool" for voff heap_addr where
  init: "init_heap heap_addr (empty_heap m) = Some h \<Longrightarrow> heap_client voff heap_addr h []"
| alloc: "heap_client voff heap_addr h live \<Longrightarrow> size_ok sz ((2 ^ j - 1) OR 15) \<Longrightarrow>
    alloc_memblock voff [] sz (2 ^ j) off h = Some (p, h') \<Longrightarrow>
    heap_client voff heap_addr h' (if p = 0 then live else (p, sz) # live)"
| free: "heap_client voff heap_addr h live \<Longrightarrow> (p, sz) \<in> set live \<Longrightarrow> free_memblock p sz h = Some h' \<Longrightarrow>
    heap_client voff heap_addr h' (remove1 (p, sz) live)"

definition live_total :: "block list \<Rightarrow> nat" where
  "live_total live = (\<Sum>b \<leftarrow> live. unat (round_size (snd b)))"

definition heap_addr_ok :: "u32 \<Rightarrow> bool" where
  "heap_addr_ok a \<longleftrightarrow> a \<noteq> 0 \<and> unat a + 524288 < 4294967296"

definition client_inv :: "u32 \<Rightarrow> heap \<Rightarrow> block list \<Rightarrow> bool" where
  "client_inv a h live \<longleftrightarrow> mb.owns (unat a) (unat a + 524288) h live \<and>
     unat (freemem h) + live_total live = 524288 \<and> free_total (free_blocks h) \<le> unat (freemem h)"

lemma client_inv_init:
  assumes "heap_addr_ok a" "init_heap a (empty_heap m) = Some h"
  shows "client_inv a h []"
proof -
  have "HEAP_SIZE AND NOT (MIN_MEMBLOCK_SIZE - 1) = 524288"
    by (simp add: HEAP_SIZE_def MIN_MEMBLOCK_SIZE_def)
  moreover have "round_size 524288 = 524288"
    by (simp add: round_size_def MIN_MEMBLOCK_SIZE_def)
  ultimately have "h = (empty_heap m)\<lparr>free_blocks := [(a, 524288)], freemem := 524288\<rparr>"
    using assms by (auto simp: init_heap_def mpopulate_def free_memblock_def heap_addr_ok_def empty_heap_def
        free_link_def)
  then show ?thesis
    using assms(1) unat_eq_0 [of a] unfolding client_inv_def mb.owns_def
    by (auto simp: heap_ok_def region_ok_def heap_addr_ok_def live_total_def empty_heap_def)
qed

lemma client_inv_alloc:
  assumes "client_inv a h live" "size_ok sz ((2 ^ j - 1) OR 15)"
    and "alloc_memblock voff [] sz (2 ^ j) off h = Some (p, h')"
  shows "client_inv a h' (if p = 0 then live else (p, sz) # live)"
proof (cases "p = 0")
  case True
  have "heap_ok (unat a) (unat a + 524288) h"
    using assms(1) by (simp add: client_inv_def mb.owns_def)
  from alloc_memblock_spec [OF this assms(2,3)] True this have "h' = h"
    by (auto simp: discards_Nil)
  with True assms(1) show ?thesis by simp
next
  case False
  have ok: "heap_ok (unat a) (unat a + 524288) h"
    using assms(1) by (simp add: client_inv_def mb.owns_def)
  have al: "allocated (unat a) (unat a + 524288) (p, round_size sz) h h'"
    using alloc_memblock_spec [OF ok assms(2,3)] False ok by (auto simp: discards_Nil)
  have "memblock_get voff (sz, j, off) h = Some ((p, sz), h')"
    using assms(2,3) False by (simp add: memblock_get_def)
  then have owns: "mb.owns (unat a) (unat a + 524288) h' ((p, sz) # live)"
    using assms(1) by (intro mb.owns_get) (auto simp: client_inv_def)
  have "unat (round_size sz) \<le> unat (freemem h)"
    using al assms(1) by (auto simp: allocated_def client_inv_def)
  then have "unat (freemem h') = unat (freemem h) - unat (round_size sz)"
    using al by (simp add: allocated_def unat_sub_u32)
  with owns al assms(1) False \<open>unat (round_size sz) \<le> unat (freemem h)\<close> show ?thesis
    by (auto simp: client_inv_def live_total_def allocated_def)
qed

lemma live_total_remove1:
  "b \<in> set live \<Longrightarrow> live_total live = unat (round_size (snd b)) + live_total (remove1 b live)"
  by (auto simp: live_total_def sum_list_map_remove1)

lemma client_inv_free:
  assumes "client_inv a h live" "(p, sz) \<in> set live"
  shows "\<exists>h'. free_memblock p sz h = Some h' \<and> client_inv a h' (remove1 (p, sz) live)"
proof -
  have own: "mb.owns (unat a) (unat a + 524288) h live"
    using assms(1) by (simp add: client_inv_def)
  from mb.owns_put [OF this assms(2)] obtain h' where
    f: "free_memblock p sz h = Some h'" and o: "mb.owns (unat a) (unat a + 524288) h' (remove1 (p, sz) live)"
    by (auto simp: memblock_put_def)
  have pre: "heap_ok (unat a) (unat a + 524288) h" "size_ok sz 0"
    "footprint (p, sz) \<subseteq> {unat a ..< unat a + 524288}" "footprint (p, sz) \<inter> avail h = {}"
    using own assms(2) by (auto simp: mb.owns_def)
  have "freemem h' = freemem h + round_size sz"
    "free_total (free_blocks h') = unat (round_size sz) + free_total (free_blocks h)"
    using free_memblock_ok [of "unat a" "unat a + 524288" h p sz] pre f size_okD(2) [OF pre(2)]
    by (auto simp: footprint_def freed_def ivl_subset)
  moreover from live_total_remove1 [OF assms(2)] assms(1)
  have "unat (freemem h) + unat (round_size sz) + live_total (remove1 (p, sz) live) = 524288"
    by (simp add: client_inv_def)
  ultimately show ?thesis
    using f o assms(1) by (auto simp: client_inv_def unat_add_u32)
qed


section \<open>Resizing\<close>

text \<open>Two ranges of memory given by word addresses that do not overlap.\<close>

lemma block_set_mem:
  assumes "unat p + unat n \<le> 4294967296" "unat i < unat n"
  shows "unat (p + i) \<in> block_set (p, n)"
  using assms by (auto simp: unat_add_u32)

lemma in_block_iff:
  assumes "unat p + unat n \<le> 4294967296"
  shows "a - p < n \<longleftrightarrow> unat a \<in> block_set (p, n)"
proof (cases "unat p \<le> unat a")
  case True
  then show ?thesis by (auto simp: word_less_nat_alt unat_sub_u32)
next
  case False
  then have "unat (a - p) = 4294967296 - (unat p - unat a)"
    by (intro unat_sub_wrap_u32) simp
  with False assms show ?thesis by (auto simp: word_less_nat_alt)
qed

lemma store32_other:
  assumes "\<not> a - p < 4"
  shows "store32 m p v a = m a"
  using assms by (auto simp: store32_def word_less_nat_alt)

lemma mem_copy_other: "\<not> a - dst < n \<Longrightarrow> mem_copy m dst src n a = m a"
  by (simp add: mem_copy_def)

lemma mem_copy_at: "i < n \<Longrightarrow> mem_copy m dst src n (dst + i) = m (src + i)"
  by (simp add: mem_copy_def)

lemma load32_cong:
  assumes "m a = m' a" "m (a + 1) = m' (a + 1)" "m (a + 2) = m' (a + 2)" "m (a + 3) = m' (a + 3)"
  shows "load32 m a = load32 m' a"
  using assms by (simp add: load32_def)

lemma if_less_min: "(if a < b then a else b) = min a (b :: 'b :: linorder)"
  by (auto simp: min_def)

text \<open>
  A pointer returned by \<open>malloc\<close>: the block in front of it carries its total size, and its
  memory is allocated.
\<close>

definition autosized :: "nat \<Rightarrow> nat \<Rightarrow> 'a heap_scheme \<Rightarrow> u32 \<Rightarrow> u32 \<Rightarrow> bool" where
  "autosized lo hi h ptr tsz \<longleftrightarrow> load32 (hmem h) (ptr - 4) = tsz \<and> 4 < unat tsz \<and> size_ok tsz 0 \<and>
     lo \<le> unat (ptr - 4) \<and> unat (ptr - 4) + unat (round_size tsz) \<le> hi \<and>
     block_set (ptr - 4, round_size tsz) \<inter> avail h = {}"

lemma realloc_new_some:
  assumes "heap_ok lo hi h" "new_size \<noteq> 0" "unat new_size < 2147483600"
    and "realloc_new voff [] new_size h = Some (p, h')" "p \<noteq> 0"
  shows "\<exists>blk h1. p = blk + 4 \<and> allocated lo hi (blk, round_size (new_size + 4)) h h1 \<and>
     h' = h1\<lparr>hmem := store32 (hmem h) blk (new_size + 4)\<rparr> \<and> size_ok (new_size + 4) 15"
proof -
  have tsz: "unat (new_size + 4) = unat new_size + 4"
    using assms(3) by (subst unat_add_u32) auto
  have ok: "size_ok (new_size + 4) ((1 - 1) OR 15)"
    using assms(3) by (simp add: size_ok_def tsz)
  from assms(2,4,5) obtain blk h1 where al: "alloc_memblock voff [] (new_size + 4) 1 0 h = Some (blk, h1)"
    and r: "blk \<noteq> 0" "p = blk + 4" "h' = h1\<lparr>hmem := store32 (hmem h1) blk (new_size + 4)\<rparr>"
    by (auto simp: realloc_new_def AUTOSIZED_DATA_def Let_def split: option.splits if_splits)
  have a: "allocated lo hi (blk, round_size (new_size + 4)) h h1"
    using alloc_memblock_spec [OF assms(1) ok al] r assms(1) by (auto simp: discards_Nil)
  then have "hmem h1 = hmem h" by (simp add: allocated_def)
  with a r ok show ?thesis by auto
qed

text \<open>The bytes of an allocated block are not touched by labelling a new one.\<close>

lemma label_keeps_old:
  assumes "region_ok lo hi" "autosized lo hi h old_ptr tsz" "allocated lo hi (blk, n) h h1" "4 \<le> unat n"
    and "unat i < unat tsz"
  shows "store32 (hmem h) blk v (old_ptr - 4 + i) = hmem h (old_ptr - 4 + i)"
proof (rule store32_other)
  let ?ob = "old_ptr - 4"
  have bnd: "unat blk + unat n \<le> 4294967296" "unat ?ob + unat (round_size tsz) \<le> 4294967296"
    using assms(1-3) by (auto simp: allocated_def autosized_def region_ok_def)
  have disj: "block_set (blk, n) \<inter> block_set (?ob, round_size tsz) = {}"
    using assms(2,3) unfolding allocated_def autosized_def by blast
  have "unat i < unat (round_size tsz)"
    using assms(2,5) size_okD(3) [of tsz 0] by (auto simp: autosized_def)
  then have "unat (?ob + i) \<notin> block_set (blk, n)"
    using block_set_mem [OF bnd(2)] disj by blast
  then have "\<not> ?ob + i - blk < n"
    using in_block_iff [OF bnd(1)] by simp
  then show "\<not> ?ob + i - blk < 4"
    using assms(4) by (simp add: word_less_nat_alt)
qed

text \<open>The state that \<open>realloc\<close> leaves when it has found a new block.\<close>

lemma realloc_some:
  assumes heap: "heap_ok lo hi h" and old: "autosized lo hi h old_ptr tsz" and nz: "old_ptr \<noteq> 0" "old_ptr \<noteq> NOWHERE"
    and new: "new_size \<noteq> 0" "unat new_size < 2147483600"
    and run: "realloc voff [] old_ptr new_size h = Some (p, h')" "p \<noteq> 0"
  shows "\<exists>blk h1. p = blk + 4 \<and> allocated lo hi (blk, round_size (new_size + 4)) h h1 \<and> size_ok (new_size + 4) 15 \<and>
     hmem h' = mem_copy (store32 (hmem h) blk (new_size + 4)) p old_ptr (min (tsz - 4) new_size) \<and>
     freed lo hi (old_ptr - 4, round_size tsz) (free_blocks h1) (free_blocks h')"
proof -
  let ?n = "new_size + 4" and ?ob = "old_ptr - 4"
  from run obtain hn where rn: "realloc_new voff [] new_size h = Some (p, hn)"
    and ro: "realloc_old old_ptr p new_size hn = Some h'"
    by (auto simp: realloc_def split: option.splits if_splits)
  from realloc_new_some [OF heap new rn run(2)] obtain blk h1 where blk: "p = blk + 4"
    and al: "allocated lo hi (blk, round_size ?n) h h1"
    and hn: "hn = h1\<lparr>hmem := store32 (hmem h) blk ?n\<rparr>" and sok: "size_ok ?n 15"
    by blast
  have reg: "region_ok lo hi" and tsz: "4 < unat tsz" "16 \<le> unat (round_size tsz)"
    using heap old size_okD(2) [of tsz 0] by (auto simp: heap_ok_def autosized_def)
  have keep: "store32 (hmem h) blk ?n (?ob + i) = hmem h (?ob + i)" if "unat i < 4" for i
    using label_keeps_old [OF reg old al] size_okD(2) [OF sok] tsz that by simp
  have "load32 (store32 (hmem h) blk ?n) ?ob = load32 (hmem h) ?ob"
    using keep [of 0] keep [of 1] keep [of 2] keep [of 3] by (intro load32_cong) auto
  then have "load32 (hmem hn) ?ob = tsz" using old hn by (simp add: autosized_def)
  then have free: "free_memblock ?ob tsz (hn\<lparr>hmem := mem_copy (hmem hn) p old_ptr (min (tsz - 4) new_size)\<rparr>) = Some h'"
    using ro nz by (simp add: realloc_old_def AUTOSIZED_DATA_def Let_def if_less_min)
  have heap1: "heap_ok lo hi (hn\<lparr>hmem := mem_copy (hmem hn) p old_ptr (min (tsz - 4) new_size)\<rparr>)"
    using al hn by (simp add: allocated_def heap_ok_def)
  have "block_set (?ob, round_size tsz) \<inter> avail h1 = {}"
    using al old unfolding allocated_def autosized_def by blast
  then have "hmem h' = mem_copy (hmem hn) p old_ptr (min (tsz - 4) new_size) \<and>
      freed lo hi (?ob, round_size tsz) (free_blocks h1) (free_blocks h')"
    using free_memblock_ok [OF heap1, of ?ob tsz] old tsz(2) hn free by (auto simp: autosized_def)
  with blk al sok hn show ?thesis by auto
qed


section \<open>Requests that wrap around\<close>

definition sample_heap :: heap where
  "sample_heap = \<lparr>free_blocks = [(0x10000, 0x80000)], freemem = 0x80000, hmem = (\<lambda>_. 0)\<rparr>"

lemma init_sample_heap: "init_heap 0x10000 (empty_heap (\<lambda>_. 0)) = Some sample_heap"
  by (simp add: init_heap_def mpopulate_def free_memblock_def round_size_def MIN_MEMBLOCK_SIZE_def
      HEAP_SIZE_def empty_heap_def sample_heap_def free_link_def)

text \<open>
  The additions of \<open>realloc\<close> and \<open>alloc_memblock\<close> are not guarded against wrap-around.  On
  the freshly initialised heap of 512 KiB, a request for 4 GiB less one byte succeeds with a block of
  16 bytes, and a request for 32 bytes less than 4 GiB succeeds and leaves a free list that claims
  the 16 bytes in front of the heap.
\<close>

lemma malloc_wraps_around:
  "malloc 0 [] 0xFFFFFFFF sample_heap =
     Some (0x10004, sample_heap\<lparr>free_blocks := [(0x10010, 0x7FFF0)], freemem := 0x7FFF0,
       hmem := store32 (\<lambda>_. 0) 0x10000 3\<rparr>) \<and>
   (\<exists>h'. malloc 0 [] 0xFFFFFFE0 sample_heap = Some (0x10004, h') \<and> free_blocks h' = [(0xFFF0, 0x80010)])"
proof -
  have wrap: "(4294967299 :: u32) = 3" by simp
  show ?thesis
    by (simp add: malloc_def realloc_def realloc_new_def realloc_old_def alloc_memblock_def alloc_loop.simps
        round_size_def MIN_MEMBLOCK_SIZE_def AUTOSIZED_DATA_def sample_heap_def wrap)
qed

lemma sample_heap_ok: "heap_ok 65536 589824 sample_heap"
  by (simp add: heap_ok_def region_ok_def sample_heap_def)

lemma sample_alloc:
  "alloc_memblock 0 [] 100 (2 ^ 6) 0 sample_heap =
     Some (65536, sample_heap\<lparr>free_blocks := [(65648, 524176)], freemem := 524176\<rparr>)"
  by (simp add: alloc_memblock_def alloc_loop.simps round_size_def MIN_MEMBLOCK_SIZE_def sample_heap_def)

theorem alloc_memblock_correct_witness:
  "size_ok 100 ((2 ^ 6 - 1) OR 15) \<and>
   (\<exists>h1. discards [] sample_heap h1 \<and>
      allocated 65536 589824 (65536, round_size 100) h1
        (sample_heap\<lparr>free_blocks := [(65648, 524176)], freemem := 524176\<rparr>) \<and>
      take_bit 6 (65536 + 0 - 0 :: u32) = 0)"
proof -
  have sz: "size_ok 100 ((2 ^ 6 - 1) OR 15)" by (simp add: size_ok_def)
  show ?thesis
    using alloc_memblock_correct [OF sample_heap_ok sz sample_alloc] sample_heap_ok sz
    by (simp add: discards_Nil)
qed

theorem free_memblock_correct_witness:
  "\<exists>h'. free_memblock 65536 100 (sample_heap\<lparr>free_blocks := [(65648, 524176)], freemem := 524176\<rparr>) = Some h' \<and>
     heap_ok 65536 589824 h' \<and> avail h' = {65536 ..< 589824}"
proof -
  let ?h = "sample_heap\<lparr>free_blocks := [(65648, 524176)], freemem := 524176\<rparr>"
  have "heap_ok 65536 589824 ?h" "size_ok 100 0" "65536 \<le> unat (65536 :: u32)"
    "unat (65536 :: u32) + unat (round_size 100) \<le> 589824"
    "block_set (65536, round_size 100) \<inter> avail ?h = {}"
    by (auto simp: heap_ok_def region_ok_def size_ok_def round_size_def MIN_MEMBLOCK_SIZE_def)
  from free_memblock_correct [OF this] show ?thesis
    by (auto simp: round_size_def MIN_MEMBLOCK_SIZE_def)
qed



end
