(* ===== verification/Refcnt.thy ===== *)
theory Refcnt
  imports Prelude
begin

text \<open>
  Reference counting, \<open>core/refcnt.c\<close>, and pending operations, \<open>core/pending.c\<close>.

  The reference-counted objects are a store from object names to counts; a \<open>struct refcnt *\<close>
  is the name of the object that contains it, or \<open>None\<close> for \<open>NULL\<close>.  The call of an object's
  \<open>free\<close> method is recorded in \<open>freed\<close>.  A count is an \<open>int\<close>, a word of 32 bits whose value is read
  with its sign; zero means one reference, as for a freshly zeroed object of the code.
\<close>

section \<open>Reference counts\<close>

record 'o objs =
  rcount :: "'o \<Rightarrow> u32"
  freed :: "'o list"

definition ref_increment :: "'o option \<Rightarrow> ('o, 'a) objs_scheme \<Rightarrow> ('o, 'a) objs_scheme" where
  "ref_increment refcnt s =
     (case refcnt of
        None \<Rightarrow> s
      | Some x \<Rightarrow> s\<lparr>rcount := (rcount s)(x := rcount s x + 1)\<rparr>)"

definition ref_decrement :: "'o option \<Rightarrow> ('o, 'a) objs_scheme \<Rightarrow> ('o, 'a) objs_scheme" where
  "ref_decrement refcnt s =
     (case refcnt of
        None \<Rightarrow> s
      | Some x \<Rightarrow>
          (let count = rcount s x - 1;
               s' = s\<lparr>rcount := (rcount s)(x := count)\<rparr>
           in if 0 \<le> sint count then s'
              else if sint count < -1 then s'
              else s'\<lparr>freed := x # freed s'\<rparr>))"

section \<open>Pending operations\<close>

text \<open>The count of one operation and the total over all operations.\<close>

definition pending_get :: "u32 \<times> int \<Rightarrow> u32 \<times> int" where
  "pending_get p = (case p of (count, pending_total) \<Rightarrow> (count + 1, pending_total + 1))"

definition pending_put :: "u32 \<times> int \<Rightarrow> u32 \<times> int" where
  "pending_put p =
     (case p of (count, pending_total) \<Rightarrow>
       if count \<noteq> 0 then (count - 1, pending_total - 1) else (count, pending_total))"

definition is_pending :: "u32 \<Rightarrow> bool" where
  "is_pending count \<longleftrightarrow> count \<noteq> 0"

section \<open>A run of gets and puts\<close>

datatype ref_op = Get | Put

fun ref_run :: "'o \<Rightarrow> ref_op list \<Rightarrow> 'o objs \<Rightarrow> 'o objs" where
  "ref_run x [] s = s"
| "ref_run x (Get # ops) s = ref_run x ops (ref_increment (Some x) s)"
| "ref_run x (Put # ops) s = ref_run x ops (ref_decrement (Some x) s)"

lemma ref_run_append: "ref_run x (ops @ ops') s = ref_run x ops' (ref_run x ops s)"
  by (induction x ops s rule: ref_run.induct) auto

abbreviation gets :: "ref_op list \<Rightarrow> int" where
  "gets ops \<equiv> int (count_list ops Get)"

abbreviation puts :: "ref_op list \<Rightarrow> int" where
  "puts ops \<equiv> int (count_list ops Put)"

lemma ref_run_other: "y \<noteq> x \<Longrightarrow> rcount (ref_run x ops s) y = rcount s y"
  by (induction x ops s rule: ref_run.induct) (auto simp: ref_increment_def ref_decrement_def Let_def)

lemma sint_step:
  assumes "\<bar>sint (c :: u32)\<bar> < 2 ^ 31 - 1"
  shows "sint (c + 1) = sint c + 1" "sint (c - 1) = sint c - 1"
  using assms by (simp_all add: sint_word_ariths signed_take_bit_int_eq_self)

text \<open>While references are held, the count follows the gets and puts, and the last put frees the object.\<close>

lemma ref_run_used:
  assumes "rcount s x = 0" "freed s = []" "length ops < 2 ^ 31 - 1"
    and "\<forall>k < length ops. puts (take k ops) \<le> gets (take k ops)"
  shows "sint (rcount (ref_run x ops s) x) = gets ops - puts ops \<and>
    freed (ref_run x ops s) = (if gets ops < puts ops then [x] else []) \<and> puts ops \<le> gets ops + 1"
  using assms(3,4)
proof (induction ops rule: rev_induct)
  case Nil
  then show ?case using assms(1,2) by simp
next
  case (snoc op ops)
  have "\<forall>k < length ops. puts (take k ops) \<le> gets (take k ops)"
  proof (intro allI impI)
    fix k assume "k < length ops"
    then show "puts (take k ops) \<le> gets (take k ops)" using snoc.prems(2) [rule_format, of k] by simp
  qed
  note IH = snoc.IH [OF _ this]
  have "puts ops \<le> gets ops" using snoc.prems(2) [rule_format, of "length ops"] by simp
  moreover have "gets ops \<le> int (length ops)" using count_le_length [of ops Get] by simp
  ultimately have "\<bar>gets ops - puts ops\<bar> < 2 ^ 31 - 1" using snoc.prems(1) by simp
  with IH snoc.prems(1) \<open>puts ops \<le> gets ops\<close> show ?case
    using sint_step [of "rcount (ref_run x ops s) x"]
    by (cases op) (auto simp: ref_run_append ref_increment_def ref_decrement_def Let_def)
qed

text \<open>Puts in excess of the references only make the count more negative.\<close>

lemma ref_run_excess:
  "sint (rcount s x) < 0 \<Longrightarrow> \<bar>sint (rcount s x)\<bar> + int n < 2 ^ 31 - 1 \<Longrightarrow>
     sint (rcount (ref_run x (replicate n Put) s) x) = sint (rcount s x) - int n \<and> freed (ref_run x (replicate n Put) s) = freed s"
  using sint_step(2)
  by (induction n arbitrary: s) (simp_all add: ref_decrement_def Let_def)

text \<open>
  C5.  Starting from a new object, as long as the object is used only while a reference to it is
  held, its count is the number of gets less the number of puts, and its free method is called
  exactly once, by the put that drops the last reference.  Any number of further puts, which are in
  excess of the references, makes the count more negative and does not call the free method again.
  The counts of all other objects are left alone.
\<close>

theorem ref_freed_exactly_once:
  assumes "rcount s x = 0" "freed s = []" "length ops + n < 2 ^ 31 - 1"
    and "\<forall>k < length ops. puts (take k ops) \<le> gets (take k ops)"
    and "gets ops < puts ops \<or> n = 0"
  shows "sint (rcount (ref_run x (ops @ replicate n Put) s) x) = gets ops - puts ops - int n \<and>
    freed (ref_run x (ops @ replicate n Put) s) = (if gets ops < puts ops then [x] else []) \<and>
    (\<forall>y. y \<noteq> x \<longrightarrow> rcount (ref_run x (ops @ replicate n Put) s) y = rcount s y)"
proof -
  have u: "sint (rcount (ref_run x ops s) x) = gets ops - puts ops"
    "freed (ref_run x ops s) = (if gets ops < puts ops then [x] else [])" "puts ops \<le> gets ops + 1"
    using ref_run_used [OF assms(1,2) _ assms(4)] assms(3) by simp_all
  moreover have "puts ops \<le> int (length ops)" using count_le_length [of ops Put] by simp
  then have "gets ops < puts ops \<Longrightarrow> puts ops - gets ops + int n < 2 ^ 31 - 1" using u(3) assms(3) by simp
  ultimately show ?thesis
    using ref_run_excess [of "ref_run x ops s" x n] ref_run_other [of _ x] assms(5)
    by (cases "gets ops < puts ops") (auto simp: ref_run_append)
qed

theorem ref_freed_exactly_once_witness:
  "let s = \<lparr>rcount = (\<lambda>_ :: nat. 0), freed = []\<rparr>; ops = [Get, Get, Put, Put, Put] in
     freed (ref_run 5 (ops @ replicate 2 Put) s) = [5] \<and> sint (rcount (ref_run 5 (ops @ replicate 2 Put) s) 5) = -3"
proof -
  let ?s = "\<lparr>rcount = (\<lambda>_ :: nat. 0), freed = []\<rparr>" and ?ops = "[Get, Get, Put, Put, Put]"
  have "\<forall>k < length ?ops. puts (take k ?ops) \<le> gets (take k ?ops)"
    by (auto simp: less_Suc_eq numeral_eq_Suc)
  with ref_freed_exactly_once [of ?s 5 ?ops 2] show ?thesis by simp
qed

end
