(* ===== verification/Process.thy ===== *)
theory Process
  imports Refcnt
begin

text \<open>
  Cooperative multitasking, \<open>core/process.c\<close>: a queue of runnable processes, of which the first
  is single-stepped and then moved to the end of the queue, or removed when it is to run only once.
  A process is \<open>process_running\<close> when it is linked into the queue.  The step method of a process is
  a function on the whole state, which may start and stop processes.
\<close>

record 'o process =
  proc_refcnt :: "'o option"
  reschedule :: bool

record ('o, 'p) procs = "'o objs" +
  run_queue :: "'p list"
  proc_of :: "'p \<Rightarrow> 'o process"

definition process_running :: "'p \<Rightarrow> ('o, 'p, 'a) procs_scheme \<Rightarrow> bool" where
  "process_running p s \<longleftrightarrow> p \<in> set (run_queue s)"

definition process_add :: "'p \<Rightarrow> ('o, 'p, 'a) procs_scheme \<Rightarrow> ('o, 'p, 'a) procs_scheme" where
  "process_add p s =
     (if \<not> process_running p s then
        (let s' = ref_increment (proc_refcnt (proc_of s p)) s
         in s'\<lparr>run_queue := run_queue s' @ [p]\<rparr>)
      else s)"

definition process_del :: "'p \<Rightarrow> ('o, 'p, 'a) procs_scheme \<Rightarrow> ('o, 'p, 'a) procs_scheme" where
  "process_del p s =
     (if process_running p s then
        ref_decrement (proc_refcnt (proc_of s p)) (s\<lparr>run_queue := remove1 p (run_queue s)\<rparr>)
      else s)"

text \<open>\<open>step\<close> with \<open>exec\<close> for the \<open>step\<close> methods of the process descriptors.\<close>

definition step :: "('p \<Rightarrow> ('o, 'p, 'a) procs_scheme \<Rightarrow> ('o, 'p, 'a) procs_scheme) \<Rightarrow>
    ('o, 'p, 'a) procs_scheme \<Rightarrow> ('o, 'p, 'a) procs_scheme" where
  "step exec s =
     (case run_queue s of
        [] \<Rightarrow> s
      | p # _ \<Rightarrow>
          (let desc = proc_of s p;
               s1 = ref_increment (proc_refcnt desc) s;
               s2 = (if reschedule desc
                     then s1\<lparr>run_queue := remove1 p (run_queue s1) @ [p]\<rparr>
                     else process_del p s1);
               s3 = exec p s2
           in ref_decrement (proc_refcnt desc) s3))"

definition init_processes :: "'p list \<Rightarrow> ('o, 'p, 'a) procs_scheme \<Rightarrow> ('o, 'p, 'a) procs_scheme" where
  "init_processes permanent s = fold process_add permanent s"

section \<open>Queue and frame lemmas\<close>

lemma ref_queue [simp]:
  "run_queue (ref_increment r (s :: ('o, 'p, 'a) procs_scheme)) = run_queue s"
  "run_queue (ref_decrement r s) = run_queue s"
  "proc_of (ref_increment r s) = proc_of s"
  "proc_of (ref_decrement r s) = proc_of s"
  "procs.more (ref_increment r s) = procs.more s"
  "procs.more (ref_decrement r s) = procs.more s"
  by (auto simp: ref_increment_def ref_decrement_def Let_def split: option.splits)

definition queue_ok :: "('o, 'p, 'a) procs_scheme \<Rightarrow> bool" where
  "queue_ok s \<longleftrightarrow> distinct (run_queue s)"

lemma process_add_queue:
  "run_queue (process_add p s) = (if p \<in> set (run_queue s) then run_queue s else run_queue s @ [p])"
  by (auto simp: process_add_def process_running_def Let_def)

lemma process_del_queue: "run_queue (process_del p s) = remove1 p (run_queue s)"
  by (auto simp: process_del_def process_running_def remove1_idem)

lemma process_frame [simp]:
  "proc_of (process_add p s) = proc_of s" "proc_of (process_del p s) = proc_of s"
  "procs.more (process_add p s) = procs.more s" "procs.more (process_del p s) = procs.more s"
  by (auto simp: process_add_def process_del_def Let_def)

lemma process_add_ok [intro]: "queue_ok s \<Longrightarrow> queue_ok (process_add p s)"
  by (auto simp: queue_ok_def process_add_queue)

lemma process_del_ok [intro]: "queue_ok s \<Longrightarrow> queue_ok (process_del p s)"
  by (auto simp: queue_ok_def process_del_queue)

lemma init_processes_queue:
  "distinct (run_queue s) \<Longrightarrow> distinct ps \<Longrightarrow> set ps \<inter> set (run_queue s) = {} \<Longrightarrow>
     run_queue (init_processes ps s) = run_queue s @ ps"
  unfolding init_processes_def
  by (induction ps arbitrary: s) (auto simp: process_add_queue)

text \<open>The queue after one step, when the step method leaves the queue alone.\<close>

lemma step_queue:
  assumes "run_queue s = p # ps" "distinct (p # ps)"
    and "\<And>q t. run_queue (exec q t) = run_queue t"
  shows "run_queue (step exec s) = (if reschedule (proc_of s p) then ps @ [p] else ps)"
  using assms by (simp add: step_def Let_def process_del_queue)

section \<open>Round robin\<close>

text \<open>
  Step methods that leave the queue alone and record in the rest of the state, as \<open>obs\<close> shows it, that they have been called.
\<close>

definition leaves_processes ::
  "('p \<Rightarrow> ('o, 'p, 'a) procs_scheme \<Rightarrow> ('o, 'p, 'a) procs_scheme) \<Rightarrow> bool" where
  "leaves_processes exec \<longleftrightarrow> (\<forall>q t. run_queue (exec q t) = run_queue t \<and> proc_of (exec q t) = proc_of t)"

definition records ::
  "('a \<Rightarrow> 'p list) \<Rightarrow> ('p \<Rightarrow> ('o, 'p, 'a) procs_scheme \<Rightarrow> ('o, 'p, 'a) procs_scheme) \<Rightarrow> bool" where
  "records obs exec \<longleftrightarrow> (\<forall>q t. obs (procs.more (exec q t)) = obs (procs.more t) @ [q])"

lemma step_proc_of: "leaves_processes exec \<Longrightarrow> proc_of (step exec s) = proc_of s"
  by (auto simp: step_def leaves_processes_def Let_def split: list.split)

lemma step_records:
  assumes "records obs exec" "run_queue s = p # ps"
  shows "obs (procs.more (step exec s)) = obs (procs.more s) @ [p]"
  using assms by (simp add: step_def records_def Let_def)

lemma steps_prefix:
  assumes "leaves_processes exec" "records obs exec" "run_queue s = ps @ qs" "distinct (ps @ qs)"
    and "\<forall>p \<in> set ps. reschedule (proc_of s p)" "t = (step exec ^^ length ps) s"
  shows "obs (procs.more t) = obs (procs.more s) @ ps \<and> run_queue t = qs @ ps \<and> proc_of t = proc_of s"
  using assms(3-)
proof (induction ps arbitrary: s qs)
  case (Cons p ps)
  have q: "run_queue (step exec s) = ps @ (qs @ [p])"
    using Cons.prems step_queue [of s p "ps @ qs" exec] assms(1) by (simp add: leaves_processes_def)
  have "\<forall>p \<in> set ps. reschedule (proc_of (step exec s) p)"
    using Cons.prems assms(1) by (simp add: step_proc_of)
  from Cons.IH [OF q _ this] Cons.prems show ?case
    using step_proc_of [OF assms(1), of s] step_records [OF assms(2), of s p "ps @ qs"] by (simp add: funpow_swap1)
qed simp

text \<open>
  C6.  Scheduling is fair: when the step methods leave the queue alone and every process is
  rescheduled, each round of as many steps as there are processes calls the step method of every process exactly
  once, in the order of the queue, and leaves the same queue for the next round.  The calls are observed through what
  the step methods themselves record.
\<close>

theorem round_robin:
  assumes "leaves_processes exec" "records obs exec" "queue_ok s" "\<forall>p \<in> set (run_queue s). reschedule (proc_of s p)"
    and "t = (step exec ^^ (k * length (run_queue s))) s"
  shows "obs (procs.more t) = obs (procs.more s) @ concat (replicate k (run_queue s)) \<and> run_queue t = run_queue s"
  using assms(3-)
proof (induction k arbitrary: s)
  case (Suc k)
  define u where "u = (step exec ^^ length (run_queue s)) s"
  have u: "obs (procs.more u) = obs (procs.more s) @ run_queue s" "run_queue u = run_queue s" "proc_of u = proc_of s"
    using steps_prefix [OF assms(1,2), of s "run_queue s" "[]" u] Suc.prems by (simp_all add: queue_ok_def u_def)
  have "t = (step exec ^^ (k * length (run_queue u))) u"
    using Suc.prems(3) u(2) unfolding u_def by (metis add.commute comp_apply funpow_add mult_Suc)
  from Suc.IH [OF _ _ this] Suc.prems u show ?case by (simp add: queue_ok_def)
qed simp

theorem round_robin_witness:
  "let s = \<lparr>rcount = (\<lambda>_ :: nat. 0), freed = [], run_queue = [1 :: nat, 2, 3],
            proc_of = (\<lambda>_. \<lparr>proc_refcnt = None, reschedule = True\<rparr>), \<dots> = [] :: nat list\<rparr>
   in procs.more ((step (\<lambda>p t. procs.more_update (\<lambda>l. l @ [p]) t) ^^ (2 * 3)) s) = [1, 2, 3, 1, 2, 3]"
proof -
  let ?s = "\<lparr>rcount = (\<lambda>_ :: nat. 0), freed = [], run_queue = [1 :: nat, 2, 3],
            proc_of = (\<lambda>_. \<lparr>proc_refcnt = None, reschedule = True\<rparr>), \<dots> = [] :: nat list\<rparr>"
    and ?e = "\<lambda>p (t :: (nat, nat, nat list) procs_scheme). procs.more_update (\<lambda>l. l @ [p]) t"
  have "leaves_processes ?e" "records id ?e" "queue_ok ?s" "\<forall>p \<in> set (run_queue ?s). reschedule (proc_of ?s p)"
    by (auto simp: leaves_processes_def records_def queue_ok_def)
  moreover have "replicate 2 (run_queue ?s) = [run_queue ?s, run_queue ?s]"
    by (simp add: numeral_2_eq_2 del: One_nat_def)
  ultimately show ?thesis using round_robin [of ?e id ?s _ 2, OF _ _ _ _ refl] by (simp del: funpow.simps)
qed

end
