(* ===== verification/Retry.thy ===== *)
theory Retry
  imports Process
begin

text \<open>
  Retry timers, \<open>net/retry.c\<close>: binary exponential backoff timers with a smoothed round-trip
  estimate.  The timers are a store from timer names to \<open>struct retry_timer\<close>, with the list of
  running timers beside it, on top of the reference counts and the run queue.

  \<open>currticks()\<close> is the argument \<open>now\<close> and \<open>ticks_per_sec()\<close> the argument \<open>tps\<close>; an expiry callback
  is a function on the whole state.  Ticks are 32 bits wide, and differences of ticks wrap around.
\<close>

unbundle bit_operations_syntax

definition MIN_TIMEOUT :: u32 where
  "MIN_TIMEOUT = 7"

definition DEFAULT_MIN_TIMEOUT :: "u32 \<Rightarrow> u32" where
  "DEFAULT_MIN_TIMEOUT tps = tps div 4"

definition DEFAULT_MAX_TIMEOUT :: "u32 \<Rightarrow> u32" where
  "DEFAULT_MAX_TIMEOUT tps = 20 * tps"

record 'o retry_timer =
  running :: bool
  timeout :: u32
  min_timeout :: u32
  max_timeout :: u32
  start :: u32
  count :: u32
  timer_refcnt :: "'o option"

record ('o, 'p, 't) timer_world = "('o, 'p) procs" +
  timers :: "'t list"
  timer_of :: "'t \<Rightarrow> 'o retry_timer"

section \<open>Operations on the fields of a timer\<close>

definition timer_start :: "u32 \<Rightarrow> u32 \<Rightarrow> 'o retry_timer \<Rightarrow> 'o retry_timer" where
  "timer_start tps now timer =
     (let timer = timer\<lparr>start := now, running := True\<rparr>;
          timer = (if min_timeout timer = 0
                   then timer\<lparr>min_timeout := DEFAULT_MIN_TIMEOUT tps\<rparr> else timer);
          timer = (if min_timeout timer < MIN_TIMEOUT
                   then timer\<lparr>min_timeout := MIN_TIMEOUT\<rparr> else timer)
      in if timeout timer < min_timeout timer then timer\<lparr>timeout := min_timeout timer\<rparr> else timer)"

definition timer_smooth :: "u32 \<Rightarrow> 'o retry_timer \<Rightarrow> 'o retry_timer" where
  "timer_smooth now timer =
     (let runtime = now - start timer;
          timer = timer\<lparr>running := False\<rparr>
      in if count timer \<noteq> 0 then timer\<lparr>count := count timer - 1\<rparr>
         else timer\<lparr>timeout := timeout timer - drop_bit 3 (timeout timer) + drop_bit 1 runtime\<rparr>)"

definition timer_backoff :: "u32 \<Rightarrow> 'o retry_timer \<Rightarrow> bool \<times> 'o retry_timer" where
  "timer_backoff tps timer =
     (let timer = timer\<lparr>running := False, count := count timer + 1,
                        timeout := push_bit 1 (timeout timer)\<rparr>;
          timer = (if max_timeout timer = 0
                   then timer\<lparr>max_timeout := DEFAULT_MAX_TIMEOUT tps\<rparr> else timer);
          fail = (max_timeout timer < timeout timer)
      in (fail, if fail then timer\<lparr>timeout := max_timeout timer\<rparr> else timer))"

section \<open>Operations on the timer list\<close>

definition set_timer :: "'t \<Rightarrow> 'o retry_timer \<Rightarrow> ('o, 'p, 't, 'a) timer_world_scheme \<Rightarrow>
    ('o, 'p, 't, 'a) timer_world_scheme" where
  "set_timer t timer w = w\<lparr>timer_of := (timer_of w)(t := timer)\<rparr>"

definition start_timer :: "u32 \<Rightarrow> u32 \<Rightarrow> 't \<Rightarrow> ('o, 'p, 't, 'a) timer_world_scheme \<Rightarrow>
    ('o, 'p, 't, 'a) timer_world_scheme" where
  "start_timer tps now t w =
     (let timer = timer_of w t;
          w1 = (if \<not> running timer
                then ref_increment (timer_refcnt timer) (w\<lparr>timers := t # timers w\<rparr>) else w)
      in set_timer t (timer_start tps now timer) w1)"

definition start_timer_fixed :: "u32 \<Rightarrow> u32 \<Rightarrow> 't \<Rightarrow> u32 \<Rightarrow> ('o, 'p, 't, 'a) timer_world_scheme \<Rightarrow>
    ('o, 'p, 't, 'a) timer_world_scheme" where
  "start_timer_fixed tps now t tmo w =
     (let w1 = start_timer tps now t w
      in set_timer t ((timer_of w1 t)\<lparr>timeout := tmo\<rparr>) w1)"

definition start_timer_nodelay :: "u32 \<Rightarrow> u32 \<Rightarrow> 't \<Rightarrow> ('o, 'p, 't, 'a) timer_world_scheme \<Rightarrow>
    ('o, 'p, 't, 'a) timer_world_scheme" where
  "start_timer_nodelay tps now t w = start_timer_fixed tps now t 0 w"

definition timer_running :: "'t \<Rightarrow> ('o, 'p, 't, 'a) timer_world_scheme \<Rightarrow> bool" where
  "timer_running t w = running (timer_of w t)"

definition stop_timer :: "u32 \<Rightarrow> 't \<Rightarrow> ('o, 'p, 't, 'a) timer_world_scheme \<Rightarrow>
    ('o, 'p, 't, 'a) timer_world_scheme" where
  "stop_timer now t w =
     (let timer = timer_of w t in
      if \<not> running timer then w
      else ref_decrement (timer_refcnt timer)
             (set_timer t (timer_smooth now timer) (w\<lparr>timers := remove1 t (timers w)\<rparr>)))"

definition timer_expired ::
  "('t \<Rightarrow> bool \<Rightarrow> ('o, 'p, 't, 'a) timer_world_scheme \<Rightarrow> ('o, 'p, 't, 'a) timer_world_scheme) \<Rightarrow>
    u32 \<Rightarrow> 't \<Rightarrow> ('o, 'p, 't, 'a) timer_world_scheme \<Rightarrow> ('o, 'p, 't, 'a) timer_world_scheme" where
  "timer_expired expired tps t w =
     (let timer = timer_of w t;
          refcnt = timer_refcnt timer;
          (fail, timer') = timer_backoff tps timer;
          w1 = set_timer t timer' (w\<lparr>timers := remove1 t (timers w)\<rparr>);
          w2 = expired t fail w1
      in ref_decrement refcnt w2)"

definition timer_due :: "u32 \<Rightarrow> 'o retry_timer \<Rightarrow> bool" where
  "timer_due now timer \<longleftrightarrow> timeout timer \<le> now - start timer"

definition retry_poll ::
  "('t \<Rightarrow> bool \<Rightarrow> ('o, 'p, 't, 'a) timer_world_scheme \<Rightarrow> ('o, 'p, 't, 'a) timer_world_scheme) \<Rightarrow>
    u32 \<Rightarrow> u32 \<Rightarrow> ('o, 'p, 't, 'a) timer_world_scheme \<Rightarrow> ('o, 'p, 't, 'a) timer_world_scheme" where
  "retry_poll expired tps now w =
     (case find (\<lambda>t. timer_due now (timer_of w t)) (timers w) of
        None \<Rightarrow> w
      | Some t \<Rightarrow> timer_expired expired tps t w)"

definition retry_step ::
  "('t \<Rightarrow> bool \<Rightarrow> ('o, 'p, 't, 'a) timer_world_scheme \<Rightarrow> ('o, 'p, 't, 'a) timer_world_scheme) \<Rightarrow>
    u32 \<Rightarrow> u32 \<Rightarrow> 'p \<Rightarrow> ('o, 'p, 't, 'a) timer_world_scheme \<Rightarrow> ('o, 'p, 't, 'a) timer_world_scheme" where
  "retry_step expired tps now process w = retry_poll expired tps now w"

section \<open>The list of running timers\<close>

lemma ref_timers [simp]:
  "timers (ref_increment r (w :: ('o, 'p, 't, 'a) timer_world_scheme)) = timers w"
  "timers (ref_decrement r w) = timers w"
  "timer_of (ref_increment r w) = timer_of w"
  "timer_of (ref_decrement r w) = timer_of w"
  "timer_world.more (ref_increment r w) = timer_world.more w"
  "timer_world.more (ref_decrement r w) = timer_world.more w"
  by (auto simp: ref_increment_def ref_decrement_def Let_def split: option.splits)

lemma set_timer_sel [simp]:
  "timers (set_timer t x w) = timers w"
  "timer_of (set_timer t x w) = (timer_of w)(t := x)"
  "rcount (set_timer t x w) = rcount w"
  "freed (set_timer t x w) = freed w"
  "run_queue (set_timer t x w) = run_queue w"
  "timer_world.more (set_timer t x w) = timer_world.more w"
  by (auto simp: set_timer_def)

lemma timer_fields [simp]:
  "running (timer_start tps now x)"
  "timer_refcnt (timer_start tps now x) = timer_refcnt x"
  "\<not> running (timer_smooth now x)"
  "timer_refcnt (timer_smooth now x) = timer_refcnt x"
  "\<not> running (snd (timer_backoff tps x))"
  "timer_refcnt (snd (timer_backoff tps x)) = timer_refcnt x"
  by (auto simp: timer_start_def timer_smooth_def timer_backoff_def Let_def)

definition timers_ok :: "('o, 'p, 't, 'a) timer_world_scheme \<Rightarrow> bool" where
  "timers_ok w \<longleftrightarrow> distinct (timers w) \<and> (\<forall>t. running (timer_of w t) \<longleftrightarrow> t \<in> set (timers w))"

lemma timers_okD: "timers_ok w \<Longrightarrow> running (timer_of w t) \<longleftrightarrow> t \<in> set (timers w)"
  by (simp add: timers_ok_def)

lemma timers_ok_ref [simp]:
  "timers_ok (ref_increment r (w :: ('o, 'p, 't, 'a) timer_world_scheme)) = timers_ok w"
  "timers_ok (ref_decrement r w) = timers_ok w"
  by (auto simp: timers_ok_def)

lemma start_timer_list:
  "timers_ok w \<Longrightarrow> timers (start_timer tps now t w) = (if t \<in> set (timers w) then timers w else t # timers w)"
  by (auto simp: start_timer_def Let_def timers_ok_def)

lemma stop_timer_list:
  "timers_ok w \<Longrightarrow> timers (stop_timer now t w) = remove1 t (timers w)"
  by (auto simp: stop_timer_def Let_def timers_ok_def remove1_idem)

lemma start_timer_of:
  "timer_of (start_timer tps now t w) = (timer_of w)(t := timer_start tps now (timer_of w t))"
  by (auto simp: start_timer_def Let_def)

lemma stop_timer_of:
  "timer_of (stop_timer now t w) =
     (if running (timer_of w t) then (timer_of w)(t := timer_smooth now (timer_of w t)) else timer_of w)"
  by (auto simp: stop_timer_def Let_def)

lemma start_timer_ok [intro]: "timers_ok w \<Longrightarrow> timers_ok (start_timer tps now t w)"
  by (auto simp: timers_ok_def start_timer_def Let_def)

lemma start_timer_fixed_ok [intro]: "timers_ok w \<Longrightarrow> timers_ok (start_timer_fixed tps now t tmo w)"
  by (auto simp: timers_ok_def start_timer_fixed_def start_timer_def Let_def)

lemma stop_timer_ok [intro]: "timers_ok w \<Longrightarrow> timers_ok (stop_timer now t w)"
  by (auto simp: timers_ok_def stop_timer_def Let_def)

lemma timer_expired_ok:
  assumes "timers_ok w" "\<And>t f u. timers_ok u \<Longrightarrow> timers_ok (expired t f u)"
  shows "timers_ok (timer_expired expired tps t w)"
proof -
  have "timers_ok (set_timer t (snd (timer_backoff tps (timer_of w t))) (w\<lparr>timers := remove1 t (timers w)\<rparr>))"
    using assms(1) by (auto simp: timers_ok_def)
  with assms(2) show ?thesis by (simp add: timer_expired_def Let_def case_prod_beta)
qed

lemma retry_poll_ok:
  assumes "timers_ok w" "\<And>t f u. timers_ok u \<Longrightarrow> timers_ok (expired t f u)"
  shows "timers_ok (retry_poll expired tps now w)"
  using assms by (auto simp: retry_poll_def intro: timer_expired_ok split: option.split)

section \<open>Round-trip estimate\<close>

lemma timer_smooth_timeout:
  assumes "count x = 0" "unat (timeout x) < 2 ^ 31"
  shows "unat (timeout (timer_smooth now x)) =
    unat (timeout x) - unat (timeout x) div 8 + unat (now - start x) div 2"
proof -
  let ?t = "timeout x" and ?r = "now - start x"
  have le: "drop_bit 3 ?t \<le> ?t"
    by (simp add: word_le_nat_alt unat_drop_bit_div)
  then have sub: "unat (?t - drop_bit 3 ?t) = unat ?t - unat ?t div 8"
    by (simp add: unat_sub_if' word_le_nat_alt unat_drop_bit_div)
  have "unat ?r < 4294967296" by (rule unat_u32_less)
  then have "unat ?r div 2 < 2 ^ 31" by (simp add: div_less_iff_less_mult)
  then have "unat (?t - drop_bit 3 ?t) + unat (drop_bit 1 ?r) < 2 ^ 32"
    using assms(2) sub by (simp add: unat_drop_bit_div)
  then have "unat (?t - drop_bit 3 ?t + drop_bit 1 ?r) = unat ?t - unat ?t div 8 + unat ?r div 2"
    using sub by (subst unat_add_u32) (simp_all add: unat_drop_bit_div)
  with assms(1) show ?thesis by (simp add: timer_smooth_def Let_def)
qed

lemma smoothing_arith:
  fixes T r :: nat
  defines "T' \<equiv> T - T div 8 + r div 2"
  shows "7 \<le> T \<Longrightarrow> 7 \<le> T'" "4 * r + 7 < T \<Longrightarrow> 4 * r < T' \<and> T' < T"
    "T + 7 < 4 * r \<Longrightarrow> T < T' \<and> T' < 4 * r"
proof -
  obtain q a where T: "T = 8 * q + a" "a < 8" "T div 8 = q"
    by (metis div_mod_decomp mod_less_divisor mult.commute zero_less_numeral)
  obtain p b where r: "r = 2 * p + b" "b < 2" "r div 2 = p"
    by (metis div_mod_decomp mod_less_divisor mult.commute zero_less_numeral)
  have T': "T' = 7 * q + a + p" using T r by (simp add: T'_def)
  show "7 \<le> T \<Longrightarrow> 7 \<le> T'" using T by (cases q) (auto simp: T')
  show "4 * r + 7 < T \<Longrightarrow> 4 * r < T' \<and> T' < T"
  proof -
    assume "4 * r + 7 < T"
    then have "p < q" using T r by linarith
    with T r show ?thesis by (simp add: T')
  qed
  show "T + 7 < 4 * r \<Longrightarrow> T < T' \<and> T' < 4 * r"
  proof -
    assume *: "T + 7 < 4 * r"
    then have "q < p" using T r by linarith
    with * T r show ?thesis by (simp add: T')
  qed
qed

text \<open>
  C7.  Stopping a running timer that has not expired replaces the timeout t by t - t/8 + r/2 for
  a round trip of r ticks.  A timeout of at least MIN_TIMEOUT stays at least MIN_TIMEOUT, and a
  timeout more than 7 ticks away from four round trips moves strictly towards it without passing it.
\<close>

theorem stop_timer_smooths:
  assumes "running (timer_of w t)" "count (timer_of w t) = 0" "unat (timeout (timer_of w t)) < 2 ^ 31"
    and "r = unat (now - start (timer_of w t))" "T = unat (timeout (timer_of w t))"
    and "T' = unat (timeout (timer_of (stop_timer now t w) t))"
  shows "T' = T - T div 8 + r div 2 \<and>
    (unat MIN_TIMEOUT \<le> T \<longrightarrow> unat MIN_TIMEOUT \<le> T') \<and>
    (4 * r + 7 < T \<longrightarrow> 4 * r < T' \<and> T' < T) \<and>
    (T + 7 < 4 * r \<longrightarrow> T < T' \<and> T' < 4 * r)"
proof -
  have eq: "T' = T - T div 8 + r div 2"
    using assms timer_smooth_timeout [of "timer_of w t" now]
    by (simp add: stop_timer_of)
  show ?thesis
    using smoothing_arith [where T = T and r = r] unfolding eq MIN_TIMEOUT_def by simp
qed

definition sample_timer :: "u32 \<Rightarrow> u32 \<Rightarrow> nat retry_timer" where
  "sample_timer tmo st = \<lparr>running = True, timeout = tmo, min_timeout = 0, max_timeout = 0, start = st,
     count = 0, timer_refcnt = Some 0\<rparr>"

definition sample_world :: "(nat \<Rightarrow> nat retry_timer) \<Rightarrow> nat list \<Rightarrow> (nat, nat, nat) timer_world" where
  "sample_world tm ts = \<lparr>rcount = (\<lambda>_. 3), freed = [], run_queue = [],
     proc_of = (\<lambda>_. \<lparr>proc_refcnt = None, reschedule = True\<rparr>), timers = ts, timer_of = tm\<rparr>"

theorem stop_timer_smooths_witness:
  "unat (timeout (timer_of (stop_timer 30 1 (sample_world (\<lambda>_. sample_timer 100 10) [1])) 1)) = 98"
proof -
  let ?w = "sample_world (\<lambda>_. sample_timer 100 10) [1]"
  have w: "timer_of ?w 1 = sample_timer 100 10" by (simp add: sample_world_def)
  have "running (sample_timer 100 10)" "count (sample_timer 100 10) = 0"
    "unat (timeout (sample_timer 100 10)) = 100" "unat (30 - start (sample_timer 100 10)) = 20"
    by (simp_all add: sample_timer_def)
  with stop_timer_smooths [of ?w 1 20 30 100, OF _ _ _ _ _ refl] w show ?thesis by simp
qed

section \<open>Backoff\<close>

text \<open>The bounds that a timer uses when it is started with the given fields.\<close>

definition eff_min :: "u32 \<Rightarrow> 'o retry_timer \<Rightarrow> u32" where
  "eff_min tps x = max MIN_TIMEOUT (if min_timeout x = 0 then DEFAULT_MIN_TIMEOUT tps else min_timeout x)"

definition eff_max :: "u32 \<Rightarrow> 'o retry_timer \<Rightarrow> u32" where
  "eff_max tps x = (if max_timeout x = 0 then DEFAULT_MAX_TIMEOUT tps else max_timeout x)"

lemma MIN_TIMEOUT_eff_min: "MIN_TIMEOUT \<le> eff_min tps x"
  by (simp add: eff_min_def)

lemma timer_start_timeout: "timeout (timer_start tps now x) = max (eff_min tps x) (timeout x)"
  by (auto simp: timer_start_def eff_min_def Let_def max_def)

lemma timer_start_bounds [simp]:
  "eff_min tps (timer_start tps now x) = eff_min tps x"
  "eff_max tps (timer_start tps now x) = eff_max tps x"
  "count (timer_start tps now x) = count x"
  by (auto simp: timer_start_def eff_min_def eff_max_def Let_def max_def MIN_TIMEOUT_def)

lemma timer_backoff_bounds [simp]:
  "eff_min tps (snd (timer_backoff tps x)) = eff_min tps x"
  "eff_max tps (snd (timer_backoff tps x)) = eff_max tps x"
  by (auto simp: timer_backoff_def eff_min_def eff_max_def Let_def max_def)

lemma timer_backoff_timeout:
  assumes "unat (timeout x) < 2 ^ 31"
  shows "unat (timeout (snd (timer_backoff tps x))) = min (2 * unat (timeout x)) (unat (eff_max tps x))"
    and "fst (timer_backoff tps x) \<longleftrightarrow> unat (eff_max tps x) < 2 * unat (timeout x)"
proof -
  have "unat (push_bit 1 (timeout x)) = 2 * unat (timeout x)"
    using assms by (simp add: push_bit_eq_mult unat_mult_lem [THEN iffD1] mult.commute)
  then show "unat (timeout (snd (timer_backoff tps x))) = min (2 * unat (timeout x)) (unat (eff_max tps x))"
    and "fst (timer_backoff tps x) \<longleftrightarrow> unat (eff_max tps x) < 2 * unat (timeout x)"
    by (auto simp: timer_backoff_def eff_max_def Let_def word_less_nat_alt)
qed

text \<open>
  A request that is never answered: the timer is started (at the given times) and expires, again
  and again; for each round, the timeout that was waited for and the failure flag passed to the callback.
\<close>

fun retries :: "u32 \<Rightarrow> u32 list \<Rightarrow> 'o retry_timer \<Rightarrow> (nat \<times> bool) list" where
  "retries tps [] x = []"
| "retries tps (now # nows) x =
     (let x1 = timer_start tps now x; (fail, x2) = timer_backoff tps x1
      in (unat (timeout x1), fail) # retries tps nows x2)"

lemma length_retries [simp]: "length (retries tps nows x) = length nows"
  by (induction nows arbitrary: x) (auto simp: Let_def case_prod_beta)

lemma backoff_arith:
  fixes p T M :: nat
  assumes "1 \<le> p" "0 < T" "T \<le> M"
  shows "min (p * min (2 * T) M) M = min (2 * p * T) M"
    and "M < 2 * p * min (2 * T) M \<longleftrightarrow> M < 4 * p * T"
proof -
  have p: "x \<le> p * x" for x :: nat using assms(1) by (cases p) auto
  show "min (p * min (2 * T) M) M = min (2 * p * T) M"
  proof (cases "2 * T \<le> M")
    case False
    then have "M \<le> p * M" "M \<le> p * (2 * T)" using p [of M] p [of "2 * T"] by linarith+
    then show ?thesis using False by (simp add: min_absorb2 mult.left_commute mult.assoc)
  qed (simp add: min_absorb1 mult.left_commute mult.assoc)
  show "M < 2 * p * min (2 * T) M \<longleftrightarrow> M < 4 * p * T"
  proof (cases "2 * T \<le> M")
    case False
    then have "M < 2 * (p * M)" "M < 2 * (p * (2 * T))"
      using p [of M] p [of "2 * T"] assms(2,3) by linarith+
    then show ?thesis using False by (simp add: min_absorb2 mult.left_commute mult.assoc)
  qed (simp add: min_absorb1 mult.left_commute mult.assoc)
qed



section \<open>Polling\<close>

text \<open>
  Expiry callbacks that leave the timers alone and record in the rest of the state, as \<open>obs\<close> shows it, that they have been called, for which
  timer and with which failure flag.
\<close>

definition leaves_timers ::
  "('t \<Rightarrow> bool \<Rightarrow> ('o, 'p, 't, 'a) timer_world_scheme \<Rightarrow> ('o, 'p, 't, 'a) timer_world_scheme) \<Rightarrow> bool" where
  "leaves_timers expired \<longleftrightarrow>
     (\<forall>t f w. timers (expired t f w) = timers w \<and> timer_of (expired t f w) = timer_of w)"

definition records_expiry ::
  "('a \<Rightarrow> ('t \<times> bool) list) \<Rightarrow>
    ('t \<Rightarrow> bool \<Rightarrow> ('o, 'p, 't, 'a) timer_world_scheme \<Rightarrow> ('o, 'p, 't, 'a) timer_world_scheme) \<Rightarrow> bool" where
  "records_expiry obs expired \<longleftrightarrow>
     (\<forall>t f w. obs (timer_world.more (expired t f w)) = obs (timer_world.more w) @ [(t, f)])"

text \<open>The running timers that are due, in the order of the list.\<close>

definition due_timers :: "u32 \<Rightarrow> ('o, 'p, 't, 'a) timer_world_scheme \<Rightarrow> 't list" where
  "due_timers now w = filter (\<lambda>t. timer_due now (timer_of w t)) (timers w)"

lemma due_timers_Nil: "due_timers now w = [] \<longleftrightarrow> find (\<lambda>t. timer_due now (timer_of w t)) (timers w) = None"
  by (auto simp: due_timers_def filter_empty_conv find_None_iff)

lemma due_timers_Cons:
  assumes "due_timers now w = t # ts"
  shows "find (\<lambda>t. timer_due now (timer_of w t)) (timers w) = Some t"
    "filter (\<lambda>t. timer_due now (timer_of w t)) (remove1 t (timers w)) = ts"
proof -
  let ?P = "\<lambda>t. timer_due now (timer_of w t)"
  have "find ?P xs = Some t \<and> filter ?P (remove1 t xs) = ts" if "filter ?P xs = t # ts" for xs
    using that by (induction xs) (auto split: if_splits dest: filter_eq_ConsD)
  then show "find ?P (timers w) = Some t" "filter ?P (remove1 t (timers w)) = ts"
    using assms by (simp_all add: due_timers_def)
qed

lemma retry_poll_due:
  assumes "leaves_timers expired" "records_expiry obs expired" "distinct (timers w)" "due_timers now w = t # ts"
    and "u = retry_poll expired tps now w"
  shows "timers u = remove1 t (timers w)" "timer_of u = (timer_of w)(t := snd (timer_backoff tps (timer_of w t)))"
    "obs (timer_world.more u) = obs (timer_world.more w) @ [(t, fst (timer_backoff tps (timer_of w t)))]" "due_timers now u = ts"
proof -
  note d = due_timers_Cons [OF assms(4)]
  show u: "timers u = remove1 t (timers w)" "timer_of u = (timer_of w)(t := snd (timer_backoff tps (timer_of w t)))"
    "obs (timer_world.more u) = obs (timer_world.more w) @ [(t, fst (timer_backoff tps (timer_of w t)))]"
    using assms(1,2,5) d(1)
    by (simp_all add: retry_poll_def timer_expired_def leaves_timers_def records_expiry_def Let_def case_prod_beta)
  have "t \<notin> set (remove1 t (timers w))" using assms(3) by simp
  then have "filter (\<lambda>x. timer_due now (timer_of u x)) (remove1 t (timers w)) = filter (\<lambda>x. timer_due now (timer_of w x)) (remove1 t (timers w))"
    using u(2) by (intro filter_cong) auto
  then show "due_timers now u = ts" using d(2) u(1) by (simp add: due_timers_def)
qed

lemma retry_polls:
  assumes "leaves_timers expired" "records_expiry obs expired" "distinct (timers w)" "length (due_timers now w) \<le> n"
    and "w' = (retry_poll expired tps now ^^ n) w"
  shows "set (timers w') = set (timers w) - set (due_timers now w) \<and>
    (\<forall>t. timer_of w' t = (if t \<in> set (due_timers now w) then snd (timer_backoff tps (timer_of w t)) else timer_of w t)) \<and>
    obs (timer_world.more w') = obs (timer_world.more w) @ map (\<lambda>t. (t, fst (timer_backoff tps (timer_of w t)))) (due_timers now w)"
  using assms(3-)
proof (induction n arbitrary: w)
  case (Suc n)
  let ?u = "retry_poll expired tps now w"
  have w': "w' = (retry_poll expired tps now ^^ n) ?u" using Suc.prems(3) by (simp add: funpow_swap1)
  show ?case
  proof (cases "due_timers now w")
    case Nil
    then have "?u = w" using due_timers_Nil [of now w] by (simp add: retry_poll_def)
    then show ?thesis using Suc.IH [of w] Suc.prems(1) Nil w' by simp
  next
    case (Cons t ts)
    note u = retry_poll_due [OF assms(1,2) Suc.prems(1) Cons refl, of tps]
    have sub: "t \<in> set (timers w)" "set ts \<subseteq> set (timers w)" "t \<notin> set ts"
      using Cons distinct_filter [OF Suc.prems(1), of "\<lambda>t. timer_due now (timer_of w t)"] filter_is_subset [of _ "timers w"]
      unfolding due_timers_def by (auto dest!: arg_cong [where f = set])
    have "map (\<lambda>t. (t, fst (timer_backoff tps (timer_of ?u t)))) ts = map (\<lambda>t. (t, fst (timer_backoff tps (timer_of w t)))) ts"
      using sub(3) u(2) by auto
    moreover have "distinct (timers ?u)" "length (due_timers now ?u) \<le> n" using u(1,4) Suc.prems(1,2) Cons by simp_all
    ultimately show ?thesis
      using Suc.IH [OF _ _ w'] u sub Suc.prems(1) Cons by auto
  qed
qed (simp add: due_timers_def)

text \<open>
  C9.  Polling: a call of retry_poll handles at most one expired timer, but no expired timer is
  starved.  As many polls as there are due timers, at the same time and with callbacks that start and stop no timers, call the expiry
  callback of every due timer exactly once, in the order of the list and with the failure flag of its back-off, and stop and back off
  exactly these timers; all others are left running and unchanged.  Further polls change nothing.
\<close>

theorem retry_poll_handles_all_due:
  assumes "leaves_timers expired" "records_expiry obs expired" "timers_ok w"
    and "length (due_timers now w) \<le> n" "w' = (retry_poll expired tps now ^^ n) w"
  shows "obs (timer_world.more w') =
      obs (timer_world.more w) @ map (\<lambda>t. (t, fst (timer_backoff tps (timer_of w t)))) (due_timers now w) \<and>
    (timer_running t w' \<longleftrightarrow> timer_running t w \<and> \<not> timer_due now (timer_of w t)) \<and>
    timer_of w' t = (if timer_running t w \<and> timer_due now (timer_of w t)
      then snd (timer_backoff tps (timer_of w t)) else timer_of w t)"
proof -
  have "distinct (timers w)" using assms(3) by (simp add: timers_ok_def)
  note polls = retry_polls [OF assms(1,2) this assms(4,5)]
  have mem: "t \<in> set (due_timers now w) \<longleftrightarrow> timer_running t w \<and> timer_due now (timer_of w t)"
    using assms(3) by (auto simp: due_timers_def timer_running_def timers_ok_def)
  then have "timer_of w' t = (if timer_running t w \<and> timer_due now (timer_of w t)
      then snd (timer_backoff tps (timer_of w t)) else timer_of w t)"
    using polls by simp
  then show ?thesis using polls by (auto simp: timer_running_def)
qed

definition sample_log :: "(nat, nat, nat, (nat \<times> bool) list) timer_world_scheme" where
  "sample_log = timer_world.extend (sample_world (\<lambda>t. if t = 1 then sample_timer 100 10 else if t = 2 then sample_timer 9 10
     else (sample_timer 9 10)\<lparr>running := False\<rparr>) [1, 2]) []"

theorem retry_poll_handles_all_due_witness:
  "let w' = retry_poll (\<lambda>t f. timer_world.more_update (\<lambda>l. l @ [(t, f)])) 18 20 sample_log
   in timer_world.more w' = [(2, False)] \<and> timer_running 1 w' \<and> \<not> timer_running 2 w'"
proof -
  let ?e = "\<lambda>t f (v :: (nat, nat, nat, (nat \<times> bool) list) timer_world_scheme). timer_world.more_update (\<lambda>l. l @ [(t, f)]) v"
  have w: "timers sample_log = [1, 2]" "timer_world.more sample_log = []" "timer_of sample_log 1 = sample_timer 100 10" "timer_of sample_log 2 = sample_timer 9 10"
    by (simp_all add: sample_log_def sample_world_def timer_world.extend_def)
  have "leaves_timers ?e" "records_expiry id ?e" "timers_ok sample_log"
    by (auto simp: leaves_timers_def records_expiry_def timers_ok_def sample_log_def sample_world_def sample_timer_def timer_world.extend_def)
  moreover have d: "due_timers 20 sample_log = [2]" using w by (simp add: due_timers_def timer_due_def sample_timer_def)
  ultimately have "timer_world.more (retry_poll ?e 18 20 sample_log) = [(2, fst (timer_backoff 18 (sample_timer 9 10)))] \<and>
      (timer_running t (retry_poll ?e 18 20 sample_log) \<longleftrightarrow> timer_running t sample_log \<and> \<not> timer_due 20 (timer_of sample_log t))" for t
    using retry_poll_handles_all_due [of ?e id sample_log 20 1 "retry_poll ?e 18 20 sample_log" 18 t] w by simp
  then show ?thesis using w
    by (simp add: timer_running_def timer_due_def sample_timer_def timer_backoff_def DEFAULT_MAX_TIMEOUT_def Let_def push_bit_eq_mult)
qed

end
