(* ===== verification/Tcpip.thy ===== *)
theory Tcpip
  imports Prelude
begin

text \<open>
  Transport-network layer interface, \<open>net/tcpip.c\<close>: hand-off of packets between the transport and
  the network protocols, the Internet checksum, and binding to a local port.  The protocol tables
  are lists of records whose methods are functions on a state of any type; \<open>random()\<close> is an
  argument.  The checksum is the portable routine of the file, in the byte order of a little-endian
  machine; the assembly version of the x86 build is not modelled.
\<close>

section \<open>Protocol tables\<close>

text \<open>A socket address; the port is kept in host byte order, so that \<open>ntohs\<close> on it is the identity.\<close>

record sockaddr_tcpip =
  st_family :: u16
  st_flags :: u16
  st_port :: u16
  st_pad :: bytes

record 'n net_device_params =
  netdev_name :: 'n
  max_pkt_len :: u32
  ll_header_len :: u32

record ('n, 's) tcpip_protocol =
  tcpip_proto :: u8
  proto_rx :: "bytes \<Rightarrow> 'n \<Rightarrow> sockaddr_tcpip \<Rightarrow> sockaddr_tcpip \<Rightarrow> u16 \<Rightarrow> 's \<Rightarrow> rc \<times> 's"

record ('n, 's) tcpip_net_protocol =
  sa_family :: u16
  header_len :: u32
  net_tx :: "bytes \<Rightarrow> u8 \<Rightarrow> sockaddr_tcpip option \<Rightarrow> sockaddr_tcpip \<Rightarrow> 'n option \<Rightarrow> nat option \<Rightarrow> 's \<Rightarrow> rc \<times> 's"
  net_netdev :: "sockaddr_tcpip \<Rightarrow> 'n net_device_params option"

record ip_statistics =
  in_receives :: u32
  in_octets :: u32
  in_hdr_errors :: u32
  in_addr_errors :: u32
  in_unknown_protos :: u32
  in_truncated_pkts :: u32
  reasm_reqds :: u32
  reasm_oks :: u32
  reasm_fails :: u32
  in_delivers :: u32
  out_requests :: u32
  out_no_routes :: u32
  out_transmits :: u32
  out_octets :: u32
  in_mcast_pkts :: u32
  out_mcast_pkts :: u32
  in_bcast_pkts :: u32
  out_bcast_pkts :: u32

text \<open>The statistics that the network layer passes down are given by the way to update them in the state.\<close>

definition tcpip_rx :: "('n, 's) tcpip_protocol list \<Rightarrow> bytes \<Rightarrow> 'n \<Rightarrow> u8 \<Rightarrow> sockaddr_tcpip \<Rightarrow>
    sockaddr_tcpip \<Rightarrow> u16 \<Rightarrow> ((ip_statistics \<Rightarrow> ip_statistics) \<Rightarrow> 's \<Rightarrow> 's) \<Rightarrow> 's \<Rightarrow> rc \<times> 's" where
  "tcpip_rx protocols iobuf netdev proto st_src st_dest pshdr_csum stats s =
     (case find (\<lambda>tcpip. tcpip_proto tcpip = proto) protocols of
        Some tcpip \<Rightarrow>
          (let s = stats (\<lambda>st. st\<lparr>in_delivers := in_delivers st + 1\<rparr>) s
           in proto_rx tcpip iobuf netdev st_src st_dest pshdr_csum s)
      | None \<Rightarrow>
          (Some EPROTONOSUPPORT, stats (\<lambda>st. st\<lparr>in_unknown_protos := in_unknown_protos st + 1\<rparr>) s))"

definition tcpip_net_protocol_of :: "('n, 's) tcpip_net_protocol list \<Rightarrow> sockaddr_tcpip \<Rightarrow>
    ('n, 's) tcpip_net_protocol option" where
  "tcpip_net_protocol_of nets st_dest = find (\<lambda>tcpip_net. sa_family tcpip_net = st_family st_dest) nets"

definition tcpip_tx :: "('n, 's) tcpip_net_protocol list \<Rightarrow> bytes \<Rightarrow> u8 \<Rightarrow> sockaddr_tcpip option \<Rightarrow>
    sockaddr_tcpip \<Rightarrow> 'n option \<Rightarrow> nat option \<Rightarrow> 's \<Rightarrow> rc \<times> 's" where
  "tcpip_tx nets iobuf proto st_src st_dest netdev trans_csum s =
     (case tcpip_net_protocol_of nets st_dest of
        Some tcpip_net \<Rightarrow> net_tx tcpip_net iobuf proto st_src st_dest netdev trans_csum s
      | None \<Rightarrow> (Some EAFNOSUPPORT, s))"

definition tcpip_netdev :: "('n, 's) tcpip_net_protocol list \<Rightarrow> sockaddr_tcpip \<Rightarrow>
    'n net_device_params option" where
  "tcpip_netdev nets st_dest =
     (case tcpip_net_protocol_of nets st_dest of
        Some tcpip_net \<Rightarrow> net_netdev tcpip_net st_dest
      | None \<Rightarrow> None)"

definition tcpip_mtu :: "('n, 's) tcpip_net_protocol list \<Rightarrow> sockaddr_tcpip \<Rightarrow> u32" where
  "tcpip_mtu nets st_dest =
     (case tcpip_net_protocol_of nets st_dest of
        None \<Rightarrow> 0
      | Some tcpip_net \<Rightarrow>
          (case net_netdev tcpip_net st_dest of
             None \<Rightarrow> 0
           | Some netdev \<Rightarrow> max_pkt_len netdev - ll_header_len netdev - header_len tcpip_net))"

section \<open>Checksum\<close>

text \<open>Byte order of the 16-bit conversions on a little-endian machine.\<close>

definition le16_to_cpu :: "u32 \<Rightarrow> u32" where
  "le16_to_cpu value = value AND 0xffff"

definition be16_to_cpu :: "u32 \<Rightarrow> u32" where
  "be16_to_cpu value = (push_bit 8 value OR drop_bit 8 (value AND 0xff00)) AND 0xffff"

fun chksum_loop :: "nat \<Rightarrow> u32 \<Rightarrow> bytes \<Rightarrow> u32" where
  "chksum_loop i cksum [] = cksum"
| "chksum_loop i cksum (b # data) =
     (let value = ucast b;
          value = (if odd i then be16_to_cpu value else le16_to_cpu value);
          cksum = cksum + value;
          cksum = (if 0xffff < cksum then cksum - 0xffff else cksum)
      in chksum_loop (i + 1) cksum data)"

definition generic_tcpip_continue_chksum :: "u16 \<Rightarrow> bytes \<Rightarrow> u16" where
  "generic_tcpip_continue_chksum partial data =
     ucast (NOT (chksum_loop 0 (NOT (ucast partial) AND 0xffff) data))"

definition TCPIP_EMPTY_CSUM :: u16 where
  "TCPIP_EMPTY_CSUM = 0xffff"

definition tcpip_chksum :: "bytes \<Rightarrow> u16" where
  "tcpip_chksum data = generic_tcpip_continue_chksum TCPIP_EMPTY_CSUM data"

section \<open>Binding\<close>

definition TCPIP_BIND_PRIVILEGED :: u16 where
  "TCPIP_BIND_PRIVILEGED = 0x0400"

text \<open>
  The search loop, with the number of iterations left: \<open>Inr port\<close> is a port number, \<open>Inl e\<close> a
  negative error.
\<close>

fun bind_loop :: "nat \<Rightarrow> (u16 \<Rightarrow> errno + u16) \<Rightarrow> u16 \<Rightarrow> u16 \<Rightarrow> u32 \<Rightarrow> u32 \<Rightarrow> errno + u16" where
  "bind_loop 0 available min_port max_port offset i = Inl EADDRINUSE"
| "bind_loop (Suc n) available min_port max_port offset i =
     (let try_port = ucast ((i + offset) AND ucast max_port) in
      if try_port < min_port then bind_loop n available min_port max_port offset (i + 1)
      else case available try_port of
          Inl _ \<Rightarrow> bind_loop n available min_port max_port offset (i + 1)
        | Inr _ \<Rightarrow> Inr try_port)"

definition tcpip_bind :: "u32 \<Rightarrow> sockaddr_tcpip option \<Rightarrow> (u16 \<Rightarrow> errno + u16) \<Rightarrow> errno + u16" where
  "tcpip_bind rnd st_local available =
     (let (flags, try_port) = (case st_local of Some a \<Rightarrow> (st_flags a, st_port a) | None \<Rightarrow> (0, 0)) in
      if try_port \<noteq> 0 then available try_port
      else
        (let min_port = ((if flags = 0 then 1 else 0) AND TCPIP_BIND_PRIVILEGED) + 1;
             max_port = (flags AND TCPIP_BIND_PRIVILEGED) - 1;
             offset = rnd
         in bind_loop (unat max_port + 1) available min_port max_port offset 0))"

section \<open>The checksum as a sum modulo 65535\<close>

text \<open>
  The reference: the sum of the little-endian 16-bit words, reduced to the range 1 to 65535 with
  zero kept only for the empty sum.
\<close>

fun word_sum :: "bytes \<Rightarrow> nat" where
  "word_sum [] = 0"
| "word_sum [b] = unat b"
| "word_sum (b # c # data) = unat b + 256 * unat c + word_sum data"

definition fold16 :: "nat \<Rightarrow> nat" where
  "fold16 n = (if n = 0 then 0 else (n - 1) mod 65535 + 1)"

lemma fold16_small: "n \<le> 65535 \<Longrightarrow> fold16 n = n"
  by (simp add: fold16_def)

lemma fold16_le: "fold16 n \<le> 65535"
  by (simp add: fold16_def Suc_le_eq)

lemma fold16_mod: "fold16 n mod 65535 = n mod 65535"
  by (cases n) (simp_all add: fold16_def mod_Suc_eq)

lemma fold16_0 [simp]: "fold16 n = 0 \<longleftrightarrow> n = 0"
  by (simp add: fold16_def)

lemma fold16_decomp: obtains k where "n = fold16 n + 65535 * k"
proof (cases n)
  case (Suc m)
  then have "n = fold16 n + 65535 * (m div 65535)"
    by (simp add: fold16_def mod_mult_div_eq)
  then show ?thesis by (rule that)
qed (simp add: that)

lemma fold16_unique:
  assumes "m \<le> 65535" "m mod 65535 = n mod 65535" "m = 0 \<longleftrightarrow> n = 0"
  shows "m = fold16 n"
proof (cases "m = 65535 \<or> m = 0")
  case True
  with assms show ?thesis
  proof (cases "m = 0")
    case False
    then have "m = 65535" "n mod 65535 = 0" "n \<noteq> 0" using True assms by auto
    then obtain k where "n = 65535 * k" "k \<noteq> 0" by (auto elim: dvdE)
    then obtain j where "n = 65535 * j + 65534 + 1" by (cases k) auto
    then show ?thesis using \<open>m = 65535\<close> by (simp add: fold16_def)
  qed (simp add: fold16_def)
next
  case False
  then have "m < 65535" using assms(1) by simp
  moreover have "fold16 n \<noteq> 65535"
    using assms False fold16_mod [of n] by (auto simp: \<open>m < 65535\<close>)
  ultimately show ?thesis
    using assms fold16_mod [of n] fold16_le [of n] by (metis le_neq_implies_less mod_less)
qed

lemma fold16_add: "fold16 (fold16 m + n) = fold16 (m + n)"
  by (rule fold16_unique [OF fold16_le]) (simp_all add: fold16_mod mod_simps,
      metis fold16_mod mod_add_left_eq)

lemma masks: "(0xffff :: u32) = mask 16" "(0xff00 :: u32) = push_bit 8 (mask 8)"
  by (simp_all add: mask_eq_exp_minus_1 push_bit_eq_mult)

lemma unat_le16: "unat (le16_to_cpu (ucast (b :: u8))) = unat b"
proof -
  have "le16_to_cpu (ucast b) = ucast b"
    by (rule bit_word_eqI) (auto simp: le16_to_cpu_def masks bit_simps dest: bit_imp_le_length)
  then show ?thesis by simp
qed

lemma unat_be16: "unat (be16_to_cpu (ucast (b :: u8))) = 256 * unat b"
proof -
  have "be16_to_cpu (ucast b) = push_bit 8 (ucast b)"
    by (rule bit_word_eqI) (auto simp: be16_to_cpu_def masks bit_simps dest: bit_imp_le_length simp del: push_bit_numeral)
  moreover have "unat (ucast b * 256 :: u32) = unat b * 256"
    using unat_u8_less [of b] by (simp add: unat_word_ariths)
  ultimately show ?thesis by (simp add: push_bit_eq_mult)
qed

lemma chksum_add:
  assumes "unat (c :: u32) \<le> 65535" "unat (v :: u32) \<le> 65535"
  shows "unat (if 0xffff < c + v then c + v - 0xffff else c + v) = fold16 (unat c + unat v)"
proof -
  have cv: "unat (c + v) = unat c + unat v" using assms by (simp add: unat_add_u32)
  show ?thesis
  proof (cases "unat c + unat v \<le> 65535")
    case True
    then show ?thesis by (simp add: word_less_nat_alt cv fold16_small)
  next
    case False
    then have "(unat c + unat v - 1) mod 65535 = unat c + unat v - 1 - 65535"
      using assms by (simp add: mod_if)
    then have "fold16 (unat c + unat v) = unat c + unat v - 65535"
      using False unfolding fold16_def by (simp only: if_not_P)
    then show ?thesis using False by (simp add: word_less_nat_alt cv unat_sub_u32)
  qed
qed

lemma chksum_loop_even:
  "even i \<Longrightarrow> unat c \<le> 65535 \<Longrightarrow> unat (chksum_loop i c data) = fold16 (unat c + word_sum data)"
proof (induction data arbitrary: i c rule: word_sum.induct)
  case 1
  then show ?case by (simp add: fold16_small)
next
  case (2 b)
  have "unat b < 256" by (rule unat_u8_less)
  with 2 chksum_add [of c "le16_to_cpu (ucast b)"] show ?case by (simp add: unat_le16 Let_def)
next
  case (3 b d data)
  let ?c1 = "if 0xffff < c + le16_to_cpu (ucast b) then c + le16_to_cpu (ucast b) - 0xffff
             else c + le16_to_cpu (ucast b)"
  let ?c2 = "if 0xffff < ?c1 + be16_to_cpu (ucast d) then ?c1 + be16_to_cpu (ucast d) - 0xffff
             else ?c1 + be16_to_cpu (ucast d)"
  have b: "unat b < 256" "unat d < 256"
    by (rule unat_u8_less)+
  have c1: "unat ?c1 = fold16 (unat c + unat b)"
    using "3.prems" b chksum_add [of c "le16_to_cpu (ucast b)"] by (simp add: unat_le16)
  then have c2: "unat ?c2 = fold16 (unat c + unat b + 256 * unat d)"
    using b chksum_add [of ?c1 "be16_to_cpu (ucast d)"] fold16_le
    by (simp add: unat_be16 fold16_add)
  have "unat (chksum_loop (Suc (Suc i)) ?c2 data) = fold16 (unat ?c2 + word_sum data)"
    using "3.prems" c2 fold16_le by (intro "3.IH") simp_all
  then show ?case using "3.prems"(1) unfolding c2 by (simp add: Let_def fold16_add add.assoc)
qed

lemma not_16: "unat (NOT (p :: u16)) = 65535 - unat p"
proof -
  have "NOT p = 65535 - p" by (simp add: not_eq_complement)
  moreover have "unat p < 65536" using unsigned_less [of p] by simp
  ultimately show ?thesis by (simp add: unat_sub_if' word_le_nat_alt)
qed

lemma continue_chksum_value:
  "unat (generic_tcpip_continue_chksum p data) = 65535 - fold16 (65535 - unat p + word_sum data)"
proof -
  let ?c = "NOT (ucast p) AND 0xffff :: u32"
  have p: "?c = ucast (NOT p)"
    by (rule bit_word_eqI) (auto simp: masks bit_simps)
  then have "unat ?c = 65535 - unat p"
    by (simp add: unsigned_ucast_eq not_16 take_bit_eq_mod)
  then have l: "unat (chksum_loop 0 ?c data) = fold16 (65535 - unat p + word_sum data)"
    by (simp add: chksum_loop_even)
  have "ucast (NOT (chksum_loop 0 ?c data)) = (NOT (ucast (chksum_loop 0 ?c data)) :: u16)"
    by (rule bit_word_eqI) (simp add: bit_simps)
  moreover have "unat (ucast (chksum_loop 0 ?c data) :: u16) = fold16 (65535 - unat p + word_sum data)"
    using fold16_le [of "65535 - unat p + word_sum data"] l
    by (simp add: unsigned_ucast_eq take_bit_eq_mod)
  ultimately show ?thesis
    by (simp add: generic_tcpip_continue_chksum_def not_16)
qed

lemma word_sum_append: "even (length xs) \<Longrightarrow> word_sum (xs @ ys) = word_sum xs + word_sum ys"
  by (induction xs rule: word_sum.induct) auto

section \<open>What users of a checksum rely on\<close>

text \<open>Storing a 16-bit checksum into a header field at byte offset \<open>n\<close>.\<close>

definition put_csum :: "nat \<Rightarrow> u16 \<Rightarrow> bytes \<Rightarrow> bytes" where
  "put_csum n c data = data[n := ucast c, n + 1 := ucast (drop_bit 8 c)]"

lemma put_csum_twice: "put_csum n c (put_csum n d seg) = put_csum n c seg"
  by (simp add: put_csum_def list_update_swap)

lemma word_sum_split:
  assumes "even n" "n + 2 \<le> length data"
  shows "word_sum data = word_sum (take n data) + unat (data ! n) + 256 * unat (data ! (n + 1)) +
    word_sum (drop (n + 2) data)"
proof -
  have "data = take n data @ [data ! n, data ! (n + 1)] @ drop (n + 2) data"
    using assms(2) by (metis Cons_nth_drop_Suc Suc_1 Suc_eq_plus1 Suc_le_lessD add_Suc_right
        append_Cons append_Nil append_take_drop_id le_Suc_eq less_Suc_eq_le less_or_eq_imp_le)
  moreover have "even (length (take n data))" using assms by simp
  ultimately show ?thesis
    using word_sum_append [of "take n data" "[data ! n, data ! (n + 1)] @ drop (n + 2) data"] by simp
qed

lemma unat_u16_bytes: "unat (ucast c :: u8) + 256 * unat (ucast (drop_bit 8 c) :: u8) = unat (c :: u16)"
proof -
  have c: "unat c < 65536" using unsigned_less [of c] by simp
  have "unat (ucast c :: u8) = unat c mod 256"
    by (simp add: unsigned_ucast_eq take_bit_eq_mod)
  moreover have "unat (ucast (drop_bit 8 c) :: u8) = unat c div 256"
  proof -
    have "unat (drop_bit 8 c) = unat c div 2 ^ 8" by (metis unat_drop_bit_eq drop_bit_eq_div)
    then have "unat (drop_bit 8 c) mod 256 = unat c div 256"
      using c by (simp add: less_mult_imp_div_less)
    then show ?thesis by (simp add: unsigned_ucast_eq take_bit_eq_mod)
  qed
  ultimately show ?thesis by simp
qed

lemma word_sum_put_csum:
  assumes "even n" "n + 2 \<le> length data" "data ! n = 0" "data ! (n + 1) = 0"
  shows "word_sum (put_csum n c data) = word_sum data + unat c"
  using assms word_sum_split [of n data] word_sum_split [of n "put_csum n c data"] unat_u16_bytes [of c]
  by (simp add: put_csum_def)

locale checksum =
  fixes chk :: "u16 \<Rightarrow> bytes \<Rightarrow> u16"
  assumes chk_value: "unat (chk p data) = 65535 - fold16 (65535 - unat p + word_sum data)"
begin

lemma chk_append: "even (length xs) \<Longrightarrow> chk (chk p xs) ys = chk p (xs @ ys)"
  using fold16_le [of "65535 - unat p + word_sum xs"]
  by (simp add: word_unat_eq_iff chk_value word_sum_append fold16_add add.assoc)

lemma chk_verify:
  assumes "even n" "n + 2 \<le> length data" "data ! n = 0" "data ! (n + 1) = 0" "even (length ps)"
  shows "chk (chk 0xffff ps) (put_csum n (chk (chk 0xffff data) ps) data) = 0"
proof -
  let ?S = "word_sum data + word_sum ps"
  have c: "unat (chk (chk 0xffff data) ps) = 65535 - fold16 ?S"
    using fold16_le [of "word_sum data"] by (simp add: chk_value fold16_add)
  have le: "fold16 ?S \<le> 65535" by (rule fold16_le)
  let ?m = "word_sum ps + (word_sum data + (65535 - fold16 ?S))"
  have "?m mod 65535 = 0"
  proof -
    obtain k where k: "?S = fold16 ?S + 65535 * k" by (rule fold16_decomp)
    define f where "f = fold16 ?S"
    have "word_sum ps + (word_sum data + (65535 - f)) = 65535 * (k + 1)"
      using k le unfolding f_def [symmetric] by simp
    then have "?m = 65535 * (k + 1)" by (simp only: f_def)
    then show ?thesis by simp
  qed
  moreover have "?m \<noteq> 0"
  proof (cases "?S = 0")
    case True
    then show ?thesis by (simp add: fold16_def)
  qed auto
  ultimately have "fold16 ?m = 65535"
    by (metis fold16_unique le_refl mod_self zero_neq_numeral)
  moreover have "unat (chk (chk 0xffff ps) D) = 65535 - fold16 (word_sum ps + word_sum D)" for D
    using fold16_le [of "word_sum ps"] by (simp add: chk_value fold16_add)
  ultimately show ?thesis
    by (simp only: word_unat_eq_iff word_sum_put_csum [OF assms(1-4)] c unat_0 diff_self_eq_0)
qed

end

interpretation ck: checksum generic_tcpip_continue_chksum
  by unfold_locales (rule continue_chksum_value)

text \<open>
  C10.  The checksum routine computes the one's complement of the sum of the 16-bit words modulo
  65535 (with 0 for the empty sum only), on top of any partial checksum; and over data that starts
  with an even number of bytes it can be computed in two parts.  A packet whose checksum field was zero
  when the checksum was taken, then continued over a pseudo-header of even length and stored into the
  field, is accepted by a receiver: the checksum over the pseudo-header and the packet is zero.
\<close>

theorem continue_chksum_correct:
  "unat (generic_tcpip_continue_chksum p data) = 65535 - fold16 (65535 - unat p + word_sum data) \<and>
   (even (length xs) \<longrightarrow> generic_tcpip_continue_chksum (generic_tcpip_continue_chksum p xs) ys =
      generic_tcpip_continue_chksum p (xs @ ys)) \<and>
   (even n \<and> n + 2 \<le> length data \<and> data ! n = 0 \<and> data ! (n + 1) = 0 \<and> even (length xs) \<longrightarrow>
      generic_tcpip_continue_chksum (tcpip_chksum xs) (put_csum n (generic_tcpip_continue_chksum (tcpip_chksum data) xs) data) = 0)"
  using ck.chk_append ck.chk_value ck.chk_verify by (simp add: tcpip_chksum_def TCPIP_EMPTY_CSUM_def)

theorem continue_chksum_correct_witness:
  "generic_tcpip_continue_chksum (generic_tcpip_continue_chksum 0 [1, 2]) [3 :: u8] = generic_tcpip_continue_chksum 0 [1, 2, 3] \<and>
   generic_tcpip_continue_chksum (tcpip_chksum [9, 8, 7, 6])
     (put_csum 2 (generic_tcpip_continue_chksum (tcpip_chksum [1, 2, 0, 0, 7]) [9, 8, 7, 6]) [1, 2, 0, 0, 7 :: u8]) = 0"
  using continue_chksum_correct [of 0 "[]" "[1, 2]" "[3]" 0] continue_chksum_correct [of 0 "[1, 2, 0, 0, 7]" "[9, 8, 7, 6]" "[]" 2] by simp

section \<open>Binding to a port\<close>

lemma bind_loop_Inr:
  "bind_loop n available lo hi offset i = Inr p \<Longrightarrow>
     lo \<le> p \<and> (\<exists>q. available p = Inr q) \<and> (\<exists>j. p = ucast ((j + offset) AND ucast hi))"
  by (induction n arbitrary: i) (auto simp: Let_def not_less split: if_splits sum.splits)

lemma bind_loop_Inl:
  "bind_loop n available lo hi offset i = Inl e \<Longrightarrow>
     e = EADDRINUSE \<and> (\<forall>k < n. let p = ucast ((i + of_nat k + offset) AND ucast hi) in
       lo \<le> p \<longrightarrow> (\<exists>f. available p = Inl f))"
proof (induction n arbitrary: i)
  case (Suc n)
  let ?p = "ucast ((i + offset) AND ucast hi) :: u16"
  have "bind_loop n available lo hi offset (i + 1) = Inl e" "lo \<le> ?p \<longrightarrow> (\<exists>f. available ?p = Inl f)"
    using Suc.prems by (auto simp: Let_def not_less split: if_splits sum.splits)
  with Suc.IH [of "i + 1"] show ?case
    by (auto simp: Let_def less_Suc_eq_0_disj add.assoc)
qed simp

lemma take_bit_add_u32:
  "k \<le> 32 \<Longrightarrow> take_bit k (take_bit k a + b) = take_bit k (a + b :: u32)"
proof -
  assume "k \<le> 32"
  then have "(2 :: nat) ^ k dvd 2 ^ 32" by (rule le_imp_power_dvd)
  then have "x mod 4294967296 mod 2 ^ k = x mod 2 ^ k" for x :: nat
    using mod_mod_cancel [of "2 ^ k" "2 ^ 32" x] by simp
  then show ?thesis
    by (simp add: word_unat_eq_iff take_bit_u32_unat unat_word_ariths mod_add_left_eq)
qed

lemma port_reached:
  assumes "max_port = mask k" "unat max_port + 1 = 2 ^ k" "p \<le> (max_port :: u16)"
  shows "\<exists>j < unat max_port + 1. ucast ((of_nat j + offset) AND ucast max_port :: u32) = p"
proof -
  let ?j = "take_bit k (ucast p - offset :: u32)"
  have k: "k \<le> 16"
  proof -
    have "unat max_port < 65536" using unsigned_less [of max_port] by simp
    then have "(2 :: nat) ^ k \<le> 2 ^ 16" using assms(2) by simp
    then show ?thesis using power_increasing_iff [of "2 :: nat" k 16] by simp
  qed
  then have m: "ucast max_port = (mask k :: u32)"
    using assms(1) by (auto intro!: bit_word_eqI simp: bit_simps)
  have "unat p < 2 ^ k"
    using assms(2,3) by (simp add: word_le_nat_alt)
  then have pk: "take_bit k p = p"
    by (simp add: word_unat_eq_iff unsigned_take_bit_eq take_bit_nat_eq_self)
  have "(?j + offset) AND mask k = take_bit k (ucast p)"
    using k by (simp add: take_bit_add_u32 flip: take_bit_eq_mask)
  moreover have "ucast (take_bit k (ucast p :: u32)) = take_bit k p"
    by (auto intro!: bit_word_eqI simp: bit_simps)
  ultimately have "ucast ((?j + offset) AND ucast max_port) = p"
    using pk m by simp
  moreover have "unat ?j < unat max_port + 1"
    unfolding assms(2) by (simp add: take_bit_u32_unat)
  ultimately show ?thesis by (intro exI [of _ "unat ?j"]) simp
qed

lemma tcpip_bind_auto:
  assumes "st_local = None \<or> (\<exists>a. st_local = Some a \<and> st_port a = 0)"
    and "flags = (case st_local of None \<Rightarrow> 0 | Some a \<Rightarrow> st_flags a)"
    and "limit = (if flags AND TCPIP_BIND_PRIVILEGED = 0 then 65535 else 1023 :: u16)"
  shows "case tcpip_bind rnd st_local available of
      Inr p \<Rightarrow> 1 \<le> p \<and> p \<le> limit \<and> (\<exists>q. available p = Inr q)
    | Inl e \<Rightarrow> e = EADDRINUSE \<and> (\<forall>p. 1 \<le> p \<and> p \<le> limit \<longrightarrow> (\<exists>f. available p = Inl f))"
proof -
  have "x AND 2 ^ n = (if bit x n then 2 ^ n else 0)" for x :: u16 and n
    by (auto intro!: bit_word_eqI simp: bit_simps)
  from this [of flags 10] have priv: "flags AND TCPIP_BIND_PRIVILEGED = (if bit flags 10 then 0x400 else 0)"
    by (simp add: TCPIP_BIND_PRIVILEGED_def)
  then have limit: "(flags AND TCPIP_BIND_PRIVILEGED) - 1 = limit"
    unfolding assms(3) priv by (cases "bit flags 10") simp_all
  have k: "limit = mask (if bit flags 10 then 10 else 16)"
    "unat limit + 1 = 2 ^ (if bit flags 10 then 10 else 16)"
    using priv assms(3) by (auto simp: mask_eq_exp_minus_1)
  have lo: "((if flags = 0 then 1 else 0) AND TCPIP_BIND_PRIVILEGED) + 1 = 1"
    by (simp add: TCPIP_BIND_PRIVILEGED_def)
  define n where "n = unat limit + 1"
  have bind: "tcpip_bind rnd st_local available = bind_loop n available 1 limit rnd 0"
    using assms(1,2) unfolding tcpip_bind_def n_def limit [symmetric]
    using lo by (auto simp: Let_def TCPIP_BIND_PRIVILEGED_def simp del: bind_loop.simps)
  show ?thesis
  proof (cases "tcpip_bind rnd st_local available")
    case (Inr p)
    have "ucast ((j + rnd) AND ucast limit) \<le> limit" for j :: u32
    proof -
      have "ucast ((j + rnd) AND ucast limit) = take_bit (if bit flags 10 then 10 else 16) (ucast (j + rnd) :: u16)"
        unfolding k(1) by (auto intro!: bit_word_eqI simp: bit_simps)
      moreover have "unat (take_bit i x) < 2 ^ i" for i and x :: u16
        by (simp add: unsigned_take_bit_eq)
      ultimately show ?thesis using k(2) by (metis Suc_eq_plus1 less_Suc_eq_le word_le_nat_alt)
    qed
    with Inr bind_loop_Inr [of n available 1 limit rnd 0 p] bind show ?thesis by auto
  next
    case (Inl e)
    then have "e = EADDRINUSE" and all: "\<forall>j < n. let p = ucast ((of_nat j + rnd) AND ucast limit) in
        1 \<le> p \<longrightarrow> (\<exists>f. available p = Inl f)"
      using bind_loop_Inl [of n available 1 limit rnd 0 e] bind by simp_all
    moreover have "\<exists>f. available p = Inl f" if "1 \<le> p" "p \<le> limit" for p
      using port_reached [OF k that(2), of rnd, folded n_def] all that(1) by (auto simp: Let_def)
    ultimately show ?thesis using Inl by simp
  qed
qed



text \<open>
  The range of ports is not the one the source describes: a socket that does not ask for a
  privileged port can be bound to one, because the logical negation in the lower bound always
  yields 1.
\<close>

lemma tcpip_bind_unprivileged_low:
  "tcpip_bind 22 None Inr = Inr 22"
proof -
  have "ucast (22 AND ucast (- 1 :: u16) :: u32) = (22 :: u16)"
  proof -
    have "22 AND ucast (- 1 :: u16) = (22 :: u32)"
      using masks(1) by (simp add: unsigned_minus_1_eq_mask)
    then show ?thesis by simp
  qed
  then show ?thesis
    by (simp add: tcpip_bind_def TCPIP_BIND_PRIVILEGED_def Let_def)
qed

end
