(* ===== verification/Tcp.thy ===== *)
theory Tcp
  imports Retry Tcpip
begin

text \<open>
  The TCP protocol, \<open>net/tcp.c\<close> and \<open>ipxe/tcp.h\<close>: the connection record, the transmit and receive
  paths, the timers and the cache discarder, one definition per function of the source.

  The state is a store of connections with the list \<open>tcp_conns\<close>, on top of the reference counts, the
  process queue and the retry timers of the theories below; the timers of connection \<open>i\<close> are named
  \<open>(i, Retransmit)\<close> and \<open>(i, TimeWait)\<close>, its process and its reference count \<open>i\<close>.  The payload of an I/O buffer is a
  list of bytes.  What the code asks of the outside is answered by an environment: an answer
  is a function of the number of questions asked so far (the field \<open>clock\<close>), so that the theorems hold
  for every behaviour of the outside.  What passes between the code and the outside is recorded in \<open>trace\<close>, latest first.
  A function that may fail to return has an optional result.
\<close>

section \<open>Constants of \<open>ipxe/tcp.h\<close>\<close>

definition TCP_ACK :: u32 where "TCP_ACK = 0x10"
definition TCP_PSH :: u32 where "TCP_PSH = 0x08"
definition TCP_RST :: u32 where "TCP_RST = 0x04"
definition TCP_SYN :: u32 where "TCP_SYN = 0x02"
definition TCP_FIN :: u32 where "TCP_FIN = 0x01"

definition TCP_STATE_SENT :: "u32 \<Rightarrow> u32" where "TCP_STATE_SENT fl = push_bit 0 fl"
definition TCP_FLAGS_SENT :: "u32 \<Rightarrow> u32" where "TCP_FLAGS_SENT state = drop_bit 0 state AND 0xff"
definition TCP_STATE_ACKED :: "u32 \<Rightarrow> u32" where "TCP_STATE_ACKED fl = push_bit 8 fl"
definition TCP_FLAGS_ACKED :: "u32 \<Rightarrow> u32" where "TCP_FLAGS_ACKED state = drop_bit 8 state AND 0xff"
definition TCP_STATE_RCVD :: "u32 \<Rightarrow> u32" where "TCP_STATE_RCVD fl = push_bit 16 fl"
definition TCP_FLAGS_RCVD :: "u32 \<Rightarrow> u32" where "TCP_FLAGS_RCVD state = drop_bit 16 state AND 0xff"

definition TCP_FLAGS_SENDING :: "u32 \<Rightarrow> u32" where
  "TCP_FLAGS_SENDING state = TCP_FLAGS_SENT state AND NOT (TCP_FLAGS_ACKED state)"

definition TCP_CLOSED :: u32 where "TCP_CLOSED = TCP_RST"
definition TCP_LISTEN :: u32 where "TCP_LISTEN = 0"
definition TCP_SYN_SENT :: u32 where "TCP_SYN_SENT = TCP_STATE_SENT TCP_SYN"

definition TCP_SYN_RCVD :: u32 where
  "TCP_SYN_RCVD = TCP_STATE_SENT (TCP_SYN OR TCP_ACK) OR TCP_STATE_RCVD TCP_SYN"

definition TCP_ESTABLISHED :: u32 where
  "TCP_ESTABLISHED = TCP_STATE_SENT (TCP_SYN OR TCP_ACK) OR TCP_STATE_ACKED TCP_SYN OR
     TCP_STATE_RCVD TCP_SYN"

definition TCP_FIN_WAIT_1 :: u32 where
  "TCP_FIN_WAIT_1 = TCP_STATE_SENT (TCP_SYN OR TCP_ACK OR TCP_FIN) OR TCP_STATE_ACKED TCP_SYN OR
     TCP_STATE_RCVD TCP_SYN"

definition TCP_FIN_WAIT_2 :: u32 where
  "TCP_FIN_WAIT_2 = TCP_STATE_SENT (TCP_SYN OR TCP_ACK OR TCP_FIN) OR
     TCP_STATE_ACKED (TCP_SYN OR TCP_FIN) OR TCP_STATE_RCVD TCP_SYN"

definition TCP_CLOSING_OR_LAST_ACK :: u32 where
  "TCP_CLOSING_OR_LAST_ACK = TCP_STATE_SENT (TCP_SYN OR TCP_ACK OR TCP_FIN) OR
     TCP_STATE_ACKED TCP_SYN OR TCP_STATE_RCVD (TCP_SYN OR TCP_FIN)"

definition TCP_TIME_WAIT :: u32 where
  "TCP_TIME_WAIT = TCP_STATE_SENT (TCP_SYN OR TCP_ACK OR TCP_FIN) OR
     TCP_STATE_ACKED (TCP_SYN OR TCP_FIN) OR TCP_STATE_RCVD (TCP_SYN OR TCP_FIN)"

definition TCP_CLOSE_WAIT :: u32 where
  "TCP_CLOSE_WAIT = TCP_STATE_SENT (TCP_SYN OR TCP_ACK) OR TCP_STATE_ACKED TCP_SYN OR
     TCP_STATE_RCVD (TCP_SYN OR TCP_FIN)"

definition TCP_CAN_SEND_DATA :: "u32 \<Rightarrow> bool" where
  "TCP_CAN_SEND_DATA state \<longleftrightarrow>
     state AND (TCP_STATE_ACKED TCP_SYN OR TCP_STATE_SENT TCP_FIN) = TCP_STATE_ACKED TCP_SYN"

definition TCP_HAS_BEEN_ESTABLISHED :: "u32 \<Rightarrow> bool" where
  "TCP_HAS_BEEN_ESTABLISHED state \<longleftrightarrow>
     state AND (TCP_STATE_ACKED TCP_SYN OR TCP_STATE_RCVD TCP_SYN) =
       (TCP_STATE_ACKED TCP_SYN OR TCP_STATE_RCVD TCP_SYN)"

definition TCP_CLOSED_GRACEFULLY :: "u32 \<Rightarrow> bool" where
  "TCP_CLOSED_GRACEFULLY state \<longleftrightarrow>
     state AND (TCP_STATE_ACKED TCP_FIN OR TCP_STATE_RCVD TCP_FIN) =
       (TCP_STATE_ACKED TCP_FIN OR TCP_STATE_RCVD TCP_FIN)"

definition TCP_MASK_HLEN :: u8 where "TCP_MASK_HLEN = 0xf0"
definition TCP_RX_WINDOW_SCALE :: u8 where "TCP_RX_WINDOW_SCALE = 9"
definition TCP_MAX_WINDOW_SIZE :: u32 where "TCP_MAX_WINDOW_SIZE = 256 * 1024"
definition TCP_PATH_MTU :: u32 where "TCP_PATH_MTU = 1280 - 40 - 20 - 12"
definition TCP_MSL :: "u32 \<Rightarrow> u32" where "TCP_MSL tps = 2 * 60 * tps"

definition TCP_OPTION_END :: u8 where "TCP_OPTION_END = 0"
definition TCP_OPTION_NOP :: u8 where "TCP_OPTION_NOP = 1"
definition TCP_OPTION_MSS :: u8 where "TCP_OPTION_MSS = 2"
definition TCP_OPTION_WS :: u8 where "TCP_OPTION_WS = 3"
definition TCP_OPTION_TS :: u8 where "TCP_OPTION_TS = 8"

definition TCP_XFER_CLOSED :: u32 where "TCP_XFER_CLOSED = 0x0001"
definition TCP_TS_ENABLED :: u32 where "TCP_TS_ENABLED = 0x0002"
definition TCP_ACK_PENDING :: u32 where "TCP_ACK_PENDING = 0x0004"

definition tcp_cmp :: "u32 \<Rightarrow> u32 \<Rightarrow> int" where
  "tcp_cmp seq1 seq2 = sint (seq1 - seq2)"

definition tcp_in_window :: "u32 \<Rightarrow> u32 \<Rightarrow> u32 \<Rightarrow> bool" where
  "tcp_in_window seq st len \<longleftrightarrow> seq - st < len"

section \<open>State\<close>

datatype tcp_timer = Retransmit | TimeWait

text \<open>A packet on the receive queue: the internal header and the payload.\<close>

record tcp_rx_queued =
  q_seq :: u32
  q_flags :: u8
  q_data :: bytes

text \<open>
  A connection.  \<open>xfer_open\<close> is true while the data transfer interface \<open>xfer\<close> has its own descriptor
  and is plugged into the application; \<open>plugged\<close> while the interface of the application is plugged into \<open>xfer\<close>.
\<close>

record tcp_connection =
  tflags :: u32
  xfer_open :: bool
  plugged :: bool
  peer :: sockaddr_tcpip
  local_port :: u32
  mss :: u32
  tcp_state :: u32
  prev_tcp_state :: u32
  snd_seq :: u32
  snd_sent :: u32
  snd_win :: u32
  rcv_ack :: u32
  rcv_win :: u32
  ts_val :: u32
  ts_recent :: u32
  snd_win_scale :: u8
  rcv_win_scale :: u8
  max_rcv_win :: u32
  tx_queue :: "bytes list"
  rx_queue :: "tcp_rx_queued list"
  pending_flags :: u32
  pending_data :: u32

datatype tcp_event =
    TxSegment nat sockaddr_tcpip bytes
  | TxReset nat sockaddr_tcpip bytes
  | Delivered nat bytes
  | Closed nat rc
  | WindowChanged nat
  | Accepted nat bytes

record tcp_world = "(nat, nat, nat \<times> tcp_timer) timer_world" +
  tcp_conns :: "nat list"
  conn :: "nat \<Rightarrow> tcp_connection"
  pending_total :: int
  clock :: nat
  trace :: "tcp_event list"

section \<open>Environment\<close>

text \<open>
  What an application may do on a connection while TCP has called it: send data, close the
  connection, unplug its interface from it, or allocate memory, upon which the cache discarders may run.
\<close>

datatype app_call = AppSend bytes | AppClose rc | AppUnplug | AppDiscard

text \<open>
  \<open>alloc\<close> answers an allocation with the number of runs of the cache discarders and the success;
  \<open>net_send\<close> answers the hand-over of a packet to the network layer in the same way.
\<close>

record tcp_env =
  ticks :: "nat \<Rightarrow> u32"
  ticks_per_sec :: u32
  rand :: "nat \<Rightarrow> u32"
  mtu :: "sockaddr_tcpip \<Rightarrow> u32"
  alloc :: "nat \<Rightarrow> nat \<times> bool"
  net_send :: "nat \<Rightarrow> nat \<times> rc"
  app_window :: "nat \<Rightarrow> u32"
  app_deliver :: "nat \<Rightarrow> rc \<times> app_call list"
  app_window_changed :: "nat \<Rightarrow> app_call list"
  app_close :: "nat \<Rightarrow> app_call list"

definition upd_conn :: "nat \<Rightarrow> (tcp_connection \<Rightarrow> tcp_connection) \<Rightarrow> tcp_world \<Rightarrow> tcp_world" where
  "upd_conn i f w = w\<lparr>conn := (conn w)(i := f (conn w i))\<rparr>"

definition emit :: "tcp_event \<Rightarrow> tcp_world \<Rightarrow> tcp_world" where
  "emit e w = w\<lparr>trace := e # trace w\<rparr>"

definition ask :: "(nat \<Rightarrow> 'a) \<Rightarrow> tcp_world \<Rightarrow> 'a \<times> tcp_world" where
  "ask q w = (q (clock w), w\<lparr>clock := clock w + 1\<rparr>)"

definition start_tcp_timer :: "tcp_env \<Rightarrow> nat \<times> tcp_timer \<Rightarrow> tcp_world \<Rightarrow> tcp_world" where
  "start_tcp_timer E t w = (let (now, w) = ask (ticks E) w in start_timer (ticks_per_sec E) now t w)"

definition stop_tcp_timer :: "tcp_env \<Rightarrow> nat \<times> tcp_timer \<Rightarrow> tcp_world \<Rightarrow> tcp_world" where
  "stop_tcp_timer E t w = (let (now, w) = ask (ticks E) w in stop_timer now t w)"

definition start_tcp_timer_fixed :: "tcp_env \<Rightarrow> nat \<times> tcp_timer \<Rightarrow> u32 \<Rightarrow> tcp_world \<Rightarrow> tcp_world" where
  "start_tcp_timer_fixed E t tmo w =
     (let (now, w) = ask (ticks E) w in start_timer_fixed (ticks_per_sec E) now t tmo w)"

text \<open>Pending operations of a connection, with the total over all operations.\<close>

definition pending_flags_op :: "(u32 \<times> int \<Rightarrow> u32 \<times> int) \<Rightarrow> nat \<Rightarrow> tcp_world \<Rightarrow> tcp_world" where
  "pending_flags_op f i w =
     (let (c, n) = f (pending_flags (conn w i), pending_total w)
      in (upd_conn i (\<lambda>tcp. tcp\<lparr>pending_flags := c\<rparr>) w)\<lparr>pending_total := n\<rparr>)"

definition pending_data_op :: "(u32 \<times> int \<Rightarrow> u32 \<times> int) \<Rightarrow> nat \<Rightarrow> tcp_world \<Rightarrow> tcp_world" where
  "pending_data_op f i w =
     (let (c, n) = f (pending_data (conn w i), pending_total w)
      in (upd_conn i (\<lambda>tcp. tcp\<lparr>pending_data := c\<rparr>) w)\<lparr>pending_total := n\<rparr>)"

section \<open>Cache discarder\<close>

definition discard_rx :: "tcp_connection \<Rightarrow> u32 \<times> tcp_connection" where
  "discard_rx tcp =
     (if rx_queue tcp = [] then (0, tcp)
      else
        (let tcpqhdr = last (rx_queue tcp);
             max_win = q_seq tcpqhdr - rcv_ack tcp;
             tcp = (if max_win < max_rcv_win tcp then tcp\<lparr>max_rcv_win := max_win\<rparr> else tcp)
         in (1, tcp\<lparr>rx_queue := butlast (rx_queue tcp)\<rparr>)))"

fun discard_conns :: "nat list \<Rightarrow> u32 \<Rightarrow> tcp_world \<Rightarrow> u32 \<times> tcp_world" where
  "discard_conns [] discarded w = (discarded, w)"
| "discard_conns (i # is) discarded w =
     (let (n, tcp) = discard_rx (conn w i)
      in discard_conns is (discarded + n) (upd_conn i (\<lambda>_. tcp) w))"

definition tcp_discard :: "tcp_world \<Rightarrow> u32 \<times> tcp_world" where
  "tcp_discard w = discard_conns (tcp_conns w) 0 w"

definition discards_tcp :: "nat \<Rightarrow> tcp_world \<Rightarrow> tcp_world" where
  "discards_tcp n w = ((\<lambda>w. snd (tcp_discard w)) ^^ n) w"

text \<open>Allocation of an I/O buffer (or of any memory).\<close>

definition alloc_iob :: "tcp_env \<Rightarrow> tcp_world \<Rightarrow> bool \<times> tcp_world" where
  "alloc_iob E w = (let ((n, ok), w) = ask (alloc E) w in (ok, discards_tcp n w))"

section \<open>Closing the data transfer interface\<close>

definition app_unplug :: "nat \<Rightarrow> tcp_world \<Rightarrow> tcp_world" where
  "app_unplug i w =
     (if plugged (conn w i)
      then ref_decrement (Some i) (upd_conn i (\<lambda>tcp. tcp\<lparr>plugged := False\<rparr>) w) else w)"

text \<open>
  \<open>intf_shutdown\<close> of \<open>core/interface.c\<close> on the interface of connection \<open>i\<close>.  The descriptor is
  nullified before the application hears of the close, so what the application then tries to send or close is
  dropped; it may still unplug its own interface and allocate memory.  An interface that is already
  shut down is plugged into the null interface, whose close operation does nothing.
\<close>

fun app_call_null :: "nat \<Rightarrow> app_call \<Rightarrow> tcp_world \<Rightarrow> tcp_world" where
  "app_call_null i (AppSend _) w = w"
| "app_call_null i (AppClose _) w = w"
| "app_call_null i AppUnplug w = app_unplug i w"
| "app_call_null i AppDiscard w = snd (tcp_discard w)"

definition xfer_shutdown :: "tcp_env \<Rightarrow> nat \<Rightarrow> rc \<Rightarrow> tcp_world \<Rightarrow> tcp_world" where
  "xfer_shutdown E i rc w =
     (if xfer_open (conn w i) then
        (let w = upd_conn i (\<lambda>tcp. tcp\<lparr>xfer_open := False\<rparr>) w;
             (calls, w) = ask (app_close E) (emit (Closed i rc) w)
         in fold (app_call_null i) calls w)
      else w)"

section \<open>Transmit queue\<close>

definition tcp_dump_state :: "tcp_connection \<Rightarrow> tcp_connection" where
  "tcp_dump_state tcp = tcp\<lparr>prev_tcp_state := tcp_state tcp\<rparr>"

definition tcp_xmit_win :: "tcp_connection \<Rightarrow> u32" where
  "tcp_xmit_win tcp =
     (if \<not> TCP_CAN_SEND_DATA (tcp_state tcp) then 0
      else
        (let len = snd_win tcp in if TCP_PATH_MTU < len then TCP_PATH_MTU else len))"

definition tcp_xfer_window :: "tcp_connection \<Rightarrow> u32" where
  "tcp_xfer_window tcp = (if tx_queue tcp \<noteq> [] then 0 else tcp_xmit_win tcp)"

text \<open>
  The loop of \<open>tcp_process_tx_queue\<close>: the bytes copied, their number, the queue left and the
  number of buffers taken off it.
\<close>

fun tx_scan :: "nat \<Rightarrow> bool \<Rightarrow> bytes list \<Rightarrow> bytes \<times> nat \<times> bytes list \<times> nat" where
  "tx_scan max_len remove [] = ([], 0, [], 0)"
| "tx_scan max_len remove (iobuf # queue) =
     (let frag_len = length iobuf;
          frag_len = (if max_len < frag_len then max_len else frag_len);
          dest = take frag_len iobuf;
          iobuf' = (if remove then drop frag_len iobuf else iobuf);
          (dest', len, queue', n) = tx_scan (max_len - frag_len) remove queue
      in (dest @ dest', frag_len + len,
          if remove \<and> iobuf' = [] then queue' else iobuf' # queue',
          if remove \<and> iobuf' = [] then n + 1 else n))"

definition tcp_process_tx_queue :: "nat \<Rightarrow> nat \<Rightarrow> bool \<Rightarrow> tcp_world \<Rightarrow> bytes \<times> nat \<times> tcp_world" where
  "tcp_process_tx_queue i max_len remove w =
     (let (dest, len, queue, n) = tx_scan max_len remove (tx_queue (conn w i))
      in (dest, len, (pending_data_op pending_put i ^^ n) (upd_conn i (\<lambda>tcp. tcp\<lparr>tx_queue := queue\<rparr>) w)))"

section \<open>Acknowledgements and closing\<close>

definition tcp_rx_ack :: "tcp_env \<Rightarrow> nat \<Rightarrow> u32 \<Rightarrow> u32 \<Rightarrow> tcp_world \<Rightarrow> rc \<times> tcp_world" where
  "tcp_rx_ack E i ack win w =
     (let tcp = conn w i; ack_len = ack - snd_seq tcp in
      if snd_sent tcp < ack_len then
        (if TCP_HAS_BEEN_ESTABLISHED (tcp_state tcp) then (None, w) else (Some EINVAL, w))
      else
        (let w = upd_conn i (\<lambda>tcp. tcp\<lparr>snd_win := win\<rparr>) w in
         if ack_len = 0 then (None, w)
         else
           (let w = stop_tcp_timer E (i, Retransmit) w;
                acked_flags = TCP_FLAGS_SENDING (tcp_state (conn w i)) AND (TCP_SYN OR TCP_FIN);
                len = (if acked_flags \<noteq> 0 then ack_len - 1 else ack_len);
                w = (if acked_flags \<noteq> 0 then pending_flags_op pending_put i w else w);
                w = upd_conn i (\<lambda>tcp. tcp\<lparr>snd_seq := ack, snd_sent := 0\<rparr>) w;
                (_, _, w) = tcp_process_tx_queue i (unat len) True w;
                w = (if acked_flags \<noteq> 0
                     then upd_conn i (\<lambda>tcp. tcp\<lparr>tcp_state := tcp_state tcp OR TCP_STATE_ACKED acked_flags\<rparr>) w
                     else w);
                tcp = conn w i
            in if tx_queue tcp = [] \<and> tflags tcp AND TCP_XFER_CLOSED \<noteq> 0 \<and>
                  tcp_state tcp AND TCP_STATE_SENT TCP_FIN = 0
               then (None, pending_flags_op pending_get i
                       (upd_conn i (\<lambda>tcp. tcp\<lparr>tcp_state := tcp_state tcp OR TCP_STATE_SENT TCP_FIN\<rparr>) w))
               else (None, w))))"

text \<open>The part of \<open>tcp_close\<close> that deletes a connection from which no SYN has been received.\<close>

definition tcp_delete :: "tcp_env \<Rightarrow> nat \<Rightarrow> tcp_world \<Rightarrow> tcp_world" where
  "tcp_delete E i w =
     (let w = upd_conn i (\<lambda>tcp. tcp_dump_state (tcp\<lparr>tcp_state := TCP_CLOSED\<rparr>)) w;
          w = upd_conn i (\<lambda>tcp. tcp\<lparr>rx_queue := []\<rparr>) w;
          n = length (tx_queue (conn w i));
          w = (pending_data_op pending_put i ^^ n) (upd_conn i (\<lambda>tcp. tcp\<lparr>tx_queue := []\<rparr>) w);
          w = pending_flags_op pending_put i w;
          w = pending_flags_op pending_put i w;
          w = process_del i w;
          w = stop_tcp_timer E (i, Retransmit) w;
          w = stop_tcp_timer E (i, TimeWait) w;
          w = w\<lparr>tcp_conns := remove1 i (tcp_conns w)\<rparr>
      in ref_decrement (Some i) w)"

definition tcp_close :: "tcp_env \<Rightarrow> nat \<Rightarrow> rc \<Rightarrow> tcp_world \<Rightarrow> tcp_world" where
  "tcp_close E i rc w =
     (let w = xfer_shutdown E i rc w;
          w = upd_conn i (\<lambda>tcp. tcp\<lparr>tflags := tflags tcp OR TCP_XFER_CLOSED\<rparr>) w in
      if tcp_state (conn w i) AND TCP_STATE_RCVD TCP_SYN = 0 then tcp_delete E i w
      else
        (let w = (if tcp_state (conn w i) AND TCP_STATE_ACKED TCP_SYN = 0
                  then snd (tcp_rx_ack E i (snd_seq (conn w i) + 1) 0 w) else w)
         in if tx_queue (conn w i) = [] \<and> tcp_state (conn w i) AND TCP_STATE_SENT TCP_FIN = 0
            then pending_flags_op pending_get i
                   (upd_conn i (\<lambda>tcp. tcp_dump_state (tcp\<lparr>tcp_state := tcp_state tcp OR TCP_STATE_SENT TCP_FIN\<rparr>)) w)
            else w))"

section \<open>Transmission\<close>

text \<open>\<open>struct tcp_header\<close> with a zero checksum and urgent pointer; the checksum is at offset 16.\<close>

definition tcp_header_bytes :: "u16 \<Rightarrow> u16 \<Rightarrow> u32 \<Rightarrow> u32 \<Rightarrow> u8 \<Rightarrow> u8 \<Rightarrow> u16 \<Rightarrow> bytes" where
  "tcp_header_bytes src dest seq ack hlen fl win =
     be16 src @ be16 dest @ be32 seq @ be32 ack @ [hlen, fl] @ be16 win @ [0, 0] @ [0, 0]"

text \<open>The segment that \<open>tcp_xmit\<close> builds around a payload.\<close>

definition tcp_segment :: "tcp_connection \<Rightarrow> u32 \<Rightarrow> u32 \<Rightarrow> bytes \<Rightarrow> bytes" where
  "tcp_segment tcp fl now payload =
     (let mssopt = [TCP_OPTION_MSS, 4] @ be16 (ucast (mss tcp));
          wsopt = [TCP_OPTION_NOP, TCP_OPTION_WS, 3, TCP_RX_WINDOW_SCALE];
          tsopt = [TCP_OPTION_NOP, TCP_OPTION_NOP, TCP_OPTION_TS, 10] @ be32 now @ be32 (ts_recent tcp);
          opts = (if fl AND TCP_SYN \<noteq> 0 then wsopt @ mssopt else []);
          opts = (if fl AND TCP_SYN \<noteq> 0 \<or> tflags tcp AND TCP_TS_ENABLED \<noteq> 0 then tsopt @ opts else opts);
          fl = (if payload \<noteq> [] then fl OR TCP_PSH else fl);
          hlen = push_bit 2 (of_nat (20 + length opts));
          hdr = tcp_header_bytes (ucast (local_port tcp)) (st_port (peer tcp)) (snd_seq tcp) (rcv_ack tcp)
                  hlen (ucast fl) (ucast (drop_bit (unat (rcv_win_scale tcp)) (rcv_win tcp)));
          seg = hdr @ opts @ payload
      in put_csum 16 (tcpip_chksum seg) seg)"

definition expand_rcv_win :: "u32 \<Rightarrow> tcp_connection \<Rightarrow> tcp_connection" where
  "expand_rcv_win app_win tcp =
     (let max_win = max_rcv_win tcp;
          max_win = (if app_win < max_win then app_win else max_win);
          max_representable_win = push_bit (unat (rcv_win_scale tcp)) 0xffff;
          max_win = (if max_representable_win < max_win then max_representable_win else max_win);
          max_win = max_win AND NOT 0x03
      in if rcv_win tcp < max_win then tcp\<lparr>rcv_win := max_win\<rparr> else tcp)"

definition xfer_window :: "tcp_env \<Rightarrow> nat \<Rightarrow> tcp_world \<Rightarrow> u32 \<times> tcp_world" where
  "xfer_window E i w = (if xfer_open (conn w i) then ask (app_window E) w else (NOT 0, w))"

definition tcp_send :: "tcp_env \<Rightarrow> tcp_event \<Rightarrow> tcp_world \<Rightarrow> rc \<times> tcp_world" where
  "tcp_send E e w = (let ((n, rc), w) = ask (net_send E) (emit e w) in (rc, discards_tcp n w))"

definition tcp_xmit :: "tcp_env \<Rightarrow> nat \<Rightarrow> tcp_world \<Rightarrow> tcp_world" where
  "tcp_xmit E i w =
     (if timer_running (i, Retransmit) w then w
      else
        (let tcp = conn w i;
             len = (if TCP_CAN_SEND_DATA (tcp_state tcp)
                    then fst (snd (tcp_process_tx_queue i (unat (tcp_xmit_win tcp)) False w)) else 0);
             fl = TCP_FLAGS_SENDING (tcp_state tcp);
             seq_len = of_nat len + (if fl AND (TCP_SYN OR TCP_FIN) \<noteq> 0 then 1 else 0);
             w = upd_conn i (\<lambda>tcp. tcp\<lparr>snd_sent := seq_len\<rparr>) w in
         if seq_len = 0 \<and> tflags tcp AND TCP_ACK_PENDING = 0 then w
         else
           (let w = (if seq_len \<noteq> 0 then start_tcp_timer E (i, Retransmit) w else w);
                (ok, w) = alloc_iob E w in
            if \<not> ok then w
            else
              (let payload = fst (tcp_process_tx_queue i len False w);
                   (app_win, w) = xfer_window E i w;
                   w = upd_conn i (expand_rcv_win app_win) w;
                   (now, w) = ask (ticks E) w;
                   seg = tcp_segment (conn w i) fl now payload;
                   (rc, w) = tcp_send E (TxSegment i (peer (conn w i)) seg) w
               in if rc \<noteq> None then w
                  else upd_conn i (\<lambda>tcp. tcp\<lparr>tflags := tflags tcp AND NOT TCP_ACK_PENDING\<rparr>) w))))"

definition tcp_expired :: "tcp_env \<Rightarrow> nat \<Rightarrow> bool \<Rightarrow> tcp_world \<Rightarrow> tcp_world" where
  "tcp_expired E i over w =
     (if over
      then tcp_close E i (Some ETIMEDOUT)
             (upd_conn i (\<lambda>tcp. tcp_dump_state (tcp\<lparr>tcp_state := TCP_CLOSED\<rparr>)) w)
      else tcp_xmit E i w)"

definition tcp_wait_expired :: "tcp_env \<Rightarrow> nat \<Rightarrow> bool \<Rightarrow> tcp_world \<Rightarrow> tcp_world" where
  "tcp_wait_expired E i over w =
     tcp_close E i None (upd_conn i (\<lambda>tcp. tcp_dump_state (tcp\<lparr>tcp_state := TCP_CLOSED\<rparr>)) w)"

fun tcp_timer_expired :: "tcp_env \<Rightarrow> nat \<times> tcp_timer \<Rightarrow> bool \<Rightarrow> tcp_world \<Rightarrow> tcp_world" where
  "tcp_timer_expired E (i, Retransmit) over w = tcp_expired E i over w"
| "tcp_timer_expired E (i, TimeWait) over w = tcp_wait_expired E i over w"

text \<open>\<open>tcp_xmit_reset\<close>, from the fields of the incoming header.\<close>

definition tcp_xmit_reset :: "tcp_env \<Rightarrow> nat \<Rightarrow> sockaddr_tcpip \<Rightarrow> u16 \<Rightarrow> u16 \<Rightarrow> u32 \<Rightarrow> u32 \<Rightarrow>
    tcp_world \<Rightarrow> rc \<times> tcp_world" where
  "tcp_xmit_reset E i st_dest in_src in_dest in_seq in_ack w =
     (let (ok, w) = alloc_iob E w in
      if \<not> ok then (Some ENOMEM, w)
      else
        (let seg = tcp_header_bytes in_dest in_src in_ack in_seq (push_bit 4 (20 div 4))
                     (ucast (TCP_RST OR TCP_ACK)) 0;
             seg = put_csum 16 (tcpip_chksum seg) seg
         in tcp_send E (TxReset i st_dest seg) w))"

section \<open>Reception\<close>

definition tcp_demux :: "u32 \<Rightarrow> tcp_world \<Rightarrow> nat option" where
  "tcp_demux port w = find (\<lambda>i. local_port (conn w i) = port) (tcp_conns w)"

text \<open>The parsed options are offsets of options in the packet.\<close>

record tcp_options =
  mssopt :: "nat option"
  wsopt :: "nat option"
  tsopt :: "nat option"

definition set_option :: "u8 \<Rightarrow> nat \<Rightarrow> tcp_options \<Rightarrow> tcp_options" where
  "set_option kind data options =
     (if kind = TCP_OPTION_MSS then options\<lparr>mssopt := Some data\<rparr>
      else if kind = TCP_OPTION_WS then options\<lparr>wsopt := Some data\<rparr>
      else if kind = TCP_OPTION_TS then options\<lparr>tsopt := Some data\<rparr>
      else options)"

partial_function (option) tcp_rx_opts_loop ::
  "(nat \<Rightarrow> u8) \<Rightarrow> nat \<Rightarrow> nat \<Rightarrow> tcp_options \<Rightarrow> tcp_options option" where
  "tcp_rx_opts_loop mem endp data options =
     (if data < endp then
        (let kind = mem data in
         if kind = TCP_OPTION_END then Some options
         else if kind = TCP_OPTION_NOP then tcp_rx_opts_loop mem endp (data + 1) options
         else tcp_rx_opts_loop mem endp (data + unat (mem (data + 1))) (set_option kind data options))
      else Some options)"

definition tcp_rx_opts :: "(nat \<Rightarrow> u8) \<Rightarrow> nat \<Rightarrow> nat \<Rightarrow> tcp_options option" where
  "tcp_rx_opts mem data len =
     tcp_rx_opts_loop mem (data + len) data \<lparr>mssopt = None, wsopt = None, tsopt = None\<rparr>"

definition tcp_rx_seq :: "u32 \<Rightarrow> tcp_connection \<Rightarrow> tcp_connection" where
  "tcp_rx_seq seq_len tcp =
     tcp\<lparr>rcv_ack := rcv_ack tcp + seq_len,
         rcv_win := (if seq_len < rcv_win tcp then rcv_win tcp - seq_len else 0),
         ts_recent := ts_val tcp,
         tflags := tflags tcp OR TCP_ACK_PENDING\<rparr>"

definition tcp_rx_syn :: "(nat \<Rightarrow> u8) \<Rightarrow> u32 \<Rightarrow> tcp_options \<Rightarrow> tcp_connection \<Rightarrow> tcp_connection" where
  "tcp_rx_syn mem seq options tcp =
     (let tcp =
        (if tcp_state tcp AND TCP_STATE_RCVD TCP_SYN = 0 then
           (let tcp = tcp\<lparr>rcv_ack := seq\<rparr>;
                tcp = (if tsopt options \<noteq> None then tcp\<lparr>tflags := tflags tcp OR TCP_TS_ENABLED\<rparr> else tcp)
            in case wsopt options of
                 Some data \<Rightarrow> tcp\<lparr>snd_win_scale := mem (data + 2), rcv_win_scale := TCP_RX_WINDOW_SCALE\<rparr>
               | None \<Rightarrow> tcp)
         else tcp)
      in if seq \<noteq> rcv_ack tcp then tcp
         else
           (let tcp = tcp_rx_seq 1 tcp
            in tcp\<lparr>tcp_state := tcp_state tcp OR (TCP_STATE_SENT TCP_ACK OR TCP_STATE_RCVD TCP_SYN)\<rparr>))"

section \<open>Data transfer interface\<close>

definition tcp_xfer_close :: "tcp_env \<Rightarrow> nat \<Rightarrow> rc \<Rightarrow> tcp_world \<Rightarrow> tcp_world" where
  "tcp_xfer_close E i rc w = tcp_xmit E i (tcp_close E i rc w)"

definition tcp_xfer_deliver :: "tcp_env \<Rightarrow> nat \<Rightarrow> bytes \<Rightarrow> tcp_world \<Rightarrow> rc \<times> tcp_world" where
  "tcp_xfer_deliver E i iobuf w =
     (let w = emit (Accepted i iobuf) (upd_conn i (\<lambda>tcp. tcp\<lparr>tx_queue := tx_queue tcp @ [iobuf]\<rparr>) w);
          w = pending_data_op pending_get i w
      in (None, tcp_xmit E i w))"

text \<open>
  A call of the application, at any time or from inside a callback.  It reaches TCP only while the
  interfaces are plugged together, and the caller holds a reference to the connection meanwhile.
\<close>

fun app_do :: "tcp_env \<Rightarrow> nat \<Rightarrow> app_call \<Rightarrow> tcp_world \<Rightarrow> tcp_world" where
  "app_do E i (AppSend iobuf) w =
     (if plugged (conn w i) \<and> xfer_open (conn w i)
      then ref_decrement (Some i) (snd (tcp_xfer_deliver E i iobuf (ref_increment (Some i) w))) else w)"
| "app_do E i (AppClose rc) w =
     (if plugged (conn w i) \<and> xfer_open (conn w i)
      then ref_decrement (Some i) (tcp_xfer_close E i rc (ref_increment (Some i) w)) else w)"
| "app_do E i AppUnplug w = app_unplug i w"
| "app_do E i AppDiscard w = snd (tcp_discard w)"

definition xfer_deliver_iob :: "tcp_env \<Rightarrow> nat \<Rightarrow> bytes \<Rightarrow> tcp_world \<Rightarrow> rc \<times> tcp_world" where
  "xfer_deliver_iob E i iobuf w =
     (if xfer_open (conn w i) then
        (let ((rc, calls), w) = ask (app_deliver E) (emit (Delivered i iobuf) w)
         in (rc, fold (app_do E i) calls w))
      else (Some EPIPE, w))"

definition xfer_window_changed :: "tcp_env \<Rightarrow> nat \<Rightarrow> tcp_world \<Rightarrow> tcp_world" where
  "xfer_window_changed E i w =
     (if xfer_open (conn w i) then
        (let (calls, w) = ask (app_window_changed E) (emit (WindowChanged i) w)
         in fold (app_do E i) calls w)
      else w)"

section \<open>Received data\<close>

definition tcp_rx_data :: "tcp_env \<Rightarrow> nat \<Rightarrow> u32 \<Rightarrow> bytes \<Rightarrow> tcp_world \<Rightarrow> rc \<times> tcp_world" where
  "tcp_rx_data E i seq iobuf w =
     (let already_rcvd = rcv_ack (conn w i) - seq;
          len = of_nat (length iobuf) in
      if len \<le> already_rcvd then (None, w)
      else
        (let iobuf = drop (unat already_rcvd) iobuf;
             len = len - already_rcvd;
             w = upd_conn i (tcp_rx_seq len) w
         in xfer_deliver_iob E i iobuf w))"

definition tcp_rx_fin :: "tcp_env \<Rightarrow> nat \<Rightarrow> u32 \<Rightarrow> tcp_world \<Rightarrow> tcp_world" where
  "tcp_rx_fin E i seq w =
     (if seq \<noteq> rcv_ack (conn w i) then w
      else
        (let w = upd_conn i (tcp_rx_seq 1) w;
             w = upd_conn i (\<lambda>tcp. tcp\<lparr>tcp_state := tcp_state tcp OR TCP_STATE_RCVD TCP_FIN\<rparr>) w
         in tcp_close E i None w))"

definition tcp_rx_rst :: "tcp_env \<Rightarrow> nat \<Rightarrow> u32 \<Rightarrow> tcp_world \<Rightarrow> rc \<times> tcp_world" where
  "tcp_rx_rst E i seq w =
     (let tcp = conn w i;
          accept = (if tcp_state tcp AND TCP_STATE_RCVD TCP_SYN \<noteq> 0
                    then tcp_in_window seq (rcv_ack tcp) (rcv_win tcp)
                    else tcp_state tcp AND TCP_STATE_ACKED TCP_SYN \<noteq> 0) in
      if \<not> accept then (None, w)
      else
        (Some ECONNRESET,
         tcp_close E i (Some ECONNRESET)
           (upd_conn i (\<lambda>tcp. tcp_dump_state (tcp\<lparr>tcp_state := TCP_CLOSED\<rparr>)) w)))"

fun rx_insert :: "tcp_rx_queued \<Rightarrow> tcp_rx_queued list \<Rightarrow> tcp_rx_queued list" where
  "rx_insert iobuf [] = [iobuf]"
| "rx_insert iobuf (queued # queue) =
     (if tcp_cmp (q_seq iobuf) (q_seq queued) < 0 then iobuf # queued # queue
      else queued # rx_insert iobuf queue)"

definition tcp_rx_enqueue :: "u32 \<Rightarrow> u8 \<Rightarrow> bytes \<Rightarrow> tcp_connection \<Rightarrow> tcp_connection" where
  "tcp_rx_enqueue seq fl iobuf tcp =
     (let fl = fl AND ucast TCP_FIN;
          seq_len = of_nat (length iobuf) + (if fl \<noteq> 0 then 1 else 0) in
      if tcp_state tcp AND TCP_STATE_RCVD TCP_SYN = 0 \<or>
         tcp_cmp seq (rcv_ack tcp + rcv_win tcp) \<ge> 0 \<or>
         tcp_cmp (seq + seq_len) (rcv_ack tcp) < 0 \<or>
         seq_len = 0
      then tcp
      else tcp\<lparr>rx_queue := rx_insert \<lparr>q_seq = seq, q_flags = fl, q_data = iobuf\<rparr> (rx_queue tcp)\<rparr>)"

text \<open>One iteration of the loop of \<open>tcp_process_rx_queue\<close>.\<close>

definition rx_iteration :: "tcp_env \<Rightarrow> nat \<Rightarrow> tcp_rx_queued \<Rightarrow> tcp_rx_queued list \<Rightarrow> tcp_world \<Rightarrow> tcp_world" where
  "rx_iteration E i iobuf queue w =
     (let w = upd_conn i (\<lambda>tcp. tcp\<lparr>rx_queue := queue\<rparr>) w;
          seq = q_seq iobuf;
          len = of_nat (length (q_data iobuf));
          (_, w) = tcp_rx_data E i seq (q_data iobuf) w;
          seq = seq + len
      in if ucast (q_flags iobuf) AND TCP_FIN \<noteq> 0 then tcp_rx_fin E i seq w else w)"

partial_function (option) tcp_process_rx_queue :: "tcp_env \<Rightarrow> nat \<Rightarrow> tcp_world \<Rightarrow> tcp_world option" where
  "tcp_process_rx_queue E i w =
     (case rx_queue (conn w i) of
        [] \<Rightarrow> Some w
      | iobuf # queue \<Rightarrow>
          if tcp_cmp (q_seq iobuf) (rcv_ack (conn w i)) > 0 then Some w
          else tcp_process_rx_queue E i (rx_iteration E i iobuf queue w))"

text \<open>
  Reads of the packet, which is followed by whatever memory lies \<open>beyond\<close> it.  A shift by the window
  scale uses the low five bits of the count, as the shift instruction of the machine does.
\<close>

definition packet_mem :: "bytes \<Rightarrow> (nat \<Rightarrow> u8) \<Rightarrow> nat \<Rightarrow> u8" where
  "packet_mem pkt beyond n = (if n < length pkt then pkt ! n else beyond n)"

definition rd16 :: "(nat \<Rightarrow> u8) \<Rightarrow> nat \<Rightarrow> u16" where
  "rd16 mem n = push_bit 8 (ucast (mem n)) OR ucast (mem (n + 1))"

definition rd32 :: "(nat \<Rightarrow> u8) \<Rightarrow> nat \<Rightarrow> u32" where
  "rd32 mem n = push_bit 24 (ucast (mem n)) OR push_bit 16 (ucast (mem (n + 1))) OR
     push_bit 8 (ucast (mem (n + 2))) OR ucast (mem (n + 3))"

definition tcp_hlen :: "(nat \<Rightarrow> u8) \<Rightarrow> nat" where
  "tcp_hlen mem = unat ((mem 12 AND TCP_MASK_HLEN) div 16) * 4"

text \<open>The tail of \<open>tcp_rx\<close>, after the receive queue has been processed.\<close>

definition tcp_rx_finish :: "tcp_env \<Rightarrow> nat \<Rightarrow> u32 \<Rightarrow> tcp_world \<Rightarrow> tcp_world" where
  "tcp_rx_finish E i old_xfer_window w =
     (let w = upd_conn i tcp_dump_state w;
          w = (if rx_queue (conn w i) = [] then process_add i w else tcp_xmit E i w);
          w = (if TCP_CLOSED_GRACEFULLY (tcp_state (conn w i))
               then start_tcp_timer_fixed E (i, TimeWait) (2 * TCP_MSL (ticks_per_sec E))
                      (stop_tcp_timer E (i, TimeWait) w)
               else w)
      in if tcp_xfer_window (conn w i) \<noteq> old_xfer_window then xfer_window_changed E i w else w)"

text \<open>The middle of \<open>tcp_rx\<close>: the handling of a packet for connection \<open>i\<close>.\<close>

definition tcp_rx_packet :: "tcp_env \<Rightarrow> (nat \<Rightarrow> u8) \<Rightarrow> sockaddr_tcpip \<Rightarrow> tcp_options \<Rightarrow> bytes \<Rightarrow> nat \<Rightarrow>
    tcp_world \<Rightarrow> (rc \<times> tcp_world) option" where
  "tcp_rx_packet E mem st_src options iobuf i w =
     (let seq = rd32 mem 4; ack = rd32 mem 8; fl = ucast (mem 13) :: u32;
          old_xfer_window = tcp_xfer_window (conn w i);
          win = push_bit (unat (snd_win_scale (conn w i)) mod 32) (ucast (rd16 mem 14));
          (rc, w) = (if fl AND TCP_ACK \<noteq> 0 then tcp_rx_ack E i ack win w else (None, w)) in
      if rc \<noteq> None
      then Some (rc, snd (tcp_xmit_reset E i st_src (rd16 mem 0) (rd16 mem 2) seq ack w))
      else
        (let w = (if tcp_state (conn w i) AND TCP_STATE_RCVD TCP_SYN \<noteq> 0 \<and> seq \<noteq> rcv_ack (conn w i)
                  then upd_conn i (\<lambda>tcp. tcp\<lparr>tflags := tflags tcp OR TCP_ACK_PENDING\<rparr>) w else w);
             w = (if fl AND TCP_SYN \<noteq> 0 then upd_conn i (tcp_rx_syn mem seq options) w else w);
             seq = (if fl AND TCP_SYN \<noteq> 0 then seq + 1 else seq);
             (rc, w) = (if fl AND TCP_RST \<noteq> 0 then tcp_rx_rst E i seq w else (None, w)) in
         if rc \<noteq> None then Some (rc, w)
         else
           (case tcp_process_rx_queue E i (upd_conn i (tcp_rx_enqueue seq (ucast fl) iobuf) w) of
              None \<Rightarrow> None
            | Some w \<Rightarrow> Some (None, tcp_rx_finish E i old_xfer_window w))))"

definition tcp_rx :: "tcp_env \<Rightarrow> (nat \<Rightarrow> u8) \<Rightarrow> bytes \<Rightarrow> sockaddr_tcpip \<Rightarrow> u16 \<Rightarrow> tcp_world \<Rightarrow>
    (rc \<times> tcp_world) option" where
  "tcp_rx E beyond pkt st_src pshdr_csum w =
     (let mem = packet_mem pkt beyond in
      if length pkt < 20 then Some (Some EINVAL, w)
      else if tcp_hlen mem < 20 then Some (Some EINVAL, w)
      else if length pkt < tcp_hlen mem then Some (Some EINVAL, w)
      else if generic_tcpip_continue_chksum pshdr_csum pkt \<noteq> 0 then Some (Some EINVAL, w)
      else
        (case tcp_rx_opts mem 20 (tcp_hlen mem - 20) of
           None \<Rightarrow> None
         | Some options \<Rightarrow>
             (case tcp_demux (ucast (rd16 mem 2)) w of
                None \<Rightarrow> Some (Some ENOTCONN, w)
              | Some i \<Rightarrow>
                  (let w = (case tsopt options of
                              Some data \<Rightarrow> upd_conn i (\<lambda>tcp. tcp\<lparr>ts_val := rd32 mem (data + 2)\<rparr>) w
                            | None \<Rightarrow> w)
                   in tcp_rx_packet E mem st_src options (drop (tcp_hlen mem) pkt) i w))))"

section \<open>Opening and shutting down\<close>

definition zero_sockaddr :: sockaddr_tcpip where
  "zero_sockaddr = \<lparr>st_family = 0, st_flags = 0, st_port = 0, st_pad = []\<rparr>"

definition zero_conn :: tcp_connection where
  "zero_conn = \<lparr>tflags = 0, xfer_open = False, plugged = False, peer = zero_sockaddr, local_port = 0,
     mss = 0, tcp_state = 0, prev_tcp_state = 0, snd_seq = 0, snd_sent = 0, snd_win = 0, rcv_ack = 0,
     rcv_win = 0, ts_val = 0, ts_recent = 0, snd_win_scale = 0, rcv_win_scale = 0, max_rcv_win = 0,
     tx_queue = [], rx_queue = [], pending_flags = 0, pending_data = 0\<rparr>"

definition zero_timer :: "nat \<Rightarrow> nat retry_timer" where
  "zero_timer i = \<lparr>running = False, timeout = 0, min_timeout = 0, max_timeout = 0, start = 0,
     count = 0, timer_refcnt = Some i\<rparr>"

definition tcp_port_available :: "tcp_world \<Rightarrow> u16 \<Rightarrow> errno + u16" where
  "tcp_port_available w port = (if tcp_demux (ucast port) w \<noteq> None then Inl EADDRINUSE else Inr port)"

text \<open>The initialisation of a zeroed structure, which the allocator has placed at \<open>i\<close>.\<close>

definition tcp_init_conn :: "nat \<Rightarrow> u32 \<Rightarrow> sockaddr_tcpip \<Rightarrow> tcp_world \<Rightarrow> tcp_world" where
  "tcp_init_conn i rnd st_peer w =
     w\<lparr>rcount := (rcount w)(i := 0),
       proc_of := (proc_of w)(i := \<lparr>proc_refcnt = Some i, reschedule = False\<rparr>),
       timer_of := (timer_of w)((i, Retransmit) := zero_timer i, (i, TimeWait) := zero_timer i),
       conn := (conn w)(i := tcp_dump_state (zero_conn\<lparr>tcp_state := TCP_STATE_SENT TCP_SYN,
         snd_seq := rnd, max_rcv_win := TCP_MAX_WINDOW_SIZE, peer := st_peer\<rparr>))\<rparr>"

definition tcp_open :: "tcp_env \<Rightarrow> nat \<Rightarrow> sockaddr_tcpip \<Rightarrow> sockaddr_tcpip option \<Rightarrow> tcp_world \<Rightarrow>
    rc \<times> tcp_world" where
  "tcp_open E i st_peer st_local w =
     (let (ok, w) = alloc_iob E w in
      if \<not> ok then (Some ENOMEM, w)
      else
        (let (rnd, w) = ask (rand E) w;
             w = tcp_init_conn i rnd st_peer w;
             len = mtu E st_peer in
         if len = 0 then (Some ENETUNREACH, ref_decrement (Some i) w)
         else
           (let w = upd_conn i (\<lambda>tcp. tcp\<lparr>mss := len - 20\<rparr>) w;
                (rnd, w) = ask (rand E) w in
            case tcpip_bind rnd st_local (tcp_port_available w) of
              Inl e \<Rightarrow> (Some e, ref_decrement (Some i) w)
            | Inr port \<Rightarrow>
                (let w = upd_conn i (\<lambda>tcp. tcp\<lparr>local_port := ucast port\<rparr>) w;
                     w = start_tcp_timer_fixed E (i, Retransmit) 0 w;
                     w = pending_flags_op pending_get i w;
                     w = ref_increment (Some i) (upd_conn i (\<lambda>tcp. tcp\<lparr>xfer_open := True, plugged := True\<rparr>) w)
                 in (None, w\<lparr>tcp_conns := i # tcp_conns w\<rparr>)))))"

partial_function (option) tcp_shutdown :: "tcp_env \<Rightarrow> tcp_world \<Rightarrow> tcp_world option" where
  "tcp_shutdown E w =
     (case tcp_conns w of
        [] \<Rightarrow> Some w
      | i # _ \<Rightarrow>
          tcp_shutdown E (tcp_close E i (Some ECANCELED)
            (upd_conn i (\<lambda>tcp. tcp_dump_state (tcp\<lparr>tcp_state := TCP_CLOSED\<rparr>)) w)))"

section \<open>Runs\<close>

text \<open>
  What can happen: a connection is opened (in memory to which nothing refers), a packet arrives, the
  retry timers are polled, the process at the head of the run queue is stepped, the application of a connection makes a call, memory is
  allocated elsewhere, or all connections are shut down.
\<close>

datatype tcp_label =
    Open nat | Receive "nat \<Rightarrow> u8" bytes | Poll u32 | Run | App nat app_call | Discard | Shutdown

definition unused :: "nat \<Rightarrow> tcp_world \<Rightarrow> bool" where
  "unused i w \<longleftrightarrow> i \<notin> set (tcp_conns w) \<and> \<not> plugged (conn w i) \<and> i \<notin> set (run_queue w) \<and>
     (i, Retransmit) \<notin> set (timers w) \<and> (i, TimeWait) \<notin> set (timers w)"

inductive tcp_step :: "tcp_env \<Rightarrow> tcp_label \<Rightarrow> tcp_world \<Rightarrow> tcp_world \<Rightarrow> bool" for E where
  open_conn: "unused i w \<Longrightarrow> tcp_open E i st_peer st_local w = (rc, w') \<Longrightarrow> tcp_step E (Open i) w w'"
| receive: "tcp_rx E beyond pkt st_src pshdr_csum w = Some (rc, w') \<Longrightarrow> tcp_step E (Receive beyond pkt) w w'"
| poll: "tcp_step E (Poll now) w (retry_poll (tcp_timer_expired E) (ticks_per_sec E) now w)"
| run: "tcp_step E Run w (step (tcp_xmit E) w)"
| app: "tcp_step E (App i call) w (app_do E i call w)"
| discard: "tcp_step E Discard w (snd (tcp_discard w))"
| shutdown: "tcp_shutdown E w = Some w' \<Longrightarrow> tcp_step E Shutdown w w'"

inductive tcp_run :: "tcp_env \<Rightarrow> (tcp_world \<Rightarrow> tcp_label \<Rightarrow> bool) \<Rightarrow> tcp_world \<Rightarrow> tcp_world \<Rightarrow> bool"
  for E ok w0 where
  start: "tcp_run E ok w0 w0"
| more: "tcp_run E ok w0 w \<Longrightarrow> ok w l \<Longrightarrow> tcp_step E l w w' \<Longrightarrow> tcp_run E ok w0 w'"

end
