(* ===== verification/Tcp_Frame.thy ===== *)
theory Tcp_Frame
  imports Tcp
begin

text \<open>
  What each operation of the TCP model changes: the effect of the world-level operations on the
  connections, the list of connections and the trace, as rewrite rules, and the effect of the
  larger operations on a single connection as a function of that connection.
\<close>

section \<open>Bits of the state\<close>

lemmas tcp_consts = TCP_ACK_def TCP_PSH_def TCP_RST_def TCP_SYN_def TCP_FIN_def
  TCP_STATE_SENT_def TCP_STATE_ACKED_def TCP_STATE_RCVD_def TCP_FLAGS_SENT_def TCP_FLAGS_ACKED_def
  TCP_FLAGS_RCVD_def TCP_FLAGS_SENDING_def TCP_CLOSED_def
  TCP_XFER_CLOSED_def TCP_TS_ENABLED_def TCP_ACK_PENDING_def

lemma and_bit: "n < 32 \<Longrightarrow> (x AND 2 ^ n = 0) \<longleftrightarrow> \<not> bit (x :: u32) n"
  by (simp add: and_exp_word exp_eq_zero_iff)

lemma bit_exp_u32: "bit (2 ^ n :: u32) m \<longleftrightarrow> m = n \<and> n < 32"
  by (auto simp: bit_simps)

lemma not_exp_bit: "bit (x AND NOT (2 ^ n) :: u32) m \<longleftrightarrow> bit x m \<and> m \<noteq> n"
  by (auto simp: bit_simps dest: bit_imp_le_length)

lemma state_masks:
  "TCP_STATE_RCVD TCP_SYN = 2 ^ 17" "TCP_STATE_ACKED TCP_SYN = 2 ^ 9" "TCP_STATE_SENT TCP_FIN = 2 ^ 0"
  "TCP_STATE_RCVD TCP_FIN = 2 ^ 16" "TCP_STATE_ACKED TCP_FIN = 2 ^ 8" "TCP_STATE_SENT TCP_SYN = 2 ^ 1"
  "TCP_STATE_SENT TCP_ACK = 2 ^ 4" "TCP_XFER_CLOSED = 2 ^ 0" "TCP_TS_ENABLED = 2 ^ 1" "TCP_ACK_PENDING = 2 ^ 2"
  "TCP_CLOSED = 2 ^ 2"
  by (simp_all add: tcp_consts push_bit_eq_mult)

lemma flag_masks:
  "TCP_ACK = 2 ^ 4" "TCP_RST = 2 ^ 2" "TCP_SYN = 2 ^ 1" "TCP_FIN = 2 ^ 0" "TCP_PSH = 2 ^ 3"
  by (simp_all add: tcp_consts)

lemma mask_tests [simp]:
  "(s AND TCP_STATE_RCVD TCP_SYN = 0) \<longleftrightarrow> \<not> bit s 17"
  "(s AND TCP_STATE_ACKED TCP_SYN = 0) \<longleftrightarrow> \<not> bit s 9"
  "(s AND TCP_STATE_SENT TCP_FIN = 0) \<longleftrightarrow> \<not> bit s 0"
  "(s AND TCP_STATE_SENT TCP_SYN = 0) \<longleftrightarrow> \<not> bit s 1"
  "(s AND TCP_XFER_CLOSED = 0) \<longleftrightarrow> \<not> bit s 0"
  "(s AND TCP_TS_ENABLED = 0) \<longleftrightarrow> \<not> bit s 1"
  "(s AND TCP_ACK_PENDING = 0) \<longleftrightarrow> \<not> bit s 2"
  "(s AND TCP_ACK = 0) \<longleftrightarrow> \<not> bit s 4"
  "(s AND TCP_RST = 0) \<longleftrightarrow> \<not> bit s 2"
  "(s AND TCP_SYN = 0) \<longleftrightarrow> \<not> bit s 1"
  "(s AND TCP_FIN = 0) \<longleftrightarrow> \<not> bit s 0"
  by (subst state_masks flag_masks, rule and_bit, simp)+

lemma mask_sets [simp]:
  "bit (s OR TCP_STATE_RCVD TCP_FIN) m \<longleftrightarrow> bit s m \<or> m = 16"
  "bit (s OR TCP_STATE_SENT TCP_FIN) m \<longleftrightarrow> bit s m \<or> m = 0"
  "bit (s OR (TCP_STATE_SENT TCP_ACK OR TCP_STATE_RCVD TCP_SYN)) m \<longleftrightarrow> bit s m \<or> m = 4 \<or> m = 17"
  "bit (f OR TCP_XFER_CLOSED) m \<longleftrightarrow> bit f m \<or> m = 0"
  "bit (f OR TCP_TS_ENABLED) m \<longleftrightarrow> bit f m \<or> m = 1"
  "bit (f OR TCP_ACK_PENDING) m \<longleftrightarrow> bit f m \<or> m = 2"
  by (subst state_masks, (subst state_masks(1))?,
      simp only: bit_or_iff bit_exp_u32 not_exp_bit, (auto; fail))+

lemma mask_clear [simp]:
  "bit (f AND NOT TCP_ACK_PENDING) m \<longleftrightarrow> bit f m \<and> m \<noteq> 2"
  unfolding state_masks(10) by (rule not_exp_bit)

lemma closed_bit [simp]: "bit TCP_CLOSED m \<longleftrightarrow> m = 2"
  unfolding state_masks(11) by (subst bit_exp_u32) auto

lemma and_or_exp:
  "s AND (2 ^ a OR 2 ^ b) = (if bit s a then 2 ^ a else 0) OR (if bit s b then 2 ^ b else (0 :: u32))"
  by (simp add: bit.conj_disj_distrib and_exp_word)

lemma can_send_data: "TCP_CAN_SEND_DATA s \<longleftrightarrow> bit s 9 \<and> \<not> bit s 0"
  unfolding TCP_CAN_SEND_DATA_def state_masks(2,3) and_or_exp by simp

lemma has_been_established: "TCP_HAS_BEEN_ESTABLISHED s \<longleftrightarrow> bit s 9 \<and> bit s 17"
  unfolding TCP_HAS_BEEN_ESTABLISHED_def state_masks(1,2) and_or_exp by simp

lemma closed_gracefully: "TCP_CLOSED_GRACEFULLY s \<longleftrightarrow> bit s 8 \<and> bit s 16"
  unfolding TCP_CLOSED_GRACEFULLY_def state_masks(4,5) and_or_exp by simp

lemma sending_bit: "bit (TCP_FLAGS_SENDING s) n \<longleftrightarrow> n < 8 \<and> bit s n \<and> \<not> bit s (n + 8)"
proof -
  have eq: "TCP_FLAGS_SENDING s = (s AND mask 8) AND NOT (drop_bit 8 s AND mask 8)"
    by (simp add: TCP_FLAGS_SENDING_def TCP_FLAGS_SENT_def TCP_FLAGS_ACKED_def mask_eq_exp_minus_1)
  show ?thesis unfolding eq by (auto simp: bit_simps add.commute dest: bit_imp_le_length)
qed

section \<open>Frame of the basic operations\<close>

text \<open>Reference counts, processes and timers leave the fields of TCP alone.\<close>

lemma ref_tcp [simp]:
  "conn (ref_increment r (w :: tcp_world)) = conn w" "conn (ref_decrement r w) = conn w"
  "trace (ref_increment r w) = trace w" "trace (ref_decrement r w) = trace w"
  "tcp_conns (ref_increment r w) = tcp_conns w" "tcp_conns (ref_decrement r w) = tcp_conns w"
  "clock (ref_increment r w) = clock w" "clock (ref_decrement r w) = clock w"
  "pending_total (ref_increment r w) = pending_total w" "pending_total (ref_decrement r w) = pending_total w"
  by (auto simp: ref_increment_def ref_decrement_def Let_def split: option.splits)

lemma process_tcp [simp]:
  "conn (process_add p (w :: tcp_world)) = conn w" "conn (process_del p w) = conn w"
  "trace (process_add p w) = trace w" "trace (process_del p w) = trace w"
  "tcp_conns (process_add p w) = tcp_conns w" "tcp_conns (process_del p w) = tcp_conns w"
  by (auto simp: process_add_def process_del_def Let_def)

lemma set_timer_tcp [simp]:
  "conn (set_timer t x (w :: tcp_world)) = conn w"
  "trace (set_timer t x w) = trace w"
  "tcp_conns (set_timer t x w) = tcp_conns w"
  by (auto simp: set_timer_def)

lemma timer_tcp [simp]:
  "conn (start_timer tps now t (w :: tcp_world)) = conn w" "conn (stop_timer now t w) = conn w"
  "trace (start_timer tps now t w) = trace w" "trace (stop_timer now t w) = trace w"
  "tcp_conns (start_timer tps now t w) = tcp_conns w" "tcp_conns (stop_timer now t w) = tcp_conns w"
  "conn (start_timer_fixed tps now t tmo w) = conn w"
  "trace (start_timer_fixed tps now t tmo w) = trace w"
  "tcp_conns (start_timer_fixed tps now t tmo w) = tcp_conns w"
  by (auto simp: start_timer_def stop_timer_def start_timer_fixed_def Let_def)

lemma tcp_timer_tcp [simp]:
  "conn (start_tcp_timer E t w) = conn w" "conn (stop_tcp_timer E t w) = conn w"
  "trace (start_tcp_timer E t w) = trace w" "trace (stop_tcp_timer E t w) = trace w"
  "tcp_conns (start_tcp_timer E t w) = tcp_conns w" "tcp_conns (stop_tcp_timer E t w) = tcp_conns w"
  "conn (start_tcp_timer_fixed E t tmo w) = conn w"
  "trace (start_tcp_timer_fixed E t tmo w) = trace w"
  "tcp_conns (start_tcp_timer_fixed E t tmo w) = tcp_conns w"
  by (auto simp: start_tcp_timer_def stop_tcp_timer_def start_tcp_timer_fixed_def ask_def Let_def)

lemma upd_conn_sel [simp]:
  "conn (upd_conn i f w) = (conn w)(i := f (conn w i))"
  "trace (upd_conn i f w) = trace w"
  "tcp_conns (upd_conn i f w) = tcp_conns w"
  "clock (upd_conn i f w) = clock w"
  "pending_total (upd_conn i f w) = pending_total w"
  "timers (upd_conn i f w) = timers w" "timer_of (upd_conn i f w) = timer_of w"
  "run_queue (upd_conn i f w) = run_queue w" "proc_of (upd_conn i f w) = proc_of w"
  "rcount (upd_conn i f w) = rcount w" "freed (upd_conn i f w) = freed w"
  by (auto simp: upd_conn_def)

lemma emit_sel [simp]:
  "conn (emit e w) = conn w"
  "trace (emit e w) = e # trace w"
  "tcp_conns (emit e w) = tcp_conns w"
  "timers (emit e w) = timers w" "timer_of (emit e w) = timer_of w"
  "run_queue (emit e w) = run_queue w" "proc_of (emit e w) = proc_of w"
  "rcount (emit e w) = rcount w" "freed (emit e w) = freed w"
  by (auto simp: emit_def)

lemma ask_sel [simp]:
  "fst (ask q w) = q (clock w)"
  "conn (snd (ask q w)) = conn w" "trace (snd (ask q w)) = trace w"
  "tcp_conns (snd (ask q w)) = tcp_conns w"
  "timers (snd (ask q w)) = timers w" "timer_of (snd (ask q w)) = timer_of w"
  "run_queue (snd (ask q w)) = run_queue w" "proc_of (snd (ask q w)) = proc_of w"
  "rcount (snd (ask q w)) = rcount w" "freed (snd (ask q w)) = freed w"
  by (auto simp: ask_def)

text \<open>The count that \<open>pending_get\<close> and \<open>pending_put\<close> leave, which does not depend on the total.\<close>

definition pput :: "u32 \<Rightarrow> u32" where
  "pput c = (if c \<noteq> 0 then c - 1 else c)"

lemma pending_fst [simp]: "fst (pending_get (c, n)) = c + 1" "fst (pending_put (c, n)) = pput c"
  by (simp_all add: pending_get_def pending_put_def pput_def)

lemma pending_op_sel [simp]:
  "conn (pending_flags_op f i w) = (conn w)(i := (conn w i)\<lparr>pending_flags := fst (f (pending_flags (conn w i), pending_total w))\<rparr>)"
  "conn (pending_data_op f i w) = (conn w)(i := (conn w i)\<lparr>pending_data := fst (f (pending_data (conn w i), pending_total w))\<rparr>)"
  "trace (pending_flags_op f i w) = trace w" "trace (pending_data_op f i w) = trace w"
  "tcp_conns (pending_flags_op f i w) = tcp_conns w" "tcp_conns (pending_data_op f i w) = tcp_conns w"
  "timers (pending_flags_op f i w) = timers w" "timer_of (pending_flags_op f i w) = timer_of w"
  "run_queue (pending_flags_op f i w) = run_queue w" "proc_of (pending_flags_op f i w) = proc_of w"
  "rcount (pending_flags_op f i w) = rcount w" "freed (pending_flags_op f i w) = freed w"
  "timers (pending_data_op f i w) = timers w" "timer_of (pending_data_op f i w) = timer_of w"
  "run_queue (pending_data_op f i w) = run_queue w" "proc_of (pending_data_op f i w) = proc_of w"
  "rcount (pending_data_op f i w) = rcount w" "freed (pending_data_op f i w) = freed w"
  by (auto simp: pending_flags_op_def pending_data_op_def Let_def case_prod_beta)

lemma pending_data_puts [simp]:
  "conn ((pending_data_op pending_put i ^^ n) w) =
     (conn w)(i := (conn w i)\<lparr>pending_data := (pput ^^ n) (pending_data (conn w i))\<rparr>)"
  "trace ((pending_data_op pending_put i ^^ n) w) = trace w"
  "tcp_conns ((pending_data_op pending_put i ^^ n) w) = tcp_conns w"
  "timers ((pending_data_op pending_put i ^^ n) w) = timers w"
  "timer_of ((pending_data_op pending_put i ^^ n) w) = timer_of w"
  "run_queue ((pending_data_op pending_put i ^^ n) w) = run_queue w"
  "proc_of ((pending_data_op pending_put i ^^ n) w) = proc_of w"
  "rcount ((pending_data_op pending_put i ^^ n) w) = rcount w"
  "freed ((pending_data_op pending_put i ^^ n) w) = freed w"
  by (induction n) auto

section \<open>Discarding\<close>

definition discard_one :: "tcp_connection \<Rightarrow> tcp_connection" where
  "discard_one tcp = snd (discard_rx tcp)"

lemma discard_conns_eq:
  "snd (discard_conns is n w) = w\<lparr>conn := \<lambda>j. (discard_one ^^ count_list is j) (conn w j)\<rparr>"
proof (induction "is" n w rule: discard_conns.induct)
  case (2 i "is" n w)
  have "snd (discard_conns (i # is) n w) =
      snd (discard_conns is (n + fst (discard_rx (conn w i))) (upd_conn i (\<lambda>_. discard_one (conn w i)) w))"
    by (simp add: case_prod_beta Let_def discard_one_def)
  also have "\<dots> = (upd_conn i (\<lambda>_. discard_one (conn w i)) w)\<lparr>conn := \<lambda>j. (discard_one ^^ count_list is j)
      (conn (upd_conn i (\<lambda>_. discard_one (conn w i)) w) j)\<rparr>"
    unfolding discard_one_def [of "conn w i"] by (rule "2.IH" [OF refl prod.collapse])
  also have "\<dots> = w\<lparr>conn := \<lambda>j. (discard_one ^^ count_list (i # is) j) (conn w j)\<rparr>"
    by (auto simp: upd_conn_def fun_eq_iff funpow_swap1 intro!: tcp_world.fold_congs)
  finally show ?case .
qed simp

lemma tcp_discard_eq:
  "snd (tcp_discard w) = w\<lparr>conn := \<lambda>j. (discard_one ^^ count_list (tcp_conns w) j) (conn w j)\<rparr>"
  by (simp add: tcp_discard_def discard_conns_eq)

lemma discards_tcp_eq:
  "discards_tcp n w = w\<lparr>conn := \<lambda>j. (discard_one ^^ (n * count_list (tcp_conns w) j)) (conn w j)\<rparr>"
proof (induction n)
  case (Suc n)
  then show ?case by (simp add: discards_tcp_def tcp_discard_eq funpow_add add.commute)
qed (simp add: discards_tcp_def)

lemma discards_sel [simp]:
  "trace (discards_tcp n w) = trace w" "tcp_conns (discards_tcp n w) = tcp_conns w"
  "timers (discards_tcp n w) = timers w" "timer_of (discards_tcp n w) = timer_of w"
  "run_queue (discards_tcp n w) = run_queue w" "proc_of (discards_tcp n w) = proc_of w"
  "rcount (discards_tcp n w) = rcount w" "freed (discards_tcp n w) = freed w"
  by (simp_all add: discards_tcp_eq)

lemma discard_sel [simp]:
  "trace (snd (tcp_discard w)) = trace w" "tcp_conns (snd (tcp_discard w)) = tcp_conns w"
  "timers (snd (tcp_discard w)) = timers w" "timer_of (snd (tcp_discard w)) = timer_of w"
  "run_queue (snd (tcp_discard w)) = run_queue w" "proc_of (snd (tcp_discard w)) = proc_of w"
  "rcount (snd (tcp_discard w)) = rcount w" "freed (snd (tcp_discard w)) = freed w"
  by (simp_all add: tcp_discard_eq)

text \<open>
  A connection from which packets have been discarded: only the receive queue, of which a prefix is left, and
  the maximum window differ.
\<close>

definition discarded_from :: "tcp_connection \<Rightarrow> tcp_connection \<Rightarrow> bool" where
  "discarded_from c c' \<longleftrightarrow> (\<exists>k m. c' = c\<lparr>rx_queue := take k (rx_queue c), max_rcv_win := m\<rparr> \<and> m \<le> max_rcv_win c)"

lemma discarded_from_refl [simp]: "discarded_from c c"
  by (auto simp: discarded_from_def intro!: exI [of _ "length (rx_queue c)"] exI [of _ "max_rcv_win c"])

lemma discarded_from_trans: "discarded_from a b \<Longrightarrow> discarded_from b c \<Longrightarrow> discarded_from a c"
  unfolding discarded_from_def by (elim exE conjE, rule exI, rule exI) (auto intro: order_trans)

lemma discard_one_from: "discarded_from c (discard_one c)"
proof (cases "rx_queue c = []")
  case False
  let ?m = "q_seq (last (rx_queue c)) - rcv_ack c"
  have "discard_one c = c\<lparr>rx_queue := take (length (rx_queue c) - 1) (rx_queue c),
      max_rcv_win := if ?m < max_rcv_win c then ?m else max_rcv_win c\<rparr>"
    using False by (simp add: discard_one_def discard_rx_def Let_def butlast_conv_take)
  then show ?thesis unfolding discarded_from_def
    by (intro exI [of _ "length (rx_queue c) - 1"] exI conjI) auto
qed (simp add: discard_one_def discard_rx_def)

lemma discards_from: "discarded_from c ((discard_one ^^ n) c)"
  by (induction n) (auto intro: discarded_from_trans discard_one_from)

lemma discards_conn: "discarded_from (conn w j) (conn (discards_tcp n w) j)"
  by (simp add: discards_tcp_eq discards_from)

lemma discard_conn: "discarded_from (conn w j) (conn (snd (tcp_discard w)) j)"
  by (simp add: tcp_discard_eq discards_from)

lemma discarded_fields:
  assumes "discarded_from c c'"
  shows "tflags c' = tflags c" "xfer_open c' = xfer_open c" "plugged c' = plugged c" "peer c' = peer c"
    "local_port c' = local_port c" "tcp_state c' = tcp_state c" "snd_seq c' = snd_seq c"
    "snd_sent c' = snd_sent c" "snd_win c' = snd_win c" "rcv_ack c' = rcv_ack c" "rcv_win c' = rcv_win c"
    "tx_queue c' = tx_queue c" "rcv_win_scale c' = rcv_win_scale c" "ts_recent c' = ts_recent c"
    "pending_flags c' = pending_flags c" "pending_data c' = pending_data c" "mss c' = mss c"
    "set (rx_queue c') \<subseteq> set (rx_queue c)" "length (rx_queue c') \<le> length (rx_queue c)"
    "max_rcv_win c' \<le> max_rcv_win c"
  using assms by (auto simp: discarded_from_def dest: in_set_takeD)

section \<open>The transmit queue\<close>

lemma tx_scan_keep: "tx_scan m False q = (take m (concat q), min m (length (concat q)), q, 0)"
  by (induction m False q rule: tx_scan.induct) (auto simp: Let_def)

lemma tx_scan_remove:
  "tx_scan m True q = (d, l, q', n) \<Longrightarrow>
     d = take m (concat q) \<and> l = min m (length (concat q)) \<and> concat q' = drop m (concat q) \<and>
     n + length q' = length q"
proof (induction q arbitrary: m d l q' n)
  case (Cons b q)
  let ?f = "if m < length b then m else length b"
  obtain d1 l1 q1 n1 where r: "tx_scan (m - ?f) True q = (d1, l1, q1, n1)" by (metis prod_cases4)
  note IH = Cons.IH [OF r]
  show ?case
  proof (cases "m < length b")
    case True
    then have "drop m b \<noteq> []" by simp
    with Cons.prems r IH True show ?thesis by (auto simp: Let_def)
  next
    case False
    with Cons.prems r IH show ?thesis by (auto simp: Let_def)
  qed
qed simp

lemma process_tx_keep [simp]:
  "tcp_process_tx_queue i m False w = (take m (concat (tx_queue (conn w i))), min m (length (concat (tx_queue (conn w i)))), w)"
  by (simp add: tcp_process_tx_queue_def tx_scan_keep upd_conn_def)

definition tx_drop :: "nat \<Rightarrow> tcp_connection \<Rightarrow> tcp_connection" where
  "tx_drop m c = (let (_, _, q, n) = tx_scan m True (tx_queue c)
     in c\<lparr>tx_queue := q, pending_data := (pput ^^ n) (pending_data c)\<rparr>)"

lemma process_tx_remove [simp]:
  "conn (snd (snd (tcp_process_tx_queue i m True w))) = (conn w)(i := tx_drop m (conn w i))"
  "trace (snd (snd (tcp_process_tx_queue i m True w))) = trace w"
  "tcp_conns (snd (snd (tcp_process_tx_queue i m True w))) = tcp_conns w"
  "timers (snd (snd (tcp_process_tx_queue i m True w))) = timers w"
  "timer_of (snd (snd (tcp_process_tx_queue i m True w))) = timer_of w"
  "run_queue (snd (snd (tcp_process_tx_queue i m True w))) = run_queue w"
  "proc_of (snd (snd (tcp_process_tx_queue i m True w))) = proc_of w"
  "rcount (snd (snd (tcp_process_tx_queue i m True w))) = rcount w"
  "freed (snd (snd (tcp_process_tx_queue i m True w))) = freed w"
  by (auto simp: tcp_process_tx_queue_def tx_drop_def Let_def case_prod_beta)

lemma tx_drop_sel [simp]:
  "concat (tx_queue (tx_drop m c)) = drop m (concat (tx_queue c))"
  "tcp_state (tx_drop m c) = tcp_state c" "tflags (tx_drop m c) = tflags c"
  "xfer_open (tx_drop m c) = xfer_open c"
  "snd_seq (tx_drop m c) = snd_seq c" "snd_sent (tx_drop m c) = snd_sent c"
  "rcv_ack (tx_drop m c) = rcv_ack c" "rcv_win (tx_drop m c) = rcv_win c"
  "rx_queue (tx_drop m c) = rx_queue c" "pending_flags (tx_drop m c) = pending_flags c"
  "max_rcv_win (tx_drop m c) = max_rcv_win c" "rcv_win_scale (tx_drop m c) = rcv_win_scale c"
  "local_port (tx_drop m c) = local_port c" "plugged (tx_drop m c) = plugged c" "peer (tx_drop m c) = peer c"
proof -
  obtain d l q n where "tx_scan m True (tx_queue c) = (d, l, q, n)" by (metis prod_cases4)
  then show "concat (tx_queue (tx_drop m c)) = drop m (concat (tx_queue c))"
    using tx_scan_remove by (simp add: tx_drop_def)
qed (auto simp: tx_drop_def Let_def case_prod_beta)

section \<open>Connection-level effect of the operations\<close>

text \<open>\<open>tcp_rx_ack\<close> as a function of the connection.\<close>

definition acked_conn :: "u32 \<Rightarrow> tcp_connection \<Rightarrow> tcp_connection" where
  "acked_conn ack c =
     (let fl = TCP_FLAGS_SENDING (tcp_state c) AND (TCP_SYN OR TCP_FIN);
          len = (if fl \<noteq> 0 then ack - snd_seq c - 1 else ack - snd_seq c);
          c = (if fl \<noteq> 0 then c\<lparr>pending_flags := pput (pending_flags c)\<rparr> else c);
          c = tx_drop (unat len) (c\<lparr>snd_seq := ack, snd_sent := 0\<rparr>)
      in if fl \<noteq> 0 then c\<lparr>tcp_state := tcp_state c OR TCP_STATE_ACKED fl\<rparr> else c)"

definition fin_conn :: "tcp_connection \<Rightarrow> tcp_connection" where
  "fin_conn c = c\<lparr>tcp_state := tcp_state c OR TCP_STATE_SENT TCP_FIN, pending_flags := pending_flags c + 1\<rparr>"

definition fin_ready :: "tcp_connection \<Rightarrow> bool" where
  "fin_ready c \<longleftrightarrow> tx_queue c = [] \<and> bit (tflags c) 0 \<and> \<not> bit (tcp_state c) 0"

definition ack_conn :: "u32 \<Rightarrow> u32 \<Rightarrow> tcp_connection \<Rightarrow> tcp_connection" where
  "ack_conn ack win c =
     (if snd_sent c < ack - snd_seq c then c
      else if ack - snd_seq c = 0 then c\<lparr>snd_win := win\<rparr>
      else (let c = acked_conn ack (c\<lparr>snd_win := win\<rparr>) in if fin_ready c then fin_conn c else c))"

lemma rx_ack_conn [simp]:
  "conn (snd (tcp_rx_ack E i ack win w)) = (conn w)(i := ack_conn ack win (conn w i))"
  "trace (snd (tcp_rx_ack E i ack win w)) = trace w"
  "tcp_conns (snd (tcp_rx_ack E i ack win w)) = tcp_conns w"
  by (auto simp: tcp_rx_ack_def ack_conn_def acked_conn_def fin_conn_def fin_ready_def Let_def case_prod_beta)

definition delete_conn :: "tcp_connection \<Rightarrow> tcp_connection" where
  "delete_conn c = c\<lparr>tcp_state := TCP_CLOSED, prev_tcp_state := TCP_CLOSED, rx_queue := [], tx_queue := [],
     pending_data := (pput ^^ length (tx_queue c)) (pending_data c),
     pending_flags := pput (pput (pending_flags c))\<rparr>"

lemma delete_conn [simp]:
  "conn (tcp_delete E i w) = (conn w)(i := delete_conn (conn w i))"
  "trace (tcp_delete E i w) = trace w"
  "tcp_conns (tcp_delete E i w) = remove1 i (tcp_conns w)"
  by (auto simp: tcp_delete_def delete_conn_def tcp_dump_state_def Let_def)

lemma acked_conn_sel [simp]:
  "xfer_open (acked_conn ack c) = xfer_open c" "tflags (acked_conn ack c) = tflags c"
  "rcv_ack (acked_conn ack c) = rcv_ack c" "rcv_win (acked_conn ack c) = rcv_win c"
  "rx_queue (acked_conn ack c) = rx_queue c" "max_rcv_win (acked_conn ack c) = max_rcv_win c"
  "rcv_win_scale (acked_conn ack c) = rcv_win_scale c" "local_port (acked_conn ack c) = local_port c"
  "plugged (acked_conn ack c) = plugged c" "peer (acked_conn ack c) = peer c"
  by (auto simp: acked_conn_def Let_def)

lemma ack_conn_sel [simp]:
  "xfer_open (ack_conn ack win c) = xfer_open c" "tflags (ack_conn ack win c) = tflags c"
  "rcv_ack (ack_conn ack win c) = rcv_ack c" "rcv_win (ack_conn ack win c) = rcv_win c"
  "rx_queue (ack_conn ack win c) = rx_queue c" "max_rcv_win (ack_conn ack win c) = max_rcv_win c"
  "rcv_win_scale (ack_conn ack win c) = rcv_win_scale c" "local_port (ack_conn ack win c) = local_port c"
  "plugged (ack_conn ack win c) = plugged c" "peer (ack_conn ack win c) = peer c"
  by (auto simp: ack_conn_def fin_conn_def Let_def)

lemma sending_syn_fin:
  "TCP_FLAGS_SENDING s AND (TCP_SYN OR TCP_FIN) =
     (if bit s 1 \<and> \<not> bit s 9 then TCP_SYN else 0) OR (if bit s 0 \<and> \<not> bit s 8 then TCP_FIN else 0)"
  unfolding flag_masks and_or_exp by (simp add: sending_bit)

lemma sending_none:
  "TCP_FLAGS_SENDING s AND (TCP_SYN OR TCP_FIN) = 0 \<longleftrightarrow>
     (bit s 1 \<longrightarrow> bit s 9) \<and> (bit s 0 \<longrightarrow> bit s 8)"
  unfolding sending_syn_fin by (simp add: tcp_consts)

lemma acked_state_bit:
  "bit (tcp_state (acked_conn ack c)) m \<longleftrightarrow> bit (tcp_state c) m \<or>
     (m = 9 \<and> bit (tcp_state c) 1) \<or> (m = 8 \<and> bit (tcp_state c) 0)"
proof -
  let ?s = "tcp_state c" and ?fl = "TCP_FLAGS_SENDING (tcp_state c) AND (TCP_SYN OR TCP_FIN)"
  have "tcp_state (acked_conn ack c) = (if ?fl \<noteq> 0 then ?s OR TCP_STATE_ACKED ?fl else ?s)"
    by (simp add: acked_conn_def Let_def)
  moreover have "TCP_STATE_ACKED ?fl =
      (if bit ?s 1 \<and> \<not> bit ?s 9 then 2 ^ 9 else 0) OR (if bit ?s 0 \<and> \<not> bit ?s 8 then 2 ^ 8 else 0)"
    unfolding sending_syn_fin by (simp add: tcp_consts push_bit_eq_mult)
  ultimately show ?thesis
    by (cases "bit ?s 1"; cases "bit ?s 9"; cases "bit ?s 0"; cases "bit ?s 8")
      (auto simp: sending_none bit_or_iff bit_exp_u32 simp del: power_numeral)
qed

section \<open>Closing the interface\<close>

definition still where
  "still c = (tflags c, xfer_open c, tcp_state c, snd_seq c, snd_sent c, snd_win c, rcv_ack c, rcv_win c,
     tx_queue c, local_port c, pending_flags c, pending_data c)"

lemma discarded_still: "discarded_from c c' \<Longrightarrow> still c' = still c"
  by (simp add: still_def discarded_fields)

lemma app_call_null_still: "still (conn (app_call_null j call w) k) = still (conn w k)"
  using discarded_still [OF discard_conn, of w k]
  by (cases call) (auto simp: app_unplug_def still_def)

lemma app_calls_null_still: "still (conn (fold (app_call_null j) calls w) k) = still (conn w k)"
  by (induction calls arbitrary: w) (simp_all add: app_call_null_still)

lemma shutdown_still:
  "still (conn (xfer_shutdown E j rc w) k) = still (if k = j then (conn w k)\<lparr>xfer_open := False\<rparr> else conn w k)"
  by (auto simp: xfer_shutdown_def Let_def case_prod_beta app_calls_null_still) (auto simp: still_def)

lemma shutdown_sel:
  "xfer_open (conn (xfer_shutdown E j rc w) k) = (k \<noteq> j \<and> xfer_open (conn w k))"
  "tcp_state (conn (xfer_shutdown E j rc w) k) = tcp_state (conn w k)"
  "tx_queue (conn (xfer_shutdown E j rc w) k) = tx_queue (conn w k)"
  "rcv_ack (conn (xfer_shutdown E j rc w) k) = rcv_ack (conn w k)"
  "local_port (conn (xfer_shutdown E j rc w) k) = local_port (conn w k)"
  using shutdown_still [of E j rc w k] by (auto simp: still_def split: if_splits)

end
