(* ===== verification/Tcp_Inv.thy ===== *)
theory Tcp_Inv
  imports Tcp_Frame
begin

text \<open>
  Invariants of a TCP connection.  The locale states what a property of one connection and of the
  events seen on it must be closed under, one law per elementary change that the code makes to a connection;
  every operation of \<open>net/tcp.c\<close> then keeps the property, which is proved here once.  The
  theories that follow interpret the locale with the properties of the two data paths.
\<close>

lemma tcp_run_mono: "tcp_run E ok w w' \<Longrightarrow> (\<And>w l. ok w l \<Longrightarrow> ok' w l) \<Longrightarrow> tcp_run E ok' w w'"
  by (induction rule: tcp_run.induct) (auto intro: tcp_run.intros)

section \<open>Events of a connection\<close>

fun event_conn :: "tcp_event \<Rightarrow> nat" where
  "event_conn (TxSegment i _ _) = i"
| "event_conn (TxReset i _ _) = i"
| "event_conn (Delivered i _) = i"
| "event_conn (Closed i _) = i"
| "event_conn (WindowChanged i) = i"
| "event_conn (Accepted i _) = i"

definition events :: "nat \<Rightarrow> tcp_world \<Rightarrow> tcp_event list" where
  "events i w = filter (\<lambda>e. event_conn e = i) (trace w)"

text \<open>The fields of a connection that matter to the data paths.\<close>

definition core where
  "core c = (bit (tflags c) 0, xfer_open c, tcp_state c, snd_seq c, snd_sent c, rcv_ack c, rcv_win c,
     rcv_win_scale c, max_rcv_win c, tx_queue c, rx_queue c, pending_flags c, pending_data c)"

text \<open>What \<open>tcp_xmit\<close> would send: the payload and the sequence space it takes.\<close>

definition xmit_data :: "tcp_connection \<Rightarrow> bytes" where
  "xmit_data c = (if TCP_CAN_SEND_DATA (tcp_state c)
     then take (unat (tcp_xmit_win c)) (concat (tx_queue c)) else [])"

definition xmit_len :: "tcp_connection \<Rightarrow> u32" where
  "xmit_len c = of_nat (length (xmit_data c)) +
     (if TCP_FLAGS_SENDING (tcp_state c) AND (TCP_SYN OR TCP_FIN) \<noteq> 0 then 1 else 0)"

text \<open>The packet at the head of the receive queue, taken off it and its data consumed.\<close>

definition data_conn :: "tcp_rx_queued \<Rightarrow> tcp_rx_queued list \<Rightarrow> tcp_connection \<Rightarrow> tcp_connection" where
  "data_conn q qs c =
     (let c = c\<lparr>rx_queue := qs\<rparr>; already = rcv_ack c - q_seq q; len = of_nat (length (q_data q))
      in if len \<le> already then c else tcp_rx_seq (len - already) c)"

definition data_events :: "nat \<Rightarrow> tcp_rx_queued \<Rightarrow> tcp_connection \<Rightarrow> tcp_event list \<Rightarrow> tcp_event list" where
  "data_events i q c tr =
     (let already = rcv_ack c - q_seq q
      in if of_nat (length (q_data q)) \<le> already \<or> \<not> xfer_open c then tr
         else Delivered i (drop (unat already) (q_data q)) # tr)"

definition fin_pos :: "tcp_rx_queued \<Rightarrow> u32 option" where
  "fin_pos q = (if bit (q_flags q) 0 then Some (q_seq q + of_nat (length (q_data q))) else None)"

definition rx_fin_conn :: "tcp_connection \<Rightarrow> tcp_connection" where
  "rx_fin_conn c = (let c = tcp_rx_seq 1 c in c\<lparr>tcp_state := tcp_state c OR TCP_STATE_RCVD TCP_FIN\<rparr>)"

section \<open>The steps of \<open>tcp_xmit\<close>\<close>

text \<open>\<open>tcp_xmit\<close> from the point where the retransmission timer has been started.\<close>

definition xmit_segment :: "tcp_env \<Rightarrow> nat \<Rightarrow> u32 \<Rightarrow> bytes \<Rightarrow> tcp_world \<Rightarrow> tcp_world" where
  "xmit_segment E j fl payload w =
     (let w = upd_conn j (expand_rcv_win (fst (xfer_window E j w))) (snd (xfer_window E j w));
          (now, w) = ask (ticks E) w;
          (rc, w) = tcp_send E (TxSegment j (peer (conn w j)) (tcp_segment (conn w j) fl now payload)) w
      in if rc \<noteq> None then w else upd_conn j (\<lambda>tcp. tcp\<lparr>tflags := tflags tcp AND NOT TCP_ACK_PENDING\<rparr>) w)"

lemma xmit_data_cong:
  "tcp_state c' = tcp_state c \<Longrightarrow> tx_queue c' = tx_queue c \<Longrightarrow> snd_win c' = snd_win c \<Longrightarrow> xmit_data c' = xmit_data c"
  by (simp add: xmit_data_def tcp_xmit_win_def)

lemma take_min_xmit:
  "take (if TCP_CAN_SEND_DATA (tcp_state c) then min (unat (tcp_xmit_win c)) (length (concat (tx_queue c))) else 0)
     (concat (tx_queue c)) = xmit_data c"
  by (simp add: xmit_data_def min_def)

lemma length_xmit_data:
  "length (xmit_data c) =
     (if TCP_CAN_SEND_DATA (tcp_state c) then min (unat (tcp_xmit_win c)) (length (concat (tx_queue c))) else 0)"
  by (simp add: xmit_data_def min.commute)

lemma alloc_conn: "discarded_from (conn w j) (conn (snd (alloc_iob E w)) j)"
  by (simp add: alloc_iob_def Let_def case_prod_beta) (metis ask_sel(2) discards_conn)

lemma alloc_sel [simp]:
  "trace (snd (alloc_iob E w)) = trace w" "tcp_conns (snd (alloc_iob E w)) = tcp_conns w"
  by (simp_all add: alloc_iob_def Let_def case_prod_beta)

lemma tcp_xmit_eq:
  "tcp_xmit E j w =
     (if timer_running (j, Retransmit) w then w
      else
        (let w1 = upd_conn j (\<lambda>tcp. tcp\<lparr>snd_sent := xmit_len tcp\<rparr>) w in
         if xmit_len (conn w j) = 0 \<and> \<not> bit (tflags (conn w j)) 2 then w1
         else
           (let w2 = (if xmit_len (conn w j) \<noteq> 0 then start_tcp_timer E (j, Retransmit) w1 else w1);
                (ok, w3) = alloc_iob E w2
            in if \<not> ok then w3
               else xmit_segment E j (TCP_FLAGS_SENDING (tcp_state (conn w j))) (xmit_data (conn w j)) w3)))"
proof -
  let ?w1 = "upd_conn j (\<lambda>tcp. tcp\<lparr>snd_sent := xmit_len tcp\<rparr>) w"
  let ?w2 = "if xmit_len (conn w j) \<noteq> 0 then start_tcp_timer E (j, Retransmit) ?w1 else ?w1"
  have "conn ?w2 = conn ?w1" by simp
  then have q: "tx_queue (conn (snd (alloc_iob E ?w2)) j) = tx_queue (conn w j)"
    using alloc_conn [of ?w2 j E] by (simp add: discarded_fields)
  have w1: "upd_conn j (\<lambda>tcp. tcp\<lparr>snd_sent := xmit_len (conn w j)\<rparr>) w = ?w1"
    by (simp add: upd_conn_def)
  have len: "(if TCP_CAN_SEND_DATA (tcp_state (conn w j)) then min (unat (tcp_xmit_win (conn w j)))
      (length (concat (tx_queue (conn w j)))) else 0) = length (xmit_data (conn w j))"
    by (simp add: length_xmit_data)
  have pay: "take (length (xmit_data (conn w j))) (concat (tx_queue (conn w j))) = xmit_data (conn w j)"
    unfolding length_xmit_data by (rule take_min_xmit)
  show ?thesis
    unfolding tcp_xmit_def xmit_segment_def Let_def process_tx_keep fst_conv snd_conv len
      xmit_len_def [symmetric] w1 case_prod_beta q pay by simp
qed

section \<open>Invariants\<close>

text \<open>
  \<open>Q c tr fin\<close>: the property of connection \<open>i\<close> in state \<open>c\<close> with the events \<open>tr\<close>; \<open>fin\<close> is the position
  of a FIN whose packet has been taken off the receive queue but that has not been handled yet.
  A property that is closed under the elementary changes of a connection other than reception is
  kept by everything that the application, the timers and the transmission of segments do.
\<close>

locale tcp_conn_calls =
  fixes i :: nat
    and Q :: "tcp_connection \<Rightarrow> tcp_event list \<Rightarrow> u32 option \<Rightarrow> bool"
  assumes core: "Q c tr p \<Longrightarrow> core c' = core c \<Longrightarrow> Q c' tr p"
    and disc: "Q c tr p \<Longrightarrow> discarded_from c c' \<Longrightarrow> Q c' tr p"
    and shut: "Q c tr p \<Longrightarrow> xfer_open c \<Longrightarrow> Q (c\<lparr>xfer_open := False\<rparr>) (Closed i rc # tr) p"
    and mark: "Q c tr p \<Longrightarrow> \<not> xfer_open c \<Longrightarrow> bit (tcp_state c) 17 \<Longrightarrow> Q (c\<lparr>tflags := tflags c OR TCP_XFER_CLOSED\<rparr>) tr p"
    and ack: "Q c tr p \<Longrightarrow> Q (ack_conn ackno win c) tr p"
    and delete: "Q c tr p \<Longrightarrow> \<not> xfer_open c \<Longrightarrow> \<not> bit (tcp_state c) 17 \<Longrightarrow>
      Q (delete_conn (c\<lparr>tflags := tflags c OR TCP_XFER_CLOSED\<rparr>)) tr p"
    and abort: "Q c tr p \<Longrightarrow> Q (c\<lparr>tcp_state := TCP_CLOSED, xfer_open := False\<rparr>)
      (if xfer_open c then Closed i rc # tr else tr) p"
    and fin: "Q c tr p \<Longrightarrow> fin_ready c \<Longrightarrow> \<not> xfer_open c \<Longrightarrow> bit (tcp_state c) 17 \<Longrightarrow> Q (fin_conn c) tr p"
    and xmit: "Q c tr p \<Longrightarrow> Q (c\<lparr>snd_sent := xmit_len c\<rparr>) tr p"
    and segment: "Q c tr p \<Longrightarrow>
      Q c (TxSegment i addr (tcp_segment c (TCP_FLAGS_SENDING (tcp_state c)) now (xmit_data c)) # tr) p"
    and expand: "Q c tr p \<Longrightarrow> Q (expand_rcv_win win c) tr p"
    and accept: "Q c tr p \<Longrightarrow> xfer_open c \<Longrightarrow>
      Q (c\<lparr>tx_queue := tx_queue c @ [b], pending_data := pending_data c + 1\<rparr>) (Accepted i b # tr) p"
    and reset: "Q c tr p \<Longrightarrow> Q c (TxReset i addr b # tr) p"
    and changed: "Q c tr p \<Longrightarrow> Q c (WindowChanged i # tr) p"
begin

definition P :: "tcp_world \<Rightarrow> u32 option \<Rightarrow> bool" where
  "P w p \<longleftrightarrow> Q (conn w i) (events i w) p"

lemma P_frame: "P w p \<Longrightarrow> conn w' i = conn w i \<Longrightarrow> trace w' = trace w \<Longrightarrow> P w' p"
  by (simp add: P_def events_def)

lemma P_core: "P w p \<Longrightarrow> core (conn w' i) = core (conn w i) \<Longrightarrow> trace w' = trace w \<Longrightarrow> P w' p"
  by (auto simp: P_def events_def intro: core)

lemma P_upd: "P w p \<Longrightarrow> (j = i \<Longrightarrow> Q (f (conn w i)) (events i w) p) \<Longrightarrow> P (upd_conn j f w) p"
  by (auto simp: P_def events_def)

lemma P_upd_Q: "P w p \<Longrightarrow> (\<And>tr. Q (conn w j) tr p \<Longrightarrow> Q (f (conn w j)) tr p) \<Longrightarrow> P (upd_conn j f w) p"
  by (auto simp: P_def events_def)

lemma P_emit: "P w p \<Longrightarrow> (event_conn e = i \<Longrightarrow> Q (conn w i) (e # events i w) p) \<Longrightarrow> P (emit e w) p"
  by (auto simp: P_def events_def)

lemma P_emit_reset: "P w p \<Longrightarrow> P (emit (TxReset j addr b) w) p"
  by (rule P_emit) (auto simp: P_def intro: reset)

lemma P_emit_changed: "P w p \<Longrightarrow> P (emit (WindowChanged j) w) p"
  by (rule P_emit) (auto simp: P_def intro: changed)

lemma P_discards: "P w p \<Longrightarrow> P (discards_tcp n w) p"
  using disc [OF _ discards_conn] by (auto simp: P_def events_def)

lemma P_discard: "P w p \<Longrightarrow> P (snd (tcp_discard w)) p"
  using disc [OF _ discard_conn] by (auto simp: P_def events_def)

lemma P_ask: "P w p \<Longrightarrow> P (snd (ask q w)) p"
  by (erule P_frame) simp_all

lemma P_ref: "P w p \<Longrightarrow> P (ref_increment r w) p" "P w p \<Longrightarrow> P (ref_decrement r w) p"
  by (erule P_frame; simp)+

lemma P_timer:
  "P w p \<Longrightarrow> P (start_tcp_timer E t w) p" "P w p \<Longrightarrow> P (stop_tcp_timer E t w) p"
  "P w p \<Longrightarrow> P (start_tcp_timer_fixed E t tmo w) p"
  by (erule P_frame; simp)+

lemma P_process: "P w p \<Longrightarrow> P (process_add q w) p" "P w p \<Longrightarrow> P (process_del q w) p"
  by (erule P_frame; simp)+

lemma P_alloc: "P w p \<Longrightarrow> P (snd (alloc_iob E w)) p"
  by (auto simp: alloc_iob_def Let_def case_prod_beta intro: P_discards P_ask)

lemma P_send: "P (emit e w) p \<Longrightarrow> P (snd (tcp_send E e w)) p"
  by (auto simp: tcp_send_def Let_def case_prod_beta intro: P_discards P_ask)

lemma P_unplug: "P w p \<Longrightarrow> P (app_unplug j w) p"
  unfolding app_unplug_def by (auto intro!: P_ref elim!: P_core simp: core_def)

lemma P_call_null: "P w p \<Longrightarrow> P (app_call_null j c w) p"
  by (cases c) (auto intro: P_unplug P_discard)

lemma P_calls_null: "P w p \<Longrightarrow> P (fold (app_call_null j) cs w) p"
  by (induction cs arbitrary: w) (auto intro: P_call_null)

lemma P_shutdown: "P w p \<Longrightarrow> P (xfer_shutdown E j rc w) p"
  unfolding xfer_shutdown_def
  by (auto simp: Let_def case_prod_beta P_def events_def
      intro!: P_calls_null [unfolded P_def events_def] intro: shut)

lemma P_ack: "P w p \<Longrightarrow> P (snd (tcp_rx_ack E j ackno win w)) p"
  by (auto simp: P_def events_def intro: ack)

lemma P_mark:
  "P w p \<Longrightarrow> \<not> xfer_open (conn w j) \<Longrightarrow> bit (tcp_state (conn w j)) 17 \<Longrightarrow>
     P (upd_conn j (\<lambda>tcp. tcp\<lparr>tflags := tflags tcp OR TCP_XFER_CLOSED\<rparr>) w) p"
  by (rule P_upd) (auto simp: P_def intro: mark)

lemma P_delete:
  "P w p \<Longrightarrow> \<not> xfer_open (conn w j) \<Longrightarrow> \<not> bit (tcp_state (conn w j)) 17 \<Longrightarrow>
     P (tcp_delete E j (upd_conn j (\<lambda>tcp. tcp\<lparr>tflags := tflags tcp OR TCP_XFER_CLOSED\<rparr>) w)) p"
  by (auto simp: P_def events_def intro: delete)

lemma P_fin:
  assumes "P w p" "fin_ready (conn w j)" "\<not> xfer_open (conn w j)" "bit (tcp_state (conn w j)) 17"
  shows "P (pending_flags_op pending_get j (upd_conn j (\<lambda>tcp. tcp_dump_state
    (tcp\<lparr>tcp_state := tcp_state tcp OR TCP_STATE_SENT TCP_FIN\<rparr>)) w)) p"
proof -
  have "P (upd_conn j fin_conn w) p"
    using assms by (intro P_upd) (auto simp: P_def intro: fin)
  then show ?thesis
    by (rule P_core) (auto simp: core_def fin_conn_def tcp_dump_state_def)
qed

text \<open>\<open>tcp_close\<close> after the interface has been shut down.\<close>

lemma P_close_shut:
  assumes "P (xfer_shutdown E j rc w) p"
  shows "P (tcp_close E j rc w) p"
proof -
  define w1 where "w1 = upd_conn j (\<lambda>tcp. tcp\<lparr>tflags := tflags tcp OR TCP_XFER_CLOSED\<rparr>) (xfer_shutdown E j rc w)"
  have w1: "\<not> xfer_open (conn w1 j)" "bit (tflags (conn w1 j)) 0"
    using assms by (auto simp: w1_def shutdown_sel)
  show ?thesis
  proof (cases "bit (tcp_state (conn w1 j)) 17")
    case False
    then have "tcp_close E j rc w = tcp_delete E j w1"
      unfolding tcp_close_def Let_def w1_def [symmetric] by simp
    with assms False show ?thesis by (simp add: w1_def P_delete shutdown_sel)
  next
    case True
    define w2 where "w2 = (if bit (tcp_state (conn w1 j)) 9 then w1
      else snd (tcp_rx_ack E j (snd_seq (conn w1 j) + 1) 0 w1))"
    have w2: "P w2 p" "\<not> xfer_open (conn w2 j)" "bit (tflags (conn w2 j)) 0" "bit (tcp_state (conn w2 j)) 17"
      using w1 P_mark [OF assms] True by (auto simp: w2_def w1_def shutdown_sel P_ack ack_conn_def acked_state_bit fin_conn_def Let_def)
    have "tcp_close E j rc w = (if fin_ready (conn w2 j) then pending_flags_op pending_get j (upd_conn j (\<lambda>tcp.
        tcp_dump_state (tcp\<lparr>tcp_state := tcp_state tcp OR TCP_STATE_SENT TCP_FIN\<rparr>)) w2) else w2)"
      using True w2(3) unfolding tcp_close_def Let_def w1_def [symmetric] fin_ready_def w2_def by simp
    with w2 show ?thesis by (simp add: P_fin)
  qed
qed

lemma P_close: "P w p \<Longrightarrow> P (tcp_close E j rc w) p"
  by (rule P_close_shut) (rule P_shutdown)

lemma P_abort:
  assumes "P w p"
  shows "P (tcp_close E j rc (upd_conn j (\<lambda>tcp. tcp_dump_state (tcp\<lparr>tcp_state := TCP_CLOSED\<rparr>)) w)) p"
proof (rule P_close_shut)
  let ?w = "upd_conn j (\<lambda>tcp. tcp_dump_state (tcp\<lparr>tcp_state := TCP_CLOSED\<rparr>)) w"
  have *: "j = i \<Longrightarrow> Q ((tcp_dump_state ((conn w i)\<lparr>tcp_state := TCP_CLOSED\<rparr>))\<lparr>xfer_open := False\<rparr>)
      (if xfer_open (conn w i) then Closed i rc # events i w else events i w) p"
    by (rule core [OF abort [of "conn w i" "events i w" p rc]])
      (use assms in \<open>auto simp: P_def core_def tcp_dump_state_def\<close>)
  show "P (xfer_shutdown E j rc ?w) p"
  proof (cases "xfer_open (conn w j)")
    case True
    have "P (emit (Closed j rc) (upd_conn j (\<lambda>tcp. tcp\<lparr>xfer_open := False\<rparr>) ?w)) p"
      using * True assms by (cases "j = i") (auto simp: P_def events_def)
    with True show ?thesis
      by (auto simp: xfer_shutdown_def Let_def case_prod_beta tcp_dump_state_def intro: P_calls_null P_ask)
  next
    case False
    have "P ?w p"
    proof (cases "j = i")
      case True
      with * False have "Q ((tcp_dump_state ((conn w i)\<lparr>tcp_state := TCP_CLOSED\<rparr>))\<lparr>xfer_open := False\<rparr>) (events i w) p"
        by simp
      then have "Q (tcp_dump_state ((conn w i)\<lparr>tcp_state := TCP_CLOSED\<rparr>)) (events i w) p"
        by (rule core) (use False True in \<open>simp add: core_def tcp_dump_state_def\<close>)
      with True show ?thesis by (simp add: P_def events_def)
    qed (use assms in \<open>simp add: P_def events_def\<close>)
    with False show ?thesis by (simp add: xfer_shutdown_def tcp_dump_state_def)
  qed
qed

lemma P_segment:
  assumes "P w p" "fl = TCP_FLAGS_SENDING (tcp_state (conn w j))" "payload = xmit_data (conn w j)"
  shows "P (xmit_segment E j fl payload w) p"
proof -
  define w1 where "w1 = upd_conn j (expand_rcv_win (fst (xfer_window E j w))) (snd (xfer_window E j w))"
  define w2 where "w2 = snd (ask (ticks E) w1)"
  have "conn (snd (xfer_window E j w)) = conn w" "trace (snd (xfer_window E j w)) = trace w"
    by (auto simp: xfer_window_def)
  then have c: "tcp_state (conn w2 j) = tcp_state (conn w j)" "tx_queue (conn w2 j) = tx_queue (conn w j)"
    "snd_win (conn w2 j) = snd_win (conn w j)" and "P (snd (xfer_window E j w)) p"
    using assms(1) by (auto simp: w2_def w1_def expand_rcv_win_def Let_def elim: P_frame)
  then have "P w2 p"
    unfolding w2_def w1_def by (intro P_ask P_upd_Q expand)
  have seg: "fl = TCP_FLAGS_SENDING (tcp_state (conn w2 j))" "payload = xmit_data (conn w2 j)"
    using assms c by (simp_all add: xmit_data_cong [OF c])
  have "P (emit (TxSegment j a (tcp_segment (conn w2 j) fl now payload)) w2) p" for a now
    unfolding seg using \<open>P w2 p\<close> by (intro P_emit) (auto simp: P_def intro: segment)
  then have "P (snd (tcp_send E (TxSegment j (peer (conn w2 j)) (tcp_segment (conn w2 j) fl (fst (ask (ticks E) w1)) payload)) w2)) p"
    by (rule P_send)
  then show ?thesis
    unfolding xmit_segment_def Let_def case_prod_beta w1_def [symmetric] w2_def [symmetric]
    by (auto elim!: P_core simp: core_def)
qed

lemma P_xmit: "P w p \<Longrightarrow> P (tcp_xmit E j w) p"
proof -
  assume "P w p"
  define w1 where "w1 = upd_conn j (\<lambda>tcp. tcp\<lparr>snd_sent := xmit_len tcp\<rparr>) w"
  have "P w1 p" using \<open>P w p\<close> unfolding w1_def by (rule P_upd_Q) (rule xmit)
  define w2 where "w2 = (if xmit_len (conn w j) \<noteq> 0 then start_tcp_timer E (j, Retransmit) w1 else w1)"
  have "P w2 p" and "conn w2 = conn w1" using \<open>P w1 p\<close> by (auto simp: w2_def intro: P_timer)
  have c: "discarded_from (conn w1 j) (conn (snd (alloc_iob E w2)) j)"
    using alloc_conn [of w2 j E] \<open>conn w2 = conn w1\<close> by simp
  have "P (xmit_segment E j (TCP_FLAGS_SENDING (tcp_state (conn w j))) (xmit_data (conn w j)) (snd (alloc_iob E w2))) p"
    using \<open>P w2 p\<close> c by (intro P_segment P_alloc) (auto simp: discarded_fields w1_def intro!: xmit_data_cong [symmetric])
  then show ?thesis
    using \<open>P w p\<close> \<open>P w1 p\<close> P_alloc [OF \<open>P w2 p\<close>]
    unfolding tcp_xmit_eq Let_def case_prod_beta w1_def [symmetric] w2_def [symmetric] by auto
qed

lemma P_xfer_close: "P w p \<Longrightarrow> P (tcp_xfer_close E j rc w) p"
  by (simp add: tcp_xfer_close_def P_xmit P_close)

lemma P_xfer_deliver:
  assumes "P w p" "xfer_open (conn w j)"
  shows "P (snd (tcp_xfer_deliver E j b w)) p"
proof -
  let ?w = "pending_data_op pending_get j (emit (Accepted j b)
    (upd_conn j (\<lambda>tcp. tcp\<lparr>tx_queue := tx_queue tcp @ [b]\<rparr>) w))"
  have "P ?w p"
    using assms accept [of "conn w i" "events i w" p b]
    by (cases "j = i") (auto simp: P_def events_def)
  then show ?thesis by (simp add: tcp_xfer_deliver_def Let_def P_xmit)
qed

lemma P_do: "P w p \<Longrightarrow> P (app_do E j call w) p"
  by (cases call) (auto intro!: P_ref P_xfer_deliver P_xfer_close P_unplug P_discard)

lemma P_dos: "P w p \<Longrightarrow> P (fold (app_do E j) calls w) p"
  by (induction calls arbitrary: w) (auto intro: P_do)

lemma P_deliver:
  "P (if xfer_open (conn w j) then emit (Delivered j b) w else w) p \<Longrightarrow> P (snd (xfer_deliver_iob E j b w)) p"
  by (auto simp: xfer_deliver_iob_def Let_def case_prod_beta intro!: P_dos P_ask)

lemma P_window_changed: "P w p \<Longrightarrow> P (xfer_window_changed E j w) p"
  by (auto simp: xfer_window_changed_def Let_def case_prod_beta intro!: P_dos P_ask P_emit_changed)

lemma P_rst: "P w p \<Longrightarrow> P (snd (tcp_rx_rst E j seq w)) p"
  by (auto simp: tcp_rx_rst_def Let_def intro: P_abort)

lemma P_expired: "P w p \<Longrightarrow> P (tcp_timer_expired E t over w) p"
  by (cases "(E, t, over, w)" rule: tcp_timer_expired.cases)
    (auto simp: tcp_expired_def tcp_wait_expired_def intro: P_abort P_xmit)

lemma P_reset: "P w p \<Longrightarrow> P (snd (tcp_xmit_reset E j a s d q k w)) p"
  by (auto simp: tcp_xmit_reset_def Let_def case_prod_beta intro!: P_send P_emit_reset P_alloc)

lemma P_finish: "P w p \<Longrightarrow> P (tcp_rx_finish E j old w) p"
proof -
  assume "P w p"
  then have "P (upd_conn j tcp_dump_state w) p"
    by (rule P_core) (auto simp: core_def tcp_dump_state_def)
  then show ?thesis
    by (auto simp: tcp_rx_finish_def Let_def intro!: P_window_changed P_timer P_process P_xmit)
qed

end

section \<open>Reception keeps the invariant\<close>

text \<open>\<open>okseg\<close> is what is assumed of the segments that arrive: sequence number, flags and payload.\<close>

locale tcp_conn_inv = tcp_conn_calls +
  fixes okseg :: "bool \<Rightarrow> u32 \<Rightarrow> u32 \<Rightarrow> u32 \<Rightarrow> bytes \<Rightarrow> bool"
  assumes syn: "Q c tr None \<Longrightarrow> okseg (bit (tcp_state c) 17) (rcv_ack c) seq fl b \<Longrightarrow> bit fl 1 \<Longrightarrow>
      Q (tcp_rx_enqueue (seq + 1) (ucast fl) b (tcp_rx_syn mem seq options c)) tr None \<and>
      Q (tcp_rx_syn mem seq options c) tr None"
    and enqueue: "Q c tr None \<Longrightarrow> okseg (bit (tcp_state c) 17) (rcv_ack c) seq fl b \<Longrightarrow> \<not> bit fl 1 \<Longrightarrow>
      Q (tcp_rx_enqueue seq (ucast fl) b c) tr None"
    and data: "Q c tr None \<Longrightarrow> rx_queue c = q # qs \<Longrightarrow> tcp_cmp (q_seq q) (rcv_ack c) \<le> 0 \<Longrightarrow>
      Q (data_conn q qs c) (data_events i q c tr) (fin_pos q)"
    and fin_rx: "Q c tr (Some s) \<Longrightarrow> Q (if s = rcv_ack c then rx_fin_conn c else c) tr None"
begin

lemma P_rx_fin: "P w (Some s) \<Longrightarrow> P (tcp_rx_fin E i s w) None"
  using fin_rx [of "conn w i" "events i w" s]
  by (auto simp: tcp_rx_fin_def Let_def P_def events_def rx_fin_conn_def intro!: P_close [unfolded P_def events_def])

lemma P_rx_fin_other: "P w p \<Longrightarrow> j \<noteq> i \<Longrightarrow> P (tcp_rx_fin E j s w) p"
  by (auto simp: tcp_rx_fin_def Let_def intro!: P_close P_upd)

lemma P_rx_data:
  assumes "P w None" "rx_queue (conn w i) = q # qs" "tcp_cmp (q_seq q) (rcv_ack (conn w i)) \<le> 0"
  shows "P (snd (tcp_rx_data E i (q_seq q) (q_data q) (upd_conn i (\<lambda>tcp. tcp\<lparr>rx_queue := qs\<rparr>) w))) (fin_pos q)"
proof -
  have "Q (data_conn q qs (conn w i)) (data_events i q (conn w i) (events i w)) (fin_pos q)"
    using assms by (intro data) (auto simp: P_def)
  then show ?thesis
    by (auto simp: tcp_rx_data_def data_conn_def data_events_def Let_def tcp_rx_seq_def
        P_def events_def intro!: P_deliver [unfolded P_def events_def])
qed

lemma P_iteration:
  assumes "P w None" "rx_queue (conn w i) = q # qs" "tcp_cmp (q_seq q) (rcv_ack (conn w i)) \<le> 0"
  shows "P (rx_iteration E i q qs w) None"
  using P_rx_data [OF assms, of E]
  by (auto simp: rx_iteration_def Let_def case_prod_beta fin_pos_def bit_simps intro: P_rx_fin)

lemma P_iteration_other: "P w p \<Longrightarrow> j \<noteq> i \<Longrightarrow> P (rx_iteration E j q qs w) p"
  by (auto simp: rx_iteration_def tcp_rx_data_def Let_def case_prod_beta
      intro!: P_rx_fin_other P_deliver P_emit P_upd)

lemma P_process_queue:
  assumes "tcp_process_rx_queue E j w = Some w'" "P w None"
  shows "P w' None"
proof -
  have "P w None \<longrightarrow> P w' None"
  proof (rule tcp_process_rx_queue.raw_induct [where P = "\<lambda>E j w w'. P w None \<longrightarrow> P w' None", OF _ assms(1)])
    fix f :: "tcp_env \<Rightarrow> nat \<Rightarrow> tcp_world \<Rightarrow> tcp_world option" and E j w w'
    assume IH: "\<And>E j w w'. f E j w = Some w' \<Longrightarrow> P w None \<longrightarrow> P w' None"
      and eq: "(case rx_queue (conn w j) of [] \<Rightarrow> Some w
        | iobuf # queue \<Rightarrow> if 0 < tcp_cmp (q_seq iobuf) (rcv_ack (conn w j)) then Some w
            else f E j (rx_iteration E j iobuf queue w)) = Some w'"
    show "P w None \<longrightarrow> P w' None"
    proof (cases "rx_queue (conn w j)")
      case Nil
      with eq show ?thesis by simp
    next
      case (Cons q qs)
      show ?thesis
      proof (cases "0 < tcp_cmp (q_seq q) (rcv_ack (conn w j))")
        case True
        with eq Cons show ?thesis by simp
      next
        case False
        with eq Cons have "P (rx_iteration E j q qs w) None \<longrightarrow> P w' None" by (intro IH) simp
        then show ?thesis
          using P_iteration [of w q qs E] P_iteration_other [of w None j E q qs] Cons False
          by (cases "j = i") (simp_all add: not_less)
      qed
    qed
  qed
  with assms(2) show ?thesis by simp
qed

definition okpkt :: "tcp_world \<Rightarrow> (nat \<Rightarrow> u8) \<Rightarrow> bytes \<Rightarrow> bool" where
  "okpkt w mem b \<longleftrightarrow>
     okseg (bit (tcp_state (conn w i)) 17) (rcv_ack (conn w i)) (rd32 mem 4) (ucast (mem 13)) b"

lemma P_rx_packet:
  assumes "P w None" "j = i \<Longrightarrow> okpkt w mem b" "tcp_rx_packet E mem src options b j w = Some (rc, w')"
  shows "P w' None"
proof -
  let ?fl = "ucast (mem 13) :: u32" and ?seq = "rd32 mem 4"
  let ?win = "push_bit (unat (snd_win_scale (conn w j)) mod 32) (ucast (rd16 mem 14)) :: u32"
  define a where "a = (if ?fl AND TCP_ACK \<noteq> 0 then tcp_rx_ack E j (rd32 mem 8) ?win w else (None, w))"
  define w2 where "w2 = (if tcp_state (conn (snd a) j) AND TCP_STATE_RCVD TCP_SYN \<noteq> 0 \<and> ?seq \<noteq> rcv_ack (conn (snd a) j)
      then upd_conn j (\<lambda>tcp. tcp\<lparr>tflags := tflags tcp OR TCP_ACK_PENDING\<rparr>) (snd a) else snd a)"
  define w3 where "w3 = (if ?fl AND TCP_SYN \<noteq> 0 then upd_conn j (tcp_rx_syn mem ?seq options) w2 else w2)"
  define seq where "seq = (if ?fl AND TCP_SYN \<noteq> 0 then ?seq + 1 else ?seq)"
  define w4 where "w4 = upd_conn j (tcp_rx_enqueue seq (ucast ?fl) b) w3"
  have a: "P (snd a) None" "rcv_ack (conn (snd a) i) = rcv_ack (conn w i)"
      "bit (tcp_state (conn (snd a) i)) 17 = bit (tcp_state (conn w i)) 17"
    using assms(1) by (auto simp: a_def P_ack ack_conn_def acked_state_bit fin_conn_def Let_def)
  have w2: "P w2 None" "rcv_ack (conn w2 i) = rcv_ack (conn w i)"
      "bit (tcp_state (conn w2 i)) 17 = bit (tcp_state (conn w i)) 17"
    using a by (auto simp: w2_def core_def intro!: P_core [of "snd a"])
  have w34: "P w3 None" "P w4 None"
    using w2 assms(2) syn [of "conn w2 i" "events i w2" ?seq ?fl b mem options]
      enqueue [of "conn w2 i" "events i w2" ?seq ?fl b]
    by (cases "j = i"; auto simp: w3_def w4_def seq_def P_def events_def okpkt_def)+
  define r where "r = (if ?fl AND TCP_RST \<noteq> 0 then tcp_rx_rst E j seq w3 else (None, w3))"
  have r: "P (snd r) None" "fst r = None \<Longrightarrow> snd r = w3"
    using w34(1) P_rst by (auto simp: r_def tcp_rx_rst_def Let_def)
  have eq: "tcp_rx_packet E mem src options b j w =
      (if fst a \<noteq> None then Some (fst a, snd (tcp_xmit_reset E j src (rd16 mem 0) (rd16 mem 2) ?seq (rd32 mem 8) (snd a)))
       else if fst r \<noteq> None then Some (fst r, snd r)
       else case tcp_process_rx_queue E j (upd_conn j (tcp_rx_enqueue seq (ucast ?fl) b) (snd r)) of
           None \<Rightarrow> None
         | Some w' \<Rightarrow> Some (None, tcp_rx_finish E j (tcp_xfer_window (conn w j)) w'))"
    unfolding tcp_rx_packet_def Let_def case_prod_beta a_def [symmetric] w2_def [symmetric]
      w3_def [symmetric] seq_def [symmetric] r_def [symmetric] by (rule refl)
  consider "w' = snd (tcp_xmit_reset E j src (rd16 mem 0) (rd16 mem 2) ?seq (rd32 mem 8) (snd a))"
    | "w' = snd r"
    | w5 where "tcp_process_rx_queue E j w4 = Some w5" "w' = tcp_rx_finish E j (tcp_xfer_window (conn w j)) w5"
    using assms(3) r(2) unfolding eq w4_def by (auto split: if_splits option.splits)
  then show ?thesis
    using a(1) r(1) w34(2) by cases (auto intro: P_reset P_finish dest: P_process_queue)
qed

lemma P_rx:
  assumes "P w None" "tcp_rx E beyond pkt src csum w = Some (rc, w')"
    and "tcp_demux (ucast (rd16 (packet_mem pkt beyond) 2)) w = Some i \<Longrightarrow>
      okpkt w (packet_mem pkt beyond) (drop (tcp_hlen (packet_mem pkt beyond)) pkt)"
  shows "P w' None"
proof -
  let ?mem = "packet_mem pkt beyond"
  have stamp: "P (case tsopt options of Some data \<Rightarrow> upd_conn j (\<lambda>tcp. tcp\<lparr>ts_val := rd32 ?mem (data + 2)\<rparr>) w
      | None \<Rightarrow> w) None" for options j
    using assms(1) by (cases "tsopt options") (auto intro!: P_core [OF assms(1)] simp: core_def)
  have okp: "okpkt (case tsopt options of Some data \<Rightarrow> upd_conn j (\<lambda>tcp. tcp\<lparr>ts_val := rd32 ?mem (data + 2)\<rparr>) w
      | None \<Rightarrow> w) ?mem b = okpkt w ?mem b" for options j b
    by (cases "tsopt options") (auto simp: okpkt_def)
  consider "w' = w"
    | options j where "tcp_rx_packet E ?mem src options (drop (tcp_hlen ?mem) pkt) j
          (case tsopt options of Some data \<Rightarrow> upd_conn j (\<lambda>tcp. tcp\<lparr>ts_val := rd32 ?mem (data + 2)\<rparr>) w
           | None \<Rightarrow> w) = Some (rc, w')" "tcp_demux (ucast (rd16 ?mem 2)) w = Some j"
    using assms(2) unfolding tcp_rx_def Let_def by (simp split: if_splits option.split_asm)
  then show ?thesis
  proof cases
    case 2
    from stamp show ?thesis
      by (rule P_rx_packet) (use 2 assms(3) okp in auto)
  qed (use assms(1) in simp)
qed

lemma P_poll: "P w p \<Longrightarrow> P (retry_poll (tcp_timer_expired E) tps now w) p"
proof -
  assume "P w p"
  then have "P (timer_expired (tcp_timer_expired E) tps t w) p" for t
    unfolding timer_expired_def Let_def case_prod_beta
    by (intro P_ref P_expired) (auto elim!: P_frame)
  with \<open>P w p\<close> show ?thesis by (simp add: retry_poll_def split: option.split)
qed

lemma P_run: "P w p \<Longrightarrow> P (step (tcp_xmit E) w) p"
proof (cases "run_queue w")
  case (Cons j js)
  assume "P w p"
  then have "P (w'\<lparr>run_queue := q\<rparr>) p" if "w' = ref_increment r w" for w' q r
    using that by (auto elim!: P_frame)
  with \<open>P w p\<close> Cons show ?thesis
    unfolding step_def Let_def by (auto intro!: P_ref P_xmit P_process)
qed (simp add: step_def)

lemma P_shutdown_all:
  assumes "tcp_shutdown E w = Some w'" "P w p"
  shows "P w' p"
proof -
  have "P w p \<longrightarrow> P w' p"
  proof (rule tcp_shutdown.raw_induct [where P = "\<lambda>E w w'. P w p \<longrightarrow> P w' p", OF _ assms(1)])
    fix f :: "tcp_env \<Rightarrow> tcp_world \<Rightarrow> tcp_world option" and E w w'
    assume IH: "\<And>E w w'. f E w = Some w' \<Longrightarrow> P w p \<longrightarrow> P w' p"
      and eq: "(case tcp_conns w of [] \<Rightarrow> Some w
        | i # _ \<Rightarrow> f E (tcp_close E i (Some ECANCELED)
            (upd_conn i (\<lambda>tcp. tcp_dump_state (tcp\<lparr>tcp_state := TCP_CLOSED\<rparr>)) w))) = Some w'"
    show "P w p \<longrightarrow> P w' p"
    proof (cases "tcp_conns w")
      case Nil
      with eq show ?thesis by simp
    next
      case (Cons j js)
      with eq IH show ?thesis by (auto dest: P_abort [of w p E j "Some ECANCELED"])
    qed
  qed
  with assms(2) show ?thesis by simp
qed

lemma P_open:
  assumes "P w p" "j \<noteq> i" "tcp_open E j st_peer st_local w = (rc, w')"
  shows "P w' p"
proof -
  have init: "P w1 p \<Longrightarrow> P (tcp_init_conn j rnd st_peer w1) p" for w1 rnd
    using assms(2) by (auto simp: tcp_init_conn_def elim!: P_frame)
  have pend: "P w1 p \<Longrightarrow> P (pending_flags_op pending_get j w1) p" for w1
    using assms(2) by (auto elim!: P_frame)
  have conns: "P w1 p \<Longrightarrow> P (w1\<lparr>tcp_conns := cs\<rparr>) p" for w1 cs
    by (auto elim!: P_frame)
  have "P (snd (tcp_open E j st_peer st_local w)) p"
    using assms(1,2) unfolding tcp_open_def Let_def case_prod_beta
    by (auto intro!: init pend conns P_ref P_upd P_timer P_ask P_alloc split: sum.split)
  with assms(3) show ?thesis by simp
qed

text \<open>The runs in which connection \<open>i\<close> is not opened again and only valid segments arrive for it.\<close>

definition okrun :: "tcp_world \<Rightarrow> tcp_label \<Rightarrow> bool" where
  "okrun w l \<longleftrightarrow>
     (case l of
        Open j \<Rightarrow> j \<noteq> i
      | Receive beyond pkt \<Rightarrow> tcp_demux (ucast (rd16 (packet_mem pkt beyond) 2)) w = Some i \<longrightarrow>
          okpkt w (packet_mem pkt beyond) (drop (tcp_hlen (packet_mem pkt beyond)) pkt)
      | _ \<Rightarrow> True)"

lemma P_step: "tcp_step E l w w' \<Longrightarrow> okrun w l \<Longrightarrow> P w None \<Longrightarrow> P w' None"
  by (induction rule: tcp_step.induct)
    (auto simp: okrun_def intro: P_open P_poll P_run P_do P_discard P_shutdown_all dest: P_rx)

lemma P_runs: "tcp_run E okrun w w' \<Longrightarrow> P w None \<Longrightarrow> P w' None"
  by (induction rule: tcp_run.induct) (auto intro: P_step)

end

end
