(* ===== verification/Tcp_Tx.thy ===== *)
theory Tcp_Tx
  imports Tcp_Inv
begin

text \<open>
  The transmit path of TCP: what a receiver reads back from a segment that \<open>tcp_xmit\<close> has built, and
  the stream of bytes that the segments of a connection carry.
\<close>

section \<open>Reading a segment\<close>

definition seg_mem :: "bytes \<Rightarrow> nat \<Rightarrow> u8" where
  "seg_mem seg = packet_mem seg (\<lambda>_. 0)"

definition seg_payload :: "bytes \<Rightarrow> bytes" where
  "seg_payload seg = drop (tcp_hlen (seg_mem seg)) seg"

definition seg_seq :: "bytes \<Rightarrow> u32" where
  "seg_seq seg = rd32 (seg_mem seg) 4"

definition seg_ack :: "bytes \<Rightarrow> u32" where
  "seg_ack seg = rd32 (seg_mem seg) 8"

definition seg_flags :: "bytes \<Rightarrow> u8" where
  "seg_flags seg = seg_mem seg 13"

definition seg_win :: "bytes \<Rightarrow> u16" where
  "seg_win seg = rd16 (seg_mem seg) 14"

lemma rd32_be32:
  assumes "\<And>k. k < 4 \<Longrightarrow> mem (n + k) = be32 x ! k"
  shows "rd32 mem n = x"
proof -
  have "mem n = be32 x ! 0" "mem (n + 1) = be32 x ! 1" "mem (n + 2) = be32 x ! 2" "mem (n + 3) = be32 x ! 3"
    using assms [of 0] assms [of 1] assms [of 2] assms [of 3] by simp_all
  then have m: "mem n = ucast (drop_bit 24 x)" "mem (n + 1) = ucast (drop_bit 16 x)"
    "mem (n + 2) = ucast (drop_bit 8 x)" "mem (n + 3) = ucast x"
    by (simp_all add: be32_def)
  show ?thesis
  proof (rule bit_word_eqI)
    fix k assume "k < LENGTH(32)"
    then consider "k < 8" | "8 \<le> k" "k < 16" | "16 \<le> k" "k < 24" | "24 \<le> k" "k < 32"
      by (cases "k < 8"; cases "k < 16"; cases "k < 24") auto
    then show "bit (rd32 mem n) k \<longleftrightarrow> bit x k"
      unfolding rd32_def m by cases (auto simp: bit_simps)
  qed
qed

lemma rd32_bytes:
  "mem n = be32 x ! 0 \<Longrightarrow> mem (n + 1) = be32 x ! 1 \<Longrightarrow> mem (n + 2) = be32 x ! 2 \<Longrightarrow> mem (n + 3) = be32 x ! 3 \<Longrightarrow> rd32 mem n = x"
  by (rule rd32_be32) (auto simp: less_Suc_eq numeral_eq_Suc)

lemma rd16_be16:
  assumes "mem n = be16 x ! 0" "mem (n + 1) = be16 x ! 1"
  shows "rd16 mem n = x"
proof (rule bit_word_eqI)
  fix k assume "k < LENGTH(16)"
  then show "bit (rd16 mem n) k \<longleftrightarrow> bit x k"
    using assms by (cases "k < 8") (auto simp: rd16_def be16_def bit_simps)
qed

text \<open>The options of a segment, and the segment before its checksum is filled in.\<close>

definition seg_opts :: "tcp_connection \<Rightarrow> u32 \<Rightarrow> u32 \<Rightarrow> bytes" where
  "seg_opts c fl now =
     (if bit fl 1 \<or> bit (tflags c) 1 then [1, 1, 8, 10] @ be32 now @ be32 (ts_recent c) else []) @
     (if bit fl 1 then [1, 3, 3, 9] @ [2, 4] @ be16 (ucast (mss c)) else [])"

lemma length_be [simp]: "length (be16 x) = 2" "length (be32 y) = 4"
  by (simp_all add: be16_def be32_def)

lemma length_tcp_header [simp]: "length (tcp_header_bytes src dest seq ack hlen fl win) = 20"
  by (simp add: tcp_header_bytes_def)

lemma length_seg_opts: "length (seg_opts c fl now) = (if bit fl 1 then 20 else if bit (tflags c) 1 then 12 else 0)"
  by (simp add: seg_opts_def)

definition seg_body :: "tcp_connection \<Rightarrow> u32 \<Rightarrow> u32 \<Rightarrow> bytes \<Rightarrow> bytes" where
  "seg_body c fl now payload =
     tcp_header_bytes (ucast (local_port c)) (st_port (peer c)) (snd_seq c) (rcv_ack c)
       (push_bit 2 (of_nat (20 + length (seg_opts c fl now))))
       (ucast (if payload \<noteq> [] then fl OR TCP_PSH else fl))
       (ucast (drop_bit (unat (rcv_win_scale c)) (rcv_win c))) @ seg_opts c fl now @ payload"

lemma tcp_segment_eq:
  "tcp_segment c fl now payload = put_csum 16 (tcpip_chksum (seg_body c fl now payload)) (seg_body c fl now payload)"
  by (simp add: tcp_segment_def seg_opts_def seg_body_def Let_def TCP_OPTION_NOP_def TCP_OPTION_MSS_def
      TCP_OPTION_WS_def TCP_OPTION_TS_def TCP_RX_WINDOW_SCALE_def)

lemma put_csum_nth: "k \<noteq> n \<Longrightarrow> k \<noteq> n + 1 \<Longrightarrow> put_csum n c data ! k = data ! k"
  by (simp add: put_csum_def)

lemma length_put_csum [simp]: "length (put_csum n c data) = length data"
  by (simp add: put_csum_def)

lemma drop_put_csum: "n + 2 \<le> m \<Longrightarrow> drop m (put_csum n c data) = drop m data"
  by (simp add: put_csum_def)

lemma seg_mem_nth:
  assumes "seg = tcp_header_bytes src dest seq ack hlen fl win @ rest" "k < 20" "k \<noteq> 16" "k \<noteq> 17"
  shows "seg_mem (put_csum 16 cs seg) k = tcp_header_bytes src dest seq ack hlen fl win ! k"
  using assms by (simp add: seg_mem_def packet_mem_def put_csum_nth nth_append)

lemma header_fields:
  assumes "seg = put_csum 16 cs (tcp_header_bytes src dest seq ack hlen fl win @ rest)"
  shows "seg_seq seg = seq" "seg_ack seg = ack" "seg_flags seg = fl" "seg_win seg = win"
    "rd16 (seg_mem seg) 2 = dest" "seg_mem seg 12 = hlen" "rd16 (seg_mem seg) 0 = src"
proof -
  note nth = seg_mem_nth [OF refl, where src = src and dest = dest and seq = seq and ack = ack and hlen = hlen
      and fl = fl and win = win and rest = rest and cs = cs, folded assms]
  have h: "tcp_header_bytes src dest seq ack hlen fl win =
    be16 src @ be16 dest @ be32 seq @ be32 ack @ [hlen, fl] @ be16 win @ [0, 0, 0, 0]"
    by (simp add: tcp_header_bytes_def)
  show "seg_seq seg = seq" unfolding seg_seq_def
    by (rule rd32_be32) (simp add: nth h nth_append)
  show "seg_ack seg = ack" unfolding seg_ack_def
    by (rule rd32_be32) (simp add: nth h nth_append)
  show "seg_flags seg = fl" "seg_mem seg 12 = hlen"
    unfolding seg_flags_def by (simp_all add: nth h nth_append)
  show "seg_win seg = win" unfolding seg_win_def
    by (rule rd16_be16) (simp_all add: nth h nth_append)
  show "rd16 (seg_mem seg) 2 = dest" "rd16 (seg_mem seg) 0 = src"
    by (rule rd16_be16, simp_all add: nth h nth_append)+
qed

lemma hlen_opts:
  assumes "mem 12 = push_bit 2 (of_nat (20 + length (seg_opts c fl now)))"
  shows "tcp_hlen mem = 20 + length (seg_opts c fl now)"
  using assms unfolding tcp_hlen_def length_seg_opts TCP_MASK_HLEN_def by simp

lemma seg_fields:
  assumes "seg = put_csum 16 cs (seg_body c fl now payload)"
  shows "seg_seq seg = snd_seq c" "seg_ack seg = rcv_ack c"
    "seg_flags seg = ucast (if payload \<noteq> [] then fl OR TCP_PSH else fl)"
    "seg_win seg = ucast (drop_bit (unat (rcv_win_scale c)) (rcv_win c))"
    "rd16 (seg_mem seg) 2 = st_port (peer c)"
    "tcp_hlen (seg_mem seg) = 20 + length (seg_opts c fl now)"
    "seg_payload seg = payload"
    "length seg = 20 + length (seg_opts c fl now) + length payload"
    "k < length (seg_opts c fl now) \<Longrightarrow> seg_mem seg (20 + k) = seg_opts c fl now ! k"
    "rd16 (seg_mem seg) 0 = ucast (local_port c)"
proof -
  note h = header_fields [OF assms [unfolded seg_body_def]]
  show "seg_seq seg = snd_seq c" "seg_ack seg = rcv_ack c"
    "seg_flags seg = ucast (if payload \<noteq> [] then fl OR TCP_PSH else fl)"
    "seg_win seg = ucast (drop_bit (unat (rcv_win_scale c)) (rcv_win c))"
    "rd16 (seg_mem seg) 2 = st_port (peer c)" "rd16 (seg_mem seg) 0 = ucast (local_port c)"
    by (fact h)+
  show hl: "tcp_hlen (seg_mem seg) = 20 + length (seg_opts c fl now)"
    by (rule hlen_opts) (fact h)
  show "seg_payload seg = payload"
    unfolding seg_payload_def hl unfolding assms by (simp add: drop_put_csum) (simp add: seg_body_def)
  show "length seg = 20 + length (seg_opts c fl now) + length payload"
    by (simp add: assms seg_body_def)
  show "k < length (seg_opts c fl now) \<Longrightarrow> seg_mem seg (20 + k) = seg_opts c fl now ! k"
    unfolding assms by (simp add: seg_mem_def packet_mem_def put_csum_nth) (simp add: seg_body_def nth_append)
qed

section \<open>Completed checksums\<close>

text \<open>
  The network layer completes the checksum that \<open>tcp_xmit\<close> leaves in the header by continuing it
  over the pseudo-header.
\<close>

definition csum_field :: "bytes \<Rightarrow> u16" where
  "csum_field seg = ucast (seg ! 16) OR push_bit 8 (ucast (seg ! 17))"

definition complete_csum :: "bytes \<Rightarrow> bytes \<Rightarrow> bytes" where
  "complete_csum pshdr seg = put_csum 16 (generic_tcpip_continue_chksum (csum_field seg) pshdr) seg"

lemma csum_field_put: "18 \<le> length seg \<Longrightarrow> csum_field (put_csum 16 c seg) = c"
  by (rule bit_word_eqI) (auto simp: csum_field_def put_csum_def bit_simps dest: bit_imp_le_length)

lemma complete_segment:
  "complete_csum pshdr (tcp_segment c fl now payload) =
     put_csum 16 (generic_tcpip_continue_chksum (tcpip_chksum (seg_body c fl now payload)) pshdr) (seg_body c fl now payload)"
  by (simp add: complete_csum_def tcp_segment_eq csum_field_put put_csum_twice) (simp add: seg_body_def csum_field_put)

lemma segment_checksum:
  assumes "even (length pshdr)"
  shows "generic_tcpip_continue_chksum (tcpip_chksum pshdr) (complete_csum pshdr (tcp_segment c fl now payload)) = 0"
proof -
  have "18 \<le> length (seg_body c fl now payload)" "seg_body c fl now payload ! 16 = 0"
    "seg_body c fl now payload ! (16 + 1) = 0"
    by (simp_all add: seg_body_def nth_append tcp_header_bytes_def)
  with assms ck.chk_verify [of 16 "seg_body c fl now payload" pshdr] show ?thesis
    unfolding complete_segment by (simp add: tcpip_chksum_def TCPIP_EMPTY_CSUM_def)
qed

section \<open>Parsing the options of a segment\<close>

lemma opts_step:
  "data < endp \<Longrightarrow> mem data = TCP_OPTION_NOP \<Longrightarrow>
     tcp_rx_opts_loop mem endp data options = tcp_rx_opts_loop mem endp (data + 1) options"
  "data < endp \<Longrightarrow> mem data \<noteq> TCP_OPTION_NOP \<Longrightarrow> mem data \<noteq> TCP_OPTION_END \<Longrightarrow>
     tcp_rx_opts_loop mem endp data options =
       tcp_rx_opts_loop mem endp (data + unat (mem (data + 1))) (set_option (mem data) data options)"
  "endp \<le> data \<Longrightarrow> tcp_rx_opts_loop mem endp data options = Some options"
  by (subst tcp_rx_opts_loop.simps, simp add: TCP_OPTION_NOP_def TCP_OPTION_END_def Let_def)+

lemma segment_options:
  assumes "\<And>k. k < length (seg_opts c fl now) \<Longrightarrow> mem (20 + k) = seg_opts c fl now ! k"
  shows "tcp_rx_opts mem 20 (length (seg_opts c fl now)) = Some
    \<lparr>mssopt = (if bit fl 1 then Some 36 else None), wsopt = (if bit fl 1 then Some 33 else None),
     tsopt = (if bit fl 1 \<or> bit (tflags c) 1 then Some 22 else None)\<rparr>"
proof -
  have ts: "mem 20 = 1" "mem 21 = 1" "mem 22 = 8" "mem 23 = 10" if "bit fl 1 \<or> bit (tflags c) 1"
    using that assms [of 0] assms [of 1] assms [of 2] assms [of 3]
    by (auto simp: seg_opts_def be32_def nth_append)
  have sy: "mem 32 = 1" "mem 33 = 3" "mem 34 = 3" "mem 36 = 2" "mem 37 = 4" if "bit fl 1"
    using that assms [of 12] assms [of 13] assms [of 14] assms [of 16] assms [of 17]
    by (auto simp: seg_opts_def be32_def be16_def nth_append)
  show ?thesis
    using ts sy unfolding tcp_rx_opts_def length_seg_opts
    by (auto simp: opts_step TCP_OPTION_NOP_def TCP_OPTION_END_def TCP_OPTION_MSS_def TCP_OPTION_WS_def
        TCP_OPTION_TS_def set_option_def)
qed

lemma segment_option_values:
  assumes "\<And>k. k < length (seg_opts c fl now) \<Longrightarrow> mem (20 + k) = seg_opts c fl now ! k"
  shows "bit fl 1 \<or> bit (tflags c) 1 \<Longrightarrow> rd32 mem 24 = now \<and> rd32 mem 28 = ts_recent c"
    "bit fl 1 \<Longrightarrow> mem 35 = TCP_RX_WINDOW_SCALE \<and> rd16 mem 38 = ucast (mss c)"
proof -
  let ?A = "[1, 1, 8, 10] @ be32 now @ be32 (ts_recent c)"
  assume "bit fl 1 \<or> bit (tflags c) 1"
  then obtain B where B: "seg_opts c fl now = ?A @ B" by (auto simp: seg_opts_def)
  have "mem (20 + k) = ?A ! k" if "k < 12" for k
    using that assms [of k] by (simp only: B nth_append) simp
  from this [of 4] this [of 5] this [of 6] this [of 7] this [of 8] this [of 9] this [of 10] this [of 11]
  show "rd32 mem 24 = now \<and> rd32 mem 28 = ts_recent c" by (intro conjI rd32_bytes) (simp_all add: nth_append)
next
  let ?A = "[1, 1, 8, 10] @ be32 now @ be32 (ts_recent c)" and ?B = "[1, 3, 3, 9, 2, 4] @ be16 (ucast (mss c))"
  assume "bit fl 1"
  then have B: "seg_opts c fl now = ?A @ ?B" by (simp add: seg_opts_def)
  have "mem (32 + k) = ?B ! k" if "k < 8" for k
    using that assms [of "12 + k"] by (simp only: B nth_append) simp
  from this [of 3] this [of 6] this [of 7] show "mem 35 = TCP_RX_WINDOW_SCALE \<and> rd16 mem 38 = ucast (mss c)"
    by (intro conjI rd16_be16) (simp_all add: nth_append TCP_RX_WINDOW_SCALE_def)
qed

text \<open>
  C12.  A segment built by tcp_xmit, with its checksum completed over a pseudo-header of even
  length, passes the checks of the receiver and is read back as it was meant: the checksum is zero,
  the header length is right, and sequence number, acknowledgement number, flags, window, ports and payload
  are those of the connection.  The receiver finds the options where they are: a SYN carries the maximum segment size of the
  connection, the scale of the receive window and timestamps, other segments carry timestamps if these are
  enabled; the timestamps are the current time and the last one received.
\<close>

theorem tcp_segment_roundtrip:
  assumes "even (length pshdr)" "pkt = complete_csum pshdr (tcp_segment c fl now payload)"
  shows "generic_tcpip_continue_chksum (tcpip_chksum pshdr) pkt = 0 \<and>
    20 \<le> tcp_hlen (seg_mem pkt) \<and> tcp_hlen (seg_mem pkt) \<le> length pkt \<and>
    seg_seq pkt = snd_seq c \<and> seg_ack pkt = rcv_ack c \<and> seg_payload pkt = payload \<and>
    seg_flags pkt = ucast (if payload \<noteq> [] then fl OR TCP_PSH else fl) \<and>
    seg_win pkt = ucast (drop_bit (unat (rcv_win_scale c)) (rcv_win c)) \<and>
    rd16 (seg_mem pkt) 0 = ucast (local_port c) \<and> rd16 (seg_mem pkt) 2 = st_port (peer c) \<and>
    tcp_rx_opts (seg_mem pkt) 20 (tcp_hlen (seg_mem pkt) - 20) = Some
      \<lparr>mssopt = (if bit fl 1 then Some 36 else None), wsopt = (if bit fl 1 then Some 33 else None),
       tsopt = (if bit fl 1 \<or> bit (tflags c) 1 then Some 22 else None)\<rparr> \<and>
    (bit fl 1 \<longrightarrow> rd16 (seg_mem pkt) (36 + 2) = ucast (mss c) \<and> seg_mem pkt (33 + 2) = TCP_RX_WINDOW_SCALE) \<and>
    (bit fl 1 \<or> bit (tflags c) 1 \<longrightarrow> rd32 (seg_mem pkt) (22 + 2) = now \<and> rd32 (seg_mem pkt) (22 + 6) = ts_recent c)"
  using segment_checksum [OF assms(1), of c fl now payload] seg_fields [OF assms(2) [unfolded complete_segment]]
    segment_options [of c fl now "seg_mem pkt"] segment_option_values [of c fl now "seg_mem pkt"]
  by (simp add: assms(2) [symmetric])

theorem tcp_segment_roundtrip_witness:
  "seg_payload (complete_csum [1, 2, 3, 4] (tcp_segment zero_conn TCP_SYN 7 [65, 66])) = [65, 66] \<and>
   rd32 (seg_mem (complete_csum [1, 2, 3, 4] (tcp_segment zero_conn TCP_SYN 7 [65, 66]))) 24 = 7"
  using tcp_segment_roundtrip [of "[1, 2, 3, 4]", OF _ refl, of zero_conn TCP_SYN 7 "[65, 66]"] by (simp add: TCP_SYN_def bit_simps)

section \<open>The stream of transmitted bytes\<close>

text \<open>The bytes that the application has handed to TCP, in order.\<close>

fun accepted :: "tcp_event list \<Rightarrow> bytes" where
  "accepted [] = []"
| "accepted (Accepted i b # tr) = accepted tr @ b"
| "accepted (e # tr) = accepted tr"

text \<open>
  A segment carries a part of the stream: its payload is what the stream has at the position that its sequence number stands for.
\<close>

definition seg_ok :: "u32 \<Rightarrow> bytes \<Rightarrow> bytes \<Rightarrow> bool" where
  "seg_ok iss stream seg \<longleftrightarrow> (\<exists>n. n + length (seg_payload seg) \<le> length stream \<and>
     seg_payload seg = take (length (seg_payload seg)) (drop n stream) \<and>
     (seg_payload seg \<noteq> [] \<longrightarrow> seg_seq seg = iss + 1 + of_nat n))"

text \<open>
  The position of the connection in the stream: what has been acknowledged, what is queued, and how much of
  it has been sent.
\<close>

definition tx_pos :: "u32 \<Rightarrow> bytes \<Rightarrow> tcp_connection \<Rightarrow> bool" where
  "tx_pos iss stream c \<longleftrightarrow> (\<exists>acked. stream = acked @ concat (tx_queue c) \<and>
     snd_seq c = iss + (if bit (tcp_state c) 9 then 1 else 0) + of_nat (length acked) \<and>
     (if bit (tcp_state c) 9 then unat (snd_sent c) \<le> length (concat (tx_queue c))
      else acked = [] \<and> snd_sent c \<le> 1))"

definition tx_inv :: "u32 \<Rightarrow> tcp_connection \<Rightarrow> tcp_event list \<Rightarrow> bool" where
  "tx_inv iss c tr \<longleftrightarrow>
     (\<forall>i a seg. TxSegment i a seg \<in> set tr \<longrightarrow> seg_ok iss (accepted tr) seg) \<and>
     (bit (tcp_state c) 9 \<longrightarrow> bit (tcp_state c) 1) \<and>
     (bit (tcp_state c) 1 \<and> \<not> bit (tcp_state c) 0 \<longrightarrow> tx_pos iss (accepted tr) c)"

lemma tx_inv_cong:
  assumes "tx_inv iss c tr" "bit (tcp_state c') 0 = bit (tcp_state c) 0"
    "bit (tcp_state c') 1 = bit (tcp_state c) 1" "bit (tcp_state c') 9 = bit (tcp_state c) 9"
    "snd_seq c' = snd_seq c" "snd_sent c' = snd_sent c" "tx_queue c' = tx_queue c"
  shows "tx_inv iss c' tr"
proof -
  have "tx_pos iss stream c' = tx_pos iss stream c" for stream
    using assms(2-) by (simp add: tx_pos_def)
  with assms show ?thesis by (simp add: tx_inv_def)
qed

lemma tx_inv_event:
  "tx_inv iss c tr \<Longrightarrow> (\<And>i b. e \<noteq> Accepted i b) \<Longrightarrow> (\<And>i a s. e \<noteq> TxSegment i a s) \<Longrightarrow> tx_inv iss c (e # tr)"
  by (cases e) (auto simp: tx_inv_def)

lemma seg_ok_append: "seg_ok iss stream seg \<Longrightarrow> seg_ok iss (stream @ rest) seg"
  unfolding seg_ok_def
proof (elim exE conjE)
  fix n
  assume n: "n + length (seg_payload seg) \<le> length stream"
    "seg_payload seg = take (length (seg_payload seg)) (drop n stream)"
    "seg_payload seg \<noteq> [] \<longrightarrow> seg_seq seg = iss + 1 + of_nat n"
  then show "\<exists>n. n + length (seg_payload seg) \<le> length (stream @ rest) \<and>
      seg_payload seg = take (length (seg_payload seg)) (drop n (stream @ rest)) \<and>
      (seg_payload seg \<noteq> [] \<longrightarrow> seg_seq seg = iss + 1 + of_nat n)"
    by (intro exI [of _ n]) auto
qed

lemma tx_inv_core: "tx_inv iss c tr \<Longrightarrow> core c' = core c \<Longrightarrow> tx_inv iss c' tr"
  by (erule tx_inv_cong) (auto simp: core_def)

lemma tx_inv_acked:
  assumes "tx_inv iss c tr" "ack - snd_seq c \<le> snd_sent c" "ack - snd_seq c \<noteq> 0"
  shows "tx_inv iss (acked_conn ack c) tr"
proof -
  let ?s = "tcp_state c" and ?c = "acked_conn ack c" and ?len = "ack - snd_seq c"
  have seq: "snd_seq (acked_conn a c) = a" "snd_sent (acked_conn a c) = 0" for a
    by (simp_all add: acked_conn_def Let_def)
  have q: "concat (tx_queue ?c) = drop (unat (if bit ?s 1 \<and> \<not> bit ?s 9 \<or> bit ?s 0 \<and> \<not> bit ?s 8 then ?len - 1 else ?len))
      (concat (tx_queue c))"
    by (simp add: acked_conn_def Let_def sending_none)
  have "tx_pos iss (accepted tr) ?c" if b: "bit ?s 1" "\<not> bit ?s 0"
  proof -
    from assms(1) b obtain acked where a: "accepted tr = acked @ concat (tx_queue c)"
      "snd_seq c = iss + (if bit ?s 9 then 1 else 0) + of_nat (length acked)"
      "if bit ?s 9 then unat (snd_sent c) \<le> length (concat (tx_queue c)) else acked = [] \<and> snd_sent c \<le> 1"
      by (auto simp: tx_inv_def tx_pos_def)
    show ?thesis
    proof (cases "bit ?s 9")
      case True
      let ?n = "unat ?len"
      have "?n \<le> length (concat (tx_queue c))"
        using a(3) True assms(2) by (simp add: word_le_nat_alt)
      moreover have "ack = snd_seq c + of_nat ?n" by simp
      ultimately have "ack = iss + 1 + of_nat (length (acked @ take ?n (concat (tx_queue c))))"
        using a(2) True by (simp add: min_absorb2 add.assoc)
      with True q b a(1) show ?thesis
        unfolding tx_pos_def by (intro exI [of _ "acked @ take ?n (concat (tx_queue c))"])
          (simp add: seq acked_state_bit)
    next
      case False
      then have "?len \<le> 1" using a(3) assms(2) by (auto intro: order_trans)
      then have "unat ?len \<le> 1" by (simp add: word_le_nat_alt)
      moreover have "unat ?len \<noteq> 0" using assms(3) by (metis unat_eq_zero)
      ultimately have "unat ?len = 1" by simp
      then have "?len = 1" by (metis unat_1 word_unat_eq_iff)
      then have "ack = snd_seq c + 1" by (simp add: diff_eq_eq add.commute)
      with False a q b \<open>?len = 1\<close> show ?thesis
        unfolding tx_pos_def by (intro exI [of _ "[]"]) (simp add: seq acked_state_bit)
    qed
  qed
  with assms(1) show ?thesis by (auto simp: tx_inv_def acked_state_bit)
qed

lemma tx_inv_fin: "tx_inv iss c tr \<Longrightarrow> tx_inv iss (fin_conn c) tr"
  by (auto simp: tx_inv_def fin_conn_def)

lemma tx_inv_ack: "tx_inv iss c tr \<Longrightarrow> tx_inv iss (ack_conn ack win c) tr"
proof -
  assume inv: "tx_inv iss c tr"
  then have w: "tx_inv iss (c\<lparr>snd_win := win\<rparr>) tr" by (rule tx_inv_cong) simp_all
  with tx_inv_acked [of iss "c\<lparr>snd_win := win\<rparr>" tr ack] inv show ?thesis
    by (auto simp: ack_conn_def Let_def intro: tx_inv_fin)
qed

lemma tx_inv_closed: "tx_inv iss c tr \<Longrightarrow> tcp_state c' = TCP_CLOSED \<Longrightarrow> tx_inv iss c' tr"
  by (auto simp: tx_inv_def)

lemma unat_of_nat_le: "unat (of_nat n :: u32) \<le> n"
  by (simp add: unat_of_nat)

lemma tx_inv_xmit: "tx_inv iss c tr \<Longrightarrow> tx_inv iss (c\<lparr>snd_sent := xmit_len c\<rparr>) tr"
proof -
  assume inv: "tx_inv iss c tr"
  have "tx_pos iss (accepted tr) (c\<lparr>snd_sent := xmit_len c\<rparr>)"
    if "bit (tcp_state c) 1" "\<not> bit (tcp_state c) 0"
  proof -
    have "unat (xmit_len c) \<le> length (concat (tx_queue c))" if "bit (tcp_state c) 9"
    proof -
      have "xmit_len c = of_nat (length (xmit_data c))"
        using that \<open>\<not> bit (tcp_state c) 0\<close> by (simp add: xmit_len_def sending_none)
      then show ?thesis
        using unat_of_nat_le [of "length (xmit_data c)"] by (simp add: length_xmit_data split: if_splits)
    qed
    moreover have "xmit_len c \<le> 1" if "\<not> bit (tcp_state c) 9"
      using that by (simp add: xmit_len_def xmit_data_def can_send_data)
    ultimately show ?thesis using inv that by (auto simp: tx_inv_def tx_pos_def)
  qed
  with inv show ?thesis by (simp add: tx_inv_def)
qed

lemma tx_inv_segment:
  assumes "tx_inv iss c tr"
  shows "tx_inv iss c (TxSegment i a (tcp_segment c fl now (xmit_data c)) # tr)"
proof -
  let ?seg = "tcp_segment c fl now (xmit_data c)"
  have f: "seg_payload ?seg = xmit_data c" "seg_seq ?seg = snd_seq c"
    using seg_fields [OF tcp_segment_eq] by simp_all
  have "seg_ok iss (accepted tr) ?seg"
  proof (cases "xmit_data c = []")
    case False
    then have b: "bit (tcp_state c) 9" "\<not> bit (tcp_state c) 0" by (auto simp: xmit_data_def can_send_data split: if_splits)
    with assms have "tx_pos iss (accepted tr) c" by (simp add: tx_inv_def)
    then obtain acked where a: "accepted tr = acked @ concat (tx_queue c)"
      "snd_seq c = iss + 1 + of_nat (length acked)"
      using b by (auto simp: tx_pos_def)
    have "xmit_data c = take (length (xmit_data c)) (concat (tx_queue c))"
      unfolding length_xmit_data by (rule take_min_xmit [symmetric])
    moreover have "length (xmit_data c) \<le> length (concat (tx_queue c))"
      by (simp add: length_xmit_data)
    ultimately have "xmit_data c = take (length (xmit_data c)) (concat (tx_queue c))"
      "length (xmit_data c) \<le> length (concat (tx_queue c))" by simp_all
    with a f show ?thesis unfolding seg_ok_def by (intro exI [of _ "length acked"]) simp
  next
    case True
    with f have "seg_payload ?seg = []" by simp
    then show ?thesis unfolding seg_ok_def by (intro exI [of _ 0]) simp
  qed
  with assms show ?thesis by (auto simp: tx_inv_def)
qed

lemma tx_inv_accept:
  assumes "tx_inv iss c tr"
  shows "tx_inv iss (c\<lparr>tx_queue := tx_queue c @ [b], pending_data := n\<rparr>) (Accepted i b # tr)"
  using assms by (auto simp: tx_inv_def tx_pos_def intro: seg_ok_append)

lemma rx_syn_tx [simp]:
  "snd_seq (tcp_rx_syn mem seq options c) = snd_seq c" "snd_sent (tcp_rx_syn mem seq options c) = snd_sent c"
  "tx_queue (tcp_rx_syn mem seq options c) = tx_queue c"
  "m \<noteq> 4 \<Longrightarrow> m \<noteq> 17 \<Longrightarrow> bit (tcp_state (tcp_rx_syn mem seq options c)) m = bit (tcp_state c) m"
  by (auto simp: tcp_rx_syn_def tcp_rx_seq_def Let_def split: option.split)

lemma enqueue_tx [simp]:
  "snd_seq (tcp_rx_enqueue seq fl b c) = snd_seq c" "snd_sent (tcp_rx_enqueue seq fl b c) = snd_sent c"
  "tx_queue (tcp_rx_enqueue seq fl b c) = tx_queue c" "tcp_state (tcp_rx_enqueue seq fl b c) = tcp_state c"
  by (auto simp: tcp_rx_enqueue_def Let_def)

interpretation tx: tcp_conn_inv i "\<lambda>c tr p. tx_inv iss c tr" "\<lambda>_ _ _ _ _. True" for i iss
proof (unfold_locales, goal_cases)
  case 1 then show ?case by (rule tx_inv_core)
next
  case (2 c tr p c')
  then show ?case by (auto elim!: tx_inv_cong simp: discarded_fields)
next
  case (3 c tr p rc)
  then show ?case by (intro tx_inv_event) (auto elim!: tx_inv_cong)
next
  case 4 then show ?case by (auto elim!: tx_inv_cong)
next
  case 5 then show ?case by (rule tx_inv_ack)
next
  case 6 then show ?case by (auto elim: tx_inv_closed simp: delete_conn_def)
next
  case (7 c tr p rc)
  then have "tx_inv iss (c\<lparr>tcp_state := TCP_CLOSED, xfer_open := False\<rparr>) tr" by (auto elim: tx_inv_closed)
  then show ?case by (auto intro: tx_inv_event)
next
  case 8 then show ?case by (simp add: tx_inv_fin)
next
  case 9 then show ?case by (rule tx_inv_xmit)
next
  case 10 then show ?case by (rule tx_inv_segment)
next
  case 11 then show ?case by (auto elim!: tx_inv_cong simp: expand_rcv_win_def Let_def)
next
  case 12 then show ?case by (simp add: tx_inv_accept)
next
  case 13 then show ?case by (rule tx_inv_event) auto
next
  case 14 then show ?case by (rule tx_inv_event) auto
next
  case 15 then show ?case by (auto elim!: tx_inv_cong)
next
  case 16 then show ?case by (auto elim!: tx_inv_cong)
next
  case (17 c tr q qs)
  then have "tx_inv iss (data_conn q qs c) tr"
    by (auto elim!: tx_inv_cong simp: data_conn_def tcp_rx_seq_def Let_def)
  then show ?case by (auto simp: data_events_def Let_def intro: tx_inv_event)
next
  case (18 c tr s)
  then show ?case by (auto elim!: tx_inv_cong simp: rx_fin_conn_def tcp_rx_seq_def Let_def)
qed

text \<open>What a new connection looks like.\<close>

lemma tcp_open_conn:
  assumes "tcp_open E i st_peer st_local w = (None, w')"
  shows "tcp_state (conn w' i) = TCP_STATE_SENT TCP_SYN \<and> snd_sent (conn w' i) = 0 \<and> tx_queue (conn w' i) = [] \<and>
    rx_queue (conn w' i) = [] \<and> xfer_open (conn w' i) \<and> plugged (conn w' i) \<and> tflags (conn w' i) = 0 \<and>
    rcv_win (conn w' i) = 0 \<and> rcv_win_scale (conn w' i) = 0 \<and> max_rcv_win (conn w' i) = TCP_MAX_WINDOW_SIZE \<and>
    pending_flags (conn w' i) = 1 \<and> pending_data (conn w' i) = 0 \<and>
    trace w' = trace w \<and> tcp_conns w' = i # tcp_conns w"
  using assms unfolding tcp_open_def
  by (auto simp: Let_def case_prod_beta tcp_init_conn_def tcp_dump_state_def zero_conn_def
      split: if_splits sum.splits)

text \<open>
  C13.  Reliable transmission: in every run of an opened connection, whatever the application, the network and
  the memory allocator do, each segment that is transmitted carries exactly the bytes of the stream
  accepted from the application that its sequence number stands for; and until the connection is closed, the stream is what the peer has
  acknowledged followed by what is queued, so that nothing unacknowledged is ever dropped.
\<close>

theorem tcp_transmits_stream:
  assumes "tcp_open E i st_peer st_local w0 = (None, w1)" "events i w0 = []"
    and "tcp_run E (\<lambda>w l. l \<noteq> Open i) w1 w"
    and "iss = snd_seq (conn w1 i)" "stream = accepted (events i w)" "c = conn w i"
  shows "(\<forall>a seg. TxSegment i a seg \<in> set (trace w) \<and> seg_payload seg \<noteq> [] \<longrightarrow>
      (\<exists>n. seg_seq seg = iss + 1 + of_nat n \<and> n + length (seg_payload seg) \<le> length stream \<and>
        seg_payload seg = take (length (seg_payload seg)) (drop n stream))) \<and>
    (tcp_state c AND TCP_STATE_SENT TCP_SYN \<noteq> 0 \<and> tcp_state c AND TCP_STATE_SENT TCP_FIN = 0 \<longrightarrow>
      (\<exists>acked. stream = acked @ concat (tx_queue c) \<and> (acked \<noteq> [] \<longrightarrow> snd_seq c = iss + 1 + of_nat (length acked))))"
proof -
  have "tx_inv iss (conn w1 i) (events i w1)"
    using tcp_open_conn [OF assms(1)] assms(2,4) state_masks(6)
    by (auto simp: tx_inv_def tx_pos_def events_def bit_exp_u32 simp del: power_numeral)
  moreover have "tcp_run E (tx.okrun i) w1 w"
    using assms(3) by (rule tcp_run_mono) (auto simp: tx.okrun_def tx.okpkt_def split: tcp_label.split)
  ultimately have inv: "tx_inv iss c (events i w)"
    using tx.P_runs [of E i w1 w iss] assms(6) by (simp add: tx.P_def)
  show ?thesis
  proof (intro conjI allI impI)
    fix a seg
    assume "TxSegment i a seg \<in> set (trace w) \<and> seg_payload seg \<noteq> []"
    then show "\<exists>n. seg_seq seg = iss + 1 + of_nat n \<and> n + length (seg_payload seg) \<le> length stream \<and>
        seg_payload seg = take (length (seg_payload seg)) (drop n stream)"
      using inv assms(5) by (auto simp: tx_inv_def seg_ok_def events_def)
  next
    assume "tcp_state c AND TCP_STATE_SENT TCP_SYN \<noteq> 0 \<and> tcp_state c AND TCP_STATE_SENT TCP_FIN = 0"
    then show "\<exists>acked. stream = acked @ concat (tx_queue c) \<and>
        (acked \<noteq> [] \<longrightarrow> snd_seq c = iss + 1 + of_nat (length acked))"
      using inv assms(5) by (auto simp: tx_inv_def tx_pos_def split: if_splits)
  qed
qed

end
