(* ===== verification/Tcp_Rx.thy ===== *)
theory Tcp_Rx
  imports Tcp_Tx
begin

text \<open>
  The receive path of TCP: whatever the order in which the segments of the peer arrive, however
  often they are repeated and whatever is discarded for lack of memory, the application is given the
  stream of the peer, in order and without gaps.
\<close>

section \<open>Words near each other\<close>

lemma word_diff_of_nat:
  "a \<le> b \<Longrightarrow> (x + of_nat b) - (x + of_nat a) = (of_nat (b - a) :: u32)"
  by (simp add: of_nat_diff)

lemma of_nat_eq_small: "a < 2 ^ 32 \<Longrightarrow> b < 2 ^ 32 \<Longrightarrow> (x + of_nat a = x + (of_nat b :: u32)) \<longleftrightarrow> a = b"
  by (metis add_left_cancel unat_of_nat_small)

lemma tcp_cmp_of_nat:
  assumes "a < 2 ^ 31" "b < 2 ^ 31"
  shows "tcp_cmp (x + of_nat a) (x + of_nat b) = int a - int b"
proof -
  have "(x + of_nat a) - (x + of_nat b) = (of_int (int a - int b) :: u32)" by simp
  then have "tcp_cmp (x + of_nat a) (x + of_nat b) = sint (of_int (int a - int b) :: u32)"
    by (simp only: tcp_cmp_def)
  also have "\<dots> = int a - int b"
    using assms by (subst sint_sbintrunc') (simp add: signed_take_bit_int_eq_self)
  finally show ?thesis .
qed

section \<open>The stream of the peer\<close>

text \<open>
  \<open>S\<close> is the stream, of length \<open>L\<close>, and \<open>irs\<close> the initial sequence number of the peer.  A segment of
  the stream has some part of it as payload, a FIN only at its end, and a SYN only at its start.
\<close>

definition bytes_at :: "(nat \<Rightarrow> u8) \<Rightarrow> nat \<Rightarrow> nat \<Rightarrow> bytes" where
  "bytes_at S n k = map S [n ..< n + k]"

definition part_of :: "(nat \<Rightarrow> u8) \<Rightarrow> nat \<Rightarrow> nat \<Rightarrow> bytes \<Rightarrow> bool \<Rightarrow> bool" where
  "part_of S L n b fin \<longleftrightarrow> b = bytes_at S n (length b) \<and> n + length b \<le> L \<and> (fin \<longrightarrow> n + length b = L)"

definition peer_seg :: "u32 \<Rightarrow> (nat \<Rightarrow> u8) \<Rightarrow> nat \<Rightarrow> u32 \<Rightarrow> u32 \<Rightarrow> bytes \<Rightarrow> bool" where
  "peer_seg irs S L seq fl b \<longleftrightarrow>
     (if bit fl 1 then seq = irs \<and> part_of S L 0 b (bit fl 0)
      else \<exists>n. seq = irs + 1 + of_nat n \<and> part_of S L n b (bit fl 0))"

fun delivered :: "tcp_event list \<Rightarrow> bytes" where
  "delivered [] = []"
| "delivered (Delivered i b # tr) = delivered tr @ b"
| "delivered (e # tr) = delivered tr"

section \<open>The invariant\<close>

definition queued_ok :: "u32 \<Rightarrow> (nat \<Rightarrow> u8) \<Rightarrow> nat \<Rightarrow> tcp_rx_queued \<Rightarrow> bool" where
  "queued_ok irs S L q \<longleftrightarrow> (\<exists>n. q_seq q = irs + 1 + of_nat n \<and> part_of S L n (q_data q) (bit (q_flags q) 0))"

definition fins :: "u32 \<Rightarrow> nat" where
  "fins state = (if bit state 16 then 1 else 0)"

definition rx_live :: "u32 \<Rightarrow> (nat \<Rightarrow> u8) \<Rightarrow> nat \<Rightarrow> tcp_connection \<Rightarrow> bytes \<Rightarrow> u32 option \<Rightarrow> bool" where
  "rx_live irs S L c d p \<longleftrightarrow>
     (\<exists>n. n \<le> L \<and> rcv_ack c = irs + 1 + of_nat (n + fins (tcp_state c)) \<and> (bit (tcp_state c) 16 \<longrightarrow> n = L) \<and>
        length d \<le> n \<and> d = bytes_at S 0 (length d) \<and> (xfer_open c \<longrightarrow> length d = n)) \<and>
     (\<forall>q \<in> set (rx_queue c). queued_ok irs S L q) \<and>
     (\<forall>s. p = Some s \<longrightarrow> s = irs + 1 + of_nat L)"

definition rx_inv :: "u32 \<Rightarrow> (nat \<Rightarrow> u8) \<Rightarrow> nat \<Rightarrow> tcp_connection \<Rightarrow> tcp_event list \<Rightarrow> u32 option \<Rightarrow> bool" where
  "rx_inv irs S L c tr p \<longleftrightarrow> L + 2 < 2 ^ 31 \<longrightarrow>
     length (delivered tr) \<le> L \<and> delivered tr = bytes_at S 0 (length (delivered tr)) \<and>
     (if bit (tcp_state c) 2 then \<not> xfer_open c
      else if bit (tcp_state c) 17 then rx_live irs S L c (delivered tr) p
      else \<not> bit (tcp_state c) 16 \<and> rx_queue c = [] \<and> delivered tr = [] \<and> p = None)"

lemma rx_inv_cong:
  assumes "rx_inv irs S L c tr p" "rcv_ack c' = rcv_ack c" "set (rx_queue c') \<subseteq> set (rx_queue c)"
    "bit (tcp_state c') 2 = bit (tcp_state c) 2" "bit (tcp_state c') 16 = bit (tcp_state c) 16"
    "bit (tcp_state c') 17 = bit (tcp_state c) 17" "xfer_open c' \<longrightarrow> xfer_open c" "delivered tr' = delivered tr"
  shows "rx_inv irs S L c' tr' p"
proof -
  have "rx_live irs S L c d p \<Longrightarrow> rx_live irs S L c' d p" for d
    using assms(2-7) by (auto simp: rx_live_def fins_def)
  with assms show ?thesis by (auto simp: rx_inv_def)
qed

lemma bytes_at_append: "bytes_at S n j @ bytes_at S (n + j) k = bytes_at S n (j + k)"
  by (intro nth_equalityI) (auto simp: bytes_at_def nth_append)

lemma length_bytes_at [simp]: "length (bytes_at S n k) = k"
  by (simp add: bytes_at_def)

lemma drop_bytes_at: "drop j (bytes_at S n k) = bytes_at S (n + j) (k - j)"
  by (intro nth_equalityI) (auto simp: bytes_at_def add.assoc)

text \<open>The receive position, and a queued packet that is not ahead of it.\<close>

lemma already_received:
  assumes "rcv_ack c = irs + 1 + of_nat m" "q_seq q = irs + 1 + of_nat k" "m < 2 ^ 31" "k < 2 ^ 31"
    and "tcp_cmp (q_seq q) (rcv_ack c) \<le> 0"
  shows "k \<le> m" "unat (rcv_ack c - q_seq q) = m - k"
proof -
  show "k \<le> m" using tcp_cmp_of_nat [OF assms(4,3)] assms by simp
  then have "rcv_ack c - q_seq q = of_nat (m - k)"
    using assms(1,2) by (simp add: of_nat_diff)
  with assms(3) show "unat (rcv_ack c - q_seq q) = m - k" by (simp add: unat_of_nat_small)
qed

lemma rx_inv_data:
  assumes inv: "rx_inv irs S L c tr None" and q: "rx_queue c = q # qs"
    and cmp: "tcp_cmp (q_seq q) (rcv_ack c) \<le> 0"
  shows "rx_inv irs S L (data_conn q qs c) (data_events i q c tr) (fin_pos q)"
proof (cases "L + 2 < 2 ^ 31 \<and> \<not> bit (tcp_state c) 2")
  case False
  then show ?thesis
    using inv by (auto simp: rx_inv_def data_conn_def data_events_def tcp_rx_seq_def Let_def)
next
  case True
  then have L: "L + 2 < 2 ^ 31" and b: "\<not> bit (tcp_state c) 2" "bit (tcp_state c) 17"
    and live: "rx_live irs S L c (delivered tr) None"
    using inv q by (auto simp: rx_inv_def split: if_splits)
  let ?f = "fins (tcp_state c)" and ?len = "length (q_data q)"
  from live obtain n where n: "n \<le> L" "rcv_ack c = irs + 1 + of_nat (n + ?f)" "bit (tcp_state c) 16 \<longrightarrow> n = L"
      "length (delivered tr) \<le> n" "delivered tr = bytes_at S 0 (length (delivered tr))"
      "xfer_open c \<longrightarrow> length (delivered tr) = n"
    and qs: "\<forall>q' \<in> set (q # qs). queued_ok irs S L q'"
    unfolding rx_live_def q by blast
  from qs obtain k where k: "q_seq q = irs + 1 + of_nat k" "part_of S L k (q_data q) (bit (q_flags q) 0)"
    by (auto simp: queued_ok_def)
  have small: "n + ?f < 2 ^ 31" "k < 2 ^ 31" "k + ?len \<le> L"
    using L n(1) k(2) by (auto simp: fins_def part_of_def)
  note al = already_received [OF n(2) k(1) small(1,2) cmp]
  have len: "unat (of_nat ?len :: u32) = ?len"
    using small L by (simp add: unat_of_nat_small)
  have fin: "\<forall>s. fin_pos q = Some s \<longrightarrow> s = irs + 1 + of_nat L"
    using k by (auto simp: fin_pos_def part_of_def simp flip: of_nat_add)
  show ?thesis
  proof (cases "?len \<le> n + ?f - k")
    case True
    then have "of_nat ?len \<le> rcv_ack c - q_seq q" using al(2) len by (simp add: word_le_nat_alt)
    with live fin q b inv L show ?thesis
      by (auto simp: rx_inv_def rx_live_def data_conn_def data_events_def Let_def)
  next
    case False
    then have f: "?f = 0" "\<not> bit (tcp_state c) 16" using n(3) small(3) al(1) by (auto simp: fins_def split: if_splits)
    have new: "\<not> of_nat ?len \<le> rcv_ack c - q_seq q" using False al(2) len by (simp add: word_le_nat_alt)
    have data: "drop (n - k) (q_data q) = bytes_at S n (k + ?len - n)"
      using k(2) al(1) f drop_bytes_at [of "n - k" S k ?len] by (simp add: part_of_def add.commute)
    have "rcv_ack c + (of_nat ?len - (rcv_ack c - q_seq q)) = irs + 1 + of_nat (k + ?len)"
      using k(1) by simp
    then have c': "rcv_ack (data_conn q qs c) = irs + 1 + of_nat (k + ?len)"
      "tcp_state (data_conn q qs c) = tcp_state c" "xfer_open (data_conn q qs c) = xfer_open c"
      "rx_queue (data_conn q qs c) = qs"
      using new by (simp_all add: data_conn_def tcp_rx_seq_def Let_def)
    have d': "delivered (data_events i q c tr) =
        (if xfer_open c then bytes_at S 0 (k + ?len) else delivered tr)"
      using new al f False n data bytes_at_append [of S 0 n "k + ?len - n"]
      by (auto simp: data_events_def Let_def)
    have "rx_live irs S L (data_conn q qs c) (delivered (data_events i q c tr)) (fin_pos q)"
      unfolding rx_live_def c' d' using small f n qs fin False al(1)
      by (intro conjI exI [of _ "k + ?len"]) (auto simp: fins_def)
    with b c' d' small L n show ?thesis by (auto simp: rx_inv_def)
  qed
qed

lemma rx_inv_fin_rx:
  assumes "rx_inv irs S L c tr (Some s)"
  shows "rx_inv irs S L (if s = rcv_ack c then rx_fin_conn c else c) tr None"
proof (cases "L + 2 < 2 ^ 31 \<and> \<not> bit (tcp_state c) 2")
  case False
  then show ?thesis using assms by (auto simp: rx_inv_def rx_fin_conn_def tcp_rx_seq_def Let_def)
next
  case True
  then have L: "L + 2 < 2 ^ 31" and b: "\<not> bit (tcp_state c) 2" "bit (tcp_state c) 17"
    and live: "rx_live irs S L c (delivered tr) (Some s)"
    using assms by (auto simp: rx_inv_def split: if_splits)
  then have live': "rx_live irs S L c (delivered tr) None" by (auto simp: rx_live_def)
  show ?thesis
  proof (cases "s = rcv_ack c")
    case False
    with assms live' b show ?thesis by (auto simp: rx_inv_def)
  next
    case True
    let ?f = "fins (tcp_state c)"
    from live obtain n where n: "n \<le> L" "rcv_ack c = irs + 1 + of_nat (n + ?f)" "bit (tcp_state c) 16 \<longrightarrow> n = L"
      "length (delivered tr) \<le> n" "delivered tr = bytes_at S 0 (length (delivered tr))"
      "xfer_open c \<longrightarrow> length (delivered tr) = n" and s: "s = irs + 1 + of_nat L"
      and qs: "\<forall>q \<in> set (rx_queue c). queued_ok irs S L q"
      unfolding rx_live_def by blast
    have "L = n + ?f"
      using True n(1,2) s L of_nat_eq_small [of L "n + ?f" "irs + 1"] by (simp add: fins_def split: if_splits)
    then have f: "\<not> bit (tcp_state c) 16" "n = L" using n(3) by (auto simp: fins_def split: if_splits)
    have "rx_live irs S L (rx_fin_conn c) (delivered tr) None"
      unfolding rx_live_def using n f qs
      by (intro conjI exI [of _ L]) (auto simp: rx_fin_conn_def tcp_rx_seq_def fins_def Let_def)
    with True b assms show ?thesis by (auto simp: rx_inv_def rx_fin_conn_def tcp_rx_seq_def Let_def)
  qed
qed

lemma queued_enqueue:
  assumes "\<forall>q \<in> set (rx_queue c). queued_ok irs S L q" "part_of S L n b (bit fl 0)"
  shows "\<forall>q \<in> set (rx_queue (tcp_rx_enqueue (irs + 1 + of_nat n) (ucast (fl :: u32)) b c)). queued_ok irs S L q"
proof -
  have "set (rx_insert q qs) = insert q (set qs)" for q qs by (induction qs) auto
  moreover have "bit (ucast fl AND ucast TCP_FIN :: u8) 0 = bit fl 0"
    by (simp add: bit_simps TCP_FIN_def)
  then have "queued_ok irs S L \<lparr>q_seq = irs + 1 + of_nat n, q_flags = ucast fl AND ucast TCP_FIN, q_data = b\<rparr>"
    using assms(2) by (auto simp: queued_ok_def)
  ultimately show ?thesis using assms(1) by (auto simp: tcp_rx_enqueue_def Let_def)
qed

lemma enqueue_rx [simp]:
  "rcv_ack (tcp_rx_enqueue seq fl b c) = rcv_ack c" "xfer_open (tcp_rx_enqueue seq fl b c) = xfer_open c"
  "rcv_win (tcp_rx_enqueue seq fl b c) = rcv_win c" "max_rcv_win (tcp_rx_enqueue seq fl b c) = max_rcv_win c"
  "rcv_win_scale (tcp_rx_enqueue seq fl b c) = rcv_win_scale c"
  by (auto simp: tcp_rx_enqueue_def Let_def)

lemma rx_inv_enqueue:
  assumes "rx_inv irs S L c tr None" "part_of S L n b (bit fl 0)"
  shows "rx_inv irs S L (tcp_rx_enqueue (irs + 1 + of_nat n) (ucast (fl :: u32)) b c) tr None"
proof -
  have "rx_live irs S L c d None \<Longrightarrow> rx_live irs S L (tcp_rx_enqueue (irs + 1 + of_nat n) (ucast fl) b c) d None" for d
    using queued_enqueue [of c irs S L n b fl] assms(2) by (simp add: rx_live_def)
  moreover have "\<not> bit (tcp_state c) 17 \<Longrightarrow> tcp_rx_enqueue seq f b c = c" for seq f
    by (simp add: tcp_rx_enqueue_def Let_def)
  ultimately show ?thesis using assms(1) by (auto simp: rx_inv_def)
qed

lemma rx_inv_syn:
  assumes inv: "rx_inv irs S L c tr None"
  shows "rx_inv irs S L (tcp_rx_syn mem irs options c) tr None"
proof (cases "L + 2 < 2 ^ 31 \<and> \<not> bit (tcp_state c) 2")
  case False
  then show ?thesis
    using inv by (auto simp: rx_inv_def tcp_rx_syn_def tcp_rx_seq_def Let_def split: option.split)
next
  case True
  show ?thesis
  proof (cases "bit (tcp_state c) 17")
    case True': True
    then obtain n where n: "n \<le> L" "rcv_ack c = irs + 1 + of_nat (n + fins (tcp_state c))"
      using inv True by (auto simp: rx_inv_def rx_live_def)
    have "irs \<noteq> rcv_ack c"
      using of_nat_eq_small [of 0 "n + fins (tcp_state c) + 1" irs] n True by (simp add: fins_def add.assoc split: if_splits)
    then show ?thesis using inv True' by (simp add: tcp_rx_syn_def Let_def)
  next
    case False
    let ?c = "tcp_rx_syn mem irs options c"
    have c': "rcv_ack ?c = irs + 1" "bit (tcp_state ?c) 17" "bit (tcp_state ?c) 16 = bit (tcp_state c) 16"
      "rx_queue ?c = rx_queue c" "bit (tcp_state ?c) 2 = bit (tcp_state c) 2"
      using False by (auto simp: tcp_rx_syn_def tcp_rx_seq_def Let_def split: option.split)
    have "rx_live irs S L ?c (delivered tr) None"
      unfolding rx_live_def using c' inv True False
      by (intro conjI exI [of _ 0]) (auto simp: rx_inv_def fins_def bytes_at_def)
    with c' inv True False show ?thesis by (auto simp: rx_inv_def)
  qed
qed

lemma bytes_at_0 [simp]: "bytes_at S n 0 = []"
  by (simp add: bytes_at_def)

lemma acked_bits [simp]:
  "m \<noteq> 8 \<Longrightarrow> m \<noteq> 9 \<Longrightarrow> m \<noteq> 0 \<Longrightarrow> bit (tcp_state (ack_conn ackno win c)) m = bit (tcp_state c) m"
  by (auto simp: ack_conn_def acked_state_bit fin_conn_def Let_def)

interpretation rx: tcp_conn_inv i "rx_inv irs S L" "\<lambda>_ _. peer_seg irs S L" for i irs S L
proof (unfold_locales, goal_cases)
  case 1 then show ?case by (auto elim!: rx_inv_cong simp: core_def)
next
  case 2 then show ?case by (auto elim!: rx_inv_cong simp: discarded_fields dest: subsetD [OF discarded_fields(18)])
next
  case 3 then show ?case by (auto elim!: rx_inv_cong)
next
  case 4 then show ?case by (auto elim!: rx_inv_cong)
next
  case 5 then show ?case by (auto elim!: rx_inv_cong)
next
  case 6 then show ?case by (auto simp: rx_inv_def delete_conn_def rx_live_def)
next
  case 7 then show ?case by (auto simp: rx_inv_def rx_live_def)
next
  case 8 then show ?case by (auto elim!: rx_inv_cong simp: fin_conn_def)
next
  case 9 then show ?case by (auto elim!: rx_inv_cong)
next
  case 10 then show ?case by (auto elim!: rx_inv_cong)
next
  case 11 then show ?case by (auto elim!: rx_inv_cong simp: expand_rcv_win_def Let_def)
next
  case 12 then show ?case by (auto elim!: rx_inv_cong)
next
  case 13 then show ?case by (auto elim!: rx_inv_cong)
next
  case 14 then show ?case by (auto elim!: rx_inv_cong)
next
  case (15 c tr seq fl b mem options)
  then have "seq = irs" "part_of S L 0 b (bit fl 0)" by (simp_all add: peer_seg_def)
  with 15 show ?case using rx_inv_syn [of irs S L c tr mem options] rx_inv_enqueue [of irs S L _ tr 0 b fl] by simp
next
  case (16 c tr seq fl b)
  then show ?case by (auto simp: peer_seg_def intro: rx_inv_enqueue)
next
  case 17 then show ?case by (rule rx_inv_data)
next
  case 18 then show ?case by (rule rx_inv_fin_rx)
qed

section \<open>In-order delivery\<close>

text \<open>
  The steps of a run of connection \<open>i\<close> in which the packets that reach it are segments of the stream
  of the peer, in any order and any number of times.
\<close>

definition from_peer :: "nat \<Rightarrow> u32 \<Rightarrow> (nat \<Rightarrow> u8) \<Rightarrow> nat \<Rightarrow> tcp_world \<Rightarrow> tcp_label \<Rightarrow> bool" where
  "from_peer i irs S L w l \<longleftrightarrow> l \<noteq> Open i \<and>
     (\<forall>beyond pkt mem. l = Receive beyond pkt \<and> mem = packet_mem pkt beyond \<and>
        tcp_demux (ucast (rd16 mem 2)) w = Some i \<longrightarrow>
        peer_seg irs S L (rd32 mem 4) (ucast (mem 13)) (drop (tcp_hlen mem) pkt))"

text \<open>
  C14.  In-order delivery: in every run in which the packets for a connection are segments of a
  stream of less than half the sequence space, reordered, repeated, overlapping or lost in any way,
  the application is given a prefix of that stream, in order, without gaps and without repetition; and while the interface to
  the application is open, the acknowledgement number is exactly that of the bytes (and the FIN) consumed,
  so that no byte is acknowledged that has not been delivered.
\<close>

theorem tcp_delivers_stream:
  assumes "tcp_open E i st_peer st_local w0 = (None, w1)" "events i w0 = []"
    and "tcp_run E (from_peer i irs S L) w1 w" "L + 2 < 2 ^ 31"
    and "d = delivered (events i w)" "c = conn w i"
  shows "length d \<le> L \<and> d = map S [0 ..< length d] \<and>
    (xfer_open c \<and> tcp_state c AND TCP_STATE_RCVD TCP_SYN \<noteq> 0 \<longrightarrow>
      rcv_ack c = irs + 1 + of_nat (length d) + (if bit (tcp_state c) 16 then 1 else 0))"
proof -
  have "rx_inv irs S L (conn w1 i) (events i w1) None"
    using tcp_open_conn [OF assms(1)] assms(2) state_masks(6)
    by (auto simp: rx_inv_def events_def bit_exp_u32 simp del: power_numeral)
  moreover have "tcp_run E (rx.okrun i irs S L) w1 w"
    using assms(3) by (rule tcp_run_mono)
      (auto simp: rx.okrun_def rx.okpkt_def from_peer_def split: tcp_label.split)
  ultimately have inv: "rx_inv irs S L c (events i w) None"
    using rx.P_runs [of E i irs S L w1 w] assms(6) by (simp add: rx.P_def)
  then have "length d \<le> L" "d = bytes_at S 0 (length d)"
    using assms(4,5) by (simp_all add: rx_inv_def)
  moreover have "rcv_ack c = irs + 1 + of_nat (length d) + (if bit (tcp_state c) 16 then 1 else 0)"
    if "xfer_open c" "bit (tcp_state c) 17"
    using inv that assms(4,5) by (auto simp: rx_inv_def rx_live_def fins_def split: if_splits)
  ultimately show ?thesis by (simp add: bytes_at_def)
qed

end
