(* ===== verification/Tcp_Props.thy ===== *)
theory Tcp_Props
  imports Tcp_Rx
begin

text \<open>
  Properties of every run of TCP beyond the two streams: the processing of a packet returns unless
  its options contain one of zero length, the states a connection can be in, the bounds of the
  receive window, and the shutdown of all connections.
\<close>

section \<open>The receive queue is processed in finitely many steps\<close>

text \<open>Nothing that an application does lengthens the receive queue of a connection.\<close>

interpretation rxq: tcp_conn_calls i "\<lambda>c tr p. length (rx_queue c) \<le> n" for i n
proof (unfold_locales, goal_cases)
  case 2 then show ?case using discarded_fields(19) le_trans by blast
qed (auto simp: core_def ack_conn_def fin_conn_def delete_conn_def expand_rcv_win_def Let_def)

lemma iteration_shortens: "length (rx_queue (conn (rx_iteration E i q qs w) i)) \<le> length qs"
proof -
  let ?w = "upd_conn i (\<lambda>tcp. tcp\<lparr>rx_queue := qs\<rparr>) w"
  let ?P = "rxq.P i (length qs)"
  have data: "?P (snd (tcp_rx_data E i (q_seq q) (q_data q) ?w)) None"
    by (auto simp: tcp_rx_data_def Let_def tcp_rx_seq_def rxq.P_def intro!: rxq.P_deliver [unfolded rxq.P_def])
  have "?P (tcp_rx_fin E i s w') None" if "?P w' None" for s w'
    using that by (auto simp: tcp_rx_fin_def Let_def tcp_rx_seq_def rxq.P_def intro!: rxq.P_close [unfolded rxq.P_def])
  with data have "?P (rx_iteration E i q qs w) None"
    by (auto simp: rx_iteration_def Let_def case_prod_beta)
  then show ?thesis by (simp add: rxq.P_def)
qed

lemma process_rx_queue_returns: "\<exists>w'. tcp_process_rx_queue E i w = Some w'"
proof (induction "length (rx_queue (conn w i))" arbitrary: w rule: less_induct)
  case less
  show ?case
  proof (cases "rx_queue (conn w i)")
    case Nil
    then show ?thesis by (subst tcp_process_rx_queue.simps) simp
  next
    case (Cons q qs)
    then have "length (rx_queue (conn (rx_iteration E i q qs w) i)) < length (rx_queue (conn w i))"
      using iteration_shortens [of E i q qs w] by simp
    from less [OF this] Cons show ?thesis by (subst tcp_process_rx_queue.simps) auto
  qed
qed

lemma rx_packet_returns: "\<exists>r. tcp_rx_packet E mem src options b i w = Some r"
proof -
  have "(case tcp_process_rx_queue E i w' of None \<Rightarrow> None
      | Some w \<Rightarrow> Some (None, tcp_rx_finish E i old w)) \<noteq> None" for w' old
    using process_rx_queue_returns [of E i w'] by auto
  then show ?thesis
    unfolding tcp_rx_packet_def Let_def case_prod_beta by auto
qed

section \<open>Options of zero length\<close>

inductive opts_stuck :: "(nat \<Rightarrow> u8) \<Rightarrow> nat \<Rightarrow> nat \<Rightarrow> bool" for mem endp where
  zero: "data < endp \<Longrightarrow> mem data \<notin> {TCP_OPTION_END, TCP_OPTION_NOP} \<Longrightarrow> mem (data + 1) = 0 \<Longrightarrow>
    opts_stuck mem endp data"
| nop: "data < endp \<Longrightarrow> mem data = TCP_OPTION_NOP \<Longrightarrow> opts_stuck mem endp (data + 1) \<Longrightarrow> opts_stuck mem endp data"
| skip: "data < endp \<Longrightarrow> mem data \<notin> {TCP_OPTION_END, TCP_OPTION_NOP} \<Longrightarrow>
    opts_stuck mem endp (data + unat (mem (data + 1))) \<Longrightarrow> opts_stuck mem endp data"

inductive_simps opts_stuck_iff: "opts_stuck mem endp data"

lemma opts_return: "\<not> opts_stuck mem endp data \<Longrightarrow> \<exists>r. tcp_rx_opts_loop mem endp data options = Some r"
proof (induction "endp - data" arbitrary: data options rule: less_induct)
  case less
  let ?next = "if mem data = TCP_OPTION_NOP then data + 1 else data + unat (mem (data + 1))"
  show ?case
  proof (cases "data < endp \<and> mem data \<noteq> TCP_OPTION_END")
    case True
    then have "\<not> opts_stuck mem endp ?next" "mem data \<noteq> TCP_OPTION_NOP \<Longrightarrow> mem (data + 1) \<noteq> 0"
      using less.prems opts_stuck.intros [of data endp mem] by (auto split: if_splits)
    moreover have "mem data \<noteq> TCP_OPTION_NOP \<Longrightarrow> 0 < unat (mem (data + 1))"
      using calculation(2) by (simp add: unat_gt_0)
    with True have "endp - ?next < endp - data" by auto
    ultimately show ?thesis
      using less.hyps True by (subst tcp_rx_opts_loop.simps) (auto simp: Let_def split: if_splits)
  qed (subst tcp_rx_opts_loop.simps, auto simp: Let_def)
qed

lemma opts_hang:
  assumes "tcp_rx_opts_loop mem endp data options = Some r"
  shows "\<not> opts_stuck mem endp data"
proof -
  have "opts_stuck mem endp data \<Longrightarrow> tcp_rx_opts_loop mem endp data options = Some r \<Longrightarrow> False" for data options
  proof (induction arbitrary: options rule: opts_stuck.induct)
    case (zero data)
    show ?case
    proof (rule notE)
      show "\<not> (data < endp \<and> mem data \<notin> {TCP_OPTION_END, TCP_OPTION_NOP} \<and> mem (data + 1) = 0)"
        by (rule tcp_rx_opts_loop.raw_induct [where P = "\<lambda>mem endp data options r.
            \<not> (data < endp \<and> mem data \<notin> {TCP_OPTION_END, TCP_OPTION_NOP} \<and> mem (data + 1) = 0)", OF _ zero.prems])
          (fastforce simp: Let_def split: if_splits)
    qed (use zero in simp)
  qed (auto simp: opts_step)
  with assms show ?thesis by blast
qed

lemma tcp_rx_opts_None: "tcp_rx_opts mem data len = None \<longleftrightarrow> opts_stuck mem (data + len) data"
  unfolding tcp_rx_opts_def using opts_hang opts_return by (metis not_None_eq)

text \<open>
  C15.  The processing of a packet returns, whatever the packet, the memory behind it and the applications
  do, unless the packet has a valid header and checksum and its option list leads to an option whose length byte
  is zero; and on every packet of that kind the processing never returns, even
  if no connection is open.
\<close>

theorem tcp_rx_returns_iff:
  fixes pkt beyond
  defines "mem \<equiv> packet_mem pkt beyond"
  shows "tcp_rx E beyond pkt st_src pshdr_csum w = None \<longleftrightarrow>
    20 \<le> length pkt \<and> 20 \<le> tcp_hlen mem \<and> tcp_hlen mem \<le> length pkt \<and>
    generic_tcpip_continue_chksum pshdr_csum pkt = 0 \<and> opts_stuck mem (tcp_hlen mem) 20"
proof -
  have [simp]: "tcp_rx_packet E mem st_src options b i w' = None \<longleftrightarrow> False" for options b i w'
    using rx_packet_returns by (metis option.distinct(1))
  show ?thesis
    using tcp_rx_opts_None [of mem 20 "tcp_hlen mem - 20"]
    unfolding tcp_rx_def Let_def mem_def [symmetric]
    by (auto split: option.split)
qed

definition zero_option_packet :: bytes where
  "zero_option_packet = [0, 0, 0, 0, 0, 0, 0, 0, 0, 0, 0, 0, 0x60, 0, 0, 0, 0x9a, 0xff, 0, 0, 5, 0, 0, 0]"

lemma zero_option_hangs: "tcp_rx E beyond zero_option_packet st_src 0xffff w = None"
proof -
  let ?mem = "packet_mem zero_option_packet beyond"
  have "tcp_hlen ?mem = 24" "?mem 20 = 5" "?mem 21 = 0"
    by (simp_all add: packet_mem_def zero_option_packet_def tcp_hlen_def TCP_MASK_HLEN_def)
  moreover have "generic_tcpip_continue_chksum 0xffff zero_option_packet = 0"
    by (simp add: word_unat_eq_iff continue_chksum_value zero_option_packet_def fold16_def)
  moreover have "opts_stuck ?mem 24 20"
    by (rule opts_stuck.zero) (use calculation in \<open>auto simp: TCP_OPTION_END_def TCP_OPTION_NOP_def\<close>)
  moreover have "length zero_option_packet = 24" by (simp add: zero_option_packet_def)
  ultimately show ?thesis
    using tcp_rx_opts_None [of ?mem 20 4] by (simp add: tcp_rx_def Let_def)
qed

section \<open>The states of a connection\<close>

text \<open>The states named by \<open>tcp.h\<close>, and four that it does not name.\<close>

definition named_states :: "u32 list" where
  "named_states = [TCP_SYN_SENT, TCP_SYN_RCVD, TCP_ESTABLISHED, TCP_FIN_WAIT_1, TCP_FIN_WAIT_2,
     TCP_CLOSING_OR_LAST_ACK, TCP_TIME_WAIT, TCP_CLOSE_WAIT]"

definition unnamed_states :: "u32 list" where
  "unnamed_states = [TCP_SYN_SENT OR TCP_STATE_ACKED TCP_SYN, TCP_SYN_RCVD OR TCP_STATE_SENT TCP_FIN,
     TCP_SYN_RCVD OR TCP_STATE_RCVD TCP_FIN, TCP_SYN_RCVD OR TCP_STATE_SENT TCP_FIN OR TCP_STATE_RCVD TCP_FIN]"

definition state_ok :: "u32 \<Rightarrow> bool" where
  "state_ok s \<longleftrightarrow> s \<in> {0x2, 0x202, 0x20012, 0x20212, 0x20013, 0x20213, 0x20313, 0x30012, 0x30212, 0x30013, 0x30213, 0x30313}"

lemma state_ok_named: "state_ok s \<longleftrightarrow> s \<in> set (named_states @ unnamed_states)"
  by (auto simp: state_ok_def named_states_def unnamed_states_def TCP_SYN_SENT_def TCP_SYN_RCVD_def TCP_ESTABLISHED_def
      TCP_FIN_WAIT_1_def TCP_FIN_WAIT_2_def TCP_CLOSING_OR_LAST_ACK_def TCP_TIME_WAIT_def TCP_CLOSE_WAIT_def
      tcp_consts push_bit_eq_mult)

definition state_inv :: "tcp_connection \<Rightarrow> u32 option \<Rightarrow> bool" where
  "state_inv c p \<longleftrightarrow>
     (bit (tcp_state c) 2 \<and> \<not> xfer_open c) \<or>
     (state_ok (tcp_state c) \<and>
      (bit (tflags c) 0 \<or> rx_queue c \<noteq> [] \<or> p \<noteq> None \<longrightarrow> bit (tcp_state c) 17))"

lemma state_ok_steps:
  assumes "state_ok s"
  shows "state_ok (s OR TCP_STATE_ACKED (TCP_FLAGS_SENDING s AND (TCP_SYN OR TCP_FIN)))"
    and "state_ok (s OR (TCP_STATE_SENT TCP_ACK OR TCP_STATE_RCVD TCP_SYN))"
    and "bit s 17 \<Longrightarrow> state_ok (s OR TCP_STATE_SENT TCP_FIN)"
    and "bit s 17 \<Longrightarrow> state_ok (s OR TCP_STATE_RCVD TCP_FIN)"
  using assms by (auto simp: state_ok_def tcp_consts push_bit_eq_mult)

lemma acked_state:
  "tcp_state (acked_conn ackno c) = tcp_state c OR TCP_STATE_ACKED (TCP_FLAGS_SENDING (tcp_state c) AND (TCP_SYN OR TCP_FIN))"
proof (cases "TCP_FLAGS_SENDING (tcp_state c) AND (TCP_SYN OR TCP_FIN) = 0")
  case True
  then show ?thesis unfolding True by (simp add: acked_conn_def Let_def True TCP_STATE_ACKED_def)
qed (simp add: acked_conn_def Let_def)

lemma state_inv_acked: "state_inv c p \<Longrightarrow> state_inv (acked_conn ackno c) p"
  using state_ok_steps(1) [of "tcp_state c"]
  by (auto simp: state_inv_def acked_state bit_simps)

lemma state_inv_fin: "state_inv c p \<Longrightarrow> fin_ready c \<Longrightarrow> state_inv (fin_conn c) p"
  using state_ok_steps(3) [of "tcp_state c"] by (auto simp: state_inv_def fin_ready_def fin_conn_def bit_simps)

lemma state_inv_syn: "state_inv c None \<Longrightarrow> state_inv (tcp_rx_syn mem seq options c) None"
proof -
  have "bit (TCP_STATE_RCVD TCP_SYN) 17" "\<not> bit TCP_ACK_PENDING 0" "\<not> bit TCP_TS_ENABLED 0"
    by (simp_all add: tcp_consts push_bit_eq_mult TCP_TS_ENABLED_def)
  moreover assume "state_inv c None"
  ultimately show ?thesis
    using state_ok_steps(2) [of "tcp_state c"]
    by (auto simp: state_inv_def tcp_rx_syn_def tcp_rx_seq_def Let_def bit_simps split: option.split)
qed

lemma state_inv_enqueue: "state_inv c None \<Longrightarrow> state_inv (tcp_rx_enqueue seq fl b c) None"
  by (auto simp: state_inv_def tcp_rx_enqueue_def Let_def)

lemma state_inv_ack: "state_inv c p \<Longrightarrow> state_inv (ack_conn ackno win c) p"
proof -
  assume "state_inv c p"
  then have "state_inv (c\<lparr>snd_win := win\<rparr>) p" by (simp add: state_inv_def)
  with \<open>state_inv c p\<close> show ?thesis
    by (auto simp: ack_conn_def Let_def intro: state_inv_acked state_inv_fin)
qed

interpretation sm: tcp_conn_inv i "\<lambda>c tr p. state_inv c p" "\<lambda>_ _ _ _ _. True" for i
proof (unfold_locales, goal_cases)
  case (2 c tr p c')
  then show ?case using discarded_fields [OF 2(2)] by (auto simp: state_inv_def)
next
  case 5 then show ?case by (simp add: state_inv_ack)
next
  case 8 then show ?case by (simp add: state_inv_fin)
next
  case 15 then show ?case by (auto intro: state_inv_enqueue state_inv_syn)
next
  case 16 then show ?case by (auto intro: state_inv_enqueue)
next
  case (17 c tr q qs)
  then show ?case by (auto simp: state_inv_def data_conn_def tcp_rx_seq_def Let_def bit_simps)
next
  case (18 c tr s)
  then show ?case using state_ok_steps(4) [of "tcp_state c"]
    by (auto simp: state_inv_def rx_fin_conn_def tcp_rx_seq_def Let_def bit_simps)
qed (auto simp: state_inv_def core_def delete_conn_def expand_rcv_win_def Let_def TCP_CLOSED_def TCP_RST_def bit_simps)

text \<open>
  C16.  The state machine: in every run a connection is in one of the eight states that \<open>tcp.h\<close> names, or in
  one of four combinations it does not name (the SYN acknowledged but no SYN received, and
  the FINs sent or received while the own SYN is still unacknowledged), until it has been closed,
  when its interface to the application is shut down as well.
\<close>

theorem tcp_state_machine:
  assumes "tcp_open E i st_peer st_local w0 = (None, w1)" "tcp_run E (\<lambda>w l. l \<noteq> Open i) w1 w" "c = conn w i"
  shows "tcp_state c \<in> set (named_states @ unnamed_states) \<or>
    tcp_state c AND TCP_CLOSED \<noteq> 0 \<and> \<not> xfer_open c"
proof -
  have "state_inv (conn w1 i) None"
    using tcp_open_conn [OF assms(1)] by (simp add: state_inv_def state_ok_def tcp_consts)
  moreover have "tcp_run E (sm.okrun i) w1 w"
    using assms(2) by (rule tcp_run_mono) (auto simp: sm.okrun_def sm.okpkt_def split: tcp_label.split)
  ultimately have "state_inv c None"
    using sm.P_runs [of E i w1 w] assms(3) by (simp add: sm.P_def)
  moreover have "tcp_state c AND TCP_CLOSED = 0 \<longleftrightarrow> \<not> bit (tcp_state c) 2"
    using and_bit [of 2 "tcp_state c"] by (simp add: tcp_consts)
  ultimately show ?thesis
    unfolding state_ok_named [symmetric] by (auto simp: state_inv_def)
qed

section \<open>The receive window\<close>

definition win_inv :: "tcp_connection \<Rightarrow> bool" where
  "win_inv c \<longleftrightarrow> rcv_win c \<le> TCP_MAX_WINDOW_SIZE \<and> max_rcv_win c \<le> TCP_MAX_WINDOW_SIZE \<and>
     (rcv_win_scale c = 0 \<and> rcv_win c \<le> 0xffff \<or> rcv_win_scale c = TCP_RX_WINDOW_SCALE)"

lemma win_inv_cong:
  "rcv_win c' \<le> rcv_win c \<Longrightarrow> max_rcv_win c' \<le> max_rcv_win c \<Longrightarrow> rcv_win_scale c' = rcv_win_scale c \<Longrightarrow>
     win_inv c \<Longrightarrow> win_inv c'"
  by (auto simp: win_inv_def)

lemma win_inv_seq: "win_inv c \<Longrightarrow> win_inv (tcp_rx_seq n c)"
  by (erule win_inv_cong [rotated -1]) (auto simp: tcp_rx_seq_def word_sub_le)

lemma win_inv_syn:
  assumes "win_inv c"
  shows "win_inv (tcp_rx_syn mem seq options c)"
proof -
  have *: "win_inv (case wsopt options of
      Some data \<Rightarrow> d\<lparr>snd_win_scale := mem (data + 2), rcv_win_scale := TCP_RX_WINDOW_SCALE\<rparr> | None \<Rightarrow> d)"
    if "win_inv d" for d
    using that by (auto simp: win_inv_def split: option.split)
  have **: "win_inv ((tcp_rx_seq 1 d)\<lparr>tcp_state := s\<rparr>)" if "win_inv d" for d s
    using win_inv_seq [OF that, of 1] by (simp add: win_inv_def)
  show ?thesis
    unfolding tcp_rx_syn_def Let_def
    by (auto intro!: * ** simp del: option.case_eq_if) (use assms in \<open>auto simp: win_inv_def\<close>)
qed

lemma win_inv_expand:
  assumes "win_inv c"
  shows "win_inv (expand_rcv_win win c)"
proof -
  have *: "x AND NOT 3 \<le> x" for x :: u32 by (rule word_and_le2)
  have "win_inv (c\<lparr>rcv_win := x AND NOT 3\<rparr>)"
    if "x \<le> max_rcv_win c" "x \<le> push_bit (unat (rcv_win_scale c)) 0xffff" for x
    using assms that * [of x] by (auto simp: win_inv_def)
  with assms show ?thesis
    unfolding expand_rcv_win_def Let_def by (simp add: not_less)
qed

interpretation win: tcp_conn_inv i "\<lambda>c tr p. win_inv c" "\<lambda>_ _ _ _ _. True" for i
proof (unfold_locales, goal_cases)
  case (2 c tr p c')
  then show ?case using discarded_fields [OF 2(2)] by (auto simp: win_inv_def)
next
  case 11 then show ?case by (rule win_inv_expand)
next
  case (15 c tr seq fl b mem options)
  then have "win_inv (tcp_rx_syn mem seq options c)" by (simp add: win_inv_syn)
  then show ?case by (auto simp: tcp_rx_enqueue_def Let_def elim!: win_inv_cong [rotated -1])
next
  case 16 then show ?case by (auto simp: tcp_rx_enqueue_def Let_def elim!: win_inv_cong [rotated -1])
next
  case (17 c tr q qs)
  then have "win_inv (c\<lparr>rx_queue := qs\<rparr>)" by (simp add: win_inv_def)
  then show ?case by (auto simp: data_conn_def Let_def win_inv_seq)
next
  case (18 c tr s)
  then show ?case using win_inv_seq [of c 1] by (auto simp: rx_fin_conn_def Let_def win_inv_def)
qed (auto simp: win_inv_def core_def delete_conn_def fin_conn_def)

text \<open>
  C17.  The receive window: it never exceeds the maximum window size of 256 kB, and the 16-bit field of a
  segment, which carries the window shifted right by the window scale, is never truncated.
\<close>

theorem tcp_window_bounded:
  assumes "tcp_open E i st_peer st_local w0 = (None, w1)" "tcp_run E (\<lambda>w l. l \<noteq> Open i) w1 w" "c = conn w i"
  shows "rcv_win c \<le> TCP_MAX_WINDOW_SIZE \<and>
    unat (seg_win (tcp_segment c fl now payload)) = unat (rcv_win c) div 2 ^ unat (rcv_win_scale c)"
proof -
  have "win_inv (conn w1 i)"
    using tcp_open_conn [OF assms(1)] by (simp add: win_inv_def)
  moreover have "tcp_run E (win.okrun i) w1 w"
    using assms(2) by (rule tcp_run_mono) (auto simp: win.okrun_def win.okpkt_def split: tcp_label.split)
  ultimately have "win_inv c"
    using win.P_runs [of E i w1 w] assms(3) by (simp add: win.P_def)
  let ?n = "unat (rcv_win_scale c)"
  have "unat (rcv_win c) \<le> 262144" "?n = 0 \<and> unat (rcv_win c) \<le> 65535 \<or> ?n = 9"
    using \<open>win_inv c\<close> by (auto simp: win_inv_def word_le_nat_alt TCP_MAX_WINDOW_SIZE_def TCP_RX_WINDOW_SCALE_def)
  then have "unat (rcv_win c) div 2 ^ ?n < 2 ^ 16" by auto
  moreover have "seg_win (tcp_segment c fl now payload) = ucast (drop_bit ?n (rcv_win c))"
    using seg_fields(4) [OF tcp_segment_eq] by simp
  moreover have "unat (drop_bit ?n (rcv_win c)) = unat (rcv_win c) div 2 ^ ?n"
    by (metis unat_drop_bit_eq drop_bit_eq_div)
  ultimately show ?thesis
    using \<open>win_inv c\<close> by (simp add: win_inv_def unsigned_ucast_eq take_bit_nat_eq_self)
qed

section \<open>Shutdown\<close>

lemma abort_conn:
  fixes w i E rc
  defines "w' \<equiv> tcp_close E i rc (upd_conn i (\<lambda>tcp. tcp_dump_state (tcp\<lparr>tcp_state := TCP_CLOSED\<rparr>)) w)"
  shows "tcp_conns w' = remove1 i (tcp_conns w)"
    and "k \<noteq> i \<Longrightarrow> still (conn w' k) = still (conn w k)"
    and "tcp_state (conn w' i) = TCP_CLOSED \<and> \<not> xfer_open (conn w' i) \<and> tx_queue (conn w' i) = [] \<and> rx_queue (conn w' i) = []"
proof -
  let ?w = "upd_conn i (\<lambda>tcp. tcp_dump_state (tcp\<lparr>tcp_state := TCP_CLOSED\<rparr>)) w"
  have c: "tcp_conns (fold (app_call_null i) calls v) = tcp_conns v" for calls v
  proof (induction calls arbitrary: v)
    case (Cons a calls)
    then show ?case by (cases a) (auto simp: app_unplug_def)
  qed simp
  have conns: "tcp_conns (xfer_shutdown E i rc v) = tcp_conns v" for v
    by (simp add: xfer_shutdown_def Let_def case_prod_beta c)
  have eq: "w' = tcp_delete E i (upd_conn i (\<lambda>tcp. tcp\<lparr>tflags := tflags tcp OR TCP_XFER_CLOSED\<rparr>) (xfer_shutdown E i rc ?w))"
    unfolding w'_def tcp_close_def Let_def
    by (simp add: shutdown_sel tcp_dump_state_def TCP_CLOSED_def TCP_RST_def)
  show "tcp_conns w' = remove1 i (tcp_conns w)" by (simp add: eq conns)
  show "k \<noteq> i \<Longrightarrow> still (conn w' k) = still (conn w k)"
    using shutdown_still [of E i rc ?w k] by (simp add: eq)
  show "tcp_state (conn w' i) = TCP_CLOSED \<and> \<not> xfer_open (conn w' i) \<and> tx_queue (conn w' i) = [] \<and> rx_queue (conn w' i) = []"
    by (simp add: eq delete_conn_def shutdown_sel)
qed

definition conn_closed :: "tcp_connection \<Rightarrow> bool" where
  "conn_closed c \<longleftrightarrow> tcp_state c = TCP_CLOSED \<and> \<not> xfer_open c \<and> tx_queue c = [] \<and> rx_queue c = []"

lemma abort_closes:
  fixes w i E rc
  defines "w' \<equiv> tcp_close E i rc (upd_conn i (\<lambda>tcp. tcp_dump_state (tcp\<lparr>tcp_state := TCP_CLOSED\<rparr>)) w)"
  shows "conn_closed (conn w' i)" "conn_closed (conn w k) \<Longrightarrow> conn_closed (conn w' k)"
proof -
  show i: "conn_closed (conn w' i)" using abort_conn(3) by (simp add: w'_def conn_closed_def)
  show "conn_closed (conn w k) \<Longrightarrow> conn_closed (conn w' k)"
  proof (cases "k = i")
    case False
    assume "conn_closed (conn w k)"
    then have "rx_queue (conn w' k) = []"
      using rxq.P_abort [of k 0 w None E i rc, unfolded rxq.P_def] by (simp add: conn_closed_def w'_def)
    with \<open>conn_closed (conn w k)\<close> show ?thesis
      using abort_conn(2) [OF False] by (simp add: conn_closed_def still_def w'_def)
  qed (use i in simp)
qed

text \<open>
  C18.  Shutting down TCP returns, whatever the applications do when they hear of it: no connection is left, and every
  connection that there was is closed, with its interface shut down and both queues empty.
\<close>

theorem tcp_shutdown_closes_all:
  "\<exists>w'. tcp_shutdown E w = Some w' \<and> tcp_conns w' = [] \<and> list_all (\<lambda>i. conn_closed (conn w' i)) (tcp_conns w)"
proof -
  have "\<exists>w'. tcp_shutdown E w = Some w' \<and> tcp_conns w' = [] \<and>
      (\<forall>k. k \<in> set (tcp_conns w) \<or> conn_closed (conn w k) \<longrightarrow> conn_closed (conn w' k))"
  proof (induction "tcp_conns w" arbitrary: w)
    case Nil
    then show ?case by (subst tcp_shutdown.simps) simp
  next
    case (Cons i js)
    let ?w = "tcp_close E i (Some ECANCELED) (upd_conn i (\<lambda>tcp. tcp_dump_state (tcp\<lparr>tcp_state := TCP_CLOSED\<rparr>)) w)"
    have "js = tcp_conns ?w" using abort_conn(1) [where E = E and i = i and w = w] Cons(2) [symmetric] by simp
    from Cons(1) [OF this] abort_closes [where E = E and i = i and w = w] show ?case
      using Cons(2) [symmetric] \<open>js = tcp_conns ?w\<close> [symmetric] by (subst tcp_shutdown.simps) fastforce
  qed
  then show ?thesis by (auto simp: list_all_iff)
qed

end
