(* ===== verification/Tcp_Cache.thy ===== *)
theory Tcp_Cache
  imports Malloc Tcp_Props
begin

text \<open>
  TCP as a cache of the memory allocator: \<open>tcp_discard\<close> is the discarder that
  \<open>alloc_memblock\<close> calls when no block fits.  The laws of \<open>cache_discarders\<close> are proved for
  it, so that allocation returns, and emptying the cache leaves no queued packet behind.
\<close>

section \<open>The heap with the connections of TCP\<close>

record tcp_heap = heap +
  tcpw :: tcp_world

text \<open>
  \<open>release w w'\<close> is what freeing the I/O buffers of the packets that are in \<open>w\<close> and no longer in \<open>w'\<close> does to the heap.
\<close>

definition tcp_discarder :: "(tcp_world \<Rightarrow> tcp_world \<Rightarrow> heap \<Rightarrow> heap) \<Rightarrow> tcp_heap \<Rightarrow> u32 \<times> tcp_heap" where
  "tcp_discarder release h =
     (let (discarded, w') = tcp_discard (tcpw h)
      in (discarded, heap.extend (release (tcpw h) w' (heap.truncate h)) (tcp_heap.fields w')))"

definition queued_packets :: "tcp_world \<Rightarrow> nat" where
  "queued_packets w = (\<Sum>i\<leftarrow>tcp_conns w. length (rx_queue (conn w i)))"

definition conns_ok :: "tcp_world \<Rightarrow> bool" where
  "conns_ok w \<longleftrightarrow> distinct (tcp_conns w) \<and> length (tcp_conns w) < 2 ^ 32"

lemma discarder_world: "tcpw (snd (tcp_discarder release h)) = snd (tcp_discard (tcpw h))"
  by (simp add: tcp_discarder_def case_prod_beta heap.defs tcp_heap.defs)

lemma discard_one_queue: "rx_queue (discard_one c) = butlast (rx_queue c)"
  by (simp add: discard_one_def discard_rx_def Let_def)

text \<open>Each connection with queued packets loses one, and the discarder counts these connections.\<close>

lemma discard_conns_count:
  "distinct is \<Longrightarrow> fst (discard_conns is n w) = n + of_nat (length (filter (\<lambda>i. rx_queue (conn w i) \<noteq> []) is))"
proof (induction "is" arbitrary: n w)
  case (Cons i "is")
  let ?w = "upd_conn i (\<lambda>_. snd (discard_rx (conn w i))) w"
  have "filter (\<lambda>i. rx_queue (conn ?w i) \<noteq> []) is = filter (\<lambda>i. rx_queue (conn w i) \<noteq> []) is"
    using Cons.prems by (intro filter_cong) auto
  with Cons.prems Cons.IH [of "n + fst (discard_rx (conn w i))" ?w] show ?case
    by (simp add: case_prod_beta Let_def) (simp add: discard_rx_def Let_def)
qed simp

lemma discard_counts:
  assumes "conns_ok w"
  shows "unat (fst (tcp_discard w)) = length (filter (\<lambda>i. rx_queue (conn w i) \<noteq> []) (tcp_conns w))"
proof -
  let ?l = "length (filter (\<lambda>i. rx_queue (conn w i) \<noteq> []) (tcp_conns w))"
  have "?l < 2 ^ 32" using assms length_filter_le le_less_trans unfolding conns_ok_def by blast
  moreover have "fst (tcp_discard w) = of_nat ?l"
    using assms discard_conns_count [of "tcp_conns w" 0 w] by (simp add: tcp_discard_def conns_ok_def)
  ultimately show ?thesis by (simp add: unat_of_nat take_bit_nat_eq_self)
qed

lemma count_list_distinct: "distinct xs \<Longrightarrow> x \<in> set xs \<Longrightarrow> count_list xs x = 1"
  by (induction xs) auto

lemma discard_queue:
  "conns_ok w \<Longrightarrow> i \<in> set (tcp_conns w) \<Longrightarrow> rx_queue (conn (snd (tcp_discard w)) i) = butlast (rx_queue (conn w i))"
  by (simp add: tcp_discard_eq conns_ok_def count_list_distinct discard_one_queue)

lemma queued_discard:
  assumes "conns_ok w"
  shows "queued_packets (snd (tcp_discard w)) + unat (fst (tcp_discard w)) = queued_packets w"
proof -
  have "set js \<subseteq> set (tcp_conns w) \<Longrightarrow> (\<Sum>i\<leftarrow>js. length (rx_queue (conn (snd (tcp_discard w)) i))) +
      length (filter (\<lambda>i. rx_queue (conn w i) \<noteq> []) js) = (\<Sum>i\<leftarrow>js. length (rx_queue (conn w i)))" for js
    by (induction js) (auto simp: discard_queue [OF assms] length_greater_0_conv [symmetric] simp del: length_greater_0_conv)
  then show ?thesis by (simp add: queued_packets_def discard_counts [OF assms])
qed

lemma conns_ok_discard: "conns_ok w \<Longrightarrow> conns_ok (snd (tcp_discard w))"
  by (simp add: conns_ok_def)

interpretation tcp_cache: cache_discarders "[tcp_discarder release]" "\<lambda>h. queued_packets (tcpw h)" "\<lambda>h. conns_ok (tcpw h)"
  for release
proof (unfold_locales, goal_cases)
  case (1 d h n h')
  then show ?case using discarder_world [of release h] by (auto simp: conns_ok_discard)
next
  case (2 d h n h')
  then have "n = fst (tcp_discard (tcpw h))" "tcpw h' = snd (tcp_discard (tcpw h))"
    using discarder_world [of release h] by (auto simp: tcp_discarder_def case_prod_beta)
  with 2 queued_discard [OF 2(2)] show ?case using unat_gt_0 [of n] by simp
next
  case (3 d h h')
  then have "tcpw h' = snd (tcp_discard (tcpw h))" using discarder_world [of release h] by auto
  with queued_discard [OF 3(2)] show ?case by simp
qed

text \<open>
  C19.  TCP as a cache of the allocator: emptying the caches and allocating a block with \<open>tcp_discard\<close> as the discarder
  always return, whatever freeing the discarded buffers does to the heap, and once the
  caches have been emptied no connection has a packet left on its receive queue.
\<close>

theorem tcp_cache_emptied:
  assumes "conns_ok (tcpw h)"
  shows "(\<exists>r. alloc_loop voff [tcp_discarder release] sz align_mask off h = Some r) \<and>
    (\<exists>h'. discard_all_cache [tcp_discarder release] h = Some h' \<and> queued_packets (tcpw h') = 0)"
proof -
  obtain h' h'' where h: "discard_all_cache [tcp_discarder release] h = Some h'" "conns_ok (tcpw h'')"
      "discard_cache [tcp_discarder release] h'' = (0, h')"
    using tcp_cache.discard_all_returns [OF assms] by blast
  then have "fst (tcp_discard (tcpw h'')) = 0" "tcpw h' = snd (tcp_discard (tcpw h''))"
    using discarder_world [of release h'']
    by (auto simp: tcp_discarder_def case_prod_beta split: if_splits)
  then have "queued_packets (tcpw h') = 0"
    using discard_counts [OF h(2)] discard_queue [OF h(2)]
    by (auto simp: queued_packets_def filter_empty_conv)
  with h(1) tcp_cache.alloc_loop_returns [OF assms] show ?thesis by blast
qed

end
