(* ===== verification/Tcp_Scenario.thy ===== *)
theory Tcp_Scenario
  imports Tcp_Cache
begin

text \<open>
  A connection followed step by step: the concrete inputs on which the theorems about TCP are applied,
  and the run in which a SYN and a FIN are sent together.  All states are evaluated by rewriting.
\<close>

section \<open>Concrete environment\<close>

definition sample_env :: tcp_env where
  "sample_env = \<lparr>ticks = (\<lambda>_. 50), ticks_per_sec = 18, rand = (\<lambda>_. 1000), mtu = (\<lambda>_. 1500),
     alloc = (\<lambda>_. (0, True)), net_send = (\<lambda>_. (0, None)), app_window = (\<lambda>_. 65536),
     app_deliver = (\<lambda>_. (None, [])), app_window_changed = (\<lambda>_. []), app_close = (\<lambda>_. [])\<rparr>"

definition sample_peer :: sockaddr_tcpip where
  "sample_peer = \<lparr>st_family = 2, st_flags = 0, st_port = 80, st_pad = []\<rparr>"

definition sample_local :: sockaddr_tcpip where
  "sample_local = \<lparr>st_family = 2, st_flags = 0, st_port = 5000, st_pad = []\<rparr>"

definition empty_world :: tcp_world where
  "empty_world = \<lparr>rcount = (\<lambda>_. 0), freed = [], run_queue = [],
     proc_of = (\<lambda>_. \<lparr>proc_refcnt = None, reschedule = False\<rparr>), timers = [],
     timer_of = (\<lambda>t. zero_timer (fst t)), tcp_conns = [], conn = (\<lambda>_. zero_conn),
     pending_total = 0, clock = 0, trace = []\<rparr>"

text \<open>A world with the single connection 7: its count, the run queue, the timers, the retransmission timer, the connection and the rest.\<close>

definition one_conn :: "u32 \<Rightarrow> nat list \<Rightarrow> (nat \<times> tcp_timer) list \<Rightarrow> nat retry_timer \<Rightarrow> tcp_connection \<Rightarrow>
    int \<Rightarrow> nat \<Rightarrow> tcp_event list \<Rightarrow> tcp_world" where
  "one_conn rc rq ts tm c pt clk tr =
     \<lparr>rcount = (\<lambda>_. 0)(7 := rc), freed = [], run_queue = rq,
      proc_of = (\<lambda>_. \<lparr>proc_refcnt = None, reschedule = False\<rparr>)
        (7 := \<lparr>proc_refcnt = Some 7, reschedule = False\<rparr>),
      timers = ts,
      timer_of = (\<lambda>t. zero_timer (fst t))((7, TimeWait) := zero_timer 7, (7, Retransmit) := tm),
      tcp_conns = [7], conn = (\<lambda>_. zero_conn)(7 := c), pending_total = pt, clock = clk, trace = tr\<rparr>"

section \<open>Evaluation rules\<close>

lemma env_sel [simp]:
  "ticks sample_env n = 50" "ticks_per_sec sample_env = 18" "rand sample_env n = 1000"
  "mtu sample_env a = 1500" "alloc sample_env n = (0, True)" "net_send sample_env n = (0, None)"
  "app_window sample_env n = 65536" "app_deliver sample_env n = (None, [])"
  "app_window_changed sample_env n = []" "app_close sample_env n = []"
  by (simp_all add: sample_env_def)

lemma one_conn_sel [simp]:
  "conn (one_conn rc rq ts tm c pt clk tr) 7 = c"
  "timer_of (one_conn rc rq ts tm c pt clk tr) (7, Retransmit) = tm"
  "trace (one_conn rc rq ts tm c pt clk tr) = tr"
  "tcp_conns (one_conn rc rq ts tm c pt clk tr) = [7]"
  "timers (one_conn rc rq ts tm c pt clk tr) = ts"
  "run_queue (one_conn rc rq ts tm c pt clk tr) = rq"
  by (simp_all add: one_conn_def)

lemma one_conn_ops [simp]:
  "ask q (one_conn rc rq ts tm c pt clk tr) = (q clk, one_conn rc rq ts tm c pt (clk + 1) tr)"
  "upd_conn 7 f (one_conn rc rq ts tm c pt clk tr) = one_conn rc rq ts tm (f c) pt clk tr"
  "emit e (one_conn rc rq ts tm c pt clk tr) = one_conn rc rq ts tm c pt clk (e # tr)"
  "ref_increment (Some 7) (one_conn rc rq ts tm c pt clk tr) = one_conn (rc + 1) rq ts tm c pt clk tr"
  "0 \<le> sint (rc - 1) \<Longrightarrow> ref_decrement (Some 7) (one_conn rc rq ts tm c pt clk tr) = one_conn (rc - 1) rq ts tm c pt clk tr"
  "pending_flags_op pending_get 7 (one_conn rc rq ts tm c pt clk tr) =
     one_conn rc rq ts tm (c\<lparr>pending_flags := pending_flags c + 1\<rparr>) (pt + 1) clk tr"
  "pending_data_op pending_get 7 (one_conn rc rq ts tm c pt clk tr) =
     one_conn rc rq ts tm (c\<lparr>pending_data := pending_data c + 1\<rparr>) (pt + 1) clk tr"
  "pending_flags c \<noteq> 0 \<Longrightarrow> pending_flags_op pending_put 7 (one_conn rc rq ts tm c pt clk tr) =
     one_conn rc rq ts tm (c\<lparr>pending_flags := pending_flags c - 1\<rparr>) (pt - 1) clk tr"
  "set_timer (7, Retransmit) x (one_conn rc rq ts tm c pt clk tr) = one_conn rc rq ts x c pt clk tr"
  "(one_conn rc rq ts tm c pt clk tr)\<lparr>timers := ts'\<rparr> = one_conn rc rq ts' tm c pt clk tr"
  "7 \<notin> set rq \<Longrightarrow> process_add 7 (one_conn rc rq ts tm c pt clk tr) = one_conn (rc + 1) (rq @ [7]) ts tm c pt clk tr"
  by (simp_all add: one_conn_def ask_def upd_conn_def emit_def ref_increment_def ref_decrement_def
      pending_flags_op_def pending_data_op_def pending_get_def pending_put_def set_timer_def
      process_add_def process_running_def Let_def)

lemma discards_0 [simp]: "discards_tcp 0 w = w"
  by (simp add: discards_tcp_def)

lemma one_conn_alloc [simp]:
  "alloc_iob sample_env (one_conn rc rq ts tm c pt clk tr) = (True, one_conn rc rq ts tm c pt (clk + 1) tr)"
  "tcp_send sample_env e (one_conn rc rq ts tm c pt clk tr) = (None, one_conn rc rq ts tm c pt (clk + 1) (e # tr))"
  by (simp_all add: alloc_iob_def tcp_send_def Let_def)

lemma one_conn_timer [simp]:
  "timer_refcnt tm = Some 7 \<Longrightarrow> start_timer tps now (7, Retransmit) (one_conn rc rq ts tm c pt clk tr) =
     (if running tm then one_conn rc rq ts (timer_start tps now tm) c pt clk tr
      else one_conn (rc + 1) rq ((7, Retransmit) # ts) (timer_start tps now tm) c pt clk tr)"
  "timer_refcnt tm = Some 7 \<Longrightarrow> running tm \<Longrightarrow> 0 \<le> sint (rc - 1) \<Longrightarrow>
     stop_timer now (7, Retransmit) (one_conn rc rq ts tm c pt clk tr) =
     one_conn (rc - 1) rq (remove1 (7, Retransmit) ts) (timer_smooth now tm) c pt clk tr"
  by (simp_all add: start_timer_def stop_timer_def Let_def)

section \<open>Opening\<close>

definition timer1 :: "nat retry_timer" where
  "timer1 = \<lparr>running = True, timeout = 0, min_timeout = 7, max_timeout = 0, start = 50, count = 0, timer_refcnt = Some 7\<rparr>"

definition conn1 :: tcp_connection where
  "conn1 = zero_conn\<lparr>xfer_open := True, plugged := True, peer := sample_peer, local_port := 5000, mss := 1480,
     tcp_state := 2, prev_tcp_state := 2, snd_seq := 1000, max_rcv_win := 262144, pending_flags := 1\<rparr>"

definition world1 :: tcp_world where
  "world1 = one_conn 2 [] [(7, Retransmit)] timer1 conn1 1 4 []"

lemma open_world1: "tcp_open sample_env 7 sample_peer (Some sample_local) empty_world = (None, world1)"
  by (simp add: world1_def one_conn_def conn1_def timer1_def empty_world_def sample_peer_def sample_local_def
      zero_timer_def zero_conn_def zero_sockaddr_def alloc_iob_def ask_def upd_conn_def
      start_tcp_timer_fixed_def start_timer_fixed_def start_timer_def set_timer_def timer_start_def
      DEFAULT_MIN_TIMEOUT_def MIN_TIMEOUT_def ref_increment_def pending_flags_op_def pending_get_def
      tcp_dump_state_def Let_def tcp_open_def tcp_init_conn_def tcpip_bind_def tcp_port_available_def
      tcp_demux_def tcp_consts TCP_MAX_WINDOW_SIZE_def)

section \<open>The SYN\<close>

definition timer2 :: "nat retry_timer" where
  "timer2 = \<lparr>running = True, timeout = 7, min_timeout = 7, max_timeout = 360, start = 50, count = 1, timer_refcnt = Some 7\<rparr>"

definition conn2 :: tcp_connection where
  "conn2 = conn1\<lparr>snd_sent := 1, rcv_win := 65532\<rparr>"

lemma expand_sample: "rcv_win_scale c = 0 \<Longrightarrow> max_rcv_win c = 262144 \<Longrightarrow> rcv_win c < 65532 \<Longrightarrow>
    expand_rcv_win 65536 c = c\<lparr>rcv_win := 65532\<rparr>"
  by (simp add: expand_rcv_win_def Let_def)

definition world2 :: tcp_world where
  "world2 = one_conn 2 [] [(7, Retransmit)] timer2 conn2 1 9
     [TxSegment 7 sample_peer (tcp_segment conn2 (TCP_FLAGS_SENDING 2) 50 [])]"

lemma poll_world2: "retry_poll (tcp_timer_expired sample_env) 18 50 world1 = world2"
proof -
  have b: "timer_backoff 18 timer1 = (False, timer2\<lparr>running := False, timeout := 0\<rparr>)"
    by (simp add: timer_backoff_def timer1_def timer2_def DEFAULT_MAX_TIMEOUT_def Let_def)
  have s: "timer_start 18 50 (timer2\<lparr>running := False, timeout := 0\<rparr>) = timer2"
    by (simp add: timer_start_def timer2_def MIN_TIMEOUT_def Let_def)
  have l: "xmit_len conn1 = 1" "xmit_data conn1 = []"
    by (simp_all add: xmit_len_def xmit_data_def can_send_data sending_none conn1_def)
  have c: "tcp_state conn1 = 2" "xfer_open conn1" "peer conn1 = sample_peer" "rcv_win_scale conn1 = 0"
    "max_rcv_win conn1 = 262144" "rcv_win conn1 = 0" "tflags conn1 = 0"
    by (simp_all add: conn1_def zero_conn_def)
  have t: "timer_refcnt timer2 = Some 7" "conn1\<lparr>snd_sent := 1, rcv_win := 65532\<rparr> = conn2" "tflags conn2 = 0"
    "conn2\<lparr>tflags := 0\<rparr> = conn2" "peer conn2 = sample_peer"
    by (simp_all add: timer2_def conn1_def conn2_def zero_conn_def)
  have x: "tcp_xmit sample_env 7 (one_conn 2 [] [] (timer2\<lparr>running := False, timeout := 0\<rparr>) conn1 1 4 []) =
      one_conn 3 [] [(7, Retransmit)] timer2 conn2 1 9 [TxSegment 7 sample_peer (tcp_segment conn2 (TCP_FLAGS_SENDING 2) 50 [])]"
    by (simp add: tcp_xmit_eq timer_running_def start_tcp_timer_def xmit_segment_def xfer_window_def Let_def
        s l c expand_sample t)
  show ?thesis
    unfolding world1_def world2_def
    by (simp add: retry_poll_def timer_due_def timer_expired_def tcp_expired_def b x Let_def)
      (simp add: timer1_def)
qed

section \<open>A SYN with data and an acknowledgement\<close>

definition syn_ack :: bytes where
  "syn_ack = [0, 80, 19, 136, 0, 0, 19, 136, 0, 0, 3, 233, 80, 18, 3, 232, 0, 0, 0, 0, 72, 105]"

definition no_options :: tcp_options where
  "no_options = \<lparr>mssopt = None, wsopt = None, tsopt = None\<rparr>"

lemma no_opts: "tcp_rx_opts mem 20 0 = Some no_options"
  by (simp add: tcp_rx_opts_def opts_step no_options_def)

lemma syn_ack_mem:
  fixes beyond
  defines "mem \<equiv> packet_mem syn_ack beyond"
  shows "rd16 mem 0 = 80" "rd16 mem 2 = 5000" "rd32 mem 4 = 5000" "rd32 mem 8 = 1001" "mem 13 = 18"
    "rd16 mem 14 = 1000" "tcp_hlen mem = 20"
  by (simp_all add: mem_def packet_mem_def syn_ack_def rd16_def rd32_def tcp_hlen_def TCP_MASK_HLEN_def)

lemma syn_ack_csum: "generic_tcpip_continue_chksum 44231 syn_ack = 0"
  by (simp add: word_unat_eq_iff continue_chksum_value syn_ack_def fold16_def)

definition conn3a :: tcp_connection where
  "conn3a = conn2\<lparr>snd_win := 1000, pending_flags := 0, snd_seq := 1001, snd_sent := 0, tcp_state := 0x202\<rparr>"

definition timer3 :: "nat retry_timer" where
  "timer3 = timer2\<lparr>running := False, count := 0\<rparr>"

lemma process_tx_empty:
  "tx_queue c = [] \<Longrightarrow> tcp_process_tx_queue 7 m r (one_conn rc rq ts tm c pt clk tr) =
     ([], 0, one_conn rc rq ts tm (c\<lparr>tx_queue := []\<rparr>) pt clk tr)"
  by (simp add: tcp_process_tx_queue_def)

lemma conn2_sel:
  "snd_seq conn2 = 1000" "snd_sent conn2 = 1" "tcp_state conn2 = 2" "pending_flags conn2 = 1"
  "tx_queue conn2 = []" "tflags conn2 = 0" "snd_win_scale conn2 = 0" "rx_queue conn2 = []"
  by (simp_all add: conn2_def conn1_def zero_conn_def)

lemma ack_world2:
  "tcp_rx_ack sample_env 7 1001 1000 (one_conn 2 [] [(7, Retransmit)] timer2 conn2 1 9 tr) =
     (None, one_conn 1 [] [] timer3 conn3a 0 10 tr)"
proof -
  have sm: "timer_smooth 50 timer2 = timer3"
    by (simp add: timer_smooth_def timer2_def timer3_def)
  have fl: "TCP_FLAGS_SENDING 2 AND (TCP_SYN OR TCP_FIN) = 2"
    unfolding sending_syn_fin by (simp add: tcp_consts)
  have st: "2 OR TCP_STATE_ACKED 2 = 0x202" by (simp add: tcp_consts push_bit_eq_mult)
  have t: "timer_refcnt timer2 = Some 7" "running timer2" by (simp_all add: timer2_def)
  have e: "conn2\<lparr>snd_win := 1000, pending_flags := 0, snd_seq := 1001, snd_sent := 0, tx_queue := [], tcp_state := 0x202\<rparr> = conn3a"
    by (simp add: conn3a_def conn2_def conn1_def zero_conn_def)
  show ?thesis
    by (simp add: tcp_rx_ack_def Let_def conn2_sel stop_tcp_timer_def process_tx_empty fl st sm t e)
qed

definition conn3 :: tcp_connection where
  "conn3 = conn2\<lparr>snd_win := 1000, pending_flags := 0, snd_seq := 1001, snd_sent := 0, tcp_state := 0x20212,
     prev_tcp_state := 0x20212, rcv_ack := 5003, rcv_win := 65529, tflags := 4\<rparr>"

definition world3 :: tcp_world where
  "world3 = one_conn 2 [7] [] timer3 conn3 0 12
     [WindowChanged 7, Delivered 7 [72, 105], TxSegment 7 sample_peer (tcp_segment conn2 (TCP_FLAGS_SENDING 2) 50 [])]"

definition queued :: tcp_rx_queued where
  "queued = \<lparr>q_seq = 5001, q_flags = 0, q_data = [72, 105]\<rparr>"

lemma rx_world3: "tcp_rx sample_env beyond syn_ack sample_peer 44231 world2 = Some (None, world3)"
proof -
  have syn: "tcp_rx_enqueue 5001 18 [72, 105] (tcp_rx_syn mem 5000 no_options conn3a) =
      conn3\<lparr>rcv_ack := 5001, rcv_win := 65531, prev_tcp_state := 2, rx_queue := [queued]\<rparr>" for mem
    by (simp add: tcp_rx_enqueue_def tcp_rx_syn_def tcp_rx_seq_def conn3a_def conn3_def conn2_def conn1_def
        zero_conn_def no_options_def queued_def tcp_cmp_def tcp_consts push_bit_eq_mult Let_def)
  have it: "rx_iteration sample_env 7 queued [] (one_conn 1 [] [] timer3
        (conn3\<lparr>rcv_ack := 5001, rcv_win := 65531, prev_tcp_state := 2, rx_queue := [queued]\<rparr>) 0 10 tr) =
      one_conn 1 [] [] timer3 (conn3\<lparr>prev_tcp_state := 2\<rparr>) 0 11 (Delivered 7 [72, 105] # tr)" for tr
    by (simp add: rx_iteration_def tcp_rx_data_def tcp_rx_seq_def xfer_deliver_iob_def queued_def Let_def)
      (simp add: conn3_def conn2_def conn1_def zero_conn_def tcp_consts)
  have q: "tcp_process_rx_queue sample_env 7 (one_conn 1 [] [] timer3
        (conn3\<lparr>rcv_ack := 5001, rcv_win := 65531, prev_tcp_state := 2, rx_queue := [queued]\<rparr>) 0 10 tr) =
      Some (one_conn 1 [] [] timer3 (conn3\<lparr>prev_tcp_state := 2\<rparr>) 0 11 (Delivered 7 [72, 105] # tr))" for tr
    by (subst tcp_process_rx_queue.simps, simp add: it, subst tcp_process_rx_queue.simps)
      (simp add: conn3_def conn2_def conn1_def zero_conn_def queued_def tcp_cmp_def)
  have fin: "tcp_rx_finish sample_env 7 0 (one_conn 1 [] [] timer3 (conn3\<lparr>prev_tcp_state := 2\<rparr>) 0 11 tr) =
      one_conn 2 [7] [] timer3 conn3 0 12 (WindowChanged 7 # tr)" for tr
    by (simp add: tcp_rx_finish_def tcp_dump_state_def xfer_window_changed_def Let_def conn3_def conn2_def conn1_def
        zero_conn_def tcp_xfer_window_def tcp_xmit_win_def TCP_CAN_SEND_DATA_def TCP_CLOSED_GRACEFULLY_def TCP_PATH_MTU_def tcp_consts push_bit_eq_mult)
  have old: "tcp_xfer_window conn2 = 0"
    by (simp add: tcp_xfer_window_def tcp_xmit_win_def conn2_def conn1_def zero_conn_def TCP_CAN_SEND_DATA_def
        tcp_consts push_bit_eq_mult)
  have dm: "tcp_demux 5000 world2 = Some 7"
    by (simp add: tcp_demux_def world2_def conn2_def conn1_def)
  have len: "length syn_ack = 22" "drop 20 syn_ack = [72, 105]" by (simp_all add: syn_ack_def)
  have no_opt_ts: "tsopt no_options = None" by (simp add: no_options_def)
  have c3: "tcp_state conn3a = 0x202" by (simp add: conn3a_def)
  show ?thesis
    unfolding tcp_rx_def Let_def syn_ack_mem syn_ack_csum
    by (simp add: no_opts dm len no_opt_ts tcp_rx_packet_def)
       (simp add: world2_def world3_def Let_def syn_ack_mem old conn2_sel ack_world2 c3 tcp_consts push_bit_eq_mult
          syn q fin)
qed

section \<open>The application sends\<close>

definition timer4 :: "nat retry_timer" where
  "timer4 = timer3\<lparr>running := True\<rparr>"

definition conn4 :: tcp_connection where
  "conn4 = conn3\<lparr>tx_queue := [[1, 2, 3]], pending_data := 1, snd_sent := 3, rcv_win := 65532\<rparr>"

definition segment4 :: bytes where
  "segment4 = tcp_segment conn4 (TCP_FLAGS_SENDING 0x20212) 50 [1, 2, 3]"

definition world4 :: tcp_world where
  "world4 = one_conn 3 [7] [(7, Retransmit)] timer4 (conn4\<lparr>tflags := 0\<rparr>) 1 17
     (TxSegment 7 sample_peer segment4 # Accepted 7 [1, 2, 3] # trace world3)"

lemma send_world4: "app_do sample_env 7 (AppSend [1, 2, 3]) world3 = world4"
proof -
  let ?c = "conn3\<lparr>tx_queue := [[1, 2, 3]], pending_data := 1\<rparr>"
  have l: "xmit_data ?c = [1, 2, 3]" "xmit_len ?c = 3"
    by (simp_all add: xmit_len_def xmit_data_def can_send_data sending_none tcp_xmit_win_def TCP_PATH_MTU_def conn3_def)
  have t: "timer_start 18 50 timer3 = timer4" "timer_refcnt timer3 = Some 7" "\<not> running timer3"
    by (simp_all add: timer_start_def timer4_def timer3_def timer2_def MIN_TIMEOUT_def Let_def)
  have c: "plugged conn3" "xfer_open conn3" "tx_queue conn3 = []" "pending_data conn3 = 0" "tcp_state conn3 = 0x20212"
    "rcv_win_scale conn3 = 0" "max_rcv_win conn3 = 262144" "rcv_win conn3 = 65529" "tflags conn3 = 4" "peer conn3 = sample_peer"
    by (simp_all add: conn3_def conn2_def conn1_def zero_conn_def)
  have e: "expand_rcv_win 65536 (?c\<lparr>snd_sent := 3\<rparr>) = conn4" "tflags conn4 = 4" "peer conn4 = sample_peer"
    by (simp_all add: c expand_sample conn4_def)
  show ?thesis
    unfolding world3_def world4_def
    by (simp add: c tcp_xfer_deliver_def tcp_xmit_eq timer_running_def start_tcp_timer_def xmit_segment_def
        xfer_window_def Let_def t l e segment4_def tcp_consts)
qed

lemma steps_to_world4:
  "tcp_step sample_env (Poll 50) world1 world2"
  "tcp_step sample_env (Receive (\<lambda>_. 0) syn_ack) world2 world3"
  "tcp_step sample_env (App 7 (AppSend [1, 2, 3])) world3 world4"
  using tcp_step.poll [of sample_env 50 world1] tcp_step.app [of sample_env 7 "AppSend [1, 2, 3]" world3, unfolded send_world4]
  by (simp_all add: poll_world2 tcp_step.receive [OF rx_world3])

lemma run_three:
  "tcp_step E l1 w1 w2 \<Longrightarrow> ok w1 l1 \<Longrightarrow> tcp_step E l2 w2 w3 \<Longrightarrow> ok w2 l2 \<Longrightarrow>
     tcp_step E l3 w3 w4 \<Longrightarrow> ok w3 l3 \<Longrightarrow> tcp_run E ok w1 w3 \<and> tcp_run E ok w1 w4"
  by (meson tcp_run.intros)

theorem tcp_transmits_stream_witness:
  "seg_payload segment4 = [1, 2, 3] \<and> TxSegment 7 sample_peer segment4 \<in> set (trace world4) \<and>
   accepted (events 7 world4) = [1, 2, 3] \<and>
   (\<exists>n. seg_seq segment4 = 1000 + 1 + of_nat n \<and> n + 3 \<le> length [1 :: u8, 2, 3])"
proof -
  have run: "tcp_run sample_env (\<lambda>w l. l \<noteq> Open 7) world1 world4"
    using run_three [OF steps_to_world4(1) _ steps_to_world4(2) _ steps_to_world4(3)] by simp
  have ev: "events 7 empty_world = []" "snd_seq (conn world1 7) = 1000"
    by (simp_all add: events_def empty_world_def world1_def conn1_def)
  have p: "seg_payload segment4 = [1, 2, 3]" "TxSegment 7 sample_peer segment4 \<in> set (trace world4)"
    "accepted (events 7 world4) = [1, 2, 3]"
    using seg_fields(7) [OF tcp_segment_eq]
    by (simp_all add: segment4_def world4_def world3_def events_def)
  show ?thesis
    using tcp_transmits_stream [OF open_world1 ev(1) run refl refl refl] p ev(2) by fastforce
qed

definition sample_stream :: "nat \<Rightarrow> u8" where
  "sample_stream n = (if n = 0 then 72 else 105)"

theorem tcp_delivers_stream_witness:
  "delivered (events 7 world3) = [72, 105] \<and> 
   delivered (events 7 world3) = map sample_stream [0 ..< length (delivered (events 7 world3))] \<and> rcv_ack (conn world3 7) = 5000 + 1 + 2"
proof -
  have dm: "tcp_demux 5000 world2 = Some 7"
    by (simp add: tcp_demux_def world2_def conn2_def conn1_def)
  have "peer_seg 5000 sample_stream 2 5000 18 [72, 105]"
    by (simp add: peer_seg_def part_of_def bytes_at_def sample_stream_def upt_rec)
  then have ok: "from_peer 7 5000 sample_stream 2 world2 (Receive (\<lambda>_. 0) syn_ack)"
    by (simp add: from_peer_def syn_ack_mem dm) (simp add: syn_ack_def)
  have other: "from_peer 7 5000 sample_stream 2 w (Poll 50)" "from_peer 7 5000 sample_stream 2 w (App 7 a)" for w a
    by (simp_all add: from_peer_def)
  from ok have "tcp_run sample_env (from_peer 7 5000 sample_stream 2) world1 world3"
    using run_three [OF steps_to_world4(1) _ steps_to_world4(2) _ steps_to_world4(3)] other by blast
  moreover have "delivered (events 7 world3) = [72, 105]"  "xfer_open (conn world3 7)" "tcp_state (conn world3 7) = 0x20212"
    by (simp_all add: events_def world3_def conn3_def conn2_def conn1_def)
  moreover have "events 7 empty_world = []" by (simp add: events_def empty_world_def)
  ultimately show ?thesis
    using tcp_delivers_stream [OF open_world1 _ _ _ refl refl, of 5000 sample_stream 2 world3]
    by (simp add: tcp_consts push_bit_eq_mult)
qed

theorem tcp_state_machine_witness:
  "tcp_state (conn world3 7) \<in> set (named_states @ unnamed_states) \<or>
   tcp_state (conn world3 7) AND TCP_CLOSED \<noteq> 0 \<and> \<not> xfer_open (conn world3 7)"
proof -
  have "tcp_run sample_env (\<lambda>w l. l \<noteq> Open 7) world1 world3"
    using run_three [OF steps_to_world4(1) _ steps_to_world4(2) _ steps_to_world4(3)] by simp
  from tcp_state_machine [OF open_world1 this refl] show ?thesis .
qed

theorem tcp_window_bounded_witness:
  "rcv_win (conn world3 7) = 65529 \<and> unat (seg_win (tcp_segment (conn world3 7) TCP_ACK 50 [])) = 65529"
proof -
  have "tcp_run sample_env (\<lambda>w l. l \<noteq> Open 7) world1 world3"
    using run_three [OF steps_to_world4(1) _ steps_to_world4(2) _ steps_to_world4(3)] by simp
  from tcp_window_bounded [OF open_world1 this refl, of TCP_ACK 50 "[]"] show ?thesis
    by (simp add: world3_def conn3_def conn2_def conn1_def zero_conn_def)
qed

definition heap_with_packet :: tcp_heap where
  "heap_with_packet = \<lparr>free_blocks = [], freemem = 0, hmem = (\<lambda>_. 0),
     tcpw = one_conn 2 [] [] timer1 (conn1\<lparr>rx_queue := [queued]\<rparr>) 1 4 []\<rparr>"

theorem tcp_cache_emptied_witness:
  "queued_packets (tcpw heap_with_packet) = 1 \<and>
   (\<exists>h'. discard_all_cache [tcp_discarder (\<lambda>_ _ h. h)] heap_with_packet = Some h' \<and> queued_packets (tcpw h') = 0)"
proof -
  have "conns_ok (tcpw heap_with_packet)" by (simp add: heap_with_packet_def conns_ok_def)
  from tcp_cache_emptied [OF this, of 0 "\<lambda>_ _ h. h" 0 0 0] show ?thesis
    by (simp add: heap_with_packet_def queued_packets_def)
qed

section \<open>A SYN and a FIN together\<close>

text \<open>The SYN of the peer arrives before the SYN of the connection has been sent, and the application closes.\<close>

definition syn_packet :: bytes where
  "syn_packet = [0, 80, 19, 136, 0, 0, 19, 136, 0, 0, 0, 0, 80, 2, 3, 232, 0, 0, 0, 0]"

lemma syn_packet_mem:
  fixes beyond
  defines "mem \<equiv> packet_mem syn_packet beyond"
  shows "rd16 mem 0 = 80" "rd16 mem 2 = 5000" "rd32 mem 4 = 5000" "mem 13 = 2"
    "rd16 mem 14 = 1000" "tcp_hlen mem = 20" "length syn_packet = 20" "drop 20 syn_packet = []"
  by (simp_all add: mem_def packet_mem_def syn_packet_def rd16_def rd32_def tcp_hlen_def TCP_MASK_HLEN_def)

lemma syn_packet_csum: "generic_tcpip_continue_chksum 19067 syn_packet = 0"
  by (simp add: word_unat_eq_iff continue_chksum_value syn_packet_def fold16_def)

definition conn_s :: tcp_connection where
  "conn_s = conn1\<lparr>tcp_state := 0x20012, prev_tcp_state := 0x20012, rcv_ack := 5001, tflags := 4\<rparr>"

definition world_s :: tcp_world where
  "world_s = one_conn 3 [7] [(7, Retransmit)] timer1 conn_s 1 4 []"

lemma rx_world_s: "tcp_rx sample_env beyond syn_packet sample_peer 19067 world1 = Some (None, world_s)"
proof -
  have dm: "tcp_demux 5000 world1 = Some 7"
    by (simp add: tcp_demux_def world1_def conn1_def)
  have ts: "tsopt no_options = None" by (simp add: no_options_def)
  have syn: "tcp_rx_enqueue 5001 2 [] (tcp_rx_syn mem 5000 no_options conn1) = conn_s\<lparr>prev_tcp_state := 2\<rparr>" for mem
    by (simp add: tcp_rx_enqueue_def tcp_rx_syn_def tcp_rx_seq_def conn_s_def conn1_def
        zero_conn_def no_options_def tcp_cmp_def tcp_consts push_bit_eq_mult Let_def)
  have q: "tcp_process_rx_queue sample_env 7 (one_conn 2 [] ts timer1 (conn_s\<lparr>prev_tcp_state := 2\<rparr>) 1 4 tr) =
      Some (one_conn 2 [] ts timer1 (conn_s\<lparr>prev_tcp_state := 2\<rparr>) 1 4 tr)" for ts tr
    by (subst tcp_process_rx_queue.simps) (simp add: conn_s_def conn1_def zero_conn_def)
  have fin: "tcp_rx_finish sample_env 7 0 (one_conn 2 [] ts timer1 (conn_s\<lparr>prev_tcp_state := 2\<rparr>) 1 4 tr) =
      one_conn 3 [7] ts timer1 conn_s 1 4 tr" for ts tr
    by (simp add: tcp_rx_finish_def tcp_dump_state_def Let_def conn_s_def conn1_def
        zero_conn_def tcp_xfer_window_def tcp_xmit_win_def TCP_CAN_SEND_DATA_def TCP_CLOSED_GRACEFULLY_def tcp_consts push_bit_eq_mult)
  have c: "tcp_xfer_window conn1 = 0" "tcp_state conn1 = 2" "snd_win_scale conn1 = 0"
    by (simp_all add: tcp_xfer_window_def tcp_xmit_win_def conn1_def zero_conn_def TCP_CAN_SEND_DATA_def
        tcp_consts push_bit_eq_mult)
  show ?thesis
    unfolding tcp_rx_def Let_def syn_packet_mem syn_packet_csum
    by (simp add: no_opts dm ts tcp_rx_packet_def)
       (simp add: world1_def world_s_def Let_def syn_packet_mem c tcp_consts push_bit_eq_mult syn q fin)
qed

definition conn_c :: tcp_connection where
  "conn_c = conn_s\<lparr>xfer_open := False, tflags := 5, tcp_state := 0x20013, prev_tcp_state := 0x20013, pending_flags := 2\<rparr>"

definition world_c :: tcp_world where
  "world_c = one_conn 3 [7] [(7, Retransmit)] timer1 conn_c 2 5 [Closed 7 None]"

lemma close_world_c: "app_do sample_env 7 (AppClose None) world_s = world_c"
proof -
  have c: "plugged conn_s" "xfer_open conn_s" "tcp_state conn_s = 0x20012" "snd_seq conn_s = 1000" "snd_sent conn_s = 0"
    "tx_queue conn_s = []" "tflags conn_s = 4" "pending_flags conn_s = 1" "running timer1"
    by (simp_all add: conn_s_def conn1_def zero_conn_def timer1_def)
  have e: "tcp_dump_state (conn_s\<lparr>xfer_open := False, tflags := 5, tcp_state := 0x20013\<rparr>)\<lparr>pending_flags := 2\<rparr> = conn_c"
    by (simp add: conn_c_def tcp_dump_state_def)
  have p: "pending_flags (tcp_dump_state (conn_s\<lparr>xfer_open := False, tflags := 5, tcp_state := 0x20013\<rparr>)) = 1"
    by (simp add: tcp_dump_state_def c)
  have x: "tcp_close sample_env 7 None (one_conn 4 [7] [(7, Retransmit)] timer1 conn_s 1 4 []) =
      one_conn 4 [7] [(7, Retransmit)] timer1 conn_c 2 5 [Closed 7 None]"
    by (simp add: tcp_close_def xfer_shutdown_def tcp_rx_ack_def Let_def c p e tcp_consts push_bit_eq_mult
        TCP_HAS_BEEN_ESTABLISHED_def)
  show ?thesis
    unfolding world_s_def world_c_def
    by (simp add: c tcp_xfer_close_def x tcp_xmit_eq timer_running_def)
qed

definition conn_x :: tcp_connection where
  "conn_x = conn_c\<lparr>snd_sent := 1, rcv_win := 65532\<rparr>"

definition segment_x :: bytes where
  "segment_x = tcp_segment conn_x (TCP_FLAGS_SENDING 0x20013) 50 []"

definition world_x :: tcp_world where
  "world_x = one_conn 3 [7] [(7, Retransmit)] timer2 (conn_x\<lparr>tflags := 1\<rparr>) 2 9
     [TxSegment 7 sample_peer segment_x, Closed 7 None]"

lemma poll_world_x: "retry_poll (tcp_timer_expired sample_env) 18 50 world_c = world_x"
proof -
  have b: "timer_backoff 18 timer1 = (False, timer2\<lparr>running := False, timeout := 0\<rparr>)"
    by (simp add: timer_backoff_def timer1_def timer2_def DEFAULT_MAX_TIMEOUT_def Let_def)
  have s: "timer_start 18 50 (timer2\<lparr>running := False, timeout := 0\<rparr>) = timer2"
    by (simp add: timer_start_def timer2_def MIN_TIMEOUT_def Let_def)
  have l: "xmit_len conn_c = 1" "xmit_data conn_c = []"
    by (simp_all add: xmit_len_def xmit_data_def can_send_data sending_none conn_c_def)
  have c: "tcp_state conn_c = 0x20013" "\<not> xfer_open conn_c" "peer conn_c = sample_peer" "rcv_win_scale conn_c = 0"
    "max_rcv_win conn_c = 262144" "rcv_win conn_c = 0" "tflags conn_c = 5"
    by (simp_all add: conn_c_def conn_s_def conn1_def zero_conn_def)
  have t: "timer_refcnt timer2 = Some 7" "tflags conn_x = 5" "peer conn_x = sample_peer"
    "expand_rcv_win (- 1) (conn_c\<lparr>snd_sent := 1\<rparr>) = conn_x"
    by (simp_all add: timer2_def conn_x_def c expand_rcv_win_def Let_def)
  have x: "tcp_xmit sample_env 7 (one_conn 3 [7] [] (timer2\<lparr>running := False, timeout := 0\<rparr>) conn_c 2 5 tr) =
      one_conn 4 [7] [(7, Retransmit)] timer2 (conn_x\<lparr>tflags := 1\<rparr>) 2 9 (TxSegment 7 sample_peer segment_x # tr)" for tr
    by (simp add: tcp_xmit_eq timer_running_def start_tcp_timer_def xmit_segment_def xfer_window_def Let_def
        s l c t segment_x_def tcp_consts)
  show ?thesis
    unfolding world_c_def world_x_def
    by (simp add: retry_poll_def timer_due_def timer_expired_def tcp_expired_def b x c Let_def)
      (simp add: timer1_def tcp_consts push_bit_eq_mult)
qed

text \<open>
  A SYN and a FIN in one segment: there is a run, from a world without connections, in which a segment
  with both flags is transmitted.  The peer's SYN arrives before the SYN of the connection
  has been sent, and the application then closes: \<open>tcp_close\<close> fails to mark the SYN as acknowledged,
  because nothing has been sent, and still queues the FIN.
\<close>

lemma syn_and_fin_together:
  "\<exists>w seg. tcp_run sample_env (\<lambda>_ _. True) empty_world w \<and> TxSegment 7 sample_peer seg \<in> set (trace w) \<and>
     bit (seg_flags seg) 1 \<and> bit (seg_flags seg) 0"
proof -
  have "tcp_step sample_env (Open 7) empty_world world1"
    by (rule tcp_step.open_conn [OF _ open_world1]) (simp add: unused_def empty_world_def zero_conn_def)
  then have "tcp_run sample_env (\<lambda>_ _. True) empty_world world_s"
    using tcp_step.receive [OF rx_world_s [of "\<lambda>_. 0"]] by (blast intro: tcp_run.intros)
  moreover have "tcp_step sample_env (App 7 (AppClose None)) world_s world_c"
    using tcp_step.app [of sample_env 7 "AppClose None" world_s, unfolded close_world_c] .
  moreover have "tcp_step sample_env (Poll 50) world_c world_x"
    using tcp_step.poll [of sample_env 50 world_c] by (simp add: poll_world_x)
  ultimately have "tcp_run sample_env (\<lambda>_ _. True) empty_world world_x"
    using tcp_run.more [of sample_env "\<lambda>_ _. True"] by blast
  moreover have "TCP_FLAGS_SENDING 0x20013 = 0x13" by (simp add: tcp_consts)
  then have "seg_flags segment_x = 0x13"
    using seg_fields(3) [OF tcp_segment_eq] by (simp add: segment_x_def)
  ultimately show ?thesis
    by (intro exI [of _ world_x] exI [of _ segment_x]) (simp add: world_x_def)
qed

end
