(* ===== verification/Digest.thy ===== *)
theory Digest
  imports Prelude
begin

text \<open>
  The digest algorithms of \<open>crypto/md5.c\<close>, \<open>crypto/sha1.c\<close> and \<open>crypto/sha256.c\<close> with the interface
  \<open>struct digest_algorithm\<close> of \<open>include/ipxe/crypto.h\<close>, and the keyed hash of \<open>crypto/hmac.c\<close>.

  The three contexts have the same shape: the amount of data so far, a 32-bit \<open>size_t\<close>, the digest words as they lie in memory and the
  data block of 64 bytes.  The union of the digest and data block with an array of 32-bit words is kept as the list of digest
  words and the list of bytes; the data block is read as words with \<open>dwords\<close> and written back with \<open>undwords\<close>, in
  the byte order of the i386.  The working variables \<open>w\<close> are a list that holds the elements written so far.  The assertions on the
  layout and the debug output are left out.
\<close>

unbundle bit_operations_syntax

section \<open>Words and bytes\<close>

definition rol32 :: "u32 \<Rightarrow> nat \<Rightarrow> u32" where
  "rol32 data rotation = push_bit rotation data OR drop_bit (32 - rotation) data"

definition ror32 :: "u32 \<Rightarrow> nat \<Rightarrow> u32" where
  "ror32 data rotation = drop_bit rotation data OR push_bit (32 - rotation) data"

fun dwords :: "bytes \<Rightarrow> u32 list" where
  "dwords (a # b # c # d # bs) =
     (ucast a OR push_bit 8 (ucast b) OR push_bit 16 (ucast c) OR push_bit 24 (ucast d)) # dwords bs"
| "dwords _ = []"

definition dword_bytes :: "u32 \<Rightarrow> bytes" where
  "dword_bytes w = [ucast w, ucast (drop_bit 8 w), ucast (drop_bit 16 w), ucast (drop_bit 24 w)]"

definition undwords :: "u32 list \<Rightarrow> bytes" where
  "undwords ws = concat (map dword_bytes ws)"

definition be32_to_cpu :: "u32 \<Rightarrow> u32" where
  "be32_to_cpu w = push_bit 24 w OR push_bit 8 (w AND 0xff00) OR drop_bit 8 (w AND 0xff0000) OR drop_bit 24 w"

definition cpu_to_be32 :: "u32 \<Rightarrow> u32" where
  "cpu_to_be32 w = be32_to_cpu w"

definition le32_to_cpu :: "u32 \<Rightarrow> u32" where
  "le32_to_cpu w = w"

definition cpu_to_le32 :: "u32 \<Rightarrow> u32" where
  "cpu_to_le32 w = w"

text \<open>The bytes in memory of the variables \<open>cpu_to_le64 ( x )\<close> and \<open>cpu_to_be64 ( x )\<close>.\<close>

definition le64_bytes :: "u64 \<Rightarrow> bytes" where
  "le64_bytes x = map (\<lambda>i. ucast (drop_bit (8 * i) x)) [0..<8]"

definition be64_bytes :: "u64 \<Rightarrow> bytes" where
  "be64_bytes x = map (\<lambda>i. ucast (drop_bit (56 - 8 * i) x)) [0..<8]"

section \<open>Contexts\<close>

record digest_data =
  ddd_h :: "u32 list"
  ddd_data :: bytes

record digest_context =
  ctx_len :: u32
  ctx_ddd :: digest_data

record 'c digest_algorithm =
  blocksize :: nat
  digestsize :: nat
  init :: "'c \<Rightarrow> 'c"
  update :: "'c \<Rightarrow> bytes \<Rightarrow> 'c"
  final :: "'c \<Rightarrow> bytes \<times> 'c"

text \<open>
  The functions \<open>md5_update\<close>, \<open>sha1_update\<close> and \<open>sha256_update\<close> differ only in the function \<open>dg\<close> that digests a full block.
  The functions that finalise differ in this function and in the byte order of the length.
\<close>

definition update_byte :: "(digest_data \<Rightarrow> digest_data) \<Rightarrow> digest_context \<Rightarrow> u8 \<Rightarrow> digest_context" where
  "update_byte dg ctx byte =
     (let offset = ctx_len ctx mod 64;
          ddd = (ctx_ddd ctx)\<lparr>ddd_data := (ddd_data (ctx_ddd ctx))[unat offset := byte]\<rparr>;
          len = ctx_len ctx + 1
      in \<lparr>ctx_len = len, ctx_ddd = (if len mod 64 = 0 then dg ddd else ddd)\<rparr>)"

definition update_bytes :: "(digest_data \<Rightarrow> digest_data) \<Rightarrow> digest_context \<Rightarrow> bytes \<Rightarrow> digest_context" where
  "update_bytes dg = foldl (update_byte dg)"

function pad_block :: "(digest_data \<Rightarrow> digest_data) \<Rightarrow> u8 \<Rightarrow> digest_context \<Rightarrow> digest_context" where
  "pad_block dg pad ctx =
     (let ctx' = update_bytes dg ctx [pad] in
      if ctx_len ctx' mod 64 \<noteq> 56 then pad_block dg 0 ctx' else ctx')"
  by pat_completeness auto

lemma unat_add_1_mod: "unat (x + 1 :: u32) mod 64 = (if unat x mod 64 = 63 then 0 else unat x mod 64 + 1)"
proof -
  have "unat (x + 1) mod 64 = (unat x mod 64 + 1) mod 64" by (simp add: unat_word_ariths mod_mod_cancel mod_simps)
  moreover have "unat x mod 64 < 64" by simp
  ultimately show ?thesis by (cases "unat x mod 64 = 63") (simp_all add: mod_less)
qed

lemma mod_64_eq: "(x :: u32) mod 64 = of_nat k \<longleftrightarrow> unat x mod 64 = k" if "k < 64"
  using that by (simp add: word_unat_eq_iff unat_mod unat_of_nat)

definition pad_left :: "nat \<Rightarrow> nat" where
  "pad_left n = (if n mod 64 < 56 then 55 - n mod 64 else 119 - n mod 64)"

termination pad_block
proof (relation "measure (\<lambda>(_, _, ctx). pad_left (unat (ctx_len ctx)))")
  fix dg pad ctx x
  assume "x = update_bytes dg ctx [pad]" "ctx_len x mod 64 \<noteq> 56"
  then have "unat (ctx_len x) mod 64 \<noteq> 56" "ctx_len x = ctx_len ctx + 1"
    using mod_64_eq [of 56 "ctx_len x"] by (simp_all add: update_bytes_def update_byte_def Let_def)
  moreover have "unat (ctx_len ctx) mod 64 < 64" by simp
  ultimately show "((dg, 0, x), dg, pad, ctx) \<in> measure (\<lambda>(_, _, ctx). pad_left (unat (ctx_len ctx)))"
    using unat_add_1_mod [of "ctx_len ctx"] by (auto simp: pad_left_def split: if_splits)
qed simp

definition final_bytes ::
  "(digest_data \<Rightarrow> digest_data) \<Rightarrow> (u64 \<Rightarrow> bytes) \<Rightarrow> digest_context \<Rightarrow> bytes \<times> digest_context" where
  "final_bytes dg cpu_to_64 ctx =
     (let len_bits = cpu_to_64 (ucast (ctx_len ctx) * 8);
          ctx = pad_block dg 0x80 ctx;
          ctx = update_bytes dg ctx len_bits
      in (undwords (ddd_h (ctx_ddd ctx)), ctx))"

section \<open>MD5\<close>

record md5_variables =
  md5_a :: u32
  md5_b :: u32
  md5_c :: u32
  md5_d :: u32
  md5_w :: "u32 list"

definition md5_k :: "u32 list" where
  "md5_k = concat
    [[0xd76aa478, 0xe8c7b756, 0x242070db, 0xc1bdceee, 0xf57c0faf, 0x4787c62a],
     [0xa8304613, 0xfd469501, 0x698098d8, 0x8b44f7af, 0xffff5bb1, 0x895cd7be],
     [0x6b901122, 0xfd987193, 0xa679438e, 0x49b40821, 0xf61e2562, 0xc040b340],
     [0x265e5a51, 0xe9b6c7aa, 0xd62f105d, 0x02441453, 0xd8a1e681, 0xe7d3fbc8],
     [0x21e1cde6, 0xc33707d6, 0xf4d50d87, 0x455a14ed, 0xa9e3e905, 0xfcefa3f8],
     [0x676f02d9, 0x8d2a4c8a, 0xfffa3942, 0x8771f681, 0x6d9d6122, 0xfde5380c],
     [0xa4beea44, 0x4bdecfa9, 0xf6bb4b60, 0xbebfbc70, 0x289b7ec6, 0xeaa127fa],
     [0xd4ef3085, 0x04881d05, 0xd9d4d039, 0xe6db99e5, 0x1fa27cf8, 0xc4ac5665],
     [0xf4292244, 0x432aff97, 0xab9423a7, 0xfc93a039, 0x655b59c3, 0x8f0ccc92],
     [0xffeff47d, 0x85845dd1, 0x6fa87e4f, 0xfe2ce6e0, 0xa3014314, 0x4e0811a1],
     [0xf7537e82, 0xbd3af235, 0x2ad7d2bb, 0xeb86d391]]"

definition md5_r :: "nat list" where
  "md5_r =
    [7, 12, 17, 22, 7, 12, 17, 22, 7, 12, 17, 22, 7, 12, 17, 22,
     5, 9, 14, 20, 5, 9, 14, 20, 5, 9, 14, 20, 5, 9, 14, 20,
     4, 11, 16, 23, 4, 11, 16, 23, 4, 11, 16, 23, 4, 11, 16, 23,
     6, 10, 15, 21, 6, 10, 15, 21, 6, 10, 15, 21, 6, 10, 15, 21]"

definition md5_f_0_15 :: "md5_variables \<Rightarrow> u32" where
  "md5_f_0_15 v = md5_d v XOR (md5_b v AND (md5_c v XOR md5_d v))"

definition md5_f_16_31 :: "md5_variables \<Rightarrow> u32" where
  "md5_f_16_31 v = md5_c v XOR (md5_d v AND (md5_b v XOR md5_c v))"

definition md5_f_32_47 :: "md5_variables \<Rightarrow> u32" where
  "md5_f_32_47 v = md5_b v XOR md5_c v XOR md5_d v"

definition md5_f_48_63 :: "md5_variables \<Rightarrow> u32" where
  "md5_f_48_63 v = md5_c v XOR (md5_b v OR NOT (md5_d v))"

record md5_step =
  md5_f :: "md5_variables \<Rightarrow> u32"
  coefficient :: nat
  constant_term :: nat

definition md5_steps :: "md5_step list" where
  "md5_steps =
    [\<lparr>md5_f = md5_f_0_15, coefficient = 1, constant_term = 0\<rparr>,
     \<lparr>md5_f = md5_f_16_31, coefficient = 5, constant_term = 1\<rparr>,
     \<lparr>md5_f = md5_f_32_47, coefficient = 3, constant_term = 5\<rparr>,
     \<lparr>md5_f = md5_f_48_63, coefficient = 7, constant_term = 0\<rparr>]"

definition md5_init :: "digest_context \<Rightarrow> digest_context" where
  "md5_init ctx =
     ctx\<lparr>ctx_ddd := (ctx_ddd ctx)\<lparr>ddd_h := map cpu_to_le32 [0x67452301, 0xefcdab89, 0x98badcfe, 0x10325476]\<rparr>, ctx_len := 0\<rparr>"

definition md5_loop :: "md5_variables \<Rightarrow> nat \<Rightarrow> md5_variables" where
  "md5_loop v i =
     (let s = md5_steps ! (i div 16);
          f = md5_f s v;
          g = (coefficient s * i + constant_term s) mod 16
      in v\<lparr>md5_d := md5_c v, md5_c := md5_b v,
           md5_b := md5_b v + rol32 (md5_a v + f + md5_k ! i + md5_w v ! g) (md5_r ! i),
           md5_a := md5_d v\<rparr>)"

definition md5_digest :: "digest_data \<Rightarrow> digest_data" where
  "md5_digest ddd =
     (let dword = map le32_to_cpu (ddd_h ddd @ dwords (ddd_data ddd));
          ddd = \<lparr>ddd_h = take 4 dword, ddd_data = undwords (drop 4 dword)\<rparr>;
          v = \<lparr>md5_a = dword ! 0, md5_b = dword ! 1, md5_c = dword ! 2, md5_d = dword ! 3, md5_w = drop 4 dword\<rparr>;
          v = foldl md5_loop v [0..<64]
      in ddd\<lparr>ddd_h := map2 (\<lambda>x y. cpu_to_le32 (x + y)) (ddd_h ddd) [md5_a v, md5_b v, md5_c v, md5_d v]\<rparr>)"

definition md5_update :: "digest_context \<Rightarrow> bytes \<Rightarrow> digest_context" where
  "md5_update = update_bytes md5_digest"

definition md5_final :: "digest_context \<Rightarrow> bytes \<times> digest_context" where
  "md5_final = final_bytes md5_digest le64_bytes"

definition md5_algorithm :: "digest_context digest_algorithm" where
  "md5_algorithm = \<lparr>blocksize = 64, digestsize = 16, init = md5_init, update = md5_update, final = md5_final\<rparr>"

section \<open>SHA-1\<close>

record sha1_variables =
  sha1_a :: u32
  sha1_b :: u32
  sha1_c :: u32
  sha1_d :: u32
  sha1_e :: u32
  sha1_w :: "u32 list"

definition sha1_f_0_19 :: "sha1_variables \<Rightarrow> u32" where
  "sha1_f_0_19 v = (sha1_b v AND sha1_c v) OR (NOT (sha1_b v) AND sha1_d v)"

definition sha1_f_20_39_60_79 :: "sha1_variables \<Rightarrow> u32" where
  "sha1_f_20_39_60_79 v = sha1_b v XOR sha1_c v XOR sha1_d v"

definition sha1_f_40_59 :: "sha1_variables \<Rightarrow> u32" where
  "sha1_f_40_59 v = (sha1_b v AND sha1_c v) OR (sha1_b v AND sha1_d v) OR (sha1_c v AND sha1_d v)"

record sha1_step =
  sha1_f :: "sha1_variables \<Rightarrow> u32"
  sha1_k :: u32

definition sha1_steps :: "sha1_step list" where
  "sha1_steps =
    [\<lparr>sha1_f = sha1_f_0_19, sha1_k = 0x5a827999\<rparr>,
     \<lparr>sha1_f = sha1_f_20_39_60_79, sha1_k = 0x6ed9eba1\<rparr>,
     \<lparr>sha1_f = sha1_f_40_59, sha1_k = 0x8f1bbcdc\<rparr>,
     \<lparr>sha1_f = sha1_f_20_39_60_79, sha1_k = 0xca62c1d6\<rparr>]"

definition sha1_init :: "digest_context \<Rightarrow> digest_context" where
  "sha1_init ctx =
     ctx\<lparr>ctx_ddd := (ctx_ddd ctx)\<lparr>ddd_h :=
           map cpu_to_be32 [0x67452301, 0xefcdab89, 0x98badcfe, 0x10325476, 0xc3d2e1f0]\<rparr>, ctx_len := 0\<rparr>"

definition sha1_extend :: "u32 list \<Rightarrow> nat \<Rightarrow> u32 list" where
  "sha1_extend w i = w @ [rol32 (w ! (i - 3) XOR w ! (i - 8) XOR w ! (i - 14) XOR w ! (i - 16)) 1]"

definition sha1_loop :: "sha1_variables \<Rightarrow> nat \<Rightarrow> sha1_variables" where
  "sha1_loop v i =
     (let s = sha1_steps ! (i div 20);
          f = sha1_f s v;
          k = sha1_k s;
          temp = rol32 (sha1_a v) 5 + f + sha1_e v + k + sha1_w v ! i
      in v\<lparr>sha1_e := sha1_d v, sha1_d := sha1_c v, sha1_c := rol32 (sha1_b v) 30, sha1_b := sha1_a v, sha1_a := temp\<rparr>)"

definition sha1_digest :: "digest_data \<Rightarrow> digest_data" where
  "sha1_digest ddd =
     (let dword = map be32_to_cpu (ddd_h ddd @ dwords (ddd_data ddd));
          ddd = \<lparr>ddd_h = take 5 dword, ddd_data = undwords (drop 5 dword)\<rparr>;
          w = foldl sha1_extend (drop 5 dword) [16..<80];
          v = \<lparr>sha1_a = dword ! 0, sha1_b = dword ! 1, sha1_c = dword ! 2, sha1_d = dword ! 3, sha1_e = dword ! 4, sha1_w = w\<rparr>;
          v = foldl sha1_loop v [0..<80]
      in ddd\<lparr>ddd_h := map2 (\<lambda>x y. cpu_to_be32 (x + y)) (ddd_h ddd) [sha1_a v, sha1_b v, sha1_c v, sha1_d v, sha1_e v]\<rparr>)"

definition sha1_update :: "digest_context \<Rightarrow> bytes \<Rightarrow> digest_context" where
  "sha1_update = update_bytes sha1_digest"

definition sha1_final :: "digest_context \<Rightarrow> bytes \<times> digest_context" where
  "sha1_final = final_bytes sha1_digest be64_bytes"

definition sha1_algorithm :: "digest_context digest_algorithm" where
  "sha1_algorithm = \<lparr>blocksize = 64, digestsize = 20, init = sha1_init, update = sha1_update, final = sha1_final\<rparr>"

section \<open>SHA-256\<close>

record sha256_variables =
  sha256_a :: u32
  sha256_b :: u32
  sha256_c :: u32
  sha256_d :: u32
  sha256_e :: u32
  sha256_f :: u32
  sha256_g :: u32
  sha256_h :: u32
  sha256_w :: "u32 list"

definition sha256_k :: "u32 list" where
  "sha256_k = concat
    [[0x428a2f98, 0x71374491, 0xb5c0fbcf, 0xe9b5dba5, 0x3956c25b, 0x59f111f1],
     [0x923f82a4, 0xab1c5ed5, 0xd807aa98, 0x12835b01, 0x243185be, 0x550c7dc3],
     [0x72be5d74, 0x80deb1fe, 0x9bdc06a7, 0xc19bf174, 0xe49b69c1, 0xefbe4786],
     [0x0fc19dc6, 0x240ca1cc, 0x2de92c6f, 0x4a7484aa, 0x5cb0a9dc, 0x76f988da],
     [0x983e5152, 0xa831c66d, 0xb00327c8, 0xbf597fc7, 0xc6e00bf3, 0xd5a79147],
     [0x06ca6351, 0x14292967, 0x27b70a85, 0x2e1b2138, 0x4d2c6dfc, 0x53380d13],
     [0x650a7354, 0x766a0abb, 0x81c2c92e, 0x92722c85, 0xa2bfe8a1, 0xa81a664b],
     [0xc24b8b70, 0xc76c51a3, 0xd192e819, 0xd6990624, 0xf40e3585, 0x106aa070],
     [0x19a4c116, 0x1e376c08, 0x2748774c, 0x34b0bcb5, 0x391c0cb3, 0x4ed8aa4a],
     [0x5b9cca4f, 0x682e6ff3, 0x748f82ee, 0x78a5636f, 0x84c87814, 0x8cc70208],
     [0x90befffa, 0xa4506ceb, 0xbef9a3f7, 0xc67178f2]]"

definition sha256_init :: "digest_context \<Rightarrow> digest_context" where
  "sha256_init ctx =
     ctx\<lparr>ctx_ddd := (ctx_ddd ctx)\<lparr>ddd_h := map cpu_to_be32
           [0x6a09e667, 0xbb67ae85, 0x3c6ef372, 0xa54ff53a, 0x510e527f, 0x9b05688c, 0x1f83d9ab, 0x5be0cd19]\<rparr>, ctx_len := 0\<rparr>"

definition sha256_extend :: "u32 list \<Rightarrow> nat \<Rightarrow> u32 list" where
  "sha256_extend w i =
     (let s0 = ror32 (w ! (i - 15)) 7 XOR ror32 (w ! (i - 15)) 18 XOR drop_bit 3 (w ! (i - 15));
          s1 = ror32 (w ! (i - 2)) 17 XOR ror32 (w ! (i - 2)) 19 XOR drop_bit 10 (w ! (i - 2))
      in w @ [w ! (i - 16) + s0 + w ! (i - 7) + s1])"

definition sha256_loop :: "sha256_variables \<Rightarrow> nat \<Rightarrow> sha256_variables" where
  "sha256_loop v i =
     (let s0 = ror32 (sha256_a v) 2 XOR ror32 (sha256_a v) 13 XOR ror32 (sha256_a v) 22;
          maj = (sha256_a v AND sha256_b v) XOR (sha256_a v AND sha256_c v) XOR (sha256_b v AND sha256_c v);
          t2 = s0 + maj;
          s1 = ror32 (sha256_e v) 6 XOR ror32 (sha256_e v) 11 XOR ror32 (sha256_e v) 25;
          ch = (sha256_e v AND sha256_f v) XOR (NOT (sha256_e v) AND sha256_g v);
          t1 = sha256_h v + s1 + ch + sha256_k ! i + sha256_w v ! i
      in v\<lparr>sha256_h := sha256_g v, sha256_g := sha256_f v, sha256_f := sha256_e v, sha256_e := sha256_d v + t1,
           sha256_d := sha256_c v, sha256_c := sha256_b v, sha256_b := sha256_a v, sha256_a := t1 + t2\<rparr>)"

definition sha256_digest :: "digest_data \<Rightarrow> digest_data" where
  "sha256_digest ddd =
     (let dword = map be32_to_cpu (ddd_h ddd @ dwords (ddd_data ddd));
          ddd = \<lparr>ddd_h = take 8 dword, ddd_data = undwords (drop 8 dword)\<rparr>;
          w = foldl sha256_extend (drop 8 dword) [16..<64];
          v = \<lparr>sha256_a = dword ! 0, sha256_b = dword ! 1, sha256_c = dword ! 2, sha256_d = dword ! 3,
               sha256_e = dword ! 4, sha256_f = dword ! 5, sha256_g = dword ! 6, sha256_h = dword ! 7, sha256_w = w\<rparr>;
          v = foldl sha256_loop v [0..<64]
      in ddd\<lparr>ddd_h := map2 (\<lambda>x y. cpu_to_be32 (x + y)) (ddd_h ddd)
           [sha256_a v, sha256_b v, sha256_c v, sha256_d v, sha256_e v, sha256_f v, sha256_g v, sha256_h v]\<rparr>)"

definition sha256_update :: "digest_context \<Rightarrow> bytes \<Rightarrow> digest_context" where
  "sha256_update = update_bytes sha256_digest"

definition sha256_final :: "digest_context \<Rightarrow> bytes \<times> digest_context" where
  "sha256_final = final_bytes sha256_digest be64_bytes"

definition sha256_algorithm :: "digest_context digest_algorithm" where
  "sha256_algorithm = \<lparr>blocksize = 64, digestsize = 32, init = sha256_init, update = sha256_update, final = sha256_final\<rparr>"

section \<open>Reference definitions\<close>

text \<open>
  The hash functions as RFC 1321 and FIPS 180-4 define them: the message is padded, cut into blocks of 64 bytes, and a
  compression function is folded over the blocks.
\<close>

function chop :: "bytes \<Rightarrow> bytes list" where
  "chop m = (if length m < 64 then [] else take 64 m # chop (drop 64 m))"
  by pat_completeness auto

termination chop
  by (relation "measure length") auto

declare chop.simps [simp del]

definition padded :: "(u64 \<Rightarrow> bytes) \<Rightarrow> bytes \<Rightarrow> bytes" where
  "padded len_bytes m = m @ 0x80 # replicate (pad_left (length m)) 0 @ len_bytes (of_nat (8 * length m))"

definition hash :: "(u32 list \<Rightarrow> bytes \<Rightarrow> u32 list) \<Rightarrow> u32 list \<Rightarrow> (u32 \<Rightarrow> bytes) \<Rightarrow> (u64 \<Rightarrow> bytes) \<Rightarrow> bytes \<Rightarrow> bytes" where
  "hash compress iv word_bytes len_bytes m = concat (map word_bytes (foldl compress iv (chop (padded len_bytes m))))"

definition le_word :: "bytes \<Rightarrow> nat \<Rightarrow> u32" where
  "le_word b t = ucast (b ! (4 * t)) OR push_bit 8 (ucast (b ! (4 * t + 1))) OR
     push_bit 16 (ucast (b ! (4 * t + 2))) OR push_bit 24 (ucast (b ! (4 * t + 3)))"

definition be_word :: "bytes \<Rightarrow> nat \<Rightarrow> u32" where
  "be_word b t = push_bit 24 (ucast (b ! (4 * t))) OR push_bit 16 (ucast (b ! (4 * t + 1))) OR
     push_bit 8 (ucast (b ! (4 * t + 2))) OR ucast (b ! (4 * t + 3))"

definition Ch :: "u32 \<Rightarrow> u32 \<Rightarrow> u32 \<Rightarrow> u32" where
  "Ch x y z = (x AND y) XOR (NOT x AND z)"

definition Maj :: "u32 \<Rightarrow> u32 \<Rightarrow> u32 \<Rightarrow> u32" where
  "Maj x y z = (x AND y) XOR (x AND z) XOR (y AND z)"

definition Parity :: "u32 \<Rightarrow> u32 \<Rightarrow> u32 \<Rightarrow> u32" where
  "Parity x y z = x XOR y XOR z"

text \<open>MD5: the functions \<open>F\<close>, \<open>G\<close>, \<open>H\<close>, \<open>I\<close>, and for each round the index of the message word.\<close>

definition md5_ft :: "nat \<Rightarrow> u32 \<Rightarrow> u32 \<Rightarrow> u32 \<Rightarrow> u32" where
  "md5_ft t x y z =
     (if t < 16 then (x AND y) OR (NOT x AND z)
      else if t < 32 then (x AND z) OR (y AND NOT z)
      else if t < 48 then x XOR y XOR z
      else y XOR (x OR NOT z))"

definition md5_index :: "nat \<Rightarrow> nat" where
  "md5_index t = (if t < 16 then t else if t < 32 then 5 * t + 1 else if t < 48 then 3 * t + 5 else 7 * t) mod 16"

definition md5_round :: "bytes \<Rightarrow> u32 \<times> u32 \<times> u32 \<times> u32 \<Rightarrow> nat \<Rightarrow> u32 \<times> u32 \<times> u32 \<times> u32" where
  "md5_round m = (\<lambda>(a, b, c, d) t.
     (d, b + word_rotl (md5_r ! t) (a + md5_ft t b c d + le_word m (md5_index t) + md5_k ! t), b, c))"

definition md5_compress :: "u32 list \<Rightarrow> bytes \<Rightarrow> u32 list" where
  "md5_compress hs m =
     (let (a, b, c, d) = foldl (md5_round m) (hs ! 0, hs ! 1, hs ! 2, hs ! 3) [0..<64]
      in map2 (+) hs [a, b, c, d])"

definition md5_hash :: "bytes \<Rightarrow> bytes" where
  "md5_hash = hash md5_compress [0x67452301, 0xefcdab89, 0x98badcfe, 0x10325476] (rev \<circ> be32) le64_bytes"

text \<open>SHA-1 and SHA-256: the message schedule is a function of the index.\<close>

fun sha1_W :: "bytes \<Rightarrow> nat \<Rightarrow> u32" where
  "sha1_W m t =
     (if t < 16 then be_word m t
      else word_rotl 1 (sha1_W m (t - 3) XOR sha1_W m (t - 8) XOR sha1_W m (t - 14) XOR sha1_W m (t - 16)))"

definition sha1_ft :: "nat \<Rightarrow> u32 \<Rightarrow> u32 \<Rightarrow> u32 \<Rightarrow> u32" where
  "sha1_ft t = (if t < 20 then Ch else if t < 40 then Parity else if t < 60 then Maj else Parity)"

definition sha1_Kt :: "nat \<Rightarrow> u32" where
  "sha1_Kt t = (if t < 20 then 0x5a827999 else if t < 40 then 0x6ed9eba1 else if t < 60 then 0x8f1bbcdc else 0xca62c1d6)"

definition sha1_round :: "bytes \<Rightarrow> u32 \<times> u32 \<times> u32 \<times> u32 \<times> u32 \<Rightarrow> nat \<Rightarrow> u32 \<times> u32 \<times> u32 \<times> u32 \<times> u32" where
  "sha1_round m = (\<lambda>(a, b, c, d, e) t.
     (word_rotl 5 a + sha1_ft t b c d + e + sha1_Kt t + sha1_W m t, a, word_rotl 30 b, c, d))"

definition sha1_compress :: "u32 list \<Rightarrow> bytes \<Rightarrow> u32 list" where
  "sha1_compress hs m =
     (let (a, b, c, d, e) = foldl (sha1_round m) (hs ! 0, hs ! 1, hs ! 2, hs ! 3, hs ! 4) [0..<80]
      in map2 (+) hs [a, b, c, d, e])"

definition sha1_hash :: "bytes \<Rightarrow> bytes" where
  "sha1_hash = hash sha1_compress [0x67452301, 0xefcdab89, 0x98badcfe, 0x10325476, 0xc3d2e1f0] be32 be64_bytes"

fun sha256_W :: "bytes \<Rightarrow> nat \<Rightarrow> u32" where
  "sha256_W m t =
     (if t < 16 then be_word m t
      else
        (let x = sha256_W m (t - 2); y = sha256_W m (t - 15) in
         (word_rotr 17 x XOR word_rotr 19 x XOR drop_bit 10 x) + sha256_W m (t - 7) +
         (word_rotr 7 y XOR word_rotr 18 y XOR drop_bit 3 y) + sha256_W m (t - 16)))"

definition Sigma0 :: "u32 \<Rightarrow> u32" where
  "Sigma0 x = word_rotr 2 x XOR word_rotr 13 x XOR word_rotr 22 x"

definition Sigma1 :: "u32 \<Rightarrow> u32" where
  "Sigma1 x = word_rotr 6 x XOR word_rotr 11 x XOR word_rotr 25 x"

type_synonym sha256_state = "u32 \<times> u32 \<times> u32 \<times> u32 \<times> u32 \<times> u32 \<times> u32 \<times> u32"

definition sha256_round :: "bytes \<Rightarrow> sha256_state \<Rightarrow> nat \<Rightarrow> sha256_state" where
  "sha256_round m = (\<lambda>(a, b, c, d, e, f, g, h) t.
     let T1 = h + Sigma1 e + Ch e f g + sha256_k ! t + sha256_W m t;
         T2 = Sigma0 a + Maj a b c
     in (T1 + T2, a, b, c, d + T1, e, f, g))"

definition sha256_compress :: "u32 list \<Rightarrow> bytes \<Rightarrow> u32 list" where
  "sha256_compress hs m =
     (let (a, b, c, d, e, f, g, h) =
        foldl (sha256_round m) (hs ! 0, hs ! 1, hs ! 2, hs ! 3, hs ! 4, hs ! 5, hs ! 6, hs ! 7) [0..<64]
      in map2 (+) hs [a, b, c, d, e, f, g, h])"

definition sha256_hash :: "bytes \<Rightarrow> bytes" where
  "sha256_hash = hash sha256_compress
     [0x6a09e667, 0xbb67ae85, 0x3c6ef372, 0xa54ff53a, 0x510e527f, 0x9b05688c, 0x1f83d9ab, 0x5be0cd19] be32 be64_bytes"

declare sha1_W.simps [simp del] sha256_W.simps [simp del]

section \<open>Padding and accumulation\<close>

lemma chop_short: "length m < 64 \<Longrightarrow> chop m = []"
  by (simp add: chop.simps)

lemma chop_block: "length b = 64 \<Longrightarrow> chop (b @ m) = b # chop m"
  by (simp add: chop.simps [of "b @ m"])

lemma chop_append: "64 dvd length m \<Longrightarrow> chop (m @ m') = chop m @ chop m'"
proof (induction m rule: chop.induct)
  case (1 m)
  show ?case
  proof (cases "length m < 64")
    case True
    with "1.prems" have "m = []" by (metis dvd_imp_le length_0_conv neq0_conv not_le)
    then show ?thesis by (simp add: chop_short)
  next
    case False
    with "1.prems" have "64 dvd length (drop 64 m)" by (simp add: dvd_diff_nat)
    with 1 False show ?thesis by (simp add: chop.simps [of m] chop.simps [of "m @ m'"])
  qed
qed

lemma pad_left_step: "pad_left n = (if (n + 1) mod 64 = 56 then 0 else Suc (pad_left (n + 1)))"
proof -
  have "(n + 1) mod 64 = (if n mod 64 = 63 then 0 else n mod 64 + 1)"
    using mod_Suc [of n 64] by simp
  moreover have "n mod 64 < 64" by simp
  ultimately show ?thesis by (auto simp: pad_left_def)
qed

lemma pad_left_dvd: "64 dvd n + Suc (pad_left n + 8)"
proof -
  define q r where "q = n div 64" and "r = n mod 64"
  have n: "n = 64 * q + r" "r < 64" by (simp_all add: q_def r_def)
  have "n + Suc (pad_left n + 8) = 64 * (if r < 56 then q + 1 else q + 2)"
    using n(2) unfolding pad_left_def r_def [symmetric] by (simp add: n(1))
  then show ?thesis by simp
qed

lemma unat_of_nat_mod: "unat (of_nat n :: u32) mod 64 = n mod 64"
  by (simp add: unat_of_nat mod_mod_cancel)

declare pad_block.simps [simp del]

lemma pad_block_unfold:
  "pad_block dg pad ctx = (let ctx' = update_byte dg ctx pad in if ctx_len ctx' mod 64 \<noteq> 56 then pad_block dg 0 ctx' else ctx')"
  by (subst pad_block.simps) (simp add: update_bytes_def)

text \<open>A digest function \<open>dg\<close> that applies a compression function to the digest words, which are stored in memory as \<open>enc\<close> says.\<close>

locale block_digest =
  fixes dg :: "digest_data \<Rightarrow> digest_data" and compress :: "u32 list \<Rightarrow> bytes \<Rightarrow> u32 list"
    and enc :: "u32 \<Rightarrow> u32" and iv :: "u32 list" and len_bytes :: "u64 \<Rightarrow> bytes"
  assumes digests: "length hs = length iv \<Longrightarrow> length b = 64 \<Longrightarrow>
      ddd_h (dg \<lparr>ddd_h = map enc hs, ddd_data = b\<rparr>) = map enc (compress hs b)"
    and data_length: "length hs = length iv \<Longrightarrow> length b = 64 \<Longrightarrow> length (ddd_data (dg \<lparr>ddd_h = map enc hs, ddd_data = b\<rparr>)) = 64"
    and compress_length: "length hs = length iv \<Longrightarrow> length (compress hs b) = length iv"
    and len_bytes_length: "length (len_bytes x) = 8"
begin

definition holds :: "bytes \<Rightarrow> digest_context \<Rightarrow> bool" where
  "holds m ctx = (\<exists>m1 r. m = m1 @ r \<and> 64 dvd length m1 \<and> length r < 64 \<and> ctx_len ctx = of_nat (length m) \<and>
     ddd_h (ctx_ddd ctx) = map enc (foldl compress iv (chop m1)) \<and>
     length (ddd_data (ctx_ddd ctx)) = 64 \<and> take (length r) (ddd_data (ctx_ddd ctx)) = r)"

lemma fold_length: "length (foldl compress iv bs) = length iv"
  by (induction bs rule: rev_induct) (simp_all add: compress_length)

lemma holds_update: "holds m ctx \<Longrightarrow> holds (m @ [x]) (update_byte dg ctx x)"
proof -
  assume "holds m ctx"
  then obtain m1 r where m: "m = m1 @ r" "64 dvd length m1" "length r < 64" "ctx_len ctx = of_nat (length m)"
    "ddd_h (ctx_ddd ctx) = map enc (foldl compress iv (chop m1))"
    "length (ddd_data (ctx_ddd ctx)) = 64" "take (length r) (ddd_data (ctx_ddd ctx)) = r"
    unfolding holds_def by blast
  have offset: "unat (ctx_len ctx mod 64) = length r"
  proof -
    have "length m mod 64 = length r" using m(1-3) by (auto elim!: dvdE)
    then show ?thesis using unat_of_nat_mod [of "length m"] m(4) by (simp add: unat_mod)
  qed
  let ?d = "(ddd_data (ctx_ddd ctx))[length r := x]"
  have d: "length ?d = 64" "take (length r + 1) ?d = r @ [x]"
    using m(3,6,7) by (simp_all add: take_Suc_conv_app_nth)
  have ddd: "(ctx_ddd ctx)\<lparr>ddd_data := ?d\<rparr> = \<lparr>ddd_h = map enc (foldl compress iv (chop m1)), ddd_data = ?d\<rparr>"
    using m(5) by (cases "ctx_ddd ctx") simp
  have full: "(ctx_len ctx + 1) mod 64 = 0 \<longleftrightarrow> length r = 63"
    using mod_64_eq [of 0 "ctx_len ctx + 1"] unat_add_1_mod [of "ctx_len ctx"] offset by (auto simp: unat_mod)
  have len: "ctx_len ctx + 1 = of_nat (length (m @ [x]))" using m(4) by simp
  let ?D = "\<lparr>ddd_h = map enc (foldl compress iv (chop m1)), ddd_data = ?d\<rparr>"
  have upd: "update_byte dg ctx x = \<lparr>ctx_len = of_nat (length (m @ [x])), ctx_ddd = (if length r = 63 then dg ?D else ?D)\<rparr>"
    unfolding update_byte_def Let_def offset ddd len full [unfolded len] ..
  show ?thesis
  proof (cases "length r = 63")
    case True
    then have "?d = r @ [x]" using d by simp
    then have "chop (m @ [x]) = chop m1 @ [?d]" "64 dvd length (m @ [x])"
      using m(1,2) True chop_block [of "r @ [x]" "[]"] by (auto simp: chop_append chop_short)
    then show ?thesis unfolding holds_def upd
      using True d(1) digests data_length fold_length by (intro exI [of _ "m @ [x]"] exI [of _ "[]"]) simp
  next
    case False
    then show ?thesis unfolding holds_def upd
      using d m(1-3) by (intro exI [of _ m1] exI [of _ "r @ [x]"]) simp
  qed
qed

lemma holds_updates: "holds m ctx \<Longrightarrow> holds (m @ xs) (update_bytes dg ctx xs)"
proof (induction xs arbitrary: m ctx)
  case (Cons x xs)
  from Cons.IH [OF holds_update [OF Cons.prems]] show ?case by (simp add: update_bytes_def)
qed (simp add: update_bytes_def)

lemma holds_len: "holds m ctx \<Longrightarrow> ctx_len ctx = of_nat (length m)"
  by (auto simp: holds_def)

lemma holds_whole: "holds m ctx \<Longrightarrow> 64 dvd length m \<Longrightarrow> ddd_h (ctx_ddd ctx) = map enc (foldl compress iv (chop m))"
proof -
  assume "holds m ctx" "64 dvd length m"
  then obtain m1 r where m: "m = m1 @ r" "64 dvd length r" "length r < 64"
    "ddd_h (ctx_ddd ctx) = map enc (foldl compress iv (chop m1))"
    unfolding holds_def by (auto simp: dvd_add_right_iff)
  then have "r = []" by (auto dest: dvd_imp_le)
  with m show ?thesis by simp
qed

lemma holds_pad: "holds m ctx \<Longrightarrow> holds (m @ p # replicate (pad_left (length m)) 0) (pad_block dg p ctx)"
proof (induction "pad_left (length m)" arbitrary: m p ctx)
  case 0
  let ?ctx = "update_byte dg ctx p"
  have h: "holds (m @ [p]) ?ctx" using 0 by (simp add: holds_update)
  have "(length m + 1) mod 64 = 56" using "0.hyps" pad_left_step [of "length m"] by (simp split: if_splits)
  then have "ctx_len ?ctx mod 64 = 56"
    using mod_64_eq [of 56 "ctx_len ?ctx"] holds_len [OF h] unat_of_nat_mod [of "length (m @ [p])"] by simp
  with h "0.hyps" show ?case by (simp add: pad_block_unfold [of dg p ctx])
next
  case (Suc n)
  let ?ctx = "update_byte dg ctx p"
  have h: "holds (m @ [p]) ?ctx" using Suc by (simp add: holds_update)
  have n: "(length m + 1) mod 64 \<noteq> 56" "n = pad_left (length (m @ [p]))"
    using Suc.hyps(2) pad_left_step [of "length m"] by (auto split: if_splits)
  then have "ctx_len ?ctx mod 64 \<noteq> 56"
    using mod_64_eq [of 56 "ctx_len ?ctx"] holds_len [OF h] unat_of_nat_mod [of "length (m @ [p])"] by simp
  with Suc.hyps(1) [OF n(2) h, of 0] Suc.hyps(2) [symmetric] n(2) [symmetric] show ?case
    by (simp add: pad_block_unfold [of dg p ctx])
qed

lemma final_correct:
  assumes "holds m ctx" "length m < 2 ^ 32"
  shows "fst (final_bytes dg len_bytes ctx) = undwords (map enc (foldl compress iv (chop (padded len_bytes m))))"
proof -
  let ?l = "len_bytes (ucast (ctx_len ctx) * 8)"
  have "ucast (ctx_len ctx) * 8 = (of_nat (8 * length m) :: u64)"
    using holds_len [OF assms(1)] assms(2) take_bit_nat_eq_self [of "length m" 32] by (simp add: unsigned_of_nat)
  then have p: "padded len_bytes m = (m @ 0x80 # replicate (pad_left (length m)) 0) @ ?l"
    by (simp add: padded_def)
  then have "holds (padded len_bytes m) (update_bytes dg (pad_block dg 0x80 ctx) ?l)"
    by (simp only: holds_updates holds_pad assms(1))
  from holds_whole [OF this] pad_left_dvd [of "length m"] show ?thesis
    by (simp add: padded_def len_bytes_length final_bytes_def Let_def)
qed

end

section \<open>Words and bytes of a block\<close>

lemma rotate_index: "i < 32 \<Longrightarrow> n < 32 \<Longrightarrow> (i + 32 - n) mod 32 = (if i < n then 32 + i - n else i - n)"
  "i < 32 \<Longrightarrow> n < 32 \<Longrightarrow> (i + n) mod 32 = (if i + n < 32 then n + i else i + n - (32 :: nat))"
  by (auto simp: mod_if)

lemma rol32_rotl: "0 < n \<Longrightarrow> n < 32 \<Longrightarrow> rol32 w n = word_rotl n w"
  by (rule bit_word_eqI) (auto simp: rol32_def bit_simps rotate_index not_bit_u32)

lemma ror32_rotr: "0 < n \<Longrightarrow> n < 32 \<Longrightarrow> ror32 w n = word_rotr n w"
  by (rule bit_word_eqI) (auto simp: ror32_def bit_simps rotate_index not_bit_u32)

lemma byte_masks: "(0xff00 :: u32) = push_bit 8 (mask 8)" "(0xff0000 :: u32) = push_bit 16 (mask 8)"
  by (simp_all add: mask_eq_exp_minus_1)

lemma byte_index:
  fixes n :: nat
  assumes "n < 32"
  obtains j where "j < 8" "n = j" | j where "j < 8" "n = 8 + j" | j where "j < 8" "n = 16 + j" | j where "j < 8" "n = 24 + j"
proof -
  consider "n < 8" | "8 \<le> n" "n < 16" | "16 \<le> n" "n < 24" | "24 \<le> n" using assms by linarith
  then show thesis
    using that(1) [of n] that(2) [of "n - 8"] that(3) [of "n - 16"] that(4) [of "n - 24"] assms by cases auto
qed

lemma bit_be32_to_cpu: "j < 8 \<Longrightarrow> bit (be32_to_cpu w) j = bit w (24 + j)" "j < 8 \<Longrightarrow> bit (be32_to_cpu w) (8 + j) = bit w (16 + j)"
   "j < 8 \<Longrightarrow> bit (be32_to_cpu w) (16 + j) = bit w (8 + j)" "j < 8 \<Longrightarrow> bit (be32_to_cpu w) (24 + j) = bit w j"
  by (auto simp: be32_to_cpu_def byte_masks bit_simps not_bit_u32)

lemma be32_to_cpu_swap: "be32_to_cpu (be32_to_cpu w) = w"
proof (rule bit_word_eqI)
  fix n assume "n < LENGTH(32)"
  then have "n < 32" by simp
  then show "bit (be32_to_cpu (be32_to_cpu w)) n = bit w n"
    by (cases rule: byte_index) (simp_all add: bit_be32_to_cpu)
qed

lemma bit_le_word: "j < 8 \<Longrightarrow> bit (le_word b t) j = bit (b ! (4 * t)) j" "j < 8 \<Longrightarrow> bit (le_word b t) (8 + j) = bit (b ! (4 * t + 1)) j"
   "j < 8 \<Longrightarrow> bit (le_word b t) (16 + j) = bit (b ! (4 * t + 2)) j" "j < 8 \<Longrightarrow> bit (le_word b t) (24 + j) = bit (b ! (4 * t + 3)) j"
  by (auto simp: le_word_def bit_simps not_bit_u8)

lemma bit_be_word: "j < 8 \<Longrightarrow> bit (be_word b t) j = bit (b ! (4 * t + 3)) j" "j < 8 \<Longrightarrow> bit (be_word b t) (8 + j) = bit (b ! (4 * t + 2)) j"
   "j < 8 \<Longrightarrow> bit (be_word b t) (16 + j) = bit (b ! (4 * t + 1)) j" "j < 8 \<Longrightarrow> bit (be_word b t) (24 + j) = bit (b ! (4 * t)) j"
  by (auto simp: be_word_def bit_simps not_bit_u8)

lemma be32_to_cpu_le_word: "be32_to_cpu (le_word b t) = be_word b t"
proof (rule bit_word_eqI)
  fix n assume "n < LENGTH(32)"
  then have "n < 32" by simp
  then show "bit (be32_to_cpu (le_word b t)) n = bit (be_word b t) n"
    by (cases rule: byte_index) (simp_all only: bit_be32_to_cpu bit_le_word bit_be_word)
qed

lemma dword_bytes_be32: "dword_bytes (cpu_to_be32 w) = be32 w"
  by (auto intro!: bit_word_eqI simp: dword_bytes_def be32_def cpu_to_be32_def bit_simps bit_be32_to_cpu)

lemma dword_bytes_le32: "dword_bytes (cpu_to_le32 w) = rev (be32 w)"
  by (simp add: dword_bytes_def be32_def cpu_to_le32_def)

lemma length_undwords: "length (undwords ws) = 4 * length ws"
  by (induction ws) (simp_all add: undwords_def dword_bytes_def)

lemma dwords_map: "length b = 4 * n \<Longrightarrow> dwords b = map (le_word b) [0..<n]"
proof (induction n arbitrary: b)
  case (Suc n)
  then obtain x y z u c where b: "b = x # y # z # u # c" "length c = 4 * n"
    by (auto simp: length_Suc_conv numeral_eq_Suc)
  have "le_word c t = le_word b (Suc t)" for t
    by (simp add: le_word_def b(1) numeral_eq_Suc)
  with Suc.IH [OF b(2)] show ?case
    by (simp add: map_Suc_upt [symmetric] upt_conv_Cons comp_def del: upt_Suc) (simp add: b(1) le_word_def numeral_eq_Suc)
qed simp

section \<open>SHA-1 computes the reference function\<close>

lemma sha1_schedule:
  assumes "length m = 64" "16 \<le> n"
  shows "foldl sha1_extend (map (be_word m) [0..<16]) [16..<n] = map (sha1_W m) [0..<n]"
  using assms(2)
proof (induction n rule: dec_induct)
  case base
  show ?case by (simp add: sha1_W.simps)
next
  case (step n)
  then show ?case by (simp add: sha1_extend_def rol32_rotl sha1_W.simps [of m n])
qed

lemma sha1_functions:
  "(b AND c) OR (NOT b AND d) = Ch b c d" "b XOR c XOR d = Parity b c d" "(b AND c) OR (b AND d) OR (c AND d) = Maj b c d"
  by (auto intro!: bit_word_eqI simp: Ch_def Parity_def Maj_def bit_simps)

definition sha1_state :: "sha1_variables \<Rightarrow> u32 \<times> u32 \<times> u32 \<times> u32 \<times> u32" where
  "sha1_state v = (sha1_a v, sha1_b v, sha1_c v, sha1_d v, sha1_e v)"

lemma sha1_steps_nth:
  assumes "t < 80"
  shows "sha1_f (sha1_steps ! (t div 20)) v = sha1_ft t (sha1_b v) (sha1_c v) (sha1_d v)"
    "sha1_k (sha1_steps ! (t div 20)) = sha1_Kt t"
proof -
  have "sha1_f (sha1_steps ! (t div 20)) v = sha1_ft t (sha1_b v) (sha1_c v) (sha1_d v) \<and>
      sha1_k (sha1_steps ! (t div 20)) = sha1_Kt t"
  proof -
    consider "t < 20" | "20 \<le> t" "t < 40" | "40 \<le> t" "t < 60" | "60 \<le> t" using assms by linarith
    then show ?thesis
      by cases (use assms in \<open>simp_all add: sha1_steps_def sha1_ft_def sha1_Kt_def sha1_functions
        sha1_f_0_19_def sha1_f_20_39_60_79_def sha1_f_40_59_def\<close>)
  qed
  then show "sha1_f (sha1_steps ! (t div 20)) v = sha1_ft t (sha1_b v) (sha1_c v) (sha1_d v)"
    "sha1_k (sha1_steps ! (t div 20)) = sha1_Kt t" by simp_all
qed

lemma sha1_loop_round:
  assumes "t < 80" "sha1_w v = map (sha1_W m) [0..<80]"
  shows "sha1_state (sha1_loop v t) = sha1_round m (sha1_state v) t" "sha1_w (sha1_loop v t) = sha1_w v"
  using assms sha1_steps_nth [OF assms(1)]
  by (simp_all add: sha1_loop_def Let_def sha1_state_def sha1_round_def rol32_rotl)

lemma sha1_rounds:
  "set ts \<subseteq> {0..<80} \<Longrightarrow> sha1_w v = map (sha1_W m) [0..<80] \<Longrightarrow>
     sha1_state (foldl sha1_loop v ts) = foldl (sha1_round m) (sha1_state v) ts"
proof (induction ts arbitrary: v)
  case (Cons t ts)
  then show ?case using sha1_loop_round [of t v m] by simp
qed simp

lemma be_words: "length b = 64 \<Longrightarrow> map be32_to_cpu (dwords b) = map (be_word b) [0..<16]"
  using dwords_map [of b 16] by (simp add: be32_to_cpu_le_word del: upt_Suc)

lemma map2_enc: "map2 (\<lambda>x y. f (x + y)) xs ys = map f (map2 (+) xs ys)"
  by (simp add: comp_def split_def)

interpretation sha1: block_digest sha1_digest sha1_compress cpu_to_be32
  "[0x67452301, 0xefcdab89, 0x98badcfe, 0x10325476, 0xc3d2e1f0]" be64_bytes
proof
  fix hs :: "u32 list" and b :: bytes
  assume len: "length hs = length [0x67452301, 0xefcdab89, 0x98badcfe, 0x10325476, 0xc3d2e1f0 :: u32]" "length b = 64"
  let ?ddd = "\<lparr>ddd_h = map cpu_to_be32 hs, ddd_data = b\<rparr>"
  have dw: "map be32_to_cpu (ddd_h ?ddd @ dwords (ddd_data ?ddd)) = hs @ map (be_word b) [0..<16]"
    using len(2) by (simp add: be_words cpu_to_be32_def be32_to_cpu_swap comp_def del: upt_Suc)
  define v where "v = foldl sha1_loop
    \<lparr>sha1_a = hs ! 0, sha1_b = hs ! 1, sha1_c = hs ! 2, sha1_d = hs ! 3, sha1_e = hs ! 4, sha1_w = map (sha1_W b) [0..<80]\<rparr> [0..<80]"
  have rounds: "sha1_state v = foldl (sha1_round b) (hs ! 0, hs ! 1, hs ! 2, hs ! 3, hs ! 4) [0..<80]"
    unfolding v_def by (subst sha1_rounds) (auto simp: sha1_state_def)
  have "sha1_compress hs b = map2 (+) hs [sha1_a v, sha1_b v, sha1_c v, sha1_d v, sha1_e v]"
    unfolding sha1_compress_def rounds [symmetric] by (simp add: sha1_state_def)
  moreover have "sha1_digest ?ddd =
    \<lparr>ddd_h = map2 (\<lambda>x y. cpu_to_be32 (x + y)) hs [sha1_a v, sha1_b v, sha1_c v, sha1_d v, sha1_e v],
     ddd_data = undwords (map (be_word b) [0..<16])\<rparr>"
    using len sha1_schedule [OF len(2), of 80] unfolding sha1_digest_def Let_def dw v_def
    by (simp add: nth_append del: upt_Suc)
  ultimately show "ddd_h (sha1_digest ?ddd) = map cpu_to_be32 (sha1_compress hs b)" "length (ddd_data (sha1_digest ?ddd)) = 64"
    by (simp_all add: map2_enc length_undwords del: zip_Cons1)
next
  show "length (be64_bytes x) = 8" for x by (simp add: be64_bytes_def)
qed (simp add: sha1_compress_def Let_def split: prod.splits)

section \<open>SHA-256 computes the reference function\<close>

lemma sha256_schedule:
  assumes "length m = 64" "16 \<le> n"
  shows "foldl sha256_extend (map (be_word m) [0..<16]) [16..<n] = map (sha256_W m) [0..<n]"
  using assms(2)
proof (induction n rule: dec_induct)
  case base
  show ?case by (simp add: sha256_W.simps)
next
  case (step n)
  then show ?case by (simp add: sha256_extend_def Let_def ror32_rotr sha256_W.simps [of m n] algebra_simps)
qed

definition sha256_state :: "sha256_variables \<Rightarrow> sha256_state" where
  "sha256_state v = (sha256_a v, sha256_b v, sha256_c v, sha256_d v, sha256_e v, sha256_f v, sha256_g v, sha256_h v)"

lemma sha256_loop_round:
  assumes "t < 64" "sha256_w v = map (sha256_W m) [0..<64]"
  shows "sha256_state (sha256_loop v t) = sha256_round m (sha256_state v) t" "sha256_w (sha256_loop v t) = sha256_w v"
  using assms
  by (simp_all add: sha256_loop_def Let_def sha256_state_def sha256_round_def ror32_rotr Sigma0_def Sigma1_def Ch_def Maj_def)

lemma sha256_rounds:
  "set ts \<subseteq> {0..<64} \<Longrightarrow> sha256_w v = map (sha256_W m) [0..<64] \<Longrightarrow>
     sha256_state (foldl sha256_loop v ts) = foldl (sha256_round m) (sha256_state v) ts"
proof (induction ts arbitrary: v)
  case (Cons t ts)
  then show ?case using sha256_loop_round [of t v m] by simp
qed simp

interpretation sha256: block_digest sha256_digest sha256_compress cpu_to_be32
  "[0x6a09e667, 0xbb67ae85, 0x3c6ef372, 0xa54ff53a, 0x510e527f, 0x9b05688c, 0x1f83d9ab, 0x5be0cd19]" be64_bytes
proof
  fix hs :: "u32 list" and b :: bytes
  assume "length hs = length [0x6a09e667, 0xbb67ae85, 0x3c6ef372, 0xa54ff53a, 0x510e527f, 0x9b05688c, 0x1f83d9ab, 0x5be0cd19 :: u32]"
  then have len8: "length hs = 8" by simp
  assume len: "length b = 64"
  let ?ddd = "\<lparr>ddd_h = map cpu_to_be32 hs, ddd_data = b\<rparr>"
  have dw: "map be32_to_cpu (ddd_h ?ddd @ dwords (ddd_data ?ddd)) = hs @ map (be_word b) [0..<16]"
    using len by (simp add: be_words cpu_to_be32_def be32_to_cpu_swap comp_def del: upt_Suc)
  define v where "v = foldl sha256_loop
    \<lparr>sha256_a = hs ! 0, sha256_b = hs ! 1, sha256_c = hs ! 2, sha256_d = hs ! 3, sha256_e = hs ! 4, sha256_f = hs ! 5,
     sha256_g = hs ! 6, sha256_h = hs ! 7, sha256_w = map (sha256_W b) [0..<64]\<rparr> [0..<64]"
  let ?new = "[sha256_a v, sha256_b v, sha256_c v, sha256_d v, sha256_e v, sha256_f v, sha256_g v, sha256_h v]"
  have rounds: "sha256_state v =
      foldl (sha256_round b) (hs ! 0, hs ! 1, hs ! 2, hs ! 3, hs ! 4, hs ! 5, hs ! 6, hs ! 7) [0..<64]"
    unfolding v_def by (subst sha256_rounds) (auto simp: sha256_state_def)
  have "sha256_compress hs b = map2 (+) hs ?new"
    unfolding sha256_compress_def rounds [symmetric] by (simp add: sha256_state_def)
  moreover have "sha256_digest ?ddd =
    \<lparr>ddd_h = map2 (\<lambda>x y. cpu_to_be32 (x + y)) hs ?new, ddd_data = undwords (map (be_word b) [0..<16])\<rparr>"
    using len8 sha256_schedule [OF len, of 64] unfolding sha256_digest_def Let_def dw v_def
    by (simp add: nth_append del: upt_Suc)
  ultimately show "ddd_h (sha256_digest ?ddd) = map cpu_to_be32 (sha256_compress hs b)"
    "length (ddd_data (sha256_digest ?ddd)) = 64"
    by (simp_all add: map2_enc length_undwords del: zip_Cons1)
next
  show "length (be64_bytes x) = 8" for x by (simp add: be64_bytes_def)
qed (simp add: sha256_compress_def Let_def split: prod.splits)

section \<open>MD5 computes the reference function\<close>

lemma md5_functions:
  "d XOR (b AND (c XOR d)) = (b AND c) OR (NOT b AND d)" "c XOR (d AND (b XOR c)) = (b AND d) OR (c AND NOT d)" for b c d :: u32
  by (auto intro!: bit_word_eqI simp: bit_simps)

definition md5_state :: "md5_variables \<Rightarrow> u32 \<times> u32 \<times> u32 \<times> u32" where
  "md5_state v = (md5_a v, md5_b v, md5_c v, md5_d v)"

lemma md5_steps_nth:
  assumes "t < 64"
  shows "md5_f (md5_steps ! (t div 16)) v = md5_ft t (md5_b v) (md5_c v) (md5_d v)"
    "(coefficient (md5_steps ! (t div 16)) * t + constant_term (md5_steps ! (t div 16))) mod 16 = md5_index t"
proof -
  have "md5_f (md5_steps ! (t div 16)) v = md5_ft t (md5_b v) (md5_c v) (md5_d v) \<and>
    (coefficient (md5_steps ! (t div 16)) * t + constant_term (md5_steps ! (t div 16))) mod 16 = md5_index t"
  proof -
    consider "t < 16" | "16 \<le> t" "t < 32" | "32 \<le> t" "t < 48" | "48 \<le> t" using assms by linarith
    then show ?thesis
      by cases (use assms in \<open>simp_all add: md5_steps_def md5_ft_def md5_index_def md5_functions
        md5_f_0_15_def md5_f_16_31_def md5_f_32_47_def md5_f_48_63_def and.commute\<close>)
  qed
  then show "md5_f (md5_steps ! (t div 16)) v = md5_ft t (md5_b v) (md5_c v) (md5_d v)"
    "(coefficient (md5_steps ! (t div 16)) * t + constant_term (md5_steps ! (t div 16))) mod 16 = md5_index t" by simp_all
qed

lemma md5_r_range: "t < 64 \<Longrightarrow> 0 < md5_r ! t \<and> md5_r ! t < 32"
proof -
  assume "t < 64"
  moreover have "length md5_r = 64" by (simp add: md5_r_def)
  ultimately have "md5_r ! t \<in> set md5_r" by (metis nth_mem)
  moreover have "\<forall>x \<in> set md5_r. 0 < x \<and> x < 32" by (simp add: md5_r_def)
  ultimately show ?thesis by blast
qed

lemma md5_loop_round:
  assumes "t < 64" "md5_w v = map (le_word m) [0..<16]"
  shows "md5_state (md5_loop v t) = md5_round m (md5_state v) t" "md5_w (md5_loop v t) = md5_w v"
proof -
  have "md5_index t < 16" by (simp add: md5_index_def)
  then show "md5_state (md5_loop v t) = md5_round m (md5_state v) t" "md5_w (md5_loop v t) = md5_w v"
    using assms md5_steps_nth [OF assms(1)] md5_r_range [OF assms(1)]
    by (simp_all add: md5_loop_def Let_def md5_state_def md5_round_def rol32_rotl algebra_simps)
qed

lemma md5_rounds:
  "set ts \<subseteq> {0..<64} \<Longrightarrow> md5_w v = map (le_word m) [0..<16] \<Longrightarrow>
     md5_state (foldl md5_loop v ts) = foldl (md5_round m) (md5_state v) ts"
proof (induction ts arbitrary: v)
  case (Cons t ts)
  then show ?case using md5_loop_round [of t v m] by simp
qed simp

interpretation md5: block_digest md5_digest md5_compress cpu_to_le32
  "[0x67452301, 0xefcdab89, 0x98badcfe, 0x10325476]" le64_bytes
proof
  fix hs :: "u32 list" and b :: bytes
  assume len: "length hs = length [0x67452301, 0xefcdab89, 0x98badcfe, 0x10325476 :: u32]" "length b = 64"
  let ?ddd = "\<lparr>ddd_h = map cpu_to_le32 hs, ddd_data = b\<rparr>"
  have dw: "map le32_to_cpu (ddd_h ?ddd @ dwords (ddd_data ?ddd)) = hs @ map (le_word b) [0..<16]"
    using dwords_map [of b 16] len(2) by (simp add: cpu_to_le32_def le32_to_cpu_def comp_def del: upt_Suc)
  define v where "v = foldl md5_loop
    \<lparr>md5_a = hs ! 0, md5_b = hs ! 1, md5_c = hs ! 2, md5_d = hs ! 3, md5_w = map (le_word b) [0..<16]\<rparr> [0..<64]"
  have rounds: "md5_state v = foldl (md5_round b) (hs ! 0, hs ! 1, hs ! 2, hs ! 3) [0..<64]"
    unfolding v_def by (subst md5_rounds) (auto simp: md5_state_def)
  have "md5_compress hs b = map2 (+) hs [md5_a v, md5_b v, md5_c v, md5_d v]"
    unfolding md5_compress_def rounds [symmetric] by (simp add: md5_state_def)
  moreover have "md5_digest ?ddd = \<lparr>ddd_h = map2 (\<lambda>x y. cpu_to_le32 (x + y)) hs [md5_a v, md5_b v, md5_c v, md5_d v],
     ddd_data = undwords (map (le_word b) [0..<16])\<rparr>"
    using len unfolding md5_digest_def Let_def dw v_def by (simp add: nth_append del: upt_Suc)
  ultimately show "ddd_h (md5_digest ?ddd) = map cpu_to_le32 (md5_compress hs b)" "length (ddd_data (md5_digest ?ddd)) = 64"
    by (simp_all add: map2_enc length_undwords del: zip_Cons1)
next
  show "length (le64_bytes x) = 8" for x by (simp add: le64_bytes_def)
qed (simp add: md5_compress_def Let_def split: prod.splits)

section \<open>The digest interface\<close>

text \<open>A digest algorithm used as its clients use it: initialised on memory with any contents, fed with pieces of data and finalised.\<close>

definition digest_of :: "'c digest_algorithm \<Rightarrow> 'c \<Rightarrow> bytes list \<Rightarrow> bytes \<times> 'c" where
  "digest_of alg ctx chunks = final alg (foldl (update alg) (init alg ctx) chunks)"

definition ctx_ok :: "digest_context \<Rightarrow> bool" where
  "ctx_ok ctx = (length (ddd_data (ctx_ddd ctx)) = 64)"

locale digest =
  fixes alg :: "'c digest_algorithm" and ok :: "'c \<Rightarrow> bool" and H :: "bytes \<Rightarrow> bytes"
  assumes digest_correct: "ok ctx \<Longrightarrow> length (concat chunks) < 2 ^ 32 \<Longrightarrow> fst (digest_of alg ctx chunks) = H (concat chunks)"
    and digest_ok: "ok ctx \<Longrightarrow> ok (snd (digest_of alg ctx chunks))"
    and digest_length: "length (H m) = digestsize alg"
    and digest_fits: "digestsize alg \<le> blocksize alg"

lemma updates_concat: "foldl (update_bytes dg) ctx chunks = update_bytes dg ctx (concat chunks)"
  by (induction chunks arbitrary: ctx) (simp_all add: update_bytes_def)

context block_digest
begin

lemma holds_ok: "holds m ctx \<Longrightarrow> ctx_ok ctx"
  by (auto simp: holds_def ctx_ok_def)

lemma holds_init:
  "ctx_ok ctx \<Longrightarrow> holds [] (ctx\<lparr>ctx_ddd := (ctx_ddd ctx)\<lparr>ddd_h := map enc iv\<rparr>, ctx_len := 0\<rparr>)"
  by (auto simp: holds_def ctx_ok_def chop_short)

lemma ok_final: "holds m ctx \<Longrightarrow> ctx_ok (snd (final_bytes dg len_bytes ctx))"
  unfolding final_bytes_def Let_def snd_conv using holds_ok holds_updates holds_pad by blast

lemma undwords_concat: "(\<And>w. dword_bytes (enc w) = word_bytes w) \<Longrightarrow> undwords (map enc ws) = concat (map word_bytes ws)"
  by (simp add: undwords_def comp_def)

lemma whole_correct:
  assumes "ctx_ok ctx" "length m < 2 ^ 32" "\<And>w. dword_bytes (enc w) = word_bytes w"
  shows "fst (final_bytes dg len_bytes (update_bytes dg
    (ctx\<lparr>ctx_ddd := (ctx_ddd ctx)\<lparr>ddd_h := map enc iv\<rparr>, ctx_len := 0\<rparr>) m)) = hash compress iv word_bytes len_bytes m"
  using final_correct [OF holds_updates [OF holds_init [OF assms(1)]], of m] assms(2,3)
  by (simp add: hash_def undwords_concat)

lemma whole_ok:
  "ctx_ok ctx \<Longrightarrow> ctx_ok (snd (final_bytes dg len_bytes (update_bytes dg
    (ctx\<lparr>ctx_ddd := (ctx_ddd ctx)\<lparr>ddd_h := map enc iv\<rparr>, ctx_len := 0\<rparr>) m)))"
  using ok_final [OF holds_updates [OF holds_init]] .

lemma whole_length:
  assumes "\<And>w. length (word_bytes w) = 4"
  shows "length (hash compress iv word_bytes len_bytes m) = 4 * length iv"
  using assms fold_length [of "chop (padded len_bytes m)"]
  by (simp add: hash_def length_concat comp_def sum_list_triv)

end

lemma length_be32: "length (be32 w) = 4"
  by (simp add: be32_def)

lemmas algorithm_defs = digest_of_def
  md5_algorithm_def md5_init_def md5_update_def md5_final_def
  sha1_algorithm_def sha1_init_def sha1_update_def sha1_final_def
  sha256_algorithm_def sha256_init_def sha256_update_def sha256_final_def

interpretation md5_alg: digest md5_algorithm ctx_ok md5_hash
proof
  fix ctx and chunks :: "bytes list" assume "ctx_ok ctx" "length (concat chunks) < 2 ^ 32"
  then show "fst (digest_of md5_algorithm ctx chunks) = md5_hash (concat chunks)"
    using md5.whole_correct [where word_bytes = "rev \<circ> be32"] dword_bytes_le32
    by (simp add: algorithm_defs updates_concat md5_hash_def del: list.map)
next
  show "ctx_ok ctx \<Longrightarrow> ctx_ok (snd (digest_of md5_algorithm ctx chunks))" for ctx chunks
    using md5.whole_ok by (simp add: algorithm_defs updates_concat del: list.map)
next
  show "length (md5_hash m) = digestsize md5_algorithm" for m
    using md5.whole_length [of "rev \<circ> be32" m] by (simp add: md5_hash_def md5_algorithm_def length_be32)
qed (simp add: md5_algorithm_def)

interpretation sha1_alg: digest sha1_algorithm ctx_ok sha1_hash
proof
  fix ctx and chunks :: "bytes list" assume "ctx_ok ctx" "length (concat chunks) < 2 ^ 32"
  then show "fst (digest_of sha1_algorithm ctx chunks) = sha1_hash (concat chunks)"
    using sha1.whole_correct [where word_bytes = be32] dword_bytes_be32
    by (simp add: algorithm_defs updates_concat sha1_hash_def del: list.map)
next
  show "ctx_ok ctx \<Longrightarrow> ctx_ok (snd (digest_of sha1_algorithm ctx chunks))" for ctx chunks
    using sha1.whole_ok by (simp add: algorithm_defs updates_concat del: list.map)
next
  show "length (sha1_hash m) = digestsize sha1_algorithm" for m
    using sha1.whole_length [of be32 m] by (simp add: sha1_hash_def sha1_algorithm_def length_be32)
qed (simp add: sha1_algorithm_def)

interpretation sha256_alg: digest sha256_algorithm ctx_ok sha256_hash
proof
  fix ctx and chunks :: "bytes list" assume "ctx_ok ctx" "length (concat chunks) < 2 ^ 32"
  then show "fst (digest_of sha256_algorithm ctx chunks) = sha256_hash (concat chunks)"
    using sha256.whole_correct [where word_bytes = be32] dword_bytes_be32
    by (simp add: algorithm_defs updates_concat sha256_hash_def del: list.map)
next
  show "ctx_ok ctx \<Longrightarrow> ctx_ok (snd (digest_of sha256_algorithm ctx chunks))" for ctx chunks
    using sha256.whole_ok by (simp add: algorithm_defs updates_concat del: list.map)
next
  show "length (sha256_hash m) = digestsize sha256_algorithm" for m
    using sha256.whole_length [of be32 m] by (simp add: sha256_hash_def sha256_algorithm_def length_be32)
qed (simp add: sha256_algorithm_def)

text \<open>
  C23.  However a message of less than \<open>2 ^ 32\<close> bytes is cut into pieces, and whatever the context held before, the MD5, SHA-1 and SHA-256
  algorithms return the digest that RFC 1321 and FIPS 180-4 define for the whole message.
\<close>

theorem digests_correct:
  assumes "length (ddd_data (ctx_ddd ctx)) = 64" "length (concat chunks) < 2 ^ 32"
  shows "fst (digest_of md5_algorithm ctx chunks) = md5_hash (concat chunks) \<and>
    fst (digest_of sha1_algorithm ctx chunks) = sha1_hash (concat chunks) \<and>
    fst (digest_of sha256_algorithm ctx chunks) = sha256_hash (concat chunks)"
  using assms md5_alg.digest_correct sha1_alg.digest_correct sha256_alg.digest_correct by (simp add: ctx_ok_def)

definition sample_ctx :: digest_context where
  "sample_ctx = \<lparr>ctx_len = 7, ctx_ddd = \<lparr>ddd_h = [], ddd_data = replicate 64 0x55\<rparr>\<rparr>"

theorem digests_correct_witness:
  "fst (digest_of sha1_algorithm sample_ctx [[0x61], [0x62, 0x63]]) = sha1_hash [0x61, 0x62, 0x63]"
  using digests_correct [of sample_ctx "[[0x61], [0x62, 0x63]]"] by (simp add: sample_ctx_def)

end
