(* ===== verification/Hmac.thy ===== *)
theory Hmac
  imports Digest
begin

text \<open>
  Keyed hashing and what is built on it: \<open>crypto/hmac.c\<close>, the key derivation functions of \<open>crypto/sha1extra.c\<close> and the
  derivation function of \<open>crypto/hash_df.c\<close>.

  A buffer is the list of its bytes; the functions that change the key and its length return both.  The digest contexts on the stack
  are not initialised by the code: \<open>stk\<close> is what such a context holds at first.
\<close>

unbundle bit_operations_syntax

section \<open>HMAC\<close>

definition hmac_reduce_key :: "'c digest_algorithm \<Rightarrow> 'c \<Rightarrow> bytes \<Rightarrow> nat \<Rightarrow> bytes \<times> nat" where
  "hmac_reduce_key alg stk key key_len =
     (let ctx = init alg stk;
          ctx = update alg ctx (take key_len key);
          (out, ctx) = final alg ctx
      in (out @ drop (length out) key, digestsize alg))"

definition hmac_pad :: "'c digest_algorithm \<Rightarrow> bytes \<Rightarrow> nat \<Rightarrow> u8 \<Rightarrow> bytes" where
  "hmac_pad alg key key_len x =
     map (\<lambda>b. b XOR x) (take key_len key @ replicate (blocksize alg - key_len) 0)"

definition hmac_init :: "'c digest_algorithm \<Rightarrow> 'c \<Rightarrow> 'c \<Rightarrow> bytes \<Rightarrow> nat \<Rightarrow> 'c \<times> bytes \<times> nat" where
  "hmac_init alg stk ctx key key_len =
     (let (key, key_len) = (if blocksize alg < key_len then hmac_reduce_key alg stk key key_len else (key, key_len));
          k_ipad = hmac_pad alg key key_len 0x36;
          ctx = init alg ctx;
          ctx = update alg ctx k_ipad
      in (ctx, key, key_len))"

definition hmac_update :: "'c digest_algorithm \<Rightarrow> 'c \<Rightarrow> bytes \<Rightarrow> 'c" where
  "hmac_update alg ctx data = update alg ctx data"

definition hmac_final :: "'c digest_algorithm \<Rightarrow> 'c \<Rightarrow> 'c \<Rightarrow> bytes \<Rightarrow> nat \<Rightarrow> bytes \<times> 'c \<times> bytes \<times> nat" where
  "hmac_final alg stk ctx key key_len =
     (let (key, key_len) = (if blocksize alg < key_len then hmac_reduce_key alg stk key key_len else (key, key_len));
          k_opad = hmac_pad alg key key_len 0x5c;
          (hmac, ctx) = final alg ctx;
          ctx = init alg ctx;
          ctx = update alg ctx k_opad;
          ctx = update alg ctx (take (digestsize alg) hmac);
          (hmac, ctx) = final alg ctx
      in (hmac, ctx, key, key_len))"

section \<open>Key derivation\<close>

function prf_loop :: "digest_context \<Rightarrow> digest_context \<Rightarrow> bytes \<Rightarrow> nat \<Rightarrow> bytes \<Rightarrow> u32 \<Rightarrow> nat \<Rightarrow> bytes" where
  "prf_loop stk ctx keym key_len inp blk prf_len =
     (let (ctx, keym, key_len) = hmac_init sha1_algorithm stk ctx keym key_len;
          ctx = hmac_update sha1_algorithm ctx (inp @ [ucast blk]);
          (out, ctx, keym, key_len) = hmac_final sha1_algorithm stk ctx keym key_len
      in if prf_len \<le> 20 then take prf_len out
         else out @ prf_loop stk ctx keym key_len inp (blk + 1) (prf_len - 20))"
  by pat_completeness auto

termination prf_loop
  by (relation "measure (\<lambda>(stk, ctx, keym, key_len, inp, blk, prf_len). prf_len)") auto

definition prf_sha1 :: "digest_context \<Rightarrow> bytes \<Rightarrow> bytes \<Rightarrow> bytes \<Rightarrow> nat \<Rightarrow> bytes" where
  "prf_sha1 stk key label data prf_len = prf_loop stk stk key (length key) (label @ 0 # data) 0 prf_len"

fun pbkdf2_loop :: "nat \<Rightarrow> digest_context \<Rightarrow> digest_context \<Rightarrow> bytes \<Rightarrow> nat \<Rightarrow> bytes \<Rightarrow> bytes \<Rightarrow> bytes" where
  "pbkdf2_loop 0 stk ctx pass pass_len next_in block = block"
| "pbkdf2_loop (Suc n) stk ctx pass pass_len next_in block =
     (let (ctx, pass, pass_len) = hmac_init sha1_algorithm stk ctx pass pass_len;
          ctx = hmac_update sha1_algorithm ctx next_in;
          (last, ctx, pass, pass_len) = hmac_final sha1_algorithm stk ctx pass pass_len
      in pbkdf2_loop n stk ctx pass pass_len last (map2 (XOR) block last))"

definition pbkdf2_sha1_f :: "digest_context \<Rightarrow> bytes \<Rightarrow> bytes \<Rightarrow> int \<Rightarrow> u32 \<Rightarrow> bytes" where
  "pbkdf2_sha1_f stk passphrase salt iterations blocknr =
     pbkdf2_loop (nat iterations) stk stk passphrase (length passphrase) (salt @ be32 blocknr) (replicate 20 0)"

fun pbkdf2_blocks :: "digest_context \<Rightarrow> bytes \<Rightarrow> bytes \<Rightarrow> int \<Rightarrow> nat \<Rightarrow> u32 \<Rightarrow> nat \<Rightarrow> bytes" where
  "pbkdf2_blocks stk passphrase salt iterations 0 blk key_len = []"
| "pbkdf2_blocks stk passphrase salt iterations (Suc n) blk key_len =
     (let buf = pbkdf2_sha1_f stk passphrase salt iterations blk
      in if key_len \<le> 20 then take key_len buf
         else buf @ pbkdf2_blocks stk passphrase salt iterations n (blk + 1) (key_len - 20))"

definition pbkdf2_sha1 :: "digest_context \<Rightarrow> bytes \<Rightarrow> bytes \<Rightarrow> int \<Rightarrow> u32 \<Rightarrow> bytes" where
  "pbkdf2_sha1 stk passphrase salt iterations key_len =
     (let blocks = (key_len + 20 - 1) div 20
      in pbkdf2_blocks stk passphrase salt iterations (unat blocks) 1 (unat key_len))"

text \<open>With a digest of no bytes the loop of \<open>hash_df\<close> never ends, which is the value \<open>None\<close>.\<close>

function hash_df_loop :: "'c digest_algorithm \<Rightarrow> 'c \<Rightarrow> u8 \<Rightarrow> u32 \<Rightarrow> bytes \<Rightarrow> nat \<Rightarrow> bytes option" where
  "hash_df_loop alg ctx counter output_len inp remaining =
     (if remaining = 0 then Some []
      else
        (let ctx = init alg ctx;
             ctx = update alg ctx (counter # be32 (output_len * 8));
             ctx = update alg ctx inp;
             (dg, ctx) = final alg ctx;
             frag_len = (if remaining < digestsize alg then remaining else digestsize alg)
         in if frag_len = 0 then None
            else map_option ((@) (take frag_len dg))
                   (hash_df_loop alg ctx (counter + 1) output_len inp (remaining - frag_len))))"
  by pat_completeness auto

termination hash_df_loop
  by (relation "measure (\<lambda>(alg, ctx, counter, output_len, inp, remaining). remaining)") auto

definition hash_df :: "'c digest_algorithm \<Rightarrow> 'c \<Rightarrow> bytes \<Rightarrow> u32 \<Rightarrow> bytes option" where
  "hash_df alg stk inp output_len = hash_df_loop alg stk 1 output_len inp (unat output_len)"

section \<open>Reference definitions\<close>

text \<open>RFC 2104, IEEE 802.11-2007 8.5.5.1, RFC 2898 and NIST SP 800-90 10.4.1.\<close>

definition block_key :: "(bytes \<Rightarrow> bytes) \<Rightarrow> nat \<Rightarrow> bytes \<Rightarrow> bytes" where
  "block_key H B K = (let K0 = (if B < length K then H K else K) in K0 @ replicate (B - length K0) 0)"

definition HMAC :: "(bytes \<Rightarrow> bytes) \<Rightarrow> nat \<Rightarrow> bytes \<Rightarrow> bytes \<Rightarrow> bytes" where
  "HMAC H B K m =
     H (map (\<lambda>b. b XOR 0x5c) (block_key H B K) @ H (map (\<lambda>b. b XOR 0x36) (block_key H B K) @ m))"

definition HMAC_SHA1 :: "bytes \<Rightarrow> bytes \<Rightarrow> bytes" where
  "HMAC_SHA1 = HMAC sha1_hash 64"

definition nblocks :: "nat \<Rightarrow> nat \<Rightarrow> nat" where
  "nblocks n d = (n + d - 1) div d"

definition PRF :: "bytes \<Rightarrow> bytes \<Rightarrow> bytes \<Rightarrow> nat \<Rightarrow> bytes" where
  "PRF K A B n = take n (concat (map (\<lambda>i. HMAC_SHA1 K (A @ 0 # B @ [of_nat i])) [0..<nblocks n 20]))"

fun PBKDF2_U :: "bytes \<Rightarrow> bytes \<Rightarrow> nat \<Rightarrow> bytes" where
  "PBKDF2_U P m 0 = m"
| "PBKDF2_U P m (Suc j) = HMAC_SHA1 P (PBKDF2_U P m j)"

definition PBKDF2_F :: "bytes \<Rightarrow> bytes \<Rightarrow> nat \<Rightarrow> nat \<Rightarrow> bytes" where
  "PBKDF2_F P S c i = fold (\<lambda>j x. map2 (XOR) x (PBKDF2_U P (S @ be32 (of_nat i)) j)) [1..<Suc c] (replicate 20 0)"

definition PBKDF2 :: "bytes \<Rightarrow> bytes \<Rightarrow> nat \<Rightarrow> nat \<Rightarrow> bytes" where
  "PBKDF2 P S c dkLen = take dkLen (concat (map (PBKDF2_F P S c) [1..<Suc (nblocks dkLen 20)]))"

definition HASH_DF :: "(bytes \<Rightarrow> bytes) \<Rightarrow> nat \<Rightarrow> bytes \<Rightarrow> nat \<Rightarrow> bytes" where
  "HASH_DF H outlen m n =
     take n (concat (map (\<lambda>i. H (of_nat i # be32 (of_nat (8 * n)) @ m)) [1..<Suc (nblocks n outlen)]))"

declare prf_loop.simps [simp del] hash_df_loop.simps [simp del]

section \<open>HMAC computes the reference function\<close>

context digest
begin

text \<open>The key buffer holds the key or, after a call that reduced it, its digest.\<close>

definition holds_key :: "bytes \<Rightarrow> bytes \<Rightarrow> nat \<Rightarrow> bool" where
  "holds_key K key key_len = (take key_len key = K \<and> key_len = length K \<and> length K < 2 ^ 32 \<or>
     blocksize alg < length K \<and> take key_len key = H K \<and> key_len = digestsize alg)"

lemma hash_one: "ok ctx \<Longrightarrow> length m < 2 ^ 32 \<Longrightarrow> fst (final alg (update alg (init alg ctx) m)) = H m"
  using digest_correct [of ctx "[m]"] by (simp add: digest_of_def)

lemma reduced_key:
  assumes "ok stk" "holds_key K key key_len"
    "(if blocksize alg < key_len then hmac_reduce_key alg stk key key_len else (key, key_len)) = (key', key_len')"
  shows "take key_len' key' @ replicate (blocksize alg - key_len') 0 = block_key H (blocksize alg) K"
    "holds_key K key' key_len'" "key_len' \<le> blocksize alg" "\<not> blocksize alg < key_len'"
proof -
  let ?K0 = "if blocksize alg < length K then H K else K"
  have "take key_len' key' = ?K0 \<and> key_len' = length ?K0 \<and> holds_key K key' key_len' \<and> key_len' \<le> blocksize alg"
  proof (cases "blocksize alg < key_len")
    case True
    then have K: "take key_len key = K" "key_len = length K" "length K < 2 ^ 32"
      using assms(2) digest_fits by (auto simp: holds_key_def)
    then have "fst (final alg (update alg (init alg stk) (take key_len key))) = H K" using hash_one assms(1) by simp
    then have "key' = H K @ drop (length (H K)) key" "key_len' = digestsize alg"
      using assms(3) True by (auto simp: hmac_reduce_key_def Let_def split: prod.splits)
    then show ?thesis using True K(2) digest_length digest_fits by (simp add: holds_key_def)
  next
    case False
    then show ?thesis using assms(2,3) digest_length digest_fits by (auto simp: holds_key_def)
  qed
  then show "take key_len' key' @ replicate (blocksize alg - key_len') 0 = block_key H (blocksize alg) K"
    "holds_key K key' key_len'" "key_len' \<le> blocksize alg" "\<not> blocksize alg < key_len'"
    by (auto simp: block_key_def Let_def)
qed

lemma length_block_key: "length (block_key H (blocksize alg) K) = blocksize alg"
  using digest_length digest_fits by (simp add: block_key_def Let_def)

lemma hmac_correct:
  assumes "ok stk" "ok ctx" "holds_key K key key_len" "blocksize alg + length (concat chunks) < 2 ^ 32"
    "2 * blocksize alg < 2 ^ 32"
    "hmac_init alg stk ctx key key_len = (ctx1, key1, key_len1)"
    "hmac_final alg stk (foldl (hmac_update alg) ctx1 chunks) key1 key_len1 = (out, ctx2, key2, key_len2)"
  shows "out = HMAC H (blocksize alg) K (concat chunks)" "ok ctx2" "holds_key K key2 key_len2" "key_len2 \<le> blocksize alg"
proof -
  let ?ipad = "map (\<lambda>b. b XOR 0x36) (block_key H (blocksize alg) K)" and ?opad = "map (\<lambda>b. b XOR 0x5c) (block_key H (blocksize alg) K)"
  obtain k l where red: "(if blocksize alg < key_len then hmac_reduce_key alg stk key key_len else (key, key_len)) = (k, l)"
    by (metis surj_pair)
  note rk = reduced_key [OF assms(1,3) red]
  have k1: "ctx1 = update alg (init alg ctx) ?ipad" "key1 = k" "key_len1 = l"
    using assms(6) unfolding hmac_init_def Let_def red hmac_pad_def prod.case rk(1) by simp_all
  define d where "d = digest_of alg ctx (?ipad # chunks)"
  have inner: "final alg (foldl (hmac_update alg) ctx1 chunks) = (fst d, snd d)"
    by (simp add: d_def digest_of_def k1(1) hmac_update_def [abs_def])
  have d: "fst d = H (?ipad @ concat chunks)" "ok (snd d)" "length (fst d) = digestsize alg"
    using digest_correct [OF assms(2), of "?ipad # chunks"] digest_ok [OF assms(2)] assms(4)
    by (simp_all add: d_def length_block_key digest_length)
  define r where "r = digest_of alg (snd d) [?opad, fst d]"
  have "final alg (update alg (update alg (init alg (snd d)) ?opad) (take (digestsize alg) (fst d))) = (fst r, snd r)"
    using d(3) by (simp add: r_def digest_of_def)
  then have "(out, ctx2, key2, key_len2) = (fst r, snd r, k, l)"
    using rk(4) unfolding assms(7) [symmetric] hmac_final_def inner k1(2,3) Let_def hmac_pad_def
    by (simp only: if_False prod.case rk(1))
  moreover have "fst r = H (?opad @ fst d)"
    using digest_correct [OF d(2), of "[?opad, fst d]"] assms(5) d(3) digest_fits by (simp add: length_block_key r_def)
  moreover have "ok (snd r)" using digest_ok [OF d(2)] by (simp add: r_def)
  ultimately show "out = HMAC H (blocksize alg) K (concat chunks)" "ok ctx2" "holds_key K key2 key_len2" "key_len2 \<le> blocksize alg"
    using d(1) rk by (simp_all add: HMAC_def)
qed

lemma length_HMAC: "length (HMAC H (blocksize alg) K m) = digestsize alg"
  by (simp add: HMAC_def digest_length)

lemma hmac_call:
  assumes "ok stk" "ok ctx" "holds_key K key key_len" "blocksize alg + length (concat chunks) < 2 ^ 32" "2 * blocksize alg < 2 ^ 32"
  obtains ctx1 key1 key_len1 ctx2 key2 key_len2 where "hmac_init alg stk ctx key key_len = (ctx1, key1, key_len1)"
    "hmac_final alg stk (foldl (hmac_update alg) ctx1 chunks) key1 key_len1 =
       (HMAC H (blocksize alg) K (concat chunks), ctx2, key2, key_len2)"
    "ok ctx2" "holds_key K key2 key_len2"
  using hmac_correct [OF assms] by (metis prod_cases4 surj_pair)

end

section \<open>Key derivation computes the reference functions\<close>

lemma nblocks_last: "n \<le> d \<Longrightarrow> 0 < n \<Longrightarrow> nblocks n d = 1"
proof -
  assume "n \<le> d" "0 < n"
  then have eq: "n + d - 1 = (n - 1) + d" and "n - 1 < d" "d \<noteq> 0" by auto
  then show ?thesis unfolding nblocks_def eq by (subst div_add_self2) simp_all
qed

lemma nblocks_step: "d < n \<Longrightarrow> 0 < d \<Longrightarrow> nblocks n d = Suc (nblocks (n - d) d)"
proof -
  assume "d < n" "0 < d"
  then have eq: "n + d - 1 = (n - d + d - 1) + d" and "d \<noteq> 0" by auto
  then show ?thesis unfolding nblocks_def eq by (subst div_add_self2) simp_all
qed

text \<open>Blocks of \<open>d\<close> bytes generated one after the other until there are enough of them.\<close>

lemma take_blocks:
  assumes "\<And>i. length (f i) = d" "0 < d"
  shows "take n (concat (map f [b..<b + nblocks n d])) =
    (if n \<le> d then take n (f b) else f b @ take (n - d) (concat (map f [Suc b..<Suc b + nblocks (n - d) d])))"
proof (cases "n = 0")
  case False
  then have "[b..<b + nblocks n d] = b # [Suc b..<Suc b + nblocks (n - d) d]" if "d < n"
    using nblocks_step [OF that assms(2)] by (simp add: upt_conv_Cons)
  moreover have "[b..<b + nblocks n d] = [b]" if "n \<le> d" using nblocks_last that False by simp
  ultimately show ?thesis using assms(1) by simp
qed (use assms in simp)

lemma blocksize_sha1: "blocksize sha1_algorithm = 64" "digestsize sha1_algorithm = 20"
  by (simp_all add: sha1_algorithm_def)

lemma length_HMAC_SHA1: "length (HMAC_SHA1 K m) = 20"
  using sha1_alg.length_HMAC [of K m] by (simp add: HMAC_SHA1_def blocksize_sha1)

lemma hmac_sha1_call:
  assumes "ctx_ok stk" "ctx_ok ctx" "sha1_alg.holds_key K key key_len" "64 + length m < 2 ^ 32"
  obtains ctx1 key1 key_len1 ctx2 key2 key_len2 where "hmac_init sha1_algorithm stk ctx key key_len = (ctx1, key1, key_len1)"
    "hmac_final sha1_algorithm stk (hmac_update sha1_algorithm ctx1 m) key1 key_len1 = (HMAC_SHA1 K m, ctx2, key2, key_len2)"
    "ctx_ok ctx2" "sha1_alg.holds_key K key2 key_len2"
proof (rule sha1_alg.hmac_call [OF assms(1-3), of "[m]"])
  show "blocksize sha1_algorithm + length (concat [m]) < 2 ^ 32" "2 * blocksize sha1_algorithm < 2 ^ 32"
    using assms(4) by (simp_all add: blocksize_sha1)
qed (simp add: blocksize_sha1 that HMAC_SHA1_def)

lemma prf_loop_correct:
  assumes "ctx_ok stk" "ctx_ok ctx" "sha1_alg.holds_key K keym key_len" "65 + length inp < 2 ^ 32"
  shows "prf_loop stk ctx keym key_len inp (of_nat b) n =
    take n (concat (map (\<lambda>i. HMAC_SHA1 K (inp @ [of_nat i])) [b..<b + nblocks n 20]))"
  using assms(2,3)
proof (induction n arbitrary: ctx keym key_len b rule: less_induct)
  case (less n)
  let ?m = "inp @ [of_nat b]"
  have blk: "ucast (of_nat b :: u32) = (of_nat b :: u8)"
    by (rule bit_word_eqI) (simp add: bit_simps)
  obtain ctx1 key1 key_len1 ctx2 key2 key_len2 where "hmac_init sha1_algorithm stk ctx keym key_len = (ctx1, key1, key_len1)"
    "hmac_final sha1_algorithm stk (hmac_update sha1_algorithm ctx1 ?m) key1 key_len1 = (HMAC_SHA1 K ?m, ctx2, key2, key_len2)"
    "ctx_ok ctx2" "sha1_alg.holds_key K key2 key_len2"
    by (rule hmac_sha1_call [OF assms(1) less.prems, of ?m]) (use assms(4) in auto)
  then have "prf_loop stk ctx keym key_len inp (of_nat b) n =
      (if n \<le> 20 then take n (HMAC_SHA1 K ?m) else HMAC_SHA1 K ?m @ prf_loop stk ctx2 key2 key_len2 inp (of_nat (Suc b)) (n - 20))"
    by (subst prf_loop.simps) (simp add: blk Let_def add.commute)
  also have "\<dots> = take n (concat (map (\<lambda>i. HMAC_SHA1 K (inp @ [of_nat i])) [b..<b + nblocks n 20]))"
    using less.IH [of "n - 20" ctx2 key2 key_len2 "Suc b"] \<open>ctx_ok ctx2\<close> \<open>sha1_alg.holds_key K key2 key_len2\<close>
      take_blocks [of "\<lambda>i. HMAC_SHA1 K (inp @ [of_nat i])" 20 n b] length_HMAC_SHA1 by (simp del: upt_Suc)
  finally show ?case .
qed

lemma length_PBKDF2_F: "length (PBKDF2_F P S c i) = 20"
proof -
  have "length (fold (\<lambda>j x. map2 (XOR) x (PBKDF2_U P m j)) js x) = 20"
    if "length x = 20" "0 \<notin> set js" for m js and x :: bytes
    using that
  proof (induction js arbitrary: x)
    case (Cons j js)
    then obtain k where "j = Suc k" by (cases j) auto
    with Cons show ?case by (simp add: length_HMAC_SHA1)
  qed simp
  then show ?thesis by (simp add: PBKDF2_F_def del: upt_Suc)
qed

lemma pbkdf2_loop_correct:
  assumes "ctx_ok stk" "64 + length m < 2 ^ 32" "ctx_ok ctx" "sha1_alg.holds_key P pass pass_len"
  shows "pbkdf2_loop n stk ctx pass pass_len (PBKDF2_U P m k) block =
    fold (\<lambda>j x. map2 (XOR) x (PBKDF2_U P m j)) [Suc k..<Suc k + n] block"
  using assms(3,4)
proof (induction n arbitrary: ctx pass pass_len k block)
  case (Suc n)
  have "64 + length (PBKDF2_U P m k) < 2 ^ 32" using assms(2) by (cases k) (simp_all add: length_HMAC_SHA1)
  then obtain ctx1 key1 key_len1 ctx2 key2 key_len2 where
    "hmac_init sha1_algorithm stk ctx pass pass_len = (ctx1, key1, key_len1)"
    "hmac_final sha1_algorithm stk (hmac_update sha1_algorithm ctx1 (PBKDF2_U P m k)) key1 key_len1 =
       (PBKDF2_U P m (Suc k), ctx2, key2, key_len2)" and ok: "ctx_ok ctx2" "sha1_alg.holds_key P key2 key_len2"
    by (rule hmac_sha1_call [OF assms(1) Suc.prems]) simp
  then show ?case
    using Suc.IH [OF ok, of "Suc k"] by (simp add: upt_conv_Cons [of "Suc k"] del: PBKDF2_U.simps upt_Suc)
qed simp

lemma pbkdf2_sha1_f_correct:
  assumes "ctx_ok stk" "length passphrase < 2 ^ 32" "68 + length salt < 2 ^ 32"
  shows "pbkdf2_sha1_f stk passphrase salt iterations (of_nat i) = PBKDF2_F passphrase salt (nat iterations) i"
proof -
  have "sha1_alg.holds_key passphrase passphrase (length passphrase)" using assms(2) by (simp add: sha1_alg.holds_key_def)
  from pbkdf2_loop_correct [OF assms(1) _ assms(1) this, of "salt @ be32 (of_nat i)" "nat iterations" 0] assms(3)
  show ?thesis by (simp add: pbkdf2_sha1_f_def PBKDF2_F_def length_be32 del: upt_Suc)
qed

lemma pbkdf2_blocks_correct:
  assumes "ctx_ok stk" "length passphrase < 2 ^ 32" "68 + length salt < 2 ^ 32"
  shows "pbkdf2_blocks stk passphrase salt iterations (nblocks n 20) (of_nat b) n =
    take n (concat (map (PBKDF2_F passphrase salt (nat iterations)) [b..<b + nblocks n 20]))"
proof (induction n arbitrary: b rule: less_induct)
  case (less n)
  let ?F = "PBKDF2_F passphrase salt (nat iterations)"
  note F = pbkdf2_sha1_f_correct [OF assms, of iterations b]
  show ?case
  proof (cases "n \<le> 20")
    case True
    then show ?thesis
      using take_blocks [of ?F 20 n b] length_PBKDF2_F nblocks_last [of n 20] F
      by (cases "n = 0") (simp_all add: nblocks_def [of 0])
  next
    case False
    then have "pbkdf2_blocks stk passphrase salt iterations (nblocks n 20) (of_nat b) n =
        ?F b @ pbkdf2_blocks stk passphrase salt iterations (nblocks (n - 20) 20) (of_nat (Suc b)) (n - 20)"
      using nblocks_step [of 20 n] F by (simp add: Let_def add.commute)
    then show ?thesis
      using less.IH [of "n - 20" "Suc b"] False take_blocks [of ?F 20 n b] length_PBKDF2_F by (simp del: upt_Suc)
  qed
qed

context digest
begin

lemma hash_df_loop_correct:
  assumes "ok ctx" "5 + length inp < 2 ^ 32" "0 < digestsize alg"
  shows "hash_df_loop alg ctx (of_nat b) olen inp n =
    Some (take n (concat (map (\<lambda>i. H (of_nat i # be32 (olen * 8) @ inp)) [b..<b + nblocks n (digestsize alg)])))"
  using assms(1)
proof (induction n arbitrary: ctx b rule: less_induct)
  case (less n)
  let ?f = "\<lambda>i. H (of_nat i # be32 (olen * 8) @ inp)" and ?d = "digestsize alg"
  define r where "r = digest_of alg ctx [of_nat b # be32 (olen * 8), inp]"
  have r: "fst r = ?f b" "ok (snd r)" "length (fst r) = ?d"
    using digest_correct [OF less.prems, of "[of_nat b # be32 (olen * 8), inp]"] digest_ok [OF less.prems] assms(2)
    by (simp_all add: r_def length_be32 digest_length)
  have fin: "final alg (update alg (update alg (init alg ctx) (of_nat b # be32 (olen * 8))) inp) = (fst r, snd r)"
    by (simp add: r_def digest_of_def)
  show ?case
  proof (cases "n \<le> ?d")
    case True
    then show ?thesis
      using take_blocks [of ?f ?d n b] digest_length assms(3) r(1,3)
      by (subst hash_df_loop.simps) (auto simp: fin Let_def hash_df_loop.simps [of _ _ _ _ _ 0] not_less)
  next
    case False
    then have "hash_df_loop alg ctx (of_nat b) olen inp n =
        map_option ((@) (?f b)) (hash_df_loop alg (snd r) (of_nat (Suc b)) olen inp (n - ?d))"
      using assms(3) r(1,3) by (subst hash_df_loop.simps) (simp add: fin Let_def add.commute)
    then show ?thesis
      using less.IH [of "n - ?d" "snd r" "Suc b"] False r(2) assms(3) take_blocks [of ?f ?d n b] digest_length
      by (simp del: upt_Suc)
  qed
qed

end

text \<open>A keyed hash computed as the clients do: initialised, fed with pieces of data and finalised.\<close>

definition hmac_of :: "'c digest_algorithm \<Rightarrow> 'c \<Rightarrow> 'c \<Rightarrow> bytes \<Rightarrow> bytes list \<Rightarrow> bytes" where
  "hmac_of alg stk ctx key chunks =
     (case hmac_init alg stk ctx key (length key) of
        (ctx, key, key_len) \<Rightarrow> fst (hmac_final alg stk (foldl (hmac_update alg) ctx chunks) key key_len))"

context digest
begin

lemma hmac_of_correct:
  assumes "ok stk" "ok ctx" "length key < 2 ^ 32" "blocksize alg + length (concat chunks) < 2 ^ 32" "2 * blocksize alg < 2 ^ 32"
  shows "hmac_of alg stk ctx key chunks = HMAC H (blocksize alg) key (concat chunks)"
proof -
  have "holds_key key key (length key)" using assms(3) by (simp add: holds_key_def)
  from hmac_call [OF assms(1,2) this assms(4,5)] show ?thesis
    by (metis (no_types, lifting) hmac_of_def fst_conv prod.case)
qed

end

text \<open>
  C24.  The keyed hash of a message that is given in pieces is the one RFC 2104 defines for the whole message, for MD5, SHA-1 and SHA-256,
  for keys of any length: a key longer than a block is replaced by its digest once, whichever of the two functions sees it first.
\<close>

theorem hmac_is_rfc2104:
  assumes "(alg, H) \<in> {(md5_algorithm, md5_hash), (sha1_algorithm, sha1_hash), (sha256_algorithm, sha256_hash)}"
    "length (ddd_data (ctx_ddd stk)) = 64" "length (ddd_data (ctx_ddd ctx)) = 64"
    "length key < 2 ^ 32" "64 + length (concat chunks) < 2 ^ 32"
  shows "hmac_of alg stk ctx key chunks = HMAC H 64 key (concat chunks)"
proof -
  have "blocksize alg = 64" using assms(1) by (auto simp: md5_algorithm_def sha1_algorithm_def sha256_algorithm_def)
  then show ?thesis
    using assms md5_alg.hmac_of_correct [of stk ctx key chunks] sha1_alg.hmac_of_correct [of stk ctx key chunks]
      sha256_alg.hmac_of_correct [of stk ctx key chunks] by (auto simp: ctx_ok_def)
qed

theorem hmac_is_rfc2104_witness:
  "hmac_of sha256_algorithm sample_ctx sample_ctx (replicate 100 0xaa) [[0x61], [0x62]] =
     HMAC sha256_hash 64 (replicate 100 0xaa) [0x61, 0x62]"
  using hmac_is_rfc2104 [of sha256_algorithm sha256_hash sample_ctx sample_ctx "replicate 100 0xaa" "[[0x61], [0x62]]"]
  by (simp add: sample_ctx_def)

text \<open>
  C25.  The derived keys are the specified ones: \<open>prf_sha1\<close> computes the pseudorandom function of IEEE 802.11, \<open>pbkdf2_sha1\<close> the function
  PBKDF2 of RFC 2898, and \<open>hash_df\<close> with SHA-256 the function Hash_df of NIST SP 800-90, for every length of output.
\<close>

theorem derived_keys_correct:
  assumes "length (ddd_data (ctx_ddd stk)) = 64" "length key < 2 ^ 32"
  shows "(66 + length label + length data < 2 ^ 32 \<longrightarrow> prf_sha1 stk key label data n = PRF key label data n) \<and>
    (68 + length data < 2 ^ 32 \<longrightarrow> unat len + 19 < 2 ^ 32 \<longrightarrow>
       pbkdf2_sha1 stk key data iterations len = PBKDF2 key data (nat iterations) (unat len)) \<and>
    (5 + length data < 2 ^ 32 \<longrightarrow> hash_df sha256_algorithm stk data len = Some (HASH_DF sha256_hash 32 data (unat len)))"
proof (intro conjI impI)
  have ok: "ctx_ok stk" using assms(1) by (simp add: ctx_ok_def)
  have key: "sha1_alg.holds_key key key (length key)" using assms(2) by (simp add: sha1_alg.holds_key_def)
  show "prf_sha1 stk key label data n = PRF key label data n" if "66 + length label + length data < 2 ^ 32"
    using prf_loop_correct [OF ok ok key, of "label @ 0 # data" 0 n] that by (simp add: prf_sha1_def PRF_def)
  show "pbkdf2_sha1 stk key data iterations len = PBKDF2 key data (nat iterations) (unat len)"
    if "68 + length data < 2 ^ 32" "unat len + 19 < 2 ^ 32"
  proof -
    have "unat (19 + len) = 19 + unat len" using that(2) by (simp add: unat_word_ariths)
    then have "unat ((len + 20 - 1) div 20) = nblocks (unat len) 20" by (simp add: unat_div nblocks_def)
    then show ?thesis
      using pbkdf2_blocks_correct [OF ok assms(2) that(1), of iterations "unat len" 1]
      by (simp add: pbkdf2_sha1_def PBKDF2_def del: upt_Suc)
  qed
  show "hash_df sha256_algorithm stk data len = Some (HASH_DF sha256_hash 32 data (unat len))" if "5 + length data < 2 ^ 32"
    using sha256_alg.hash_df_loop_correct [OF ok that, of 1 len "unat len"]
    by (simp add: hash_df_def HASH_DF_def sha256_algorithm_def [THEN arg_cong [where f = digestsize]] mult.commute del: upt_Suc)
qed

theorem derived_keys_correct_witness:
  "prf_sha1 sample_ctx [1, 2] [3] [4] 48 = PRF [1, 2] [3] [4] 48 \<and>
   pbkdf2_sha1 sample_ctx [1, 2] [4] 4096 32 = PBKDF2 [1, 2] [4] 4096 32 \<and>
   hash_df sha256_algorithm sample_ctx [4] 55 = Some (HASH_DF sha256_hash 32 [4] 55)"
  using derived_keys_correct [of sample_ctx "[1, 2]" "[3]" "[4]" 48 32 4096]
    derived_keys_correct [of sample_ctx "[1, 2]" "[3]" "[4]" 48 55 4096]
  by (simp add: sample_ctx_def)

end
