(* ===== verification/Drbg.thy ===== *)
theory Drbg
  imports Complex_Main Hmac
begin

text \<open>
  Random numbers: the HMAC-based generator of \<open>crypto/hmac_drbg.c\<close>, the generator interface of \<open>crypto/drbg.c\<close> and the entropy source
  with its health tests of \<open>crypto/entropy.c\<close> and \<open>include/ipxe/entropy.h\<close>.

  The static variables of \<open>entropy.c\<close> are the fields of one record.  The noise source is hardware: the environment gives the result
  of each call of \<open>get_noise\<close> and \<open>entropy_enable\<close>, numbered from the first, and the entropy per sample, a constant of the platform of type
  \<open>double\<close>, which is taken as a rational number with exact arithmetic.  Conditions that the build checks with \<open>linker_assert\<close> are left out.
  A call that never returns is the value \<open>None\<close>; only the derivation function for a digest without bytes has this value.
\<close>

unbundle bit_operations_syntax

section \<open>HMAC\_DRBG\<close>

definition HMAC_DRBG_RESEED_INTERVAL :: u32 where
  "HMAC_DRBG_RESEED_INTERVAL = 1024"

record hmac_drbg_state =
  drbg_value :: bytes
  drbg_key :: bytes
  reseed_counter :: u32

definition hmac_drbg_update_key ::
  "'c digest_algorithm \<Rightarrow> 'c \<Rightarrow> hmac_drbg_state \<Rightarrow> bytes \<Rightarrow> u8 \<Rightarrow> hmac_drbg_state" where
  "hmac_drbg_update_key alg stk st data single =
     (let (ctx, key, out_len) = hmac_init alg stk stk (drbg_key st) (digestsize alg);
          ctx = hmac_update alg ctx (take out_len (drbg_value st));
          ctx = hmac_update alg ctx [single];
          ctx = hmac_update alg ctx data;
          (out, ctx, key, out_len) = hmac_final alg stk ctx key out_len
      in st\<lparr>drbg_key := out @ drop (length out) key\<rparr>)"

definition hmac_drbg_update_value :: "'c digest_algorithm \<Rightarrow> 'c \<Rightarrow> hmac_drbg_state \<Rightarrow> hmac_drbg_state" where
  "hmac_drbg_update_value alg stk st =
     (let (ctx, key, out_len) = hmac_init alg stk stk (drbg_key st) (digestsize alg);
          ctx = hmac_update alg ctx (take out_len (drbg_value st));
          (out, ctx, key, out_len) = hmac_final alg stk ctx key out_len
      in st\<lparr>drbg_key := key, drbg_value := out @ drop (length out) (drbg_value st)\<rparr>)"

definition hmac_drbg_update :: "'c digest_algorithm \<Rightarrow> 'c \<Rightarrow> hmac_drbg_state \<Rightarrow> bytes \<Rightarrow> hmac_drbg_state" where
  "hmac_drbg_update alg stk st data =
     (let st = hmac_drbg_update_key alg stk st data 0;
          st = hmac_drbg_update_value alg stk st
      in if data = [] then st
         else
           (let st = hmac_drbg_update_key alg stk st data 1
            in hmac_drbg_update_value alg stk st))"

definition hmac_drbg_reseed :: "'c digest_algorithm \<Rightarrow> 'c \<Rightarrow> hmac_drbg_state \<Rightarrow> bytes \<Rightarrow> bytes \<Rightarrow> hmac_drbg_state" where
  "hmac_drbg_reseed alg stk st entropy additional =
     (let seed_material = entropy @ additional;
          st = hmac_drbg_update alg stk st seed_material
      in st\<lparr>reseed_counter := 1\<rparr>)"

definition hmac_drbg_instantiate :: "'c digest_algorithm \<Rightarrow> 'c \<Rightarrow> hmac_drbg_state \<Rightarrow> bytes \<Rightarrow> bytes \<Rightarrow> hmac_drbg_state" where
  "hmac_drbg_instantiate alg stk st entropy personal =
     (let out_len = digestsize alg;
          st = st\<lparr>drbg_key := replicate out_len 0 @ drop out_len (drbg_key st),
                  drbg_value := replicate out_len 1 @ drop out_len (drbg_value st)\<rparr>
      in hmac_drbg_reseed alg stk st entropy personal)"

function generate_loop :: "'c digest_algorithm \<Rightarrow> 'c \<Rightarrow> hmac_drbg_state \<Rightarrow> nat \<Rightarrow> (bytes \<times> hmac_drbg_state) option" where
  "generate_loop alg stk st len =
     (if len = 0 then Some ([], st)
      else
        (let st = hmac_drbg_update_value alg stk st;
             frag_len = (if digestsize alg < len then digestsize alg else len)
         in if frag_len = 0 then None
            else map_option (\<lambda>(data, st'). (take frag_len (drbg_value st) @ data, st')) (generate_loop alg stk st (len - frag_len))))"
  by pat_completeness auto

termination generate_loop
  by (relation "measure (\<lambda>(alg, stk, st, len). len)") auto

definition hmac_drbg_generate ::
  "'c digest_algorithm \<Rightarrow> 'c \<Rightarrow> hmac_drbg_state \<Rightarrow> bytes \<Rightarrow> nat \<Rightarrow> ((errno + bytes) \<times> hmac_drbg_state) option" where
  "hmac_drbg_generate alg stk st additional len =
     (if HMAC_DRBG_RESEED_INTERVAL < reseed_counter st then Some (Inl ESTALE, st)
      else
        (let st = (if additional \<noteq> [] then hmac_drbg_update alg stk st additional else st)
         in case generate_loop alg stk st len of
              None \<Rightarrow> None
            | Some (data, st) \<Rightarrow>
                (let st = hmac_drbg_update alg stk st additional
                 in Some (Inr data, st\<lparr>reseed_counter := reseed_counter st + 1\<rparr>))))"

section \<open>Entropy\<close>

record entropy_env =
  min_entropy_per_sample :: rat
  get_noise :: "nat \<Rightarrow> errno + u8"
  entropy_enable :: "nat \<Rightarrow> rc"

record entropy_state =
  most_recent_sample :: u8
  rct_repetition_count :: u32
  current_counted_sample :: u8
  sample_count :: u32
  apt_repetition_count :: u32
  entropy_rc :: rc
  entropy_nonce :: u32
  startup_tested :: u32
  noise_calls :: nat
  enable_calls :: nat
  gathering :: bool

text \<open>The initial values of the static variables.\<close>

definition entropy_boot :: entropy_state where
  "entropy_boot = \<lparr>most_recent_sample = 0, rct_repetition_count = 0, current_counted_sample = 0,
     sample_count = 64, apt_repetition_count = 0, entropy_rc = None, entropy_nonce = 0,
     startup_tested = 0, noise_calls = 0, enable_calls = 0, gathering = False\<rparr>"

definition round_up :: "rat \<Rightarrow> u32" where
  "round_up x =
     (let n = word_of_int \<lfloor>x\<rfloor> in if of_int (uint n) < x then n + 1 else n)"

definition repetition_count_cutoff :: "entropy_env \<Rightarrow> u32" where
  "repetition_count_cutoff env = round_up (1 + 30 / min_entropy_per_sample env)"

definition repetition_count_test :: "entropy_env \<Rightarrow> u8 \<Rightarrow> entropy_state \<Rightarrow> rc \<times> entropy_state" where
  "repetition_count_test env sample st =
     (if sample = most_recent_sample st \<and> 0 < rct_repetition_count st then
        (let st = st\<lparr>rct_repetition_count := rct_repetition_count st + 1\<rparr>
         in (if repetition_count_cutoff env \<le> rct_repetition_count st then Some EPIPE else None, st))
      else (None, st\<lparr>most_recent_sample := sample, rct_repetition_count := 1\<rparr>))"

definition ADAPTIVE_PROPORTION_WINDOW_SIZE :: u32 where
  "ADAPTIVE_PROPORTION_WINDOW_SIZE = 64"

definition APC_NA :: u32 where
  "APC_NA = 0"

definition APC_N_H :: "u32 \<Rightarrow> u32 \<Rightarrow> u32" where
  "APC_N_H n h = push_bit 8 n OR h"

definition APC_TABLE_ROW :: "u32 \<Rightarrow> u32 list \<Rightarrow> (u32 \<times> u32) list" where
  "APC_TABLE_ROW h c = zip (map (\<lambda>n. APC_N_H n h) [16, 64, 256, 4096, 65536]) c"

definition apc_rows :: "(u32 \<times> u32 list) list" where
  "apc_rows =
    [(1, [APC_NA, 51, 168, 2240, 33537]),
     (2, [APC_NA, 35, 100, 1193, 17053]),
     (3, [10, 24, 61, 643, 8705]),
     (4, [8, 16, 38, 354, 4473]),
     (5, [6, 12, 25, 200, 2321]),
     (6, [5, 9, 17, 117, 1220]),
     (7, [4, 7, 15, 71, 653]),
     (8, [4, 5, 9, 45, 358]),
     (9, [3, 4, 7, 30, 202]),
     (10, [3, 4, 5, 21, 118]),
     (11, [2, 3, 4, 15, 71]),
     (12, [2, 3, 4, 11, 45]),
     (13, [2, 2, 3, 9, 30]),
     (14, [2, 2, 3, 7, 21]),
     (15, [1, 2, 2, 6, 15]),
     (16, [1, 2, 2, 5, 11]),
     (17, [1, 1, 2, 4, 9]),
     (18, [1, 1, 2, 4, 7]),
     (19, [1, 1, 1, 3, 6]),
     (20, [1, 1, 1, 3, 5])]"

definition adaptive_proportion_cutoff_lookup :: "u32 \<Rightarrow> u32 \<Rightarrow> u32" where
  "adaptive_proportion_cutoff_lookup n h =
     (case map_of (concat (map (\<lambda>(h, c). APC_TABLE_ROW h c) apc_rows)) (APC_N_H n h) of
        Some c \<Rightarrow> c
      | None \<Rightarrow> APC_NA)"

definition adaptive_proportion_cutoff :: "entropy_env \<Rightarrow> u32" where
  "adaptive_proportion_cutoff env =
     adaptive_proportion_cutoff_lookup ADAPTIVE_PROPORTION_WINDOW_SIZE (word_of_int \<lfloor>min_entropy_per_sample env\<rfloor>)"

definition adaptive_proportion_test :: "entropy_env \<Rightarrow> u8 \<Rightarrow> entropy_state \<Rightarrow> rc \<times> entropy_state" where
  "adaptive_proportion_test env sample st =
     (if sample_count st = ADAPTIVE_PROPORTION_WINDOW_SIZE then
        (None, st\<lparr>current_counted_sample := sample, sample_count := 0, apt_repetition_count := 0\<rparr>)
      else
        (let st = st\<lparr>sample_count := sample_count st + 1\<rparr>
         in if sample = current_counted_sample st then
              (let st = st\<lparr>apt_repetition_count := apt_repetition_count st + 1\<rparr>
               in (if adaptive_proportion_cutoff env < apt_repetition_count st then Some EPIPE else None, st))
            else (None, st)))"

definition get_entropy :: "entropy_env \<Rightarrow> entropy_state \<Rightarrow> (errno + u8) \<times> entropy_state" where
  "get_entropy env st =
     (case entropy_rc st of
        Some e \<Rightarrow> (Inl e, st)
      | None \<Rightarrow>
          (let noise = get_noise env (noise_calls st);
               st = st\<lparr>noise_calls := noise_calls st + 1\<rparr>
           in case noise of
                Inl e \<Rightarrow> (Inl e, st\<lparr>entropy_rc := Some e\<rparr>)
              | Inr noise \<Rightarrow>
                  (case repetition_count_test env noise st of
                     (Some e, st) \<Rightarrow> (Inl e, st\<lparr>entropy_rc := Some e\<rparr>)
                   | (None, st) \<Rightarrow>
                       (case adaptive_proportion_test env noise st of
                          (Some e, st) \<Rightarrow> (Inl e, st\<lparr>entropy_rc := Some e\<rparr>)
                        | (None, st) \<Rightarrow> (Inr noise, st)))))"

definition startup_test_count :: "entropy_env \<Rightarrow> u32" where
  "startup_test_count env =
     (let num_samples = repetition_count_cutoff env
      in if num_samples < adaptive_proportion_cutoff env then adaptive_proportion_cutoff env else num_samples)"

definition make_next_nonce :: "entropy_state \<Rightarrow> u32 \<times> entropy_state" where
  "make_next_nonce st = (entropy_nonce st + 1, st\<lparr>entropy_nonce := entropy_nonce st + 1\<rparr>)"

fun startup_loop :: "entropy_env \<Rightarrow> nat \<Rightarrow> entropy_state \<Rightarrow> rc \<times> entropy_state" where
  "startup_loop env 0 st = (None, st)"
| "startup_loop env (Suc k) st =
     (case get_entropy env st of
        (Inl e, st) \<Rightarrow> (Some e, st)
      | (Inr _, st) \<Rightarrow> startup_loop env k (st\<lparr>startup_tested := startup_tested st + 1\<rparr>))"

fun sample_loop :: "entropy_env \<Rightarrow> digest_context \<Rightarrow> nat \<Rightarrow> bytes \<Rightarrow> entropy_state \<Rightarrow> ((errno + bytes) \<times> entropy_state) option" where
  "sample_loop env stk 0 tmp st = Some (Inr tmp, st)"
| "sample_loop env stk (Suc num_samples) tmp st =
     (case get_entropy env st of
        (Inl e, st) \<Rightarrow> Some (Inl e, st)
      | (Inr sample, st) \<Rightarrow>
          (let (nonce, st) = make_next_nonce st
           in case hash_df sha256_algorithm stk (dword_bytes nonce @ [sample]) (of_nat (length tmp)) of
                None \<Rightarrow> None
              | Some df_buf \<Rightarrow> sample_loop env stk num_samples (map2 (XOR) tmp df_buf) st))"

definition get_entropy_input_tmp ::
  "entropy_env \<Rightarrow> digest_context \<Rightarrow> u32 \<Rightarrow> nat \<Rightarrow> entropy_state \<Rightarrow> ((errno + bytes) \<times> entropy_state) option" where
  "get_entropy_input_tmp env stk num_samples tmp_len st =
     (let rc = entropy_enable env (enable_calls st);
          st = st\<lparr>enable_calls := enable_calls st + 1\<rparr>
      in case rc of
           Some e \<Rightarrow> Some (Inl e, st)
         | None \<Rightarrow>
             (let st = st\<lparr>gathering := True\<rparr>
              in case startup_loop env (unat (startup_test_count env) - unat (startup_tested st)) st of
                   (Some e, st) \<Rightarrow> Some (Inl e, st\<lparr>gathering := False\<rparr>)
                 | (None, st) \<Rightarrow>
                     map_option (\<lambda>(r, st). (r, st\<lparr>gathering := False\<rparr>))
                       (sample_loop env stk (unat num_samples) (replicate tmp_len 0) st)))"

text \<open>The result of \<open>get_entropy_input\<close> is the used part of the buffer \<open>data\<close>.\<close>

definition get_entropy_input ::
  "entropy_env \<Rightarrow> digest_context \<Rightarrow> u32 \<Rightarrow> nat \<Rightarrow> nat \<Rightarrow> entropy_state \<Rightarrow> ((errno + bytes) \<times> entropy_state) option" where
  "get_entropy_input env stk min_entropy_bits min_len max_len st =
     (let tmp_len = unat ((min_entropy_bits * 2 + 7) div 8);
          min_entropy_bits = (min_entropy_bits + 7) AND NOT 7;
          num_samples = round_up (of_int (uint min_entropy_bits) / min_entropy_per_sample env)
      in case get_entropy_input_tmp env stk num_samples tmp_len st of
           None \<Rightarrow> None
         | Some (Inl e, st) \<Rightarrow> Some (Inl e, st)
         | Some (Inr tmp, st) \<Rightarrow>
             if tmp_len < min_len then Some (Inr (tmp @ replicate (min_len - tmp_len) 0), st)
             else if max_len < tmp_len then
               map_option (\<lambda>data. (Inr data, st)) (hash_df sha256_algorithm stk tmp (of_nat max_len))
             else Some (Inr tmp, st))"

section \<open>DRBG\<close>

definition DRBG_MAX_SECURITY_STRENGTH :: u32 where
  "DRBG_MAX_SECURITY_STRENGTH = 256"

definition DRBG_SECURITY_STRENGTH :: u32 where
  "DRBG_SECURITY_STRENGTH = 128"

definition DRBG_MIN_ENTROPY_LEN_BYTES :: nat where
  "DRBG_MIN_ENTROPY_LEN_BYTES = unat (DRBG_SECURITY_STRENGTH div 8)"

definition DRBG_MAX_ENTROPY_LEN_BYTES :: nat where
  "DRBG_MAX_ENTROPY_LEN_BYTES = 32"

definition DRBG_MAX_PERSONAL_LEN_BYTES :: nat where
  "DRBG_MAX_PERSONAL_LEN_BYTES = 0xffffffff"

definition DRBG_MAX_ADDITIONAL_LEN_BYTES :: nat where
  "DRBG_MAX_ADDITIONAL_LEN_BYTES = 0xffffffff"

definition DRBG_MAX_GENERATED_LEN_BYTES :: nat where
  "DRBG_MAX_GENERATED_LEN_BYTES = 0xffff"

record drbg_state =
  internal :: hmac_drbg_state
  reseed_required :: bool
  valid :: bool

definition drbg_instantiate ::
  "entropy_env \<Rightarrow> digest_context \<Rightarrow> bytes \<Rightarrow> drbg_state \<times> entropy_state \<Rightarrow> (rc \<times> drbg_state \<times> entropy_state) option" where
  "drbg_instantiate env stk personal = (\<lambda>(state, ent).
     (let entropy_bits = (3 * DRBG_SECURITY_STRENGTH + 1) div 2
      in if DRBG_MAX_SECURITY_STRENGTH < DRBG_SECURITY_STRENGTH then Some (Some ENOTSUP, state, ent)
         else if DRBG_MAX_PERSONAL_LEN_BYTES < length personal then Some (Some ERANGE, state, ent)
         else
           (case get_entropy_input env stk entropy_bits DRBG_MIN_ENTROPY_LEN_BYTES DRBG_MAX_ENTROPY_LEN_BYTES ent of
              None \<Rightarrow> None
            | Some (Inl e, ent) \<Rightarrow> Some (Some e, state, ent)
            | Some (Inr data, ent) \<Rightarrow>
                Some (None, state\<lparr>internal := hmac_drbg_instantiate sha256_algorithm stk (internal state) data personal,
                                  reseed_required := False, valid := True\<rparr>, ent))))"

definition drbg_reseed ::
  "entropy_env \<Rightarrow> digest_context \<Rightarrow> bytes \<Rightarrow> drbg_state \<times> entropy_state \<Rightarrow> (rc \<times> drbg_state \<times> entropy_state) option" where
  "drbg_reseed env stk additional = (\<lambda>(state, ent).
     (let entropy_bits = DRBG_SECURITY_STRENGTH
      in if \<not> valid state then Some (Some EINVAL, state, ent)
         else if DRBG_MAX_ADDITIONAL_LEN_BYTES < length additional then Some (Some ERANGE, state, ent)
         else
           (case get_entropy_input env stk entropy_bits DRBG_MIN_ENTROPY_LEN_BYTES DRBG_MAX_ENTROPY_LEN_BYTES ent of
              None \<Rightarrow> None
            | Some (Inl e, ent) \<Rightarrow> Some (Some e, state, ent)
            | Some (Inr data, ent) \<Rightarrow>
                Some (None, state\<lparr>internal := hmac_drbg_reseed sha256_algorithm stk (internal state) data additional\<rparr>, ent))))"

text \<open>The part of \<open>drbg_generate\<close> from the label \<open>step_7\<close> on; the \<open>goto\<close> is the recursive call.\<close>

partial_function (option) drbg_step_7 ::
  "entropy_env \<Rightarrow> digest_context \<Rightarrow> bytes \<Rightarrow> bool \<Rightarrow> nat \<Rightarrow> drbg_state \<times> entropy_state \<Rightarrow>
     ((errno + bytes) \<times> drbg_state \<times> entropy_state) option" where
  "drbg_step_7 env stk additional prediction_resist len w =
     (case (if reseed_required (fst w) \<or> prediction_resist then
              (case drbg_reseed env stk additional w of
                 None \<Rightarrow> None
               | Some (Some e, state, ent) \<Rightarrow> Some (Inl (e, state, ent))
               | Some (None, state, ent) \<Rightarrow> Some (Inr ([], state\<lparr>reseed_required := False\<rparr>, ent)))
            else Some (Inr (additional, fst w, snd w))) of
        None \<Rightarrow> None
      | Some (Inl (e, state, ent)) \<Rightarrow> Some (Inl e, state, ent)
      | Some (Inr (additional, state, ent)) \<Rightarrow>
          (case hmac_drbg_generate sha256_algorithm stk (internal state) additional len of
             None \<Rightarrow> None
           | Some (Inl _, st) \<Rightarrow>
               drbg_step_7 env stk additional True len (state\<lparr>internal := st, reseed_required := True\<rparr>, ent)
           | Some (Inr data, st) \<Rightarrow> Some (Inr data, state\<lparr>internal := st\<rparr>, ent)))"

definition drbg_generate ::
  "entropy_env \<Rightarrow> digest_context \<Rightarrow> bytes \<Rightarrow> bool \<Rightarrow> nat \<Rightarrow> drbg_state \<times> entropy_state \<Rightarrow>
     ((errno + bytes) \<times> drbg_state \<times> entropy_state) option" where
  "drbg_generate env stk additional prediction_resist len = (\<lambda>(state, ent).
     if \<not> valid state then Some (Inl EINVAL, state, ent)
     else if DRBG_MAX_GENERATED_LEN_BYTES < len then Some (Inl ERANGE, state, ent)
     else if DRBG_MAX_ADDITIONAL_LEN_BYTES < length additional then Some (Inl ERANGE, state, ent)
     else drbg_step_7 env stk additional prediction_resist len (state\<lparr>reseed_required := False\<rparr>, ent))"

definition drbg_uninstantiate :: "drbg_state \<Rightarrow> drbg_state" where
  "drbg_uninstantiate state =
     \<lparr>internal = \<lparr>drbg_value = replicate (length (drbg_value (internal state))) 0,
                  drbg_key = replicate (length (drbg_key (internal state))) 0, reseed_counter = 0\<rparr>,
      reseed_required = False, valid = False\<rparr>"

section \<open>Reference definitions\<close>

text \<open>The functions of NIST SP 800-90 10.1.2 on the key and the value, for the HMAC of a hash function.\<close>

definition DRBG_Update :: "(bytes \<Rightarrow> bytes \<Rightarrow> bytes) \<Rightarrow> bytes \<Rightarrow> bytes \<times> bytes \<Rightarrow> bytes \<times> bytes" where
  "DRBG_Update MAC provided = (\<lambda>(K, V).
     let K = MAC K (V @ 0 # provided); V = MAC K V
     in if provided = [] then (K, V)
        else let K = MAC K (V @ 1 # provided); V = MAC K V in (K, V))"

definition DRBG_Reseed :: "(bytes \<Rightarrow> bytes \<Rightarrow> bytes) \<Rightarrow> bytes \<Rightarrow> bytes \<Rightarrow> bytes \<times> bytes \<Rightarrow> (bytes \<times> bytes) \<times> nat" where
  "DRBG_Reseed MAC entropy additional KV = (DRBG_Update MAC (entropy @ additional) KV, 1)"

definition DRBG_Instantiate :: "(bytes \<Rightarrow> bytes \<Rightarrow> bytes) \<Rightarrow> nat \<Rightarrow> bytes \<Rightarrow> bytes \<Rightarrow> (bytes \<times> bytes) \<times> nat" where
  "DRBG_Instantiate MAC outlen entropy personal =
     (DRBG_Update MAC (entropy @ personal) (replicate outlen 0, replicate outlen 1), 1)"

definition DRBG_Generate ::
  "(bytes \<Rightarrow> bytes \<Rightarrow> bytes) \<Rightarrow> nat \<Rightarrow> bytes \<Rightarrow> nat \<Rightarrow> (bytes \<times> bytes) \<times> nat \<Rightarrow> (bytes \<times> (bytes \<times> bytes) \<times> nat) option" where
  "DRBG_Generate MAC outlen additional n = (\<lambda>(KV, counter).
     if 1024 < counter then None
     else
       (let (K, V) = (if additional \<noteq> [] then DRBG_Update MAC additional KV else KV);
            temp = concat (map (\<lambda>i. (MAC K ^^ i) V) [1..<Suc (nblocks n outlen)])
        in Some (take n temp, DRBG_Update MAC additional (K, (MAC K ^^ nblocks n outlen) V), counter + 1)))"

declare generate_loop.simps [simp del]

section \<open>HMAC\_DRBG implements the reference\<close>

lemma hmac_init_short: "\<not> blocksize alg < n \<Longrightarrow> snd (hmac_init alg stk ctx key n) = (key, n)"
  by (simp add: hmac_init_def Let_def)

lemma hmac_final_short: "\<not> blocksize alg < n \<Longrightarrow> snd (snd (hmac_final alg stk ctx key n)) = (key, n)"
  by (simp add: hmac_final_def Let_def split_beta)

context digest
begin

definition drbg_ok :: "hmac_drbg_state \<Rightarrow> bool" where
  "drbg_ok st = (digestsize alg \<le> length (drbg_key st) \<and> digestsize alg \<le> length (drbg_value st))"

definition drbg_abs :: "hmac_drbg_state \<Rightarrow> bytes \<times> bytes" where
  "drbg_abs st = (take (digestsize alg) (drbg_key st), take (digestsize alg) (drbg_value st))"

abbreviation MAC :: "bytes \<Rightarrow> bytes \<Rightarrow> bytes" where
  "MAC \<equiv> HMAC H (blocksize alg)"

lemma hmac_key_call:
  assumes "ok stk" "digestsize alg \<le> length key" "blocksize alg + length (concat chunks) < 2 ^ 32" "2 * blocksize alg < 2 ^ 32"
  obtains ctx ctx2 where "hmac_init alg stk stk key (digestsize alg) = (ctx, key, digestsize alg)"
    "hmac_final alg stk (foldl (hmac_update alg) ctx chunks) key (digestsize alg) =
       (MAC (take (digestsize alg) key) (concat chunks), ctx2, key, digestsize alg)"
proof -
  have fits: "\<not> blocksize alg < digestsize alg" using digest_fits by simp
  have len: "length (take (digestsize alg) key) = digestsize alg" using assms(2) by simp
  then have "holds_key (take (digestsize alg) key) key (digestsize alg)"
    using assms(4) digest_fits by (simp add: holds_key_def)
  then show thesis
  proof (rule hmac_call [OF assms(1,1) _ assms(3,4)])
    fix ctx1 key1 key_len1 ctx2 key2 key_len2
    assume c: "hmac_init alg stk stk key (digestsize alg) = (ctx1, key1, key_len1)"
      "hmac_final alg stk (foldl (hmac_update alg) ctx1 chunks) key1 key_len1 =
         (MAC (take (digestsize alg) key) (concat chunks), ctx2, key2, key_len2)"
    then have k1: "(key1, key_len1) = (key, digestsize alg)" using hmac_init_short [OF fits] by (metis snd_conv)
    with c(2) have "(key2, key_len2) = (key, digestsize alg)" using hmac_final_short [OF fits] by (metis snd_conv prod.inject)
    with c k1 show thesis using that by simp
  qed
qed

lemma update_key:
  assumes "ok stk" "drbg_ok st" "2 * blocksize alg + length data + 1 < 2 ^ 32"
  shows "drbg_abs (hmac_drbg_update_key alg stk st data b) =
      (MAC (fst (drbg_abs st)) (snd (drbg_abs st) @ b # data), snd (drbg_abs st))"
    "drbg_ok (hmac_drbg_update_key alg stk st data b)"
    "reseed_counter (hmac_drbg_update_key alg stk st data b) = reseed_counter st"
proof -
  let ?chunks = "[take (digestsize alg) (drbg_value st), [b], data]"
  obtain ctx ctx2 where "hmac_init alg stk stk (drbg_key st) (digestsize alg) = (ctx, drbg_key st, digestsize alg)"
    "hmac_final alg stk (foldl (hmac_update alg) ctx ?chunks) (drbg_key st) (digestsize alg) =
       (MAC (take (digestsize alg) (drbg_key st)) (concat ?chunks), ctx2, drbg_key st, digestsize alg)"
    by (rule hmac_key_call [OF assms(1), of "drbg_key st" ?chunks])
      (use assms(2,3) digest_fits in \<open>auto simp: drbg_ok_def\<close>)
  then have "hmac_drbg_update_key alg stk st data b =
      (let out = MAC (fst (drbg_abs st)) (snd (drbg_abs st) @ b # data) in st\<lparr>drbg_key := out @ drop (length out) (drbg_key st)\<rparr>)"
    by (simp add: hmac_drbg_update_key_def Let_def drbg_abs_def)
  then show "drbg_abs (hmac_drbg_update_key alg stk st data b) =
      (MAC (fst (drbg_abs st)) (snd (drbg_abs st) @ b # data), snd (drbg_abs st))"
    "drbg_ok (hmac_drbg_update_key alg stk st data b)"
    "reseed_counter (hmac_drbg_update_key alg stk st data b) = reseed_counter st"
    using assms(2) by (simp_all add: Let_def drbg_abs_def drbg_ok_def length_HMAC)
qed

lemma update_value:
  assumes "ok stk" "drbg_ok st" "2 * blocksize alg < 2 ^ 32"
  shows "drbg_abs (hmac_drbg_update_value alg stk st) =
      (fst (drbg_abs st), MAC (fst (drbg_abs st)) (snd (drbg_abs st)))"
    "drbg_ok (hmac_drbg_update_value alg stk st)"
    "reseed_counter (hmac_drbg_update_value alg stk st) = reseed_counter st"
proof -
  let ?chunks = "[take (digestsize alg) (drbg_value st)]"
  obtain ctx ctx2 where "hmac_init alg stk stk (drbg_key st) (digestsize alg) = (ctx, drbg_key st, digestsize alg)"
    "hmac_final alg stk (foldl (hmac_update alg) ctx ?chunks) (drbg_key st) (digestsize alg) =
       (MAC (take (digestsize alg) (drbg_key st)) (concat ?chunks), ctx2, drbg_key st, digestsize alg)"
    by (rule hmac_key_call [OF assms(1), of "drbg_key st" ?chunks])
      (use assms(2,3) digest_fits in \<open>auto simp: drbg_ok_def\<close>)
  then have "hmac_drbg_update_value alg stk st =
      (let out = MAC (fst (drbg_abs st)) (snd (drbg_abs st)) in
       st\<lparr>drbg_key := drbg_key st, drbg_value := out @ drop (length out) (drbg_value st)\<rparr>)"
    by (simp add: hmac_drbg_update_value_def Let_def drbg_abs_def)
  then show "drbg_abs (hmac_drbg_update_value alg stk st) = (fst (drbg_abs st), MAC (fst (drbg_abs st)) (snd (drbg_abs st)))"
    "drbg_ok (hmac_drbg_update_value alg stk st)"
    "reseed_counter (hmac_drbg_update_value alg stk st) = reseed_counter st"
    using assms(2) by (simp_all add: Let_def drbg_abs_def drbg_ok_def length_HMAC)
qed

lemma drbg_update:
  assumes "ok stk" "drbg_ok st" "2 * blocksize alg + length data + 1 < 2 ^ 32"
  shows "drbg_abs (hmac_drbg_update alg stk st data) = DRBG_Update MAC data (drbg_abs st)"
    "drbg_ok (hmac_drbg_update alg stk st data)"
    "reseed_counter (hmac_drbg_update alg stk st data) = reseed_counter st"
proof -
  have B: "2 * blocksize alg < 2 ^ 32" using assms(3) by simp
  note key = update_key [OF assms(1) _ assms(3)] and val = update_value [OF assms(1) _ B]
  show "drbg_abs (hmac_drbg_update alg stk st data) = DRBG_Update MAC data (drbg_abs st)"
    unfolding hmac_drbg_update_def Let_def DRBG_Update_def split_beta
    using assms(2) by (simp only: key val fst_conv snd_conv split: if_split) simp
  show "drbg_ok (hmac_drbg_update alg stk st data)" "reseed_counter (hmac_drbg_update alg stk st data) = reseed_counter st"
    unfolding hmac_drbg_update_def Let_def using assms(2) by (simp_all only: key val simp_thms split: if_split)
qed

lemma generate_loop_correct:
  assumes "ok stk" "drbg_ok st" "2 * blocksize alg < 2 ^ 32" "0 < digestsize alg" "drbg_abs st = (K, V)"
  shows "\<exists>st'. generate_loop alg stk st n =
      Some (take n (concat (map (\<lambda>i. (MAC K ^^ i) V) [1..<Suc (nblocks n (digestsize alg))])), st') \<and>
    drbg_ok st' \<and> reseed_counter st' = reseed_counter st \<and> drbg_abs st' = (K, (MAC K ^^ nblocks n (digestsize alg)) V)"
  using assms(2,5)
proof (induction n arbitrary: st V rule: less_induct)
  case (less n)
  let ?d = "digestsize alg" and ?st = "hmac_drbg_update_value alg stk st" and ?V = "MAC K V"
  have st: "drbg_ok ?st" "drbg_abs ?st = (K, ?V)" "reseed_counter ?st = reseed_counter st"
    using update_value [OF assms(1) less.prems(1) assms(3)] less.prems(2) by simp_all
  have V: "take ?d (drbg_value ?st) = ?V" using st(2) by (simp add: drbg_abs_def)
  consider "n = 0" | "0 < n" "n \<le> ?d" | "?d < n" by linarith
  then show ?case
  proof cases
    case 1
    then show ?thesis using less.prems assms(4) by (simp add: generate_loop.simps nblocks_def)
  next
    case 2
    then have n: "nblocks n ?d = 1" using nblocks_last by blast
    have "take n (drbg_value ?st) = take n ?V" using V 2 by (metis min.absorb1 take_take)
    then show ?thesis unfolding n
      using 2 st by (simp add: generate_loop.simps [of alg stk st n] generate_loop.simps [of alg stk _ 0] Let_def)
  next
    case 3
    then have n: "nblocks n ?d = Suc (nblocks (n - ?d) ?d)" using nblocks_step assms(4) by blast
    from less.IH [of "n - ?d" ?st ?V] 3 assms(4) st obtain st' where
      IH: "generate_loop alg stk ?st (n - ?d) = Some (take (n - ?d) (concat (map (\<lambda>i. (MAC K ^^ i) ?V) [1..<Suc (nblocks (n - ?d) ?d)])), st')"
      "drbg_ok st'" "reseed_counter st' = reseed_counter st" "drbg_abs st' = (K, (MAC K ^^ nblocks (n - ?d) ?d) ?V)"
      by auto
    have shift: "(MAC K ^^ i) ?V = (MAC K ^^ Suc i) V" for i by (simp add: funpow_swap1)
    have "[1..<Suc (nblocks n ?d)] = 1 # map Suc [1..<Suc (nblocks (n - ?d) ?d)]"
      unfolding n map_Suc_upt by (simp add: upt_conv_Cons)
    then have "concat (map (\<lambda>i. (MAC K ^^ i) V) [1..<Suc (nblocks n ?d)]) =
        ?V @ concat (map (\<lambda>i. (MAC K ^^ i) ?V) [1..<Suc (nblocks (n - ?d) ?d)])"
      unfolding shift by (simp add: comp_def del: upt_Suc)
    then show ?thesis
      using 3 assms(4) IH V by (simp add: generate_loop.simps [of alg stk st n] Let_def n shift length_HMAC del: upt_Suc)
  qed
qed

lemma drbg_generate_correct:
  assumes "ok stk" "drbg_ok st" "2 * blocksize alg + length additional + 1 < 2 ^ 32" "0 < digestsize alg"
  shows "\<exists>r st'. hmac_drbg_generate alg stk st additional n = Some (r, st') \<and>
    (case DRBG_Generate MAC (digestsize alg) additional n (drbg_abs st, unat (reseed_counter st)) of
       None \<Rightarrow> r = Inl ESTALE \<and> st' = st
     | Some (out, KV, counter) \<Rightarrow> r = Inr out \<and> drbg_ok st' \<and> drbg_abs st' = KV \<and> unat (reseed_counter st') = counter)"
proof (cases "HMAC_DRBG_RESEED_INTERVAL < reseed_counter st")
  case True
  then show ?thesis by (simp add: hmac_drbg_generate_def DRBG_Generate_def HMAC_DRBG_RESEED_INTERVAL_def word_less_nat_alt)
next
  case False
  then have c: "\<not> 1024 < unat (reseed_counter st)" "unat (reseed_counter st + 1) = unat (reseed_counter st) + 1"
    by (simp_all add: HMAC_DRBG_RESEED_INTERVAL_def word_less_nat_alt unat_word_ariths)
  have B: "2 * blocksize alg < 2 ^ 32" using assms(3) by simp
  define st1 where "st1 = (if additional \<noteq> [] then hmac_drbg_update alg stk st additional else st)"
  obtain K V where KV: "(if additional \<noteq> [] then DRBG_Update MAC additional (drbg_abs st) else drbg_abs st) = (K, V)"
    by (metis surj_pair)
  have st1: "drbg_ok st1" "drbg_abs st1 = (K, V)" "reseed_counter st1 = reseed_counter st"
    using drbg_update [OF assms(1-3)] assms(2) KV by (auto simp: st1_def)
  obtain st2 where st2: "generate_loop alg stk st1 n =
      Some (take n (concat (map (\<lambda>i. (MAC K ^^ i) V) [1..<Suc (nblocks n (digestsize alg))])), st2)"
    "drbg_ok st2" "reseed_counter st2 = reseed_counter st" "drbg_abs st2 = (K, (MAC K ^^ nblocks n (digestsize alg)) V)"
    using generate_loop_correct [OF assms(1) st1(1) B assms(4) st1(2)] st1(3) by metis
  note u = drbg_update [OF assms(1) st2(2) assms(3)]
  have upd: "drbg_ok (s\<lparr>reseed_counter := x\<rparr>) = drbg_ok s" "drbg_abs (s\<lparr>reseed_counter := x\<rparr>) = drbg_abs s" for s x
    by (simp_all add: drbg_ok_def drbg_abs_def)
  show ?thesis
    unfolding hmac_drbg_generate_def DRBG_Generate_def Let_def st1_def [symmetric] st2(1) prod.case KV
    using False c u st2(3,4) by (simp add: upd del: upt_Suc)
qed

end

section \<open>HMAC\_DRBG with SHA-256\<close>

definition MAC256 :: "bytes \<Rightarrow> bytes \<Rightarrow> bytes" where
  "MAC256 = HMAC sha256_hash 64"

text \<open>The working state of the reference: the key and the value are the used parts of the arrays.\<close>

definition working_state :: "hmac_drbg_state \<Rightarrow> (bytes \<times> bytes) \<times> nat" where
  "working_state st = ((take 32 (drbg_key st), take 32 (drbg_value st)), unat (reseed_counter st))"

definition arrays_ok :: "hmac_drbg_state \<Rightarrow> bool" where
  "arrays_ok st = (32 \<le> length (drbg_key st) \<and> 32 \<le> length (drbg_value st))"

lemma sha256_sizes: "blocksize sha256_algorithm = 64" "digestsize sha256_algorithm = 32"
  by (simp_all add: sha256_algorithm_def)

lemma sha256_drbg:
  "sha256_alg.drbg_ok = arrays_ok" "sha256_alg.drbg_abs st = fst (working_state st)" "HMAC sha256_hash (blocksize sha256_algorithm) = MAC256"
  by (simp_all add: fun_eq_iff sha256_alg.drbg_ok_def arrays_ok_def sha256_alg.drbg_abs_def working_state_def MAC256_def sha256_sizes)

lemma sha256_reseed:
  assumes "ctx_ok stk" "arrays_ok st" "129 + length (entropy @ extra) < 2 ^ 32"
  shows "working_state (hmac_drbg_reseed sha256_algorithm stk st entropy extra) =
      DRBG_Reseed MAC256 entropy extra (fst (working_state st))"
    "arrays_ok (hmac_drbg_reseed sha256_algorithm stk st entropy extra)"
  using sha256_alg.drbg_update [of stk st "entropy @ extra"] assms unfolding sha256_drbg
  by (simp_all add: hmac_drbg_reseed_def Let_def DRBG_Reseed_def working_state_def arrays_ok_def sha256_sizes)

lemma sha256_generate:
  assumes "ctx_ok stk" "arrays_ok st" "129 + length extra < 2 ^ 32"
  shows "\<exists>r st'. hmac_drbg_generate sha256_algorithm stk st extra n = Some (r, st') \<and>
    (case DRBG_Generate MAC256 32 extra n (working_state st) of
       None \<Rightarrow> r = Inl ESTALE \<and> st' = st
     | Some (out, ws) \<Rightarrow> r = Inr out \<and> arrays_ok st' \<and> working_state st' = ws)"
proof -
  have ws: "working_state st = (fst (working_state st), unat (reseed_counter st))" by (simp add: working_state_def)
  obtain r st' where g: "hmac_drbg_generate sha256_algorithm stk st extra n = Some (r, st')"
    "case DRBG_Generate MAC256 32 extra n (working_state st) of
       None \<Rightarrow> r = Inl ESTALE \<and> st' = st
     | Some (out, KV, counter) \<Rightarrow>
         r = Inr out \<and> arrays_ok st' \<and> fst (working_state st') = KV \<and> unat (reseed_counter st') = counter"
    using sha256_alg.drbg_generate_correct [of stk st extra n] assms
    unfolding sha256_drbg unfolding sha256_sizes ws [symmetric] by auto
  then show ?thesis by (cases "DRBG_Generate MAC256 32 extra n (working_state st)") (auto simp: working_state_def)
qed

text \<open>
  C26.  The generator with SHA-256 implements the functions of NIST SP 800-90, for inputs of together less than \<open>2 ^ 32 - 129\<close> bytes: on the used parts of its arrays, instantiating, reseeding and
  generating compute the specified working state and the specified bits, and generating reports that a reseed is needed exactly
  after 1024 requests, without changing the state.
\<close>

theorem hmac_drbg_refines:
  assumes "length (ddd_data (ctx_ddd stk)) = 64" "32 \<le> length (drbg_key st)" "32 \<le> length (drbg_value st)"
    "129 + length entropy + length extra < 2 ^ 32"
  shows "working_state (hmac_drbg_instantiate sha256_algorithm stk st entropy extra) = DRBG_Instantiate MAC256 32 entropy extra \<and>
    working_state (hmac_drbg_reseed sha256_algorithm stk st entropy extra) =
      DRBG_Reseed MAC256 entropy extra (fst (working_state st)) \<and>
    (\<exists>r st'. hmac_drbg_generate sha256_algorithm stk st extra n = Some (r, st') \<and>
      (case DRBG_Generate MAC256 32 extra n (working_state st) of
         None \<Rightarrow> r = Inl ESTALE \<and> st' = st
       | Some (out, ws) \<Rightarrow> r = Inr out \<and> working_state st' = ws))"
proof -
  have ok: "ctx_ok stk" "arrays_ok st" using assms by (simp_all add: ctx_ok_def arrays_ok_def)
  let ?st = "st\<lparr>drbg_key := replicate 32 0 @ drop 32 (drbg_key st), drbg_value := replicate 32 1 @ drop 32 (drbg_value st)\<rparr>"
  have "arrays_ok ?st" "fst (working_state ?st) = (replicate 32 0, replicate 32 1)"
    by (simp_all add: arrays_ok_def working_state_def)
  then have "working_state (hmac_drbg_instantiate sha256_algorithm stk st entropy extra) = DRBG_Instantiate MAC256 32 entropy extra"
    using sha256_reseed(1) [OF ok(1), of ?st entropy extra] assms(4)
    by (simp add: hmac_drbg_instantiate_def Let_def sha256_sizes DRBG_Instantiate_def DRBG_Reseed_def)
  then show ?thesis
    using sha256_reseed(1) [OF ok, of entropy extra] sha256_generate [OF ok, of extra n] assms(4)
    by (fastforce split: option.splits)
qed

theorem hmac_drbg_refines_witness:
  "working_state (hmac_drbg_reseed sha256_algorithm sample_ctx
     \<lparr>drbg_value = replicate 64 1, drbg_key = replicate 64 2, reseed_counter = 2000\<rparr> [5] [6]) =
   DRBG_Reseed MAC256 [5] [6] (replicate 32 2, replicate 32 1)"
  using hmac_drbg_refines [of sample_ctx "\<lparr>drbg_value = replicate 64 1, drbg_key = replicate 64 2, reseed_counter = 2000\<rparr>" "[5]" "[6]" 0]
  by (simp add: sample_ctx_def working_state_def)

section \<open>Entropy input\<close>

lemma nblocks_cover: "0 < d \<Longrightarrow> n \<le> nblocks n d * d"
proof (induction n rule: less_induct)
  case (less n)
  show ?case
  proof (cases "d < n")
    case True
    then show ?thesis using less.IH [of "n - d"] less.prems nblocks_step [of d n] by simp
  next
    case False
    then show ?thesis using nblocks_last [of n d] by (cases "n = 0") simp_all
  qed
qed

lemma hash_df_sha256:
  assumes "ctx_ok stk" "5 + length m < 2 ^ 32"
  shows "\<exists>d. hash_df sha256_algorithm stk m n = Some d \<and> length d = unat n"
proof -
  let ?f = "\<lambda>i. sha256_hash (of_nat i # be32 (n * 8) @ m)"
  have "length (concat (map ?f is)) = length is * 32" for "is"
    using sha256_alg.digest_length by (induction "is") (simp_all add: sha256_sizes)
  then show ?thesis
    using sha256_alg.hash_df_loop_correct [OF assms, of 1 n "unat n"] nblocks_cover [of 32 "unat n"]
    by (simp add: hash_df_def sha256_sizes min_def del: upt_Suc)
qed

lemma sample_loop_returns:
  assumes "ctx_ok stk" "length tmp < 2 ^ 32"
  shows "\<exists>r st'. sample_loop env stk k tmp st = Some (r, st') \<and> (\<forall>d. r = Inr d \<longrightarrow> length d = length tmp)"
  using assms(2)
proof (induction k arbitrary: tmp st)
  case (Suc k)
  obtain r st1 where g: "get_entropy env st = (r, st1)" by (metis surj_pair)
  show ?case
  proof (cases r)
    case (Inr sample)
    obtain d where d: "hash_df sha256_algorithm stk (dword_bytes (entropy_nonce st1 + 1) @ [sample]) (of_nat (length tmp)) = Some d"
      "length d = length tmp"
      using hash_df_sha256 [OF assms(1), of "dword_bytes (entropy_nonce st1 + 1) @ [sample]" "of_nat (length tmp)"] Suc.prems
      by (auto simp: dword_bytes_def unat_of_nat)
    show ?thesis
      using Suc.IH [of "map2 (XOR) tmp d"] Suc.prems d Inr g by (simp add: make_next_nonce_def)
  qed (simp add: g)
qed simp

lemma get_entropy_input_returns:
  assumes "ctx_ok stk" "bits = 128 \<or> bits = 192"
  shows "\<exists>r st'. get_entropy_input env stk bits 16 32 st = Some (r, st') \<and> (\<forall>d. r = Inr d \<longrightarrow> length d = 32)"
proof -
  let ?n = "unat ((bits * 2 + 7) div 8)"
  have n: "?n = (if bits = 128 then 32 else 48)" using assms(2) by auto
  have "\<exists>r st'. get_entropy_input_tmp env stk k ?n s = Some (r, st') \<and> (\<forall>d. r = Inr d \<longrightarrow> length d = ?n)" for k s
  proof -
    have "\<exists>r st'. sample_loop env stk (unat k) (replicate ?n 0) st = Some (r, st') \<and> (\<forall>d. r = Inr d \<longrightarrow> length d = ?n)" for st
      using sample_loop_returns [OF assms(1), of "replicate ?n 0" env "unat k" st] n by simp
    then show ?thesis unfolding get_entropy_input_tmp_def Let_def
      by (fastforce split: option.splits prod.splits)
  qed
  then obtain r st' where t: "get_entropy_input_tmp env stk (round_up (of_int (uint ((bits + 7) AND NOT 7)) / min_entropy_per_sample env)) ?n st = Some (r, st')"
    "\<And>d. r = Inr d \<Longrightarrow> length d = ?n" by metis
  show ?thesis
  proof (cases r)
    case (Inl e)
    then show ?thesis using t by (simp add: get_entropy_input_def Let_def)
  next
    case (Inr d)
    then show ?thesis
      using t n hash_df_sha256 [OF assms(1), of d 32] by (cases "bits = 128") (auto simp: get_entropy_input_def Let_def)
  qed
qed

section \<open>Generating bits\<close>

lemmas drbg_sizes = DRBG_SECURITY_STRENGTH_def DRBG_MIN_ENTROPY_LEN_BYTES_def DRBG_MAX_ENTROPY_LEN_BYTES_def
  DRBG_MAX_ADDITIONAL_LEN_BYTES_def DRBG_MAX_GENERATED_LEN_BYTES_def

lemma fresh_generates:
  "c \<le> 1024 \<Longrightarrow> \<exists>out ws. DRBG_Generate MAC outlen additional n (KV, c) = Some (out, ws)"
  by (simp add: DRBG_Generate_def Let_def split_beta)

lemma step_7_fresh:
  assumes "ctx_ok stk" "arrays_ok (internal state)" "129 + length additional < 2 ^ 32" "\<not> reseed_required state"
    "unat (reseed_counter (internal state)) \<le> 1024"
  shows "\<exists>out st'. drbg_step_7 env stk additional False len (state, ent) = Some (Inr out, state\<lparr>internal := st'\<rparr>, ent) \<and>
    DRBG_Generate MAC256 32 additional len (working_state (internal state)) = Some (out, working_state st')"
proof -
  obtain out ws where g: "DRBG_Generate MAC256 32 additional len (working_state (internal state)) = Some (out, ws)"
    using fresh_generates [OF assms(5)] unfolding working_state_def by blast
  with sha256_generate [OF assms(1-3), of len] obtain st' where
    st': "hmac_drbg_generate sha256_algorithm stk (internal state) additional len = Some (Inr out, st')" "working_state st' = ws"
    by auto
  then have "drbg_step_7 env stk additional False len (state, ent) = Some (Inr out, state\<lparr>internal := st'\<rparr>, ent)"
    using assms(4) by (subst drbg_step_7.simps) simp
  with g st'(2) show ?thesis by blast
qed

lemma step_7_reseed:
  assumes "ctx_ok stk" "arrays_ok (internal state)" "161 + length additional < 2 ^ 32" "valid state" "reseed_required state \<or> pr"
    "get_entropy_input env stk 128 16 32 ent = Some (i, ent')"
  shows "case i of
      Inl e \<Rightarrow> drbg_step_7 env stk additional pr len (state, ent) = Some (Inl e, state, ent')
    | Inr entropy \<Rightarrow>
        (\<exists>out st'. drbg_step_7 env stk additional pr len (state, ent) =
           Some (Inr out, state\<lparr>internal := st', reseed_required := False\<rparr>, ent') \<and>
         DRBG_Generate MAC256 32 [] len (DRBG_Reseed MAC256 entropy additional (fst (working_state (internal state)))) =
           Some (out, working_state st'))"
proof (cases i)
  case (Inl e)
  then show ?thesis using assms by (subst drbg_step_7.simps) (simp add: drbg_reseed_def drbg_sizes)
next
  case (Inr entropy)
  then have "length entropy = 32" using get_entropy_input_returns [OF assms(1), of 128 env ent] assms(6) by simp
  define st where "st = hmac_drbg_reseed sha256_algorithm stk (internal state) entropy additional"
  have st: "working_state st = DRBG_Reseed MAC256 entropy additional (fst (working_state (internal state)))" "arrays_ok st"
    unfolding st_def using sha256_reseed [OF assms(1,2), of entropy additional] assms(3) \<open>length entropy = 32\<close> by simp_all
  have rs: "drbg_reseed env stk additional (state, ent) = Some (None, state\<lparr>internal := st\<rparr>, ent')"
    using assms Inr by (simp add: drbg_reseed_def drbg_sizes st_def)
  obtain out ws where g: "DRBG_Generate MAC256 32 [] len (working_state st) = Some (out, ws)"
    using fresh_generates [of 1] unfolding st(1) DRBG_Reseed_def by fastforce
  with sha256_generate [OF assms(1) st(2), of "[]" len] obtain st' where
    st': "hmac_drbg_generate sha256_algorithm stk st [] len = Some (Inr out, st')" "working_state st' = ws"
    by auto
  then have "drbg_step_7 env stk additional pr len (state, ent) =
      Some (Inr out, state\<lparr>internal := st', reseed_required := False\<rparr>, ent')"
    using assms(5) rs by (subst drbg_step_7.simps) simp
  then show ?thesis using Inr g st(1) st'(2) by auto
qed

lemma step_7_stale:
  assumes "ctx_ok stk" "arrays_ok (internal state)" "129 + length additional < 2 ^ 32" "\<not> reseed_required state"
    "1024 < unat (reseed_counter (internal state))"
  shows "drbg_step_7 env stk additional False len (state, ent) =
    drbg_step_7 env stk additional True len (state\<lparr>reseed_required := True\<rparr>, ent)"
proof -
  have "DRBG_Generate MAC256 32 additional len (working_state (internal state)) = None"
    using assms(5) by (simp add: DRBG_Generate_def working_state_def)
  with sha256_generate [OF assms(1-3), of len]
  have "hmac_drbg_generate sha256_algorithm stk (internal state) additional len = Some (Inl ESTALE, internal state)" by auto
  moreover have "state\<lparr>internal := internal state, reseed_required := True\<rparr> = state\<lparr>reseed_required := True\<rparr>" by simp
  ultimately show ?thesis
    using assms(4) by (subst drbg_step_7.simps) simp
qed

text \<open>
  C27.  \<open>drbg_generate\<close> returns for every request.  It refuses an invalid state and a request of more than 65535 bytes without
  touching anything.  When prediction resistance is asked for or the reseed interval is over, it first obtains fresh entropy: if this fails, its
  error is returned and no bits are generated, otherwise the bits are those NIST SP 800-90 defines after a reseed with that entropy
  and the additional input.  Otherwise the bits are the ones generated from the present state.
\<close>

theorem drbg_generate_outcome:
  assumes "length (ddd_data (ctx_ddd stk)) = 64" "32 \<le> length (drbg_key (internal state))" "32 \<le> length (drbg_value (internal state))"
    "161 + length additional < 2 ^ 32"
  shows "\<exists>r state' ent'. drbg_generate env stk additional pr len (state, ent) = Some (r, state', ent') \<and> valid state' = valid state \<and>
    (if \<not> valid state then r = Inl EINVAL \<and> state' = state \<and> ent' = ent
     else if 0xffff < len then r = Inl ERANGE \<and> state' = state \<and> ent' = ent
     else if pr \<or> 1024 < unat (reseed_counter (internal state)) then
       (\<exists>i. get_entropy_input env stk 128 16 32 ent = Some (i, ent') \<and>
         (case i of
            Inl e \<Rightarrow> r = Inl e \<and> internal state' = internal state
          | Inr entropy \<Rightarrow>
              (\<exists>out. DRBG_Generate MAC256 32 [] len (DRBG_Reseed MAC256 entropy additional (fst (working_state (internal state)))) =
                 Some (out, working_state (internal state')) \<and> r = Inr out)))
     else ent' = ent \<and> (\<exists>out. DRBG_Generate MAC256 32 additional len (working_state (internal state)) =
            Some (out, working_state (internal state')) \<and> r = Inr out))"
proof -
  have ok: "ctx_ok stk" "arrays_ok (internal state)" using assms by (simp_all add: ctx_ok_def arrays_ok_def)
  let ?s = "state\<lparr>reseed_required := False\<rparr>" and ?t = "state\<lparr>reseed_required := True\<rparr>"
  consider "\<not> valid state" | "valid state" "0xffff < len" | "valid state" "len \<le> 0xffff" by linarith
  then show ?thesis
  proof cases
    case 3
    then have gen: "drbg_generate env stk additional pr len (state, ent) = drbg_step_7 env stk additional pr len (?s, ent)"
      using assms(4) by (simp add: drbg_generate_def drbg_sizes)
    show ?thesis
    proof (cases "pr \<or> 1024 < unat (reseed_counter (internal state))")
      case True
      obtain i ent' where i: "get_entropy_input env stk 128 16 32 ent = Some (i, ent')"
        using get_entropy_input_returns [OF ok(1), of 128 env ent] by auto
      have pr: "drbg_step_7 env stk additional pr len (?s, ent) = drbg_step_7 env stk additional True len (if pr then ?s else ?t, ent)"
        using True step_7_stale [of stk ?s additional env len ent] ok assms(4) by (cases pr) simp_all
      have "valid (if pr then ?s else ?t)" "internal (if pr then ?s else ?t) = internal state" using 3 by simp_all
      with step_7_reseed [of stk "if pr then ?s else ?t" additional True env ent i ent' len] ok assms(4) i show ?thesis
        unfolding gen pr using 3 True by (cases i) (auto simp del: split_paired_Ex)
    next
      case False
      with step_7_fresh [of stk ?s additional env len ent] ok assms(4) 3 show ?thesis
        unfolding gen by auto
    qed
  qed (simp_all add: drbg_generate_def drbg_sizes)
qed

theorem drbg_generate_outcome_witness:
  "\<exists>out state'. drbg_generate \<lparr>min_entropy_per_sample = 1, get_noise = (\<lambda>i. Inl EPIPE), entropy_enable = (\<lambda>i. None)\<rparr> sample_ctx [5] False 16
      (\<lparr>internal = \<lparr>drbg_value = replicate 64 2, drbg_key = replicate 64 1, reseed_counter = 1\<rparr>, reseed_required = False, valid = True\<rparr>,
       entropy_boot) = Some (Inr out, state', entropy_boot) \<and> valid state'"
  using drbg_generate_outcome [of sample_ctx
      "\<lparr>internal = \<lparr>drbg_value = replicate 64 2, drbg_key = replicate 64 1, reseed_counter = 1\<rparr>, reseed_required = False, valid = True\<rparr>"
      "[5]" "\<lparr>min_entropy_per_sample = 1, get_noise = (\<lambda>i. Inl EPIPE), entropy_enable = (\<lambda>i. None)\<rparr>" False 16 entropy_boot]
  by (auto simp: sample_ctx_def)


end
