(* ===== verification/Entropy_Health.thy ===== *)
theory Entropy_Health
  imports Drbg
begin

text \<open>
  The health tests of \<open>crypto/entropy.c\<close>: the repetition count test and the adaptive proportion test, run on every noise sample, accept
  exactly the sequences that their standard, ANS X9.82, calls healthy, and a failure of either is permanent.
\<close>

text \<open>The length of the run of equal samples that ends before the \<open>n\<close>-th, and the number of repetitions of the first sample in a window.\<close>

fun run_length :: "(nat \<Rightarrow> u8) \<Rightarrow> nat \<Rightarrow> nat" where
  "run_length x 0 = 0"
| "run_length x (Suc n) = (if 0 < n \<and> x n = x (n - 1) then run_length x n + 1 else 1)"

fun window_count :: "(nat \<Rightarrow> u8) \<Rightarrow> nat \<Rightarrow> nat" where
  "window_count x 0 = 0"
| "window_count x (Suc n) =
     (if Suc n mod 65 = 0 then 0
      else window_count x n + (if x (Suc n) = x (65 * (Suc n div 65)) then 1 else 0))"

lemma run_length_iff: "0 < r \<Longrightarrow> r \<le> run_length x n \<longleftrightarrow> r \<le> n \<and> (\<forall>j<r. x (n - 1 - j) = x (n - 1))"
proof (induction n arbitrary: r)
  case (Suc n)
  show ?case
  proof (cases "0 < n \<and> x n = x (n - 1)")
    case True
    show ?thesis
    proof (cases "r = 1")
      case False
      then obtain q where r: "r = Suc q" "0 < q" using Suc.prems by (cases r) auto
      have "(\<forall>j<Suc q. x (n - j) = x n) \<longleftrightarrow> (\<forall>j<q. x (n - Suc j) = x n)"
        by (metis diff_zero less_Suc_eq_0_disj)
      then show ?thesis using Suc.IH [OF r(2)] True r by simp
    qed (use True in simp)
  next
    case False
    have "r \<le> 1 \<longleftrightarrow> r \<le> Suc n \<and> (\<forall>j<r. x (n - j) = x n)"
    proof
      assume "r \<le> 1" with Suc.prems have "r = 1" by simp
      then show "r \<le> Suc n \<and> (\<forall>j<r. x (n - j) = x n)" by simp
    next
      assume *: "r \<le> Suc n \<and> (\<forall>j<r. x (n - j) = x n)"
      show "r \<le> 1"
      proof (rule ccontr)
        assume "\<not> r \<le> 1"
        then have "x (n - 1) = x n" "0 < n" using * by auto
        with False show False by simp
      qed
    qed
    then show ?thesis using False Suc.prems by (auto simp del: not_gr0)
  qed
qed simp

lemma window_count_card:
  "window_count x n = card {i. 65 * (n div 65) < i \<and> i \<le> n \<and> x i = x (65 * (n div 65))}"
proof (induction n)
  case (Suc n)
  show ?case
  proof (cases "Suc n mod 65 = 0")
    case True
    then have "65 * (Suc n div 65) = Suc n" by auto
    then have "{i. 65 * (Suc n div 65) < i \<and> i \<le> Suc n \<and> x i = x (65 * (Suc n div 65))} = {}" by auto
    then show ?thesis using True by simp
  next
    case False
    then have w: "Suc n div 65 = n div 65" by (simp add: div_Suc)
    let ?w = "65 * (n div 65)"
    have "?w \<le> n" by simp
    then have "{i. ?w < i \<and> i \<le> Suc n \<and> x i = x ?w} =
        {i. ?w < i \<and> i \<le> n \<and> x i = x ?w} \<union> (if x (Suc n) = x ?w then {Suc n} else {})"
      by (auto simp: le_Suc_eq)
    moreover have "finite {i. ?w < i \<and> i \<le> n \<and> x i = x ?w}" by simp
    ultimately show ?thesis using Suc False by (simp add: w)
  qed
next
  case 0
  have "{i. 65 * (0 div 65) < i \<and> i \<le> 0 \<and> x i = x (65 * (0 div 65))} = {}" by auto
  then show ?case by (metis card.empty window_count.simps(1))
qed

lemma window_count_less: "window_count x n \<le> n"
  by (induction n) (auto split: if_splits)

text \<open>The state after \<open>n\<close> accepted samples \<open>x 0\<close>, \<open>x 1\<close>, \<open>\<dots>\<close>.\<close>

definition tested :: "(nat \<Rightarrow> u8) \<Rightarrow> nat \<Rightarrow> entropy_state \<Rightarrow> bool" where
  "tested x n st = (entropy_rc st = None \<and> noise_calls st = n \<and> rct_repetition_count st = of_nat (run_length x n) \<and>
     (0 < n \<longrightarrow> most_recent_sample st = x (n - 1)) \<and>
     sample_count st = (if n = 0 then 64 else of_nat ((n - 1) mod 65)) \<and>
     (0 < n \<longrightarrow> current_counted_sample st = x (65 * ((n - 1) div 65)) \<and> apt_repetition_count st = of_nat (window_count x (n - 1))))"

lemma window_count_le: "window_count x n \<le> n mod 65"
  by (induction n) (auto simp: mod_Suc split: if_splits)

lemma run_length_pos: "0 < run_length x n \<longleftrightarrow> 0 < n"
  by (cases n) simp_all

lemma rct_step:
  assumes "rct_repetition_count st = of_nat (run_length x n)" "0 < n \<longrightarrow> most_recent_sample st = x (n - 1)"
    "run_length x n < unat (repetition_count_cutoff env)" "2 \<le> unat (repetition_count_cutoff env)"
  shows "repetition_count_test env (x n) st =
    (if run_length x (Suc n) < unat (repetition_count_cutoff env) then None else Some EPIPE,
     st\<lparr>most_recent_sample := x n, rct_repetition_count := of_nat (run_length x (Suc n))\<rparr>)"
proof -
  define C where "C = repetition_count_cutoff env"
  have C: "unat C < 2 ^ 32" by simp
  have len: "unat (of_nat (run_length x n) :: u32) = run_length x n"
    using C assms(3) unfolding C_def by (intro unat_of_nat_small) linarith
  show ?thesis
  proof (cases "0 < n \<and> x n = x (n - 1)")
    case True
    have 1: "unat (of_nat (run_length x n + 1) :: u32) = run_length x n + 1"
      using C assms(3) unfolding C_def by (intro unat_of_nat_small) linarith
    have "0 < (of_nat (run_length x n) :: u32)" using len True by (simp add: word_less_nat_alt run_length_pos)
    moreover have "C \<le> of_nat (run_length x n) + 1 \<longleftrightarrow> unat C \<le> run_length x n + 1"
      using 1 by (simp add: word_le_nat_alt add.commute)
    ultimately show ?thesis using assms True by (simp add: repetition_count_test_def C_def [symmetric] not_less Let_def)
  next
    case False
    moreover have "\<not> 0 < (of_nat (run_length x 0) :: u32)" by simp
    ultimately show ?thesis using assms by (auto simp: repetition_count_test_def)
  qed
qed

lemma apt_step:
  assumes "sample_count st = (if n = 0 then 64 else of_nat ((n - 1) mod 65))"
    "0 < n \<longrightarrow> current_counted_sample st = x (65 * ((n - 1) div 65)) \<and> apt_repetition_count st = of_nat (window_count x (n - 1)) \<and>
      window_count x (n - 1) \<le> unat (adaptive_proportion_cutoff env)"
  shows "adaptive_proportion_test env (x n) st =
    (if window_count x n \<le> unat (adaptive_proportion_cutoff env) then None else Some EPIPE,
     st\<lparr>current_counted_sample := x (65 * (n div 65)), sample_count := of_nat (n mod 65),
       apt_repetition_count := of_nat (window_count x n)\<rparr>)"
proof (cases "n mod 65 = 0")
  case True
  then have "sample_count st = 64" using assms(1) by (cases n) (auto simp: mod_Suc split: if_splits)
  moreover have "window_count x n = 0" using True by (cases n) simp_all
  moreover have "65 * (n div 65) = n" using True by auto
  ultimately show ?thesis using True by (simp add: adaptive_proportion_test_def ADAPTIVE_PROPORTION_WINDOW_SIZE_def)
next
  case False
  then obtain m where n: "n = Suc m" by (cases n) auto
  define k where "k = m mod 65"
  have k: "k < 64" "n mod 65 = Suc k" using False by (auto simp: n k_def mod_Suc split: if_splits)
  have w: "n div 65 = m div 65" using False by (simp add: n div_Suc)
  have small: "window_count x n \<le> 64" using window_count_le [of x n] k by simp
  have u: "unat (of_nat (window_count x n) :: u32) = window_count x n"
    using small by (intro unat_of_nat_small) simp
  have "(of_nat k :: u32) \<noteq> 64"
  proof
    assume "(of_nat k :: u32) = 64"
    then have "unat (of_nat k :: u32) = 64" by simp
    then show False using k by (simp add: unat_of_nat_small)
  qed
  then show ?thesis using assms k w False u
    by (auto simp: n adaptive_proportion_test_def ADAPTIVE_PROPORTION_WINDOW_SIZE_def k_def [symmetric] word_less_nat_alt Let_def)
qed

lemma tested_step:
  assumes "tested x n st" "get_noise env n = Inr (x n)" "run_length x n < unat (repetition_count_cutoff env)"
    "2 \<le> unat (repetition_count_cutoff env)" "0 < n \<longrightarrow> window_count x (n - 1) \<le> unat (adaptive_proportion_cutoff env)"
  shows "if run_length x (Suc n) < unat (repetition_count_cutoff env) \<and> window_count x n \<le> unat (adaptive_proportion_cutoff env)
    then \<exists>st'. get_entropy env st = (Inr (x n), st') \<and> tested x (Suc n) st'
    else \<exists>st'. get_entropy env st = (Inl EPIPE, st') \<and> entropy_rc st' = Some EPIPE"
proof -
  let ?s = "st\<lparr>noise_calls := noise_calls st + 1\<rparr>"
  let ?t = "?s\<lparr>most_recent_sample := x n, rct_repetition_count := of_nat (run_length x (Suc n))\<rparr>"
  have 1: "repetition_count_test env (x n) ?s =
    (if run_length x (Suc n) < unat (repetition_count_cutoff env) then None else Some EPIPE, ?t)"
    using assms by (intro rct_step) (simp_all add: tested_def)
  have 2: "adaptive_proportion_test env (x n) ?t =
    (if window_count x n \<le> unat (adaptive_proportion_cutoff env) then None else Some EPIPE,
     ?t\<lparr>current_counted_sample := x (65 * (n div 65)), sample_count := of_nat (n mod 65),
       apt_repetition_count := of_nat (window_count x n)\<rparr>)"
    using assms by (intro apt_step) (auto simp: tested_def)
  show ?thesis using assms 1 2 by (simp add: get_entropy_def tested_def del: run_length.simps)
qed

lemma tested_cong: "tested x n (st\<lparr>startup_tested := k\<rparr>) = tested x n st"
  by (simp add: tested_def)

lemma startup_loop_tested:
  assumes "tested x n st" "\<And>i. i < n + k \<Longrightarrow> get_noise env i = Inr (x i)" "run_length x n < unat (repetition_count_cutoff env)"
    "2 \<le> unat (repetition_count_cutoff env)" "0 < n \<longrightarrow> window_count x (n - 1) \<le> unat (adaptive_proportion_cutoff env)"
  shows "(\<forall>i. n \<le> i \<and> i < n + k \<longrightarrow> run_length x (Suc i) < unat (repetition_count_cutoff env) \<and>
      window_count x i \<le> unat (adaptive_proportion_cutoff env)) \<and> (\<exists>st'. startup_loop env k st = (None, st') \<and> tested x (n + k) st') \<or>
    (\<exists>i. n \<le> i \<and> i < n + k \<and> \<not> (run_length x (Suc i) < unat (repetition_count_cutoff env) \<and>
      window_count x i \<le> unat (adaptive_proportion_cutoff env))) \<and> (\<exists>st'. startup_loop env k st = (Some EPIPE, st') \<and> entropy_rc st' = Some EPIPE)"
  using assms
proof (induction k arbitrary: n st)
  case (Suc k)
  let ?ok = "\<lambda>i. run_length x (Suc i) < unat (repetition_count_cutoff env) \<and> window_count x i \<le> unat (adaptive_proportion_cutoff env)"
  show ?case
  proof (cases "?ok n")
    case True
    then obtain st' where st': "get_entropy env st = (Inr (x n), st')" "tested x (Suc n) st'"
      using tested_step [of x n st env] Suc.prems by (auto simp del: run_length.simps)
    let ?s = "st'\<lparr>startup_tested := startup_tested st' + 1\<rparr>"
    have iff: "(n \<le> i \<and> i < n + Suc k) \<longleftrightarrow> i = n \<or> Suc n \<le> i \<and> i < Suc n + k" for i by auto
    have loop: "startup_loop env (Suc k) st = startup_loop env k ?s" using st' by simp
    show ?thesis
      using Suc.IH [of "Suc n" ?s] True Suc.prems st'(2) unfolding loop iff
      by (auto simp: tested_cong simp del: run_length.simps)
  next
    case False
    then obtain st' where st': "get_entropy env st = (Inl EPIPE, st')" "entropy_rc st' = Some EPIPE"
      using tested_step [of x n st env] Suc.prems by (auto simp del: run_length.simps)
    then show ?thesis using False by (intro disjI2) (auto simp del: run_length.simps)
  qed
qed auto


lemma tested_boot: "tested x 0 entropy_boot"
  by (simp add: tested_def entropy_boot_def ADAPTIVE_PROPORTION_WINDOW_SIZE_def)

lemma cutoff_ge_2:
  assumes "1 \<le> min_entropy_per_sample env" "min_entropy_per_sample env \<le> 8"
  shows "2 \<le> unat (repetition_count_cutoff env)"
proof -
  define v f where "v = 1 + 30 / min_entropy_per_sample env" and "f = \<lfloor>v\<rfloor>"
  have "4 \<le> v" "v \<le> 31" using assms by (simp_all add: v_def field_simps)
  then have f: "4 \<le> f" "f \<le> 31" by (simp_all add: f_def le_floor_iff floor_le_iff)
  have n: "unat (word_of_int f :: u32) = nat f" using f by (simp add: unat_eq_nat_uint uint_word_of_int)
  have "unat (word_of_int f + 1 :: u32) = nat f + 1"
    using f n by (simp add: unat_word_ariths)
  then show ?thesis using n f by (auto simp: repetition_count_cutoff_def round_up_def v_def [symmetric] f_def [symmetric] Let_def)
qed

lemma runs_iff:
  assumes "0 < c"
  shows "(\<forall>i<n. run_length x (Suc i) < c) \<longleftrightarrow> (\<forall>i. i + c \<le> n \<longrightarrow> (\<exists>j<c. x (i + j) \<noteq> x i))"
proof -
  have rev: "(\<forall>j<c. x (m + c - 1 - j) = x (m + c - 1)) \<longleftrightarrow> (\<forall>j<c. x (m + j) = x m)" for m
  proof
    assume a: "\<forall>j<c. x (m + c - 1 - j) = x (m + c - 1)"
    have "x (m + j) = x (m + c - 1)" if "j < c" for j using a [rule_format, of "c - 1 - j"] that by simp
    then show "\<forall>j<c. x (m + j) = x m" using assms by (metis add.right_neutral)
  next
    assume a: "\<forall>j<c. x (m + j) = x m"
    have "x (m + c - 1 - j) = x m" if "j < c" for j using a [rule_format, of "c - 1 - j"] that by simp
    then show "\<forall>j<c. x (m + c - 1 - j) = x (m + c - 1)" using assms by (metis diff_zero)
  qed
  have "(\<exists>i<n. c \<le> run_length x (Suc i)) \<longleftrightarrow> (\<exists>m. m + c \<le> n \<and> (\<forall>j<c. x (m + j) = x m))"
  proof
    assume "\<exists>i<n. c \<le> run_length x (Suc i)"
    then obtain i where i: "i < n" "c \<le> Suc i" "\<forall>j<c. x (Suc i - 1 - j) = x (Suc i - 1)"
      using run_length_iff [OF assms] by blast
    then have "Suc i - c + c = Suc i" by simp
    then show "\<exists>m. m + c \<le> n \<and> (\<forall>j<c. x (m + j) = x m)" using i rev [of "Suc i - c"] by (metis Suc_leI)
  next
    assume "\<exists>m. m + c \<le> n \<and> (\<forall>j<c. x (m + j) = x m)"
    then obtain m where m: "m + c \<le> n" "\<forall>j<c. x (m + j) = x m" by blast
    have "c \<le> run_length x (m + c)" using run_length_iff [OF assms, of x "m + c"] rev m by simp
    then show "\<exists>i<n. c \<le> run_length x (Suc i)" using m assms by (intro exI [of _ "m + c - 1"]) (simp del: run_length.simps)
  qed
  then show ?thesis by (metis not_less)
qed

lemma windows_iff:
  "(\<forall>i<n. window_count x i \<le> a) \<longleftrightarrow>
    (\<forall>w. card {i. 65 * w < i \<and> i \<le> 65 * w + 64 \<and> i < n \<and> x i = x (65 * w)} \<le> a)" (is "?l \<longleftrightarrow> (\<forall>w. card (?S w) \<le> a)")
proof
  assume l: ?l
  show "\<forall>w. card (?S w) \<le> a"
  proof
    fix w
    show "card (?S w) \<le> a"
    proof (cases "65 * w < n")
      case True
      define m where "m = min (n - 1) (65 * w + 64)"
      have m: "m < n" "m div 65 = w" using True by (auto simp: m_def)
      have S: "?S w = {i. 65 * w < i \<and> i \<le> m \<and> x i = x (65 * w)}" using True by (auto simp: m_def)
      have "window_count x m \<le> a" using l m(1) by blast
      then show ?thesis unfolding S window_count_card [of x m] m(2) .
    next
      case False
      then have "?S w = {}" by auto
      then show ?thesis by (metis card.empty zero_le)
    qed
  qed
next
  assume r: "\<forall>w. card (?S w) \<le> a"
  show ?l
  proof (intro allI impI)
    fix i assume i: "i < n"
    let ?w = "i div 65"
    have "i \<le> 65 * ?w + 64" by presburger
    then have "{k. 65 * ?w < k \<and> k \<le> i \<and> x k = x (65 * ?w)} \<subseteq> ?S ?w" using i by auto
    moreover have "finite (?S ?w)" by simp
    ultimately have "card {k. 65 * ?w < k \<and> k \<le> i \<and> x k = x (65 * ?w)} \<le> card (?S ?w)" by (intro card_mono)
    also have "\<dots> \<le> a" using r by blast
    finally show "window_count x i \<le> a" unfolding window_count_card .
  qed
qed

text \<open>
  C28.  The two health tests of the noise source accept exactly the healthy sequences.  The first \<open>n\<close> samples \<open>x 0\<close>, \<open>x 1\<close>, \<open>\<dots>\<close> are all accepted if and
  only if no \<open>repetition_count_cutoff\<close> consecutive samples are equal and in no window of 65 samples the first sample occurs again more than
  \<open>adaptive_proportion_cutoff\<close> times.  Otherwise the tests fail with \<open>EPIPE\<close>, and the failure is permanent: every later sample is refused.
\<close>

theorem health_tests_exact:
  assumes "1 \<le> min_entropy_per_sample env" "min_entropy_per_sample env \<le> 8" "\<And>i. i < n \<Longrightarrow> get_noise env i = Inr (x i)"
  shows "\<exists>r st. startup_loop env n entropy_boot = (r, st) \<and>
    (r = None \<longleftrightarrow>
      (\<forall>i. i + unat (repetition_count_cutoff env) \<le> n \<longrightarrow> (\<exists>j<unat (repetition_count_cutoff env). x (i + j) \<noteq> x i)) \<and>
      (\<forall>w. card {i. 65 * w < i \<and> i \<le> 65 * w + 64 \<and> i < n \<and> x i = x (65 * w)} \<le> unat (adaptive_proportion_cutoff env))) \<and>
    (r \<noteq> None \<longrightarrow> r = Some EPIPE \<and> get_entropy env st = (Inl EPIPE, st))"
proof -
  have c: "2 \<le> unat (repetition_count_cutoff env)" using cutoff_ge_2 assms by blast
  then have "0 < unat (repetition_count_cutoff env)" by linarith
  note iffs = runs_iff [OF this, of n x, symmetric] windows_iff [of n x "unat (adaptive_proportion_cutoff env)", symmetric]
  have "get_entropy env st = (Inl EPIPE, st)" if "entropy_rc st = Some EPIPE" for st using that by (simp add: get_entropy_def)
  then show ?thesis unfolding iffs
    using startup_loop_tested [OF tested_boot [of x], of n env] assms(3) c
    by (auto simp del: run_length.simps(2))
qed

theorem health_tests_exact_witness:
  "\<exists>r st. startup_loop \<lparr>min_entropy_per_sample = 8, get_noise = (\<lambda>i. Inr 7), entropy_enable = (\<lambda>i. None)\<rparr> 5 entropy_boot = (r, st) \<and>
    r = Some EPIPE"
proof -
  let ?env = "\<lparr>min_entropy_per_sample = 8, get_noise = (\<lambda>i. Inr 7), entropy_enable = (\<lambda>i. None)\<rparr>"
  have c: "repetition_count_cutoff ?env = 5" by code_simp
  show ?thesis using health_tests_exact [of ?env 5 "\<lambda>i. 7"] unfolding c by fastforce
qed

end
