(* ===== verification/Iobuf.thy ===== *)
theory Iobuf
  imports Malloc
begin

text \<open>
  I/O buffers, \<open>core/iobuf.c\<close> and \<open>include/ipxe/iobuf.h\<close>, on the heap of the memory allocator.

  The fields of a descriptor are kept in a record beside the address of the descriptor, so that filling in a descriptor does not
  write to the memory of the heap; the buffer itself is heap memory.  On i386 \<open>struct io_buffer\<close> has 24 bytes and an alignment of 4.
  Assertions are left out, as in a production build.
\<close>

unbundle bit_operations_syntax

section \<open>Finding the last bit set\<close>

definition constant_flsll :: "u64 \<Rightarrow> nat" where
  "constant_flsll x =
     (let r = 0;
          (x, r) = (if x AND 0xffffffff00000000 \<noteq> 0 then (drop_bit 32 x, r + 32) else (x, r));
          (x, r) = (if x AND 0xffff0000 \<noteq> 0 then (drop_bit 16 x, r + 16) else (x, r));
          (x, r) = (if x AND 0xff00 \<noteq> 0 then (drop_bit 8 x, r + 8) else (x, r));
          (x, r) = (if x AND 0xf0 \<noteq> 0 then (drop_bit 4 x, r + 4) else (x, r));
          (x, r) = (if x AND 0xc \<noteq> 0 then (drop_bit 2 x, r + 2) else (x, r));
          (x, r) = (if x AND 0x2 \<noteq> 0 then (drop_bit 1 x, r + 1) else (x, r))
      in if x AND 0x1 \<noteq> 0 then r + 1 else r)"

text \<open>The instruction \<open>bsrl\<close>: the index of the most significant bit that is set.  Its result for zero is not used.\<close>

definition bsrl :: "u32 \<Rightarrow> nat" where
  "bsrl value = (case find (bit value) (rev [0..<32]) of Some n \<Rightarrow> n | None \<Rightarrow> 0)"

definition flsl :: "u32 \<Rightarrow> nat" where
  "flsl value = (if value \<noteq> 0 then bsrl value + 1 else 0)"

definition flsll :: "u64 \<Rightarrow> nat" where
  "flsll value =
     (let high = ucast (drop_bit 32 value) :: u32; low = ucast value :: u32
      in if high \<noteq> 0 then 32 + flsl high else if low \<noteq> 0 then flsl low else 0)"

section \<open>Buffers\<close>

record io_buffer =
  iob_self :: u32
  iob_head :: u32
  iob_data :: u32
  iob_tail :: u32
  iob_end :: u32

definition IOB_ZLEN :: u32 where
  "IOB_ZLEN = 64"

definition IOB_SIZE :: u32 where
  "IOB_SIZE = 24"

definition IOB_ALIGN :: u32 where
  "IOB_ALIGN = 4"

definition malloc_dma_offset ::
  "u32 \<Rightarrow> 'a discarder list \<Rightarrow> u32 \<Rightarrow> u32 \<Rightarrow> u32 \<Rightarrow> 'a heap_scheme \<Rightarrow> (u32 \<times> 'a heap_scheme) option" where
  "malloc_dma_offset voff ds sz phys_align offset h = alloc_memblock voff ds sz phys_align offset h"

definition malloc_dma :: "u32 \<Rightarrow> 'a discarder list \<Rightarrow> u32 \<Rightarrow> u32 \<Rightarrow> 'a heap_scheme \<Rightarrow> (u32 \<times> 'a heap_scheme) option" where
  "malloc_dma voff ds sz phys_align h = malloc_dma_offset voff ds sz phys_align 0 h"

definition free_dma :: "u32 \<Rightarrow> u32 \<Rightarrow> 'a heap_scheme \<Rightarrow> 'a heap_scheme option" where
  "free_dma ptr sz h = free_memblock ptr sz h"

definition populated :: "u32 \<Rightarrow> u32 \<Rightarrow> u32 \<Rightarrow> io_buffer" where
  "populated iobuf data len =
     \<lparr>iob_self = iobuf, iob_head = data, iob_data = data, iob_tail = data, iob_end = data + len\<rparr>"

definition alloc_iob_raw ::
  "u32 \<Rightarrow> 'a discarder list \<Rightarrow> u32 \<Rightarrow> u32 \<Rightarrow> u32 \<Rightarrow> 'a heap_scheme \<Rightarrow> (io_buffer option \<times> 'a heap_scheme) option" where
  "alloc_iob_raw voff ds len align offset h =
     (let len = (len + IOB_ALIGN - 1) AND NOT (IOB_ALIGN - 1);
          align = push_bit (flsl (align - 1)) 1
      in if len + IOB_SIZE \<le> align then
           (case malloc_dma_offset voff ds (len + IOB_SIZE) align offset h of
              None \<Rightarrow> None
            | Some (data, h) \<Rightarrow>
                if data = 0 then Some (None, h) else Some (Some (populated (data + len) data len), h))
         else
           (case malloc_dma_offset voff ds len align offset h of
              None \<Rightarrow> None
            | Some (data, h) \<Rightarrow>
                if data = 0 then Some (None, h)
                else
                  (case malloc voff ds IOB_SIZE h of
                     None \<Rightarrow> None
                   | Some (iobuf, h) \<Rightarrow>
                       if iobuf = 0 then map_option (\<lambda>h. (None, h)) (free_dma data len h)
                       else Some (Some (populated iobuf data len), h))))"

definition alloc_iob :: "u32 \<Rightarrow> 'a discarder list \<Rightarrow> u32 \<Rightarrow> 'a heap_scheme \<Rightarrow> (io_buffer option \<times> 'a heap_scheme) option" where
  "alloc_iob voff ds len h =
     (let len = (if len < IOB_ZLEN then IOB_ZLEN else len)
      in alloc_iob_raw voff ds len len 0 h)"

definition free_iob :: "u32 \<Rightarrow> 'a discarder list \<Rightarrow> io_buffer option \<Rightarrow> 'a heap_scheme \<Rightarrow> 'a heap_scheme option" where
  "free_iob voff ds iobuf h =
     (case iobuf of
        None \<Rightarrow> Some h
      | Some iobuf \<Rightarrow>
          (let len = iob_end iobuf - iob_head iobuf
           in if iob_end iobuf = iob_self iobuf then free_dma (iob_head iobuf) (len + IOB_SIZE) h
              else Option.bind (free_dma (iob_head iobuf) len h) (free voff ds (iob_self iobuf))))"

definition iob_reserve :: "u32 \<Rightarrow> io_buffer \<Rightarrow> u32 \<times> io_buffer" where
  "iob_reserve len iobuf =
     (let iobuf = iobuf\<lparr>iob_data := iob_data iobuf + len, iob_tail := iob_tail iobuf + len\<rparr> in (iob_data iobuf, iobuf))"

definition iob_push :: "u32 \<Rightarrow> io_buffer \<Rightarrow> u32 \<times> io_buffer" where
  "iob_push len iobuf = (let iobuf = iobuf\<lparr>iob_data := iob_data iobuf - len\<rparr> in (iob_data iobuf, iobuf))"

definition iob_pull :: "u32 \<Rightarrow> io_buffer \<Rightarrow> u32 \<times> io_buffer" where
  "iob_pull len iobuf = (let iobuf = iobuf\<lparr>iob_data := iob_data iobuf + len\<rparr> in (iob_data iobuf, iobuf))"

definition iob_put :: "u32 \<Rightarrow> io_buffer \<Rightarrow> u32 \<times> io_buffer" where
  "iob_put len iobuf = (let old_tail = iob_tail iobuf in (old_tail, iobuf\<lparr>iob_tail := iob_tail iobuf + len\<rparr>))"

definition iob_unput :: "u32 \<Rightarrow> io_buffer \<Rightarrow> io_buffer" where
  "iob_unput len iobuf = iobuf\<lparr>iob_tail := iob_tail iobuf - len\<rparr>"

definition iob_empty :: "io_buffer \<Rightarrow> io_buffer" where
  "iob_empty iobuf = iobuf\<lparr>iob_tail := iob_data iobuf\<rparr>"

definition iob_len :: "io_buffer \<Rightarrow> u32" where
  "iob_len iobuf = iob_tail iobuf - iob_data iobuf"

definition iob_headroom :: "io_buffer \<Rightarrow> u32" where
  "iob_headroom iobuf = iob_data iobuf - iob_head iobuf"

definition iob_tailroom :: "io_buffer \<Rightarrow> u32" where
  "iob_tailroom iobuf = iob_end iobuf - iob_tail iobuf"

definition iob_ensure_headroom :: "io_buffer \<Rightarrow> u32 \<Rightarrow> rc" where
  "iob_ensure_headroom iobuf len = (if len \<le> iob_headroom iobuf then None else Some ENOBUFS)"

text \<open>The loop that moves the buffers of a list into the new one.\<close>

fun concatenate_loop ::
  "u32 \<Rightarrow> 'a discarder list \<Rightarrow> io_buffer list \<Rightarrow> io_buffer \<Rightarrow> 'a heap_scheme \<Rightarrow> (io_buffer \<times> 'a heap_scheme) option" where
  "concatenate_loop voff ds [] concatenated h = Some (concatenated, h)"
| "concatenate_loop voff ds (iobuf # list) concatenated h =
     (let (dst, concatenated) = iob_put (iob_len iobuf) concatenated;
          h = h\<lparr>hmem := mem_copy (hmem h) dst (iob_data iobuf) (iob_len iobuf)\<rparr>
      in Option.bind (free_iob voff ds (Some iobuf) h) (concatenate_loop voff ds list concatenated))"

text \<open>\<open>iob_concatenate\<close> returns the new buffer and the list that is left.\<close>

definition iob_concatenate ::
  "u32 \<Rightarrow> 'a discarder list \<Rightarrow> io_buffer list \<Rightarrow> 'a heap_scheme \<Rightarrow> (io_buffer option \<times> io_buffer list \<times> 'a heap_scheme) option" where
  "iob_concatenate voff ds list h =
     (case list of
        [iobuf] \<Rightarrow> Some (Some iobuf, [], h)
      | _ \<Rightarrow>
          (let len = sum_list (map iob_len list)
           in case alloc_iob_raw voff ds len IOB_ALIGN 0 h of
                None \<Rightarrow> None
              | Some (None, h) \<Rightarrow> Some (None, list, h)
              | Some (Some concatenated, h) \<Rightarrow>
                  map_option (\<lambda>(concatenated, h). (Some concatenated, [], h)) (concatenate_loop voff ds list concatenated h)))"


section \<open>The last bit set\<close>

fun bit_length :: "nat \<Rightarrow> nat" where
  "bit_length n = (if n = 0 then 0 else Suc (bit_length (n div 2)))"

declare bit_length.simps [simp del]

lemma bit_length_0 [simp]: "bit_length 0 = 0"
  by (simp add: bit_length.simps)

lemma bit_length_bounds: "0 < n \<Longrightarrow> 2 ^ (bit_length n - 1) \<le> n \<and> n < 2 ^ bit_length n \<and> 0 < bit_length n"
proof (induction n rule: bit_length.induct)
  case (1 n)
  show ?case
  proof (cases "n div 2 = 0")
    case True
    then have "n = 1" using 1 by linarith
    then show ?thesis by (simp add: bit_length.simps)
  next
    case False
    then have "2 ^ (bit_length (n div 2) - 1) \<le> n div 2 \<and> n div 2 < 2 ^ bit_length (n div 2) \<and> 0 < bit_length (n div 2)" using 1 by simp
    moreover obtain k where "bit_length (n div 2) = Suc k" using calculation by (cases "bit_length (n div 2)") auto
    ultimately show ?thesis using 1(2) by (subst (1 2 3) bit_length.simps) auto
  qed
qed

lemma bit_length_unique:
  assumes "2 ^ k \<le> n" "n < 2 ^ Suc k"
  shows "bit_length n = Suc k"
proof -
  have n: "0 < n" using assms(1) by (metis gr0I not_le zero_less_numeral zero_less_power)
  note b = bit_length_bounds [OF n]
  have lt: "(2 :: nat) ^ i < 2 ^ j \<Longrightarrow> i < j" for i j by (rule power_less_imp_less_exp [of 2]) simp_all
  have "k < bit_length n" by (rule lt, rule le_less_trans [OF assms(1)]) (use b in blast)
  moreover have "bit_length n - 1 < Suc k" by (rule lt, rule le_less_trans [OF _ assms(2)]) (use b in blast)
  ultimately show ?thesis by linarith
qed

lemma bit_length_shift: "2 ^ k \<le> n \<Longrightarrow> bit_length n = k + bit_length (n div 2 ^ k)"
proof (induction k arbitrary: n)
  case (Suc k)
  have "2 ^ k \<le> n div 2" using Suc.prems by simp
  then have "bit_length (n div 2) = k + bit_length (n div 2 div 2 ^ k)" by (rule Suc.IH)
  moreover have "n \<noteq> 0" using Suc.prems by (metis not_le zero_less_numeral zero_less_power)
  ultimately show ?case by (subst bit_length.simps) (simp add: div_mult2_eq)
qed simp

lemma word_ge_exp_iff:
  fixes x :: "'a::len word"
  shows "2 ^ k \<le> unat x \<longleftrightarrow> (\<exists>i\<ge>k. bit x i)"
proof -
  have "unat x < 2 ^ k \<longleftrightarrow> drop_bit k x = 0"
    by (simp add: word_unat_eq_iff unat_drop_bit_div div_eq_0_iff)
  also have "\<dots> \<longleftrightarrow> (\<forall>i\<ge>k. \<not> bit x i)"
  proof
    assume z: "drop_bit k x = 0"
    show "\<forall>i\<ge>k. \<not> bit x i"
    proof (intro allI impI)
      fix i assume "k \<le> i"
      then have "bit (drop_bit k x) (i - k) \<longleftrightarrow> bit x i" by (simp add: bit_drop_bit_eq)
      then show "\<not> bit x i" using z by simp
    qed
  next
    assume "\<forall>i\<ge>k. \<not> bit x i"
    then show "drop_bit k x = 0" by (intro bit_eqI) (simp add: bit_drop_bit_eq)
  qed
  finally show ?thesis by (meson not_le)
qed

lemma and_range_mask:
  fixes x m :: "'a::len word"
  assumes "unat x < 2 ^ j" "\<And>i. bit m i \<longleftrightarrow> k \<le> i \<and> i < j"
  shows "x AND m \<noteq> 0 \<longleftrightarrow> 2 ^ k \<le> unat x"
proof -
  have "\<not> bit x i" if "j \<le> i" for i using assms(1) word_ge_exp_iff [of j x] that by auto
  then have "bit (x AND m) i \<longleftrightarrow> k \<le> i \<and> bit x i" for i using assms(2) [of i] by (auto simp: bit_and_iff)
  then have "x AND m \<noteq> 0 \<longleftrightarrow> (\<exists>i\<ge>k. bit x i)"
    using bit_eq_iff [of "x AND m" 0] by auto
  then show ?thesis by (simp add: word_ge_exp_iff)
qed

lemma flsl_bit_length: "flsl x = bit_length (unat x)"
proof (cases "x = 0")
  case False
  obtain n where n: "find (bit x) (rev [0..<32]) = Some n"
  proof (cases "find (bit x) (rev [0..<32])")
    case None
    then have "\<not> bit x i" for i by (cases "i < 32") (auto simp: find_None_iff dest: bit_imp_le_length)
    then have "x = 0" by (auto intro: bit_eqI)
    with False show ?thesis by simp
  qed
  then obtain j where j: "j < 32" "bit x (rev [0..<32] ! j)" "n = rev [0..<32] ! j" "\<forall>i<j. \<not> bit x (rev [0..<32] ! i)"
    by (auto simp: find_Some_iff)
  have nj: "n = 31 - j" using j(1,3) by (simp add: rev_nth)
  have high: "\<not> bit x i" if "n < i" for i
  proof (cases "i < 32")
    case True
    then have "31 - i < j" "rev [0..<32] ! (31 - i) = i" using that nj by (auto simp: rev_nth)
    then show ?thesis using j(4) by metis
  qed (auto dest: bit_imp_le_length)
  have "2 ^ n \<le> unat x" using j word_ge_exp_iff by blast
  moreover have "unat x < 2 ^ Suc n" using high word_ge_exp_iff [of "Suc n" x] by (meson Suc_le_lessD not_le)
  ultimately have "bit_length (unat x) = Suc n" by (rule bit_length_unique)
  then show ?thesis using False n by (simp add: flsl_def bsrl_def)
qed (simp add: flsl_def)

lemma flsll_bit_length: "flsll x = bit_length (unat x)"
proof -
  have h: "unat (ucast (drop_bit 32 x) :: u32) = unat x div 2 ^ 32"
  proof -
    have "unat x < 2 ^ 64" using unsigned_less [of x] by simp
    then have "unat x div 2 ^ 32 < 2 ^ 32" by (simp add: less_mult_imp_div_less)
    then show ?thesis by (simp add: unsigned_ucast_eq unat_drop_bit_div take_bit_nat_eq_self)
  qed
  have l: "unat (ucast x :: u32) = unat x mod 2 ^ 32" by (simp add: unsigned_ucast_eq take_bit_eq_mod)
  show ?thesis
  proof (cases "2 ^ 32 \<le> unat x")
    case True
    then have "(ucast (drop_bit 32 x) :: u32) \<noteq> 0" using h by (auto simp: word_unat_eq_iff div_eq_0_iff)
    then show ?thesis using bit_length_shift [OF True] h by (simp add: flsll_def flsl_bit_length)
  next
    case False
    then have "(ucast (drop_bit 32 x) :: u32) = 0" using h by (simp add: word_unat_eq_iff)
    moreover have "unat (ucast x :: u32) = unat x" using l False by simp
    ultimately show ?thesis by (auto simp: flsll_def flsl_bit_length word_unat_eq_iff)
  qed
qed

lemma fls_stage:
  fixes x m :: u64
  assumes "unat x < 2 ^ (2 * k)" "m = push_bit k (mask k)" "2 * k \<le> 64"
    "p = (if x AND m \<noteq> 0 then (drop_bit k x, r + k) else (x, r))"
  shows "unat (fst p) < 2 ^ k" "snd p + bit_length (unat (fst p)) = r + bit_length (unat x)"
proof -
  have "bit m i \<longleftrightarrow> k \<le> i \<and> i < 2 * k" for i using assms(2,3) by (auto simp: bit_simps)
  then have iff: "x AND m \<noteq> 0 \<longleftrightarrow> 2 ^ k \<le> unat x" using assms(1) by (rule and_range_mask [rotated])
  show "unat (fst p) < 2 ^ k"
    using assms(1) unfolding assms(4) iff
    by (simp add: unat_drop_bit_div less_mult_imp_div_less mult_2 power_add)
  show "snd p + bit_length (unat (fst p)) = r + bit_length (unat x)"
    unfolding assms(4) iff using bit_length_shift [of k "unat x"] by (simp add: unat_drop_bit_div)
qed

text \<open>The three ways of finding the last bit set agree.\<close>

lemma constant_flsll_bit_length: "constant_flsll x = bit_length (unat x)"
proof -
  obtain x1 r1 where p1: "(if x AND 0xffffffff00000000 \<noteq> 0 then (drop_bit 32 x, 0 + 32) else (x, 0 :: nat)) = (x1, r1)" by (metis surj_pair)
  obtain x2 r2 where p2: "(if x1 AND 0xffff0000 \<noteq> 0 then (drop_bit 16 x1, r1 + 16) else (x1, r1)) = (x2, r2)" by (metis surj_pair)
  obtain x3 r3 where p3: "(if x2 AND 0xff00 \<noteq> 0 then (drop_bit 8 x2, r2 + 8) else (x2, r2)) = (x3, r3)" by (metis surj_pair)
  obtain x4 r4 where p4: "(if x3 AND 0xf0 \<noteq> 0 then (drop_bit 4 x3, r3 + 4) else (x3, r3)) = (x4, r4)" by (metis surj_pair)
  obtain x5 r5 where p5: "(if x4 AND 0xc \<noteq> 0 then (drop_bit 2 x4, r4 + 2) else (x4, r4)) = (x5, r5)" by (metis surj_pair)
  obtain x6 r6 where p6: "(if x5 AND 0x2 \<noteq> 0 then (drop_bit 1 x5, r5 + 1) else (x5, r5)) = (x6, r6)" by (metis surj_pair)
  have m: "(0xffffffff00000000 :: u64) = push_bit 32 (mask 32)" "(0xffff0000 :: u64) = push_bit 16 (mask 16)"
    "(0xff00 :: u64) = push_bit 8 (mask 8)" "(0xf0 :: u64) = push_bit 4 (mask 4)" "(0xc :: u64) = push_bit 2 (mask 2)"
    "(0x2 :: u64) = push_bit 1 (mask 1)" by code_simp+
  have "unat x < 2 ^ (2 * 32)" using unsigned_less [of x] by simp
  note s1 = fls_stage [OF this m(1) _ p1 [symmetric], simplified fst_conv snd_conv]
  have lt1: "unat x1 < 2 ^ (2 * 16)" using s1(1) by simp
  note s2 = fls_stage [OF lt1 m(2) _ p2 [symmetric], simplified fst_conv snd_conv]
  have lt2: "unat x2 < 2 ^ (2 * 8)" using s2(1) by simp
  note s3 = fls_stage [OF lt2 m(3) _ p3 [symmetric], simplified fst_conv snd_conv]
  have lt3: "unat x3 < 2 ^ (2 * 4)" using s3(1) by simp
  note s4 = fls_stage [OF lt3 m(4) _ p4 [symmetric], simplified fst_conv snd_conv]
  have lt4: "unat x4 < 2 ^ (2 * 2)" using s4(1) by simp
  note s5 = fls_stage [OF lt4 m(5) _ p5 [symmetric], simplified fst_conv snd_conv]
  have lt5: "unat x5 < 2 ^ (2 * 1)" using s5(1) by simp
  note s6 = fls_stage [OF lt5 m(6) _ p6 [symmetric], simplified fst_conv snd_conv]
  have sum: "r6 + bit_length (unat x6) = bit_length (unat x)"
    using s1(2) s2(2) s3(2) s4(2) s5(2) s6(2) by simp
  have "constant_flsll x = (if x6 AND 1 \<noteq> 0 then r6 + 1 else r6)"
    by (simp only: constant_flsll_def Let_def p1 p2 p3 p4 p5 p6 prod.case)
  also have "\<dots> = r6 + bit_length (unat x6)"
  proof -
    have "unat x6 = 0 \<or> unat x6 = 1" using s6(1) by auto
    then consider "x6 = 0" | "x6 = 1" by (auto simp: word_unat_eq_iff)
    then show ?thesis by cases (simp_all add: bit_length.simps)
  qed
  finally show ?thesis using sum by simp
qed

section \<open>Life of a buffer\<close>

lemma round_size_IOB: "round_size 28 = 32"
  by (simp add: round_size_def MIN_MEMBLOCK_SIZE_def)

lemma align_power:
  assumes "0 < unat align" "unat align \<le> 2 ^ 29"
  obtains j where "push_bit (flsl (align - 1)) 1 = (2 ^ j :: u32)" "unat align \<le> 2 ^ j" "j \<le> 29" "unat (2 ^ j :: u32) = 2 ^ j"
proof -
  define j where "j = flsl (align - 1)"
  have u: "unat (align - 1) = unat align - 1" using assms(1) by (simp add: unat_sub_u32 word_le_nat_alt)
  have "unat align \<le> 2 ^ j \<and> j \<le> 29"
  proof (cases "unat (align - 1) = 0")
    case True
    then show ?thesis using u assms by (simp add: j_def flsl_bit_length)
  next
    case False
    then have b: "2 ^ (j - 1) \<le> unat (align - 1)" "unat (align - 1) < 2 ^ j" "0 < j"
      using bit_length_bounds [of "unat (align - 1)"] by (simp_all add: j_def flsl_bit_length)
    then have "(2 :: nat) ^ (j - 1) < 2 ^ 29" using u assms by linarith
    then have "j - 1 < 29" by (rule power_less_imp_less_exp [rotated]) simp
    then show ?thesis using b u by linarith
  qed
  moreover have "unat (2 ^ j :: u32) = 2 ^ j"
  proof -
    have "(2 :: nat) ^ j \<le> 2 ^ 29" using calculation by (intro power_increasing) auto
    then have "(2 :: nat) ^ j < 2 ^ 32" by (rule le_less_trans) simp
    then show ?thesis using unat_of_nat_small [of "2 ^ j"] by simp
  qed
  ultimately show ?thesis using that [of j] by (simp add: j_def push_bit_eq_mult)
qed

lemma align_mask_size:
  assumes "j \<le> 29" "unat (2 ^ j :: u32) = 2 ^ j" "0 < unat sz" "unat sz \<le> 2 ^ 30"
  shows "size_ok sz ((2 ^ j - 1) OR 15)"
proof -
  have "(2 ^ j - 1 :: u32) OR 15 = mask (max j 4)"
  proof -
    have "(15 :: u32) = mask 4" by (simp add: mask_eq_exp_minus_1)
    moreover have "(2 ^ j - 1 :: u32) = mask j" by (simp add: mask_eq_exp_minus_1)
    ultimately show ?thesis by (simp only:) (auto simp: bit_eq_iff bit_simps max_def)
  qed
  moreover have "unat (mask (max j 4) :: u32) < 2 ^ 29 + 16"
  proof -
    have le: "(2 :: nat) ^ max j 4 \<le> 2 ^ 29" using assms(1) by (intro power_increasing) auto
    have "(mask (max j 4) :: u32) = of_nat (2 ^ max j 4 - 1)" by (simp add: mask_eq_exp_minus_1 of_nat_diff)
    moreover have "unat (of_nat (2 ^ max j 4 - 1) :: u32) = 2 ^ max j 4 - 1" using le by (intro unat_of_nat_small) simp
    ultimately have "unat (mask (max j 4) :: u32) = 2 ^ max j 4 - 1" by (simp only:)
    then show ?thesis using le by linarith
  qed
  ultimately show ?thesis using assms(3,4) by (simp add: size_ok_def)
qed

lemma dma_spec:
  assumes "heap_ok lo hi h" "size_ok sz ((2 ^ j - 1) OR 15)" "malloc_dma_offset voff [] sz (2 ^ j) off h = Some (p, h')"
  shows "if p = 0 then h' = h else allocated lo hi (p, round_size sz) h h' \<and> take_bit j (p + voff - off) = 0"
proof -
  have al: "alloc_memblock voff [] sz (2 ^ j) off h = Some (p, h')" using assms(3) by (simp add: malloc_dma_offset_def)
  have sp: "if p \<noteq> 0 then allocated lo hi (p, round_size sz) h h' \<and> (\<exists>b. p = b + pre_of voff ((2 ^ j - 1) OR 15) off b) else h' = h"
    using alloc_memblock_spec [OF assms(1,2) al] assms(1) by (auto simp: discards_Nil split: if_splits)
  show ?thesis
  proof (cases "p = 0")
    case False
    then obtain b where b: "p = b + pre_of voff ((2 ^ j - 1) OR 15) off b" using sp by auto
    then have "take_bit j (p + voff - off) = 0" using pre_of_aligned [of j b voff off] by simp
    then show ?thesis using sp False by simp
  qed (use sp in simp)
qed

lemma free_autosized:
  assumes "heap_ok lo hi h" "autosized lo hi h ptr tsz" "ptr \<noteq> 0" "ptr \<noteq> NOWHERE"
  shows "\<exists>h'. free voff [] ptr h = Some h' \<and> heap_ok lo hi h' \<and> avail h' = block_set (ptr - 4, round_size tsz) \<union> avail h \<and>
    freemem h' = freemem h + round_size tsz"
proof -
  have id: "h\<lparr>hmem := mem_copy (hmem h) NOWHERE ptr 0\<rparr> = h" by (simp add: mem_copy_def)
  have "16 \<le> unat (round_size tsz)" using assms(2) size_okD(2) [of tsz 0] by (simp add: autosized_def)
  then obtain bl where bl: "free_memblock (ptr - 4) tsz h = Some (h\<lparr>free_blocks := bl, freemem := freemem h + round_size tsz\<rparr>)"
    "freed lo hi (ptr - 4, round_size tsz) (free_blocks h) bl"
    using free_memblock_ok [OF assms(1), of "ptr - 4" tsz] assms(2) by (auto simp: autosized_def)
  have "free voff [] ptr h = Some (h\<lparr>free_blocks := bl, freemem := freemem h + round_size tsz\<rparr>)"
    using bl(1) assms(2-4) id
    by (simp add: free_def realloc_def realloc_new_def realloc_old_def AUTOSIZED_DATA_def autosized_def NOWHERE_def Let_def)
  then show ?thesis using bl(2) assms(1) by (auto simp: freed_def heap_ok_def)
qed

lemma unat_NOWHERE: "unat NOWHERE = 4294967295"
  by (simp add: NOWHERE_def unsigned_minus_1_eq_mask mask_eq_exp_minus_1)

lemma malloc_IOB:
  assumes "heap_ok lo hi h" "malloc voff [] IOB_SIZE h = Some (p, h')"
  shows "if p = 0 then h' = h
    else \<exists>h1. allocated lo hi (p - 4, 32) h h1 \<and> h' = h1\<lparr>hmem := store32 (hmem h) (p - 4) 28\<rparr> \<and> p \<noteq> NOWHERE"
proof -
  have r: "realloc_new voff [] 24 h = Some (p, h')"
    using assms(2) by (auto simp: malloc_def realloc_def realloc_old_def IOB_SIZE_def split: option.splits if_splits)
  show ?thesis
  proof (cases "p = 0")
    case True
    have ok: "size_ok 28 ((1 - 1) OR 15)" by (simp add: size_ok_def)
    obtain blk where al: "alloc_memblock voff [] 28 1 0 h = Some (blk, h')" "blk = 0"
    proof -
      obtain blk h1 where al: "alloc_memblock voff [] 28 1 0 h = Some (blk, h1)"
        using r by (auto simp: realloc_new_def AUTOSIZED_DATA_def split: option.splits)
      show ?thesis
      proof (cases "blk = 0")
        case False
        then have "allocated lo hi (blk, round_size 28) h h1"
          using alloc_memblock_spec [OF assms(1) ok al] assms(1) by (auto simp: discards_Nil)
        then have "unat blk + 32 < 4294967296" using assms(1) by (auto simp: allocated_def round_size_IOB heap_ok_def region_ok_def)
        then have "unat (blk + 4) = unat blk + 4" by (simp add: unat_add_u32)
        then have "blk + 4 \<noteq> 0" by auto
        then show ?thesis using r al False True by (simp add: realloc_new_def AUTOSIZED_DATA_def)
      next
        case True
        then show ?thesis using r al that by (simp add: realloc_new_def AUTOSIZED_DATA_def)
      qed
    qed
    then show ?thesis using alloc_memblock_spec [OF assms(1) ok al(1)] assms(1) True by (auto simp: discards_Nil)
  next
    case False
    from realloc_new_some [OF assms(1) _ _ r False] obtain blk h1 where b: "p = blk + 4"
      "allocated lo hi (blk, round_size 28) h h1" "h' = h1\<lparr>hmem := store32 (hmem h) blk 28\<rparr>" by auto
    have "unat blk + 32 < 4294967296" using b(2) assms(1) by (auto simp: allocated_def round_size_IOB heap_ok_def region_ok_def)
    then have "unat (blk + 4) = unat blk + 4" by (simp add: unat_add_u32)
    then have "unat p < 4294967295" using b(1) \<open>unat blk + 32 < 4294967296\<close> by simp
    then have "p \<noteq> NOWHERE" using unat_NOWHERE by (metis less_irrefl)
    then show ?thesis using b False by (auto simp: round_size_IOB)
  qed
qed

text \<open>The memory of a buffer and what remains allocated until it is freed.\<close>

definition iob_memory :: "io_buffer \<Rightarrow> nat set" where
  "iob_memory iobuf = {unat (iob_head iobuf) ..< unat (iob_end iobuf)}"

definition iob_live :: "nat \<Rightarrow> nat \<Rightarrow> 'a heap_scheme \<Rightarrow> io_buffer \<Rightarrow> bool" where
  "iob_live lo hi h iobuf \<longleftrightarrow>
     (let len = iob_end iobuf - iob_head iobuf;
          sz = (if iob_end iobuf = iob_self iobuf then len + 24 else len)
      in size_ok sz 0 \<and> unat len \<le> unat sz \<and> lo \<le> unat (iob_head iobuf) \<and> unat (iob_head iobuf) + unat (round_size sz) \<le> hi \<and>
         block_set (iob_head iobuf, round_size sz) \<inter> avail h = {} \<and>
         (iob_end iobuf \<noteq> iob_self iobuf \<longrightarrow>
            autosized lo hi h (iob_self iobuf) 28 \<and> iob_self iobuf \<noteq> 0 \<and> iob_self iobuf \<noteq> NOWHERE \<and>
            block_set (iob_head iobuf, round_size sz) \<inter> block_set (iob_self iobuf - 4, 32) = {}))"

definition iob_cost :: "io_buffer \<Rightarrow> u32" where
  "iob_cost iobuf =
     (let len = iob_end iobuf - iob_head iobuf
      in if iob_end iobuf = iob_self iobuf then round_size (len + 24) else round_size len + 32)"

lemma iob_memory_block:
  assumes "unat (iob_head iobuf) + unat (round_size sz) \<le> hi" "hi < 4294967296"
    "unat (iob_end iobuf - iob_head iobuf) \<le> unat (round_size sz)"
  shows "iob_memory iobuf \<subseteq> block_set (iob_head iobuf, round_size sz)"
proof -
  let ?len = "iob_end iobuf - iob_head iobuf"
  have "unat (iob_head iobuf + ?len) = unat (iob_head iobuf) + unat ?len" using assms by (intro unat_add_u32) linarith
  then show ?thesis using assms(3) by (auto simp: iob_memory_def)
qed

lemma free_memblock_heap:
  assumes "heap_ok lo hi h" "lo \<le> unat ptr" "unat ptr + unat (round_size sz) \<le> hi" "size_ok sz 0"
    "block_set (ptr, round_size sz) \<inter> avail h = {}"
  obtains h' where "free_dma ptr sz h = Some h'" "heap_ok lo hi h'" "avail h' = block_set (ptr, round_size sz) \<union> avail h"
    "freemem h' = freemem h + round_size sz" "hmem h' = hmem h"
proof -
  from free_memblock_ok [OF assms(1-3) size_okD(2) [OF assms(4)] assms(5)] obtain bl where
    bl: "free_memblock ptr sz h = Some (h\<lparr>free_blocks := bl, freemem := freemem h + round_size sz\<rparr>)"
    "freed lo hi (ptr, round_size sz) (free_blocks h) bl" by blast
  show ?thesis
    using that [of "h\<lparr>free_blocks := bl, freemem := freemem h + round_size sz\<rparr>"] bl assms(1)
    by (simp add: free_dma_def freed_def heap_ok_def)
qed

lemma free_iob_live:
  assumes "heap_ok lo hi h" "iob_live lo hi h iobuf"
  shows "\<exists>h'. free_iob voff [] (Some iobuf) h = Some h' \<and> heap_ok lo hi h' \<and> avail h \<subseteq> avail h' \<and>
    iob_memory iobuf \<subseteq> avail h' \<and> freemem h' = freemem h + iob_cost iobuf"
proof -
  define len where "len = iob_end iobuf - iob_head iobuf"
  have hi: "hi < 4294967296" using assms(1) by (simp add: heap_ok_def region_ok_def)
  show ?thesis
  proof (cases "iob_end iobuf = iob_self iobuf")
    case True
    then have l: "size_ok (len + 24) 0" "unat len \<le> unat (len + 24)" "lo \<le> unat (iob_head iobuf)" "unat (iob_head iobuf) + unat (round_size (len + 24)) \<le> hi"
      "block_set (iob_head iobuf, round_size (len + 24)) \<inter> avail h = {}"
      using assms(2) by (simp_all add: iob_live_def len_def Let_def)
    obtain h' where h': "free_dma (iob_head iobuf) (len + 24) h = Some h'" "heap_ok lo hi h'"
      "avail h' = block_set (iob_head iobuf, round_size (len + 24)) \<union> avail h" "freemem h' = freemem h + round_size (len + 24)"
      using free_memblock_heap [OF assms(1) l(3,4,1,5)] by metis
    have "iob_memory iobuf \<subseteq> block_set (iob_head iobuf, round_size (len + 24))"
      using iob_memory_block [OF l(4) hi] size_okD(3) [OF l(1)] l(2) by (simp add: len_def)
    moreover have "free_iob voff [] (Some iobuf) h = Some h'" using True h'(1) by (simp add: free_iob_def IOB_SIZE_def len_def Let_def)
    moreover have "iob_cost iobuf = round_size (len + 24)" using True by (simp add: iob_cost_def len_def Let_def)
    ultimately show ?thesis using h' by auto
  next
    case False
    then have l: "size_ok len 0" "lo \<le> unat (iob_head iobuf)" "unat (iob_head iobuf) + unat (round_size len) \<le> hi"
      "block_set (iob_head iobuf, round_size len) \<inter> avail h = {}" "autosized lo hi h (iob_self iobuf) 28"
      "iob_self iobuf \<noteq> 0" "iob_self iobuf \<noteq> NOWHERE" "block_set (iob_head iobuf, round_size len) \<inter> block_set (iob_self iobuf - 4, 32) = {}"
      using assms(2) by (simp_all add: iob_live_def len_def Let_def)
    obtain h1 where h1: "free_dma (iob_head iobuf) len h = Some h1" "heap_ok lo hi h1"
      "avail h1 = block_set (iob_head iobuf, round_size len) \<union> avail h" "freemem h1 = freemem h + round_size len" "hmem h1 = hmem h"
      using free_memblock_heap [OF assms(1) l(2,3,1,4)] by metis
    have "autosized lo hi h1 (iob_self iobuf) 28" using l(5,8) h1(3,5) by (auto simp: autosized_def round_size_IOB)
    then obtain h2 where h2: "free voff [] (iob_self iobuf) h1 = Some h2" "heap_ok lo hi h2"
      "avail h2 = block_set (iob_self iobuf - 4, 32) \<union> avail h1" "freemem h2 = freemem h1 + 32"
      using free_autosized [OF h1(2) _ l(6,7), of 28 voff] by (auto simp: round_size_IOB)
    have "iob_memory iobuf \<subseteq> block_set (iob_head iobuf, round_size len)"
      using iob_memory_block [OF l(3) hi] size_okD(3) [OF l(1)] by (simp add: len_def)
    moreover have "free_iob voff [] (Some iobuf) h = Some h2" using False h1(1) h2(1) by (simp add: free_iob_def len_def Let_def)
    moreover have "iob_cost iobuf = round_size len + 32" using False by (simp add: iob_cost_def len_def Let_def)
    ultimately show ?thesis using h1 h2 by auto
  qed
qed

lemma iob_round:
  assumes "0 < unat len" "unat len \<le> 2 ^ 29"
  defines "n \<equiv> (len + IOB_ALIGN - 1) AND NOT (IOB_ALIGN - 1)"
  shows "unat len \<le> unat n" "4 \<le> unat n" "unat n < 2 ^ 29 + 4" "unat (n + 24) = unat n + 24"
proof -
  have "(3 :: u32) = mask 2" by (simp add: mask_eq_exp_minus_1)
  then have "n = (len + 3) AND NOT (mask 2)" by (simp add: n_def IOB_ALIGN_def add.commute)
  moreover have "unat (len + 3) = unat len + 3" using assms(2) by (simp add: unat_add_u32)
  ultimately have n: "unat n = (unat len + 3) div 4 * 4" using unat_and_not_mask [of "len + 3" 2] by simp
  show "unat len \<le> unat n" "4 \<le> unat n" "unat n < 2 ^ 29 + 4" unfolding n using assms(1,2) by presburger+
  then show "unat (n + 24) = unat n + 24" by (simp add: unat_add_u32)
qed

lemma allocatedD:
  assumes "allocated lo hi (p, n) h h'"
  shows "heap_ok lo hi h'" "avail h' \<subseteq> avail h" "block_set (p, n) \<inter> avail h' = {}" "block_set (p, n) \<subseteq> avail h"
    "lo \<le> unat p" "unat p + unat n \<le> hi" "freemem h' = freemem h - n" "hmem h' = hmem h"
  using assms by (auto simp: allocated_def)

lemma allocated_memory:
  assumes "allocated lo hi (p, round_size sz) h h'" "unat n \<le> unat (round_size sz)"
  shows "iob_memory (populated q p n) \<subseteq> avail h"
proof -
  have "hi < 4294967296" using allocatedD(1) [OF assms(1)] by (simp add: heap_ok_def region_ok_def)
  then show ?thesis
    using iob_memory_block [of "populated q p n" sz hi] allocatedD(4,6) [OF assms(1)] assms(2) by (auto simp: populated_def)
qed

lemma populated_sel [simp]:
  "iob_self (populated q p n) = q" "iob_head (populated q p n) = p" "iob_data (populated q p n) = p"
  "iob_tail (populated q p n) = p" "iob_end (populated q p n) = p + n"
  by (simp_all add: populated_def)

lemma alloc_inline:
  assumes "allocated lo hi (p, round_size (n + 24)) h h'" "size_ok (n + 24) 0" "unat n \<le> unat (n + 24)"
  shows "iob_live lo hi h' (populated (p + n) p n)" "iob_memory (populated (p + n) p n) \<subseteq> avail h"
    "freemem h' = freemem h - iob_cost (populated (p + n) p n)"
  using allocatedD [OF assms(1)] allocated_memory [OF assms(1)] assms(2,3) size_okD(3) [OF assms(2)]
  by (auto simp: iob_live_def iob_cost_def Let_def)

lemma alloc_detached:
  assumes "allocated lo hi (p, round_size n) h h1" "size_ok n 0" "4 \<le> unat n" "allocated lo hi (q - 4, 32) h1 h2"
    "q \<noteq> 0" "q \<noteq> NOWHERE" "h' = h2\<lparr>hmem := store32 m (q - 4) 28\<rparr>"
  shows "iob_live lo hi h' (populated q p n)" "iob_memory (populated q p n) \<subseteq> avail h"
    "freemem h' = freemem h - iob_cost (populated q p n)" "avail h' \<subseteq> avail h" "heap_ok lo hi h'"
proof -
  note a = allocatedD [OF assms(1)] and b = allocatedD [OF assms(4)]
  have disj: "block_set (p, round_size n) \<inter> block_set (q - 4, 32) = {}" using a(3) b(4) by blast
  have "p + n \<noteq> q"
  proof
    assume q: "p + n = q"
    have hi: "hi < 4294967296" using a(1) by (simp add: heap_ok_def region_ok_def)
    have "unat n - 4 < unat (round_size n)" using size_okD(3) [OF assms(2)] assms(3) by linarith
    moreover have "unat (n - 4) = unat n - 4" using assms(3) by (simp add: unat_sub_u32 word_le_nat_alt)
    ultimately have "unat (p + (n - 4)) \<in> block_set (p, round_size n)"
      using a(6) hi by (intro block_set_mem) linarith+
    moreover have "p + (n - 4) = q - 4" using q by simp
    moreover have "unat (q - 4) \<in> block_set (q - 4, 32)" by simp
    ultimately show False using disj by auto
  qed
  moreover have "autosized lo hi h' q 28" using b assms(7) by (auto simp: autosized_def size_ok_def round_size_IOB)
  ultimately show "iob_live lo hi h' (populated q p n)"
    using a b assms(2,5-7) disj by (auto simp: iob_live_def Let_def)
  show "iob_memory (populated q p n) \<subseteq> avail h" using allocated_memory [OF assms(1)] size_okD(3) [OF assms(2)] by blast
  show "freemem h' = freemem h - iob_cost (populated q p n)" "avail h' \<subseteq> avail h" "heap_ok lo hi h'"
    using a b assms(7) \<open>p + n \<noteq> q\<close> by (auto simp: iob_cost_def heap_ok_def Let_def)
qed

lemma alloc_iob_raw_live:
  assumes "heap_ok lo hi h" "0 < unat len" "unat len \<le> 2 ^ 29" "0 < unat align" "unat align \<le> 2 ^ 29"
    "alloc_iob_raw voff [] len align off h = Some (r, h')"
  shows "heap_ok lo hi h' \<and> avail h' \<subseteq> avail h \<and>
    (case r of
       None \<Rightarrow> freemem h' = freemem h
     | Some iobuf \<Rightarrow> iob_live lo hi h' iobuf \<and> iob_memory iobuf \<subseteq> avail h \<and>
         freemem h' = freemem h - iob_cost iobuf \<and> unat len \<le> unat (iob_end iobuf - iob_head iobuf) \<and>
         iob_data iobuf = iob_head iobuf \<and> iob_tail iobuf = iob_head iobuf \<and>
         (\<exists>j. unat align \<le> 2 ^ j \<and> take_bit j (iob_head iobuf + voff - off) = 0))"
proof -
  obtain j where j: "push_bit (flsl (align - 1)) 1 = (2 ^ j :: u32)" "unat align \<le> 2 ^ j" "j \<le> 29" "unat (2 ^ j :: u32) = 2 ^ j"
    using align_power [OF assms(4,5)] .
  define n where "n = (len + IOB_ALIGN - 1) AND NOT (IOB_ALIGN - 1)"
  note n = iob_round [OF assms(2,3), folded n_def]
  note run = assms(6) [unfolded alloc_iob_raw_def Let_def, folded n_def, unfolded j(1)]
  have sz: "size_ok (n + 24) ((2 ^ j - 1) OR 15)" "size_ok n ((2 ^ j - 1) OR 15)"
    using align_mask_size [OF j(3,4)] n by simp_all
  then have sz0: "size_ok (n + 24) 0" "size_ok n 0" by (simp_all add: size_ok_def)
  show ?thesis
  proof (cases "n + IOB_SIZE \<le> 2 ^ j")
    case True
    then obtain p where p: "malloc_dma_offset voff [] (n + 24) (2 ^ j) off h = Some (p, h')"
      "r = (if p = 0 then None else Some (populated (p + n) p n))"
      using run by (auto simp: IOB_SIZE_def split: option.splits if_splits)
    note d = dma_spec [OF assms(1) sz(1) p(1)]
    show ?thesis
    proof (cases "p = 0")
      case False
      then have d: "allocated lo hi (p, round_size (n + 24)) h h'" "take_bit j (p + voff - off) = 0" using d by simp_all
      show ?thesis using alloc_inline [OF d(1) sz0(1)] allocatedD(1,2) [OF d(1)] d(2) n p(2) False j(2) by auto
    qed (use d p assms(1) in simp)
  next
    case False
    then obtain p h1 where p: "malloc_dma_offset voff [] n (2 ^ j) off h = Some (p, h1)"
      "if p = 0 then r = None \<and> h' = h1
       else \<exists>q h2. malloc voff [] IOB_SIZE h1 = Some (q, h2) \<and>
         (if q = 0 then r = None \<and> free_dma p n h2 = Some h' else r = Some (populated q p n) \<and> h' = h2)"
      using run by (auto split: option.splits if_splits)
    note d = dma_spec [OF assms(1) sz(2) p(1)]
    show ?thesis
    proof (cases "p = 0")
      case False
      then have d: "allocated lo hi (p, round_size n) h h1" "take_bit j (p + voff - off) = 0" using d by simp_all
      obtain q h2 where q: "malloc voff [] IOB_SIZE h1 = Some (q, h2)"
        "if q = 0 then r = None \<and> free_dma p n h2 = Some h' else r = Some (populated q p n) \<and> h' = h2" using p(2) False by auto
      note a = allocatedD [OF d(1)] and m = malloc_IOB [OF a(1) q(1)]
      show ?thesis
      proof (cases "q = 0")
        case True
        then have "h2 = h1" using m by simp
        obtain h3 where h3: "free_dma p n h1 = Some h3" "heap_ok lo hi h3" "avail h3 = block_set (p, round_size n) \<union> avail h1"
          "freemem h3 = freemem h1 + round_size n" using free_memblock_heap [OF a(1,5,6) sz0(2) a(3)] by metis
        then show ?thesis using True q(2) \<open>h2 = h1\<close> a by auto
      next
        case q0: False
        then obtain h3 where h3: "allocated lo hi (q - 4, 32) h1 h3" "h2 = h3\<lparr>hmem := store32 (hmem h1) (q - 4) 28\<rparr>" "q \<noteq> NOWHERE"
          using m by auto
        show ?thesis using alloc_detached [OF d(1) sz0(2) n(2) h3(1) q0 h3(3) h3(2)] d(2) n q q0 j(2) by auto
      qed
    qed (use d p assms(1) in simp)
  qed
qed

lemma iob_live_write:
  assumes "heap_ok lo hi h" "iob_live lo hi h iobuf" "\<forall>a. unat a \<notin> iob_memory iobuf \<longrightarrow> m a = hmem h a"
  shows "iob_live lo hi (h\<lparr>hmem := m\<rparr>) (iobuf\<lparr>iob_data := d, iob_tail := t\<rparr>)"
proof (cases "iob_end iobuf = iob_self iobuf")
  case False
  let ?len = "iob_end iobuf - iob_head iobuf" and ?lab = "iob_self iobuf - 4"
  have l: "size_ok ?len 0" "unat (iob_head iobuf) + unat (round_size ?len) \<le> hi" "autosized lo hi h (iob_self iobuf) 28"
    "block_set (iob_head iobuf, round_size ?len) \<inter> block_set (?lab, 32) = {}"
    using assms(2) False by (simp_all add: iob_live_def Let_def)
  have hi: "hi < 4294967296" using assms(1) by (simp add: heap_ok_def region_ok_def)
  have "iob_memory iobuf \<subseteq> block_set (iob_head iobuf, round_size ?len)"
    using iob_memory_block [OF l(2) hi] size_okD(3) [OF l(1)] by simp
  moreover have "unat (?lab + i) \<in> block_set (?lab, 32)" if "unat i < 32" for i
    using l(3) hi that by (intro block_set_mem) (auto simp: autosized_def round_size_IOB)
  ultimately have keep: "m (?lab + i) = hmem h (?lab + i)" if "unat i < 32" for i using assms(3) l(4) that by blast
  have "load32 m ?lab = load32 (hmem h) ?lab"
    using keep [of 0] keep [of 1] keep [of 2] keep [of 3] by (intro load32_cong) simp_all
  then show ?thesis using assms(2) False by (auto simp: iob_live_def Let_def autosized_def)
qed (use assms in \<open>simp add: iob_live_def Let_def\<close>)

section \<open>Moving the data pointers\<close>

text \<open>
  The operations on the data of a buffer, and what they mean: a buffer is divided into headroom, data and tailroom, and an operation moves the
  borders.  An operation for which there is no room has no meaning; the assertions of the code exclude it.
\<close>

datatype iob_op = Reserve u32 | Push u32 | Pull u32 | Put u32 | Unput u32 | Empty

primrec iob_do :: "iob_op \<Rightarrow> io_buffer \<Rightarrow> io_buffer" where
  "iob_do (Reserve n) iobuf = snd (iob_reserve n iobuf)"
| "iob_do (Push n) iobuf = snd (iob_push n iobuf)"
| "iob_do (Pull n) iobuf = snd (iob_pull n iobuf)"
| "iob_do (Put n) iobuf = snd (iob_put n iobuf)"
| "iob_do (Unput n) iobuf = iob_unput n iobuf"
| "iob_do Empty iobuf = iob_empty iobuf"

fun move_borders :: "iob_op \<Rightarrow> nat \<times> nat \<times> nat \<Rightarrow> (nat \<times> nat \<times> nat) option" where
  "move_borders (Reserve n) (head, len, tail) = (if unat n \<le> tail then Some (head + unat n, len, tail - unat n) else None)"
| "move_borders (Push n) (head, len, tail) = (if unat n \<le> head then Some (head - unat n, len + unat n, tail) else None)"
| "move_borders (Pull n) (head, len, tail) = (if unat n \<le> len then Some (head + unat n, len - unat n, tail) else None)"
| "move_borders (Put n) (head, len, tail) = (if unat n \<le> tail then Some (head, len + unat n, tail - unat n) else None)"
| "move_borders (Unput n) (head, len, tail) = (if unat n \<le> len then Some (head, len - unat n, tail + unat n) else None)"
| "move_borders Empty (head, len, tail) = Some (head, 0, tail + len)"

fun moves :: "iob_op list \<Rightarrow> nat \<times> nat \<times> nat \<Rightarrow> (nat \<times> nat \<times> nat) option" where
  "moves [] x = Some x"
| "moves (f # fs) x = Option.bind (move_borders f x) (moves fs)"

definition borders :: "io_buffer \<Rightarrow> nat \<times> nat \<times> nat" where
  "borders iobuf = (unat (iob_headroom iobuf), unat (iob_len iobuf), unat (iob_tailroom iobuf))"

definition iob_ordered :: "io_buffer \<Rightarrow> bool" where
  "iob_ordered iobuf \<longleftrightarrow> iob_head iobuf \<le> iob_data iobuf \<and> iob_data iobuf \<le> iob_tail iobuf \<and> iob_tail iobuf \<le> iob_end iobuf"

lemma unat_minus_u32: "b \<le> a \<Longrightarrow> unat (a - b :: u32) = unat a - unat b"
  by (rule unat_sub)

lemma iob_do_borders:
  assumes "iob_ordered iobuf" "move_borders f (borders iobuf) = Some x"
  shows "iob_ordered (iob_do f iobuf) \<and> borders (iob_do f iobuf) = x"
proof -
  note o = assms(1) [unfolded iob_ordered_def word_le_nat_alt]
  have b: "borders iobuf = (unat (iob_data iobuf) - unat (iob_head iobuf), unat (iob_tail iobuf) - unat (iob_data iobuf), unat (iob_end iobuf) - unat (iob_tail iobuf))"
    using assms(1) by (simp add: borders_def iob_headroom_def iob_len_def iob_tailroom_def unat_minus_u32 iob_ordered_def)
  have add: "unat (a + n) = unat a + unat n" if "unat n \<le> unat e - unat a" "unat a \<le> unat e" for a n e :: u32
    using that unat_u32_less [of e] by (intro unat_add_u32) linarith
  have sub: "unat (a - n) = unat a - unat n" if "unat n \<le> unat a - unat e" for a n e :: u32
    using that by (intro unat_minus_u32) (simp add: word_le_nat_alt)
  show ?thesis
    using assms(2) o add [of _ "iob_end iobuf" "iob_tail iobuf"] add [of _ "iob_end iobuf" "iob_data iobuf"] add [of _ "iob_tail iobuf" "iob_data iobuf"]
      sub [of _ "iob_data iobuf" "iob_head iobuf"] sub [of _ "iob_tail iobuf" "iob_data iobuf"]
    unfolding b
    by (cases f) (auto simp: borders_def iob_headroom_def iob_len_def iob_tailroom_def unat_minus_u32 iob_ordered_def word_le_nat_alt
        iob_reserve_def iob_push_def iob_pull_def iob_put_def iob_unput_def iob_empty_def Let_def split: if_splits)
qed

lemma iob_do_fixed [simp]:
  "iob_self (iob_do f iobuf) = iob_self iobuf" "iob_head (iob_do f iobuf) = iob_head iobuf" "iob_end (iob_do f iobuf) = iob_end iobuf"
  by (cases f; simp add: iob_reserve_def iob_push_def iob_pull_def iob_put_def iob_unput_def iob_empty_def Let_def)+

lemma iob_moves:
  assumes "iob_ordered iobuf" "moves fs (borders iobuf) = Some x" "b = fold iob_do fs iobuf"
  shows "iob_ordered b \<and> borders b = x \<and> iob_self b = iob_self iobuf \<and> iob_head b = iob_head iobuf \<and> iob_end b = iob_end iobuf"
  using assms
proof (induction fs arbitrary: iobuf)
  case (Cons f fs)
  then obtain y where y: "move_borders f (borders iobuf) = Some y" "moves fs y = Some x" by (auto split: bind_splits)
  then show ?case using iob_do_borders [OF Cons.prems(1) y(1)] Cons.IH [of "iob_do f iobuf"] Cons.prems(3) by simp
qed simp



end
