(* ===== verification/Fragment.thy ===== *)
theory Fragment
  imports Retry Tcpip "HOL-Library.Sublist"
begin

text \<open>
  Fragment reassembly, \<open>net/fragment.c\<close>.

  The reassembly buffers are a store from buffer names to \<open>struct fragment\<close>, with the list of the buffers in use beside it, on top of the retry
  timers; the timer of a buffer has the name of the buffer.  A packet is the content of its I/O buffer together with the headroom in front of
  it.  The methods of a reassembler are functions in a record.  An allocation may fail: the environment tells this for each allocation, in the
  order of the requests.  Lengths are natural numbers, as the packets lie in memory and their lengths cannot wrap around.
\<close>

record packet =
  pkt_headroom :: nat
  pkt_data :: bytes

definition FRAGMENT_TIMEOUT :: "u32 \<Rightarrow> u32" where
  "FRAGMENT_TIMEOUT tps = tps div 2"

record fragment =
  frag_iobuf :: packet
  frag_hdrlen :: nat

record fragment_reassembler =
  is_fragment :: "fragment \<Rightarrow> packet \<Rightarrow> nat \<Rightarrow> bool"
  fragment_offset :: "packet \<Rightarrow> nat \<Rightarrow> nat"
  more_fragments :: "packet \<Rightarrow> nat \<Rightarrow> bool"

record ('o, 'p) frag_world = "('o, 'p, nat) timer_world" +
  frag_list :: "nat list"
  frag_of :: "nat \<Rightarrow> fragment"
  next_frag :: nat
  frag_allocs :: nat
  frag_stats :: ip_statistics

section \<open>Operations\<close>

definition fragment_expired :: "nat \<Rightarrow> bool \<Rightarrow> ('o, 'p, 'a) frag_world_scheme \<Rightarrow> ('o, 'p, 'a) frag_world_scheme" where
  "fragment_expired fragment fail w =
     w\<lparr>frag_list := remove1 fragment (frag_list w),
       frag_stats := (frag_stats w)\<lparr>reasm_fails := reasm_fails (frag_stats w) + 1\<rparr>\<rparr>"

definition fragment_find :: "fragment_reassembler \<Rightarrow> packet \<Rightarrow> nat \<Rightarrow> ('o, 'p, 'a) frag_world_scheme \<Rightarrow> nat option" where
  "fragment_find fragments iobuf hdrlen w =
     find (\<lambda>fragment. is_fragment fragments (frag_of w fragment) iobuf hdrlen) (frag_list w)"

text \<open>A request for memory: whether it succeeds.\<close>

definition frag_alloc :: "(nat \<Rightarrow> bool) \<Rightarrow> ('o, 'p, 'a) frag_world_scheme \<Rightarrow> bool \<times> ('o, 'p, 'a) frag_world_scheme" where
  "frag_alloc alloc_ok w = (alloc_ok (frag_allocs w), w\<lparr>frag_allocs := frag_allocs w + 1\<rparr>)"

text \<open>The path \<open>drop\<close>.\<close>

definition fragment_drop :: "('o, 'p, 'a) frag_world_scheme \<Rightarrow> (packet \<times> nat) option \<times> ('o, 'p, 'a) frag_world_scheme" where
  "fragment_drop w = (None, w\<lparr>frag_stats := (frag_stats w)\<lparr>reasm_fails := reasm_fails (frag_stats w) + 1\<rparr>\<rparr>)"

definition zero_timer :: "'o retry_timer" where
  "zero_timer = \<lparr>running = False, timeout = 0, min_timeout = 0, max_timeout = 0, start = 0, count = 0, timer_refcnt = None\<rparr>"

text \<open>A new buffer, with its memory zeroed and its timer initialised, and the extension of a buffer.\<close>

definition fragment_create :: "packet \<Rightarrow> nat \<Rightarrow> ('o, 'p, 'a) frag_world_scheme \<Rightarrow> nat \<times> ('o, 'p, 'a) frag_world_scheme" where
  "fragment_create iobuf hdrlen w =
     (let fragment = next_frag w
      in (fragment,
          set_timer fragment zero_timer
            (w\<lparr>frag_list := fragment # frag_list w,
               frag_of := (frag_of w)(fragment := \<lparr>frag_iobuf = iobuf, frag_hdrlen = hdrlen\<rparr>),
               next_frag := next_frag w + 1\<rparr>)))"

definition fragment_extend :: "nat \<Rightarrow> bytes \<Rightarrow> ('o, 'p, 'a) frag_world_scheme \<Rightarrow> ('o, 'p, 'a) frag_world_scheme" where
  "fragment_extend fragment data w =
     (let iobuf = frag_iobuf (frag_of w fragment);
          new_iobuf = \<lparr>pkt_headroom = pkt_headroom iobuf, pkt_data = pkt_data iobuf @ data\<rparr>
      in w\<lparr>frag_of := (frag_of w)(fragment := (frag_of w fragment)\<lparr>frag_iobuf := new_iobuf\<rparr>)\<rparr>)"

definition fragment_reassemble ::
  "fragment_reassembler \<Rightarrow> (nat \<Rightarrow> bool) \<Rightarrow> u32 \<Rightarrow> u32 \<Rightarrow> packet \<Rightarrow> nat \<Rightarrow> ('o, 'p, 'a) frag_world_scheme \<Rightarrow>
    (packet \<times> nat) option \<times> ('o, 'p, 'a) frag_world_scheme" where
  "fragment_reassemble fragments alloc_ok tps now iobuf hdrlen w =
     (let w = w\<lparr>frag_stats := (frag_stats w)\<lparr>reasm_reqds := reasm_reqds (frag_stats w) + 1\<rparr>\<rparr>;
          fragment = fragment_find fragments iobuf hdrlen w;
          offset = fragment_offset fragments iobuf hdrlen;
          expected_offset =
            (case fragment of
               Some fragment \<Rightarrow> length (pkt_data (frag_iobuf (frag_of w fragment))) - frag_hdrlen (frag_of w fragment)
             | None \<Rightarrow> 0)
      in if offset \<noteq> expected_offset then fragment_drop w
         else
           (case fragment of
              None \<Rightarrow>
                (let (ok, w) = frag_alloc alloc_ok w
                 in if \<not> ok then fragment_drop w
                    else
                      (let (fragment, w) = fragment_create iobuf hdrlen w
                       in (None, start_timer_fixed tps now fragment (FRAGMENT_TIMEOUT tps) w)))
            | Some fragment \<Rightarrow>
                (let more_frags = more_fragments fragments iobuf hdrlen;
                     data = drop hdrlen (pkt_data iobuf);
                     (ok, w) = frag_alloc alloc_ok w
                 in if \<not> ok then fragment_drop w
                    else
                      (let w = fragment_extend fragment data w;
                           w = stop_timer now fragment w
                       in if \<not> more_frags then
                            (let f = frag_of w fragment;
                                 w = w\<lparr>frag_list := remove1 fragment (frag_list w)\<rparr>;
                                 w = w\<lparr>frag_stats := (frag_stats w)\<lparr>reasm_oks := reasm_oks (frag_stats w) + 1\<rparr>\<rparr>
                             in (Some (frag_iobuf f, frag_hdrlen f), w))
                          else (None, start_timer_fixed tps now fragment (FRAGMENT_TIMEOUT tps) w)))))"

section \<open>Frame\<close>

lemma ref_frag [simp]:
  "frag_list (ref_increment r (w :: ('o, 'p, 'a) frag_world_scheme)) = frag_list w"
  "frag_of (ref_increment r w) = frag_of w" "next_frag (ref_increment r w) = next_frag w"
  "frag_allocs (ref_increment r w) = frag_allocs w" "frag_stats (ref_increment r w) = frag_stats w"
  "frag_list (ref_decrement r w) = frag_list w" "frag_of (ref_decrement r w) = frag_of w"
  "next_frag (ref_decrement r w) = next_frag w" "frag_allocs (ref_decrement r w) = frag_allocs w"
  "frag_stats (ref_decrement r w) = frag_stats w"
  by (auto simp: ref_increment_def ref_decrement_def Let_def split: option.splits)

lemma timer_frag [simp]:
  "frag_list (set_timer t x (w :: ('o, 'p, 'a) frag_world_scheme)) = frag_list w" "frag_of (set_timer t x w) = frag_of w"
  "next_frag (set_timer t x w) = next_frag w" "frag_allocs (set_timer t x w) = frag_allocs w"
  "frag_stats (set_timer t x w) = frag_stats w"
  "frag_list (start_timer_fixed tps now t tmo w) = frag_list w" "frag_of (start_timer_fixed tps now t tmo w) = frag_of w"
  "next_frag (start_timer_fixed tps now t tmo w) = next_frag w" "frag_allocs (start_timer_fixed tps now t tmo w) = frag_allocs w"
  "frag_stats (start_timer_fixed tps now t tmo w) = frag_stats w"
  "frag_list (stop_timer now t w) = frag_list w" "frag_of (stop_timer now t w) = frag_of w"
  "next_frag (stop_timer now t w) = next_frag w" "frag_allocs (stop_timer now t w) = frag_allocs w"
  "frag_stats (stop_timer now t w) = frag_stats w"
  by (auto simp: set_timer_def start_timer_fixed_def start_timer_def stop_timer_def Let_def)

lemma start_timer_fixed_of:
  "timer_of (start_timer_fixed tps now t tmo w) = (timer_of w)(t := (timer_start tps now (timer_of w t))\<lparr>timeout := tmo\<rparr>)"
  by (simp add: start_timer_fixed_def start_timer_of Let_def)

section \<open>Chains of fragments\<close>

type_synonym frag_packet = "packet \<times> nat"

definition frag_payload :: "frag_packet \<Rightarrow> bytes" where
  "frag_payload p = drop (snd p) (pkt_data (fst p))"

text \<open>What a list of fragments reassembles to: the first one in full, followed by what the others carry behind their headers.\<close>

definition joined :: "frag_packet list \<Rightarrow> packet" where
  "joined ps = (fst (hd ps))\<lparr>pkt_data := pkt_data (fst (hd ps)) @ concat (map frag_payload (tl ps))\<rparr>"

definition contiguous :: "fragment_reassembler \<Rightarrow> frag_packet list \<Rightarrow> bool" where
  "contiguous R ps \<longleftrightarrow>
     (\<forall>i<length ps. fragment_offset R (fst (ps ! i)) (snd (ps ! i)) = length (concat (map frag_payload (take i ps))))"

definition has_more :: "fragment_reassembler \<Rightarrow> frag_packet \<Rightarrow> bool" where
  "has_more R p = more_fragments R (fst p) (snd p)"

lemma joined_snoc: "ps \<noteq> [] \<Longrightarrow> joined (ps @ [p]) = (joined ps)\<lparr>pkt_data := pkt_data (joined ps) @ frag_payload p\<rparr>"
  by (simp add: joined_def)

lemma contiguous_snoc:
  "contiguous R (ps @ [p]) \<longleftrightarrow>
     contiguous R ps \<and> fragment_offset R (fst p) (snd p) = length (concat (map frag_payload ps))"
  by (auto simp: contiguous_def nth_append less_Suc_eq)

lemma joined_length:
  assumes "ps \<noteq> []" "snd (hd ps) \<le> length (pkt_data (fst (hd ps)))"
  shows "length (pkt_data (joined ps)) - snd (hd ps) = length (concat (map frag_payload ps))"
  using assms by (cases ps) (auto simp: joined_def frag_payload_def)

section \<open>Events\<close>

datatype frag_event = Fragment u32 packet nat | Poll u32

primrec event_time :: "frag_event \<Rightarrow> u32" where
  "event_time (Fragment now p h) = now"
| "event_time (Poll now) = now"

primrec event_frag :: "frag_event \<Rightarrow> frag_packet option" where
  "event_frag (Fragment now p h) = Some (p, h)"
| "event_frag (Poll now) = None"

abbreviation event_frags :: "frag_event list \<Rightarrow> frag_packet list" where
  "event_frags evs \<equiv> List.map_filter event_frag evs"

primrec frag_event_step ::
  "fragment_reassembler \<Rightarrow> (nat \<Rightarrow> bool) \<Rightarrow> u32 \<Rightarrow> frag_event \<Rightarrow> ('o, 'p, 'a) frag_world_scheme \<Rightarrow>
    frag_packet option \<times> ('o, 'p, 'a) frag_world_scheme" where
  "frag_event_step R alloc_ok tps (Fragment now p h) w = fragment_reassemble R alloc_ok tps now p h w"
| "frag_event_step R alloc_ok tps (Poll now) w = (None, retry_poll fragment_expired tps now w)"

fun frag_run ::
  "fragment_reassembler \<Rightarrow> (nat \<Rightarrow> bool) \<Rightarrow> u32 \<Rightarrow> frag_event list \<Rightarrow> ('o, 'p, 'a) frag_world_scheme \<Rightarrow>
    frag_packet option list \<times> ('o, 'p, 'a) frag_world_scheme" where
  "frag_run R alloc_ok tps [] w = ([], w)"
| "frag_run R alloc_ok tps (e # evs) w =
     (let (r, w) = frag_event_step R alloc_ok tps e w; (rs, w) = frag_run R alloc_ok tps evs w in (r # rs, w))"

lemma frag_run_append:
  "frag_run R a tps (es @ fs) w =
     (let (rs, w) = frag_run R a tps es w; (ss, w) = frag_run R a tps fs w in (rs @ ss, w))"
  by (induction es arbitrary: w) (simp_all add: case_prod_beta Let_def)

lemma frag_run_length: "length (fst (frag_run R a tps es w)) = length es"
  by (induction es arbitrary: w) (simp_all add: case_prod_beta Let_def)

section \<open>Outcomes of a step\<close>

lemma fragment_find_stats [simp]: "fragment_find R p h (w\<lparr>frag_stats := st\<rparr>) = fragment_find R p h w"
  by (simp add: fragment_find_def)

lemma timers_ok_stats [simp]:
  "timers_ok (w\<lparr>frag_stats := st\<rparr>) = timers_ok w" "timers_ok (w\<lparr>frag_allocs := n\<rparr>) = timers_ok w"
  "timers_ok (w\<lparr>frag_list := l\<rparr>) = timers_ok w" "timers_ok (w\<lparr>frag_of := fo\<rparr>) = timers_ok w" "timers_ok (w\<lparr>next_frag := m\<rparr>) = timers_ok w"
  by (simp_all add: timers_ok_def)

lemma start_timer_fixed_timers:
  "timers_ok w \<Longrightarrow> timers (start_timer_fixed tps now t tmo w) = (if t \<in> set (timers w) then timers w else t # timers w)"
  by (simp add: start_timer_fixed_def start_timer_list Let_def)

lemma zero_timer_ok: "timers_ok w \<Longrightarrow> t \<notin> set (timers w) \<Longrightarrow> timers_ok (set_timer t zero_timer w)"
  by (auto simp: timers_ok_def zero_timer_def)

definition kept :: "('o, 'p, 'a) frag_world_scheme \<Rightarrow> ('o, 'p, 'a) frag_world_scheme \<Rightarrow> bool" where
  "kept w w' \<longleftrightarrow> frag_list w' = frag_list w \<and> frag_of w' = frag_of w \<and> next_frag w' = next_frag w \<and>
     timers w' = timers w \<and> timer_of w' = timer_of w"

definition timed :: "u32 \<Rightarrow> u32 \<Rightarrow> ('o, 'p, 'a) frag_world_scheme \<Rightarrow> nat \<Rightarrow> bool" where
  "timed tps now w f \<longleftrightarrow> timeout (timer_of w f) = tps div 2 \<and> start (timer_of w f) = now"

lemma timer_start_start [simp]: "start (timer_start tps now x) = now"
  by (simp add: timer_start_def Let_def)

lemma reassemble_new:
  fixes a :: "nat \<Rightarrow> bool" and tps now :: u32
  assumes "fragment_find R p h w = None" "timers_ok w" "next_frag w \<notin> set (timers w)"
  defines "x \<equiv> fragment_reassemble R a tps now p h w"
  shows "fst x = None" "timers_ok (snd x)"
    "fragment_offset R p h = 0 \<and> a (frag_allocs w) \<Longrightarrow>
       frag_list (snd x) = next_frag w # frag_list w \<and> frag_of (snd x) = (frag_of w)(next_frag w := \<lparr>frag_iobuf = p, frag_hdrlen = h\<rparr>) \<and>
       next_frag (snd x) = Suc (next_frag w) \<and> timers (snd x) = next_frag w # timers w \<and>
       (\<forall>f. f \<noteq> next_frag w \<longrightarrow> timer_of (snd x) f = timer_of w f) \<and> timed tps now (snd x) (next_frag w)"
    "\<not> (fragment_offset R p h = 0 \<and> a (frag_allocs w)) \<Longrightarrow> kept w (snd x)"
proof -
  let ?w1 = "w\<lparr>frag_stats := (frag_stats w)\<lparr>reasm_reqds := reasm_reqds (frag_stats w) + 1\<rparr>, frag_allocs := frag_allocs w + 1\<rparr>"
  have ok: "timers_ok ?w1" using assms(2) by (simp add: timers_ok_def)
  have x: "x = (if fragment_offset R p h \<noteq> 0 then fragment_drop (w\<lparr>frag_stats := (frag_stats w)\<lparr>reasm_reqds := reasm_reqds (frag_stats w) + 1\<rparr>\<rparr>)
    else if \<not> a (frag_allocs w) then fragment_drop ?w1
    else (None, start_timer_fixed tps now (next_frag w) (FRAGMENT_TIMEOUT tps) (snd (fragment_create p h ?w1))))"
    using assms(1) by (simp add: x_def fragment_reassemble_def Let_def frag_alloc_def fragment_create_def)
  have c: "timers_ok (snd (fragment_create p h ?w1))" using ok assms(3)
    by (simp add: fragment_create_def Let_def) (intro zero_timer_ok; simp)
  show "fst x = None" unfolding x by (simp add: fragment_drop_def)
  show "timers_ok (snd x)" unfolding x using ok c assms(2) by (auto simp: fragment_drop_def)
  show "frag_list (snd x) = next_frag w # frag_list w \<and> frag_of (snd x) = (frag_of w)(next_frag w := \<lparr>frag_iobuf = p, frag_hdrlen = h\<rparr>) \<and>
       next_frag (snd x) = Suc (next_frag w) \<and> timers (snd x) = next_frag w # timers w \<and>
       (\<forall>f. f \<noteq> next_frag w \<longrightarrow> timer_of (snd x) f = timer_of w f) \<and> timed tps now (snd x) (next_frag w)"
    if "fragment_offset R p h = 0 \<and> a (frag_allocs w)"
    using that c assms(3) unfolding x
    by (auto simp: start_timer_fixed_of start_timer_fixed_timers timed_def FRAGMENT_TIMEOUT_def fragment_create_def Let_def)
  show "kept w (snd x)" if "\<not> (fragment_offset R p h = 0 \<and> a (frag_allocs w))"
    using that unfolding x by (auto simp: kept_def fragment_drop_def)
qed

lemma reassemble_more:
  fixes a :: "nat \<Rightarrow> bool" and tps now :: u32
  assumes "fragment_find R p h w = Some f" "timers_ok w" "f \<in> set (timers w)"
  defines "x \<equiv> fragment_reassemble R a tps now p h w"
    and "offset \<equiv> length (pkt_data (frag_iobuf (frag_of w f))) - frag_hdrlen (frag_of w f)"
    and "iobuf \<equiv> (frag_iobuf (frag_of w f))\<lparr>pkt_data := pkt_data (frag_iobuf (frag_of w f)) @ drop h (pkt_data p)\<rparr>"
  shows "timers_ok (snd x)"
    "fragment_offset R p h = offset \<and> a (frag_allocs w) \<Longrightarrow>
       frag_of (snd x) = (frag_of w)(f := \<lparr>frag_iobuf = iobuf, frag_hdrlen = frag_hdrlen (frag_of w f)\<rparr>) \<and>
       next_frag (snd x) = next_frag w \<and> (\<forall>g. g \<noteq> f \<longrightarrow> timer_of (snd x) g = timer_of w g) \<and>
       (if more_fragments R p h
        then fst x = None \<and> frag_list (snd x) = frag_list w \<and> timed tps now (snd x) f \<and> timers (snd x) = f # remove1 f (timers w)
        else fst x = Some (iobuf, frag_hdrlen (frag_of w f)) \<and> frag_list (snd x) = remove1 f (frag_list w) \<and>
          timers (snd x) = remove1 f (timers w))"
    "\<not> (fragment_offset R p h = offset \<and> a (frag_allocs w)) \<Longrightarrow> fst x = None \<and> kept w (snd x)"
proof -
  let ?w0 = "w\<lparr>frag_stats := (frag_stats w)\<lparr>reasm_reqds := reasm_reqds (frag_stats w) + 1\<rparr>\<rparr>"
  let ?w1 = "?w0\<lparr>frag_allocs := frag_allocs w + 1\<rparr>"
  define w2 where "w2 = stop_timer now f (fragment_extend f (drop h (pkt_data p)) ?w1)"
  have ok: "timers_ok (fragment_extend f (drop h (pkt_data p)) ?w1)" using assms(2) by (simp add: fragment_extend_def Let_def)
  have run: "running (timer_of w f)" using assms(2,3) by (simp add: timers_ok_def)
  have w2: "timers_ok w2" "timers w2 = remove1 f (timers w)" "frag_list w2 = frag_list w" "next_frag w2 = next_frag w"
    "frag_of w2 = (frag_of w)(f := \<lparr>frag_iobuf = iobuf, frag_hdrlen = frag_hdrlen (frag_of w f)\<rparr>)" "g \<noteq> f \<Longrightarrow> timer_of w2 g = timer_of w g" for g
    using ok stop_timer_list [OF ok, of now f] run
    by (auto simp: w2_def stop_timer_of fragment_extend_def Let_def iobuf_def)
  have x: "x = (if fragment_offset R p h \<noteq> offset then fragment_drop ?w0 else if \<not> a (frag_allocs w) then fragment_drop ?w1
    else if \<not> more_fragments R p h
      then (Some (iobuf, frag_hdrlen (frag_of w f)),
        w2\<lparr>frag_list := remove1 f (frag_list w), frag_stats := (frag_stats w2)\<lparr>reasm_oks := reasm_oks (frag_stats w2) + 1\<rparr>\<rparr>)
      else (None, start_timer_fixed tps now f (FRAGMENT_TIMEOUT tps) w2))"
    using assms(1) by (simp add: x_def fragment_reassemble_def Let_def frag_alloc_def offset_def w2_def fragment_extend_def iobuf_def)
  have nin: "f \<notin> set (timers w2)" using w2(2) assms(2) by (simp add: timers_ok_def)
  show "timers_ok (snd x)" unfolding x using w2(1) assms(2) by (auto simp: fragment_drop_def)
  show "frag_of (snd x) = (frag_of w)(f := \<lparr>frag_iobuf = iobuf, frag_hdrlen = frag_hdrlen (frag_of w f)\<rparr>) \<and>
       next_frag (snd x) = next_frag w \<and> (\<forall>g. g \<noteq> f \<longrightarrow> timer_of (snd x) g = timer_of w g) \<and>
       (if more_fragments R p h
        then fst x = None \<and> frag_list (snd x) = frag_list w \<and> timed tps now (snd x) f \<and> timers (snd x) = f # remove1 f (timers w)
        else fst x = Some (iobuf, frag_hdrlen (frag_of w f)) \<and> frag_list (snd x) = remove1 f (frag_list w) \<and>
          timers (snd x) = remove1 f (timers w))"
    if "fragment_offset R p h = offset \<and> a (frag_allocs w)"
    using that w2 nin unfolding x
    by (auto simp: start_timer_fixed_of start_timer_fixed_timers timed_def FRAGMENT_TIMEOUT_def)
  show "fst x = None \<and> kept w (snd x)" if "\<not> (fragment_offset R p h = offset \<and> a (frag_allocs w))"
    using that unfolding x by (auto simp: kept_def fragment_drop_def)
qed

lemma fragment_poll:
  fixes tps now :: u32 and w :: "('o, 'p, 'a) frag_world_scheme"
  assumes "timers_ok w" "set (timers w) = set (frag_list w)" "distinct (frag_list w)"
  defines "x \<equiv> retry_poll fragment_expired tps now w"
  shows "timers_ok x" "frag_of x = frag_of w" "next_frag x = next_frag w"
    "(timers x = timers w \<and> timer_of x = timer_of w \<and> frag_list x = frag_list w) \<or>
     (\<exists>t \<in> set (timers w). timer_due now (timer_of w t) \<and> timers x = remove1 t (timers w) \<and> frag_list x = remove1 t (frag_list w) \<and>
        (\<forall>f. f \<noteq> t \<longrightarrow> timer_of x f = timer_of w f))"
proof -
  have keep: "timers_ok (fragment_expired t f u)" if "timers_ok u" for t f and u :: "('o, 'p, 'a) frag_world_scheme"
    using that by (simp add: fragment_expired_def timers_ok_def)
  show "timers_ok x" unfolding x_def by (rule retry_poll_ok [OF assms(1)]) (rule keep)
  show "frag_of x = frag_of w" "next_frag x = next_frag w"
    by (auto simp: x_def retry_poll_def timer_expired_def fragment_expired_def Let_def case_prod_beta split: option.split)
  show "(timers x = timers w \<and> timer_of x = timer_of w \<and> frag_list x = frag_list w) \<or>
     (\<exists>t \<in> set (timers w). timer_due now (timer_of w t) \<and> timers x = remove1 t (timers w) \<and> frag_list x = remove1 t (frag_list w) \<and>
        (\<forall>f. f \<noteq> t \<longrightarrow> timer_of x f = timer_of w f))"
  proof (cases "find (\<lambda>t. timer_due now (timer_of w t)) (timers w)")
    case (Some t)
    then have "t \<in> set (timers w)" "timer_due now (timer_of w t)" by (auto simp: find_Some_iff)
    then show ?thesis using Some
      by (intro disjI2 bexI [of _ t]) (simp_all add: x_def retry_poll_def timer_expired_def fragment_expired_def Let_def case_prod_beta)
  qed (simp add: x_def retry_poll_def)
qed

section \<open>Correct reassembly\<close>

text \<open>What a reassembler needs of its methods: whether a packet belongs to a buffer is told by a key that the front of the packet holds.\<close>

locale fragment_methods =
  fixes R :: fragment_reassembler
    and key :: "bytes \<Rightarrow> 'k"
    and ok :: "frag_packet \<Rightarrow> bool"
  assumes match: "ok (frag_iobuf f, frag_hdrlen f) \<Longrightarrow> ok (p, h) \<Longrightarrow>
      is_fragment R f p h \<longleftrightarrow> key (pkt_data (frag_iobuf f)) = key (pkt_data p)"
    and extend: "ok (p, h) \<Longrightarrow> ok (p\<lparr>pkt_data := pkt_data p @ xs\<rparr>, h) \<and> key (pkt_data p @ xs) = key (pkt_data p)"
    and ok_length: "ok (p, h) \<Longrightarrow> h \<le> length (pkt_data p)"
begin

definition chain :: "frag_packet list \<Rightarrow> bool" where
  "chain ps \<longleftrightarrow> ps \<noteq> [] \<and> (\<forall>p \<in> set ps. ok p \<and> key (pkt_data (fst p)) = key (pkt_data (fst (hd ps)))) \<and> contiguous R ps"

definition frag_key :: "('o, 'p, 'a) frag_world_scheme \<Rightarrow> nat \<Rightarrow> 'k" where
  "frag_key w f = key (pkt_data (frag_iobuf (frag_of w f)))"

definition holds :: "('o, 'p, 'a) frag_world_scheme \<Rightarrow> nat \<Rightarrow> frag_packet list \<Rightarrow> bool" where
  "holds w f ps \<longleftrightarrow> chain ps \<and> (\<forall>p \<in> set (tl ps). has_more R p) \<and> frag_of w f = \<lparr>frag_iobuf = joined ps, frag_hdrlen = snd (hd ps)\<rparr>"

definition frag_inv :: "frag_packet list \<Rightarrow> ('o, 'p, 'a) frag_world_scheme \<Rightarrow> bool" where
  "frag_inv log w \<longleftrightarrow> timers_ok w \<and> distinct (frag_list w) \<and> set (timers w) = set (frag_list w) \<and>
     (\<forall>f \<in> set (frag_list w). f < next_frag w \<and> (\<exists>ps. subseq ps log \<and> holds w f ps)) \<and> inj_on (frag_key w) (set (frag_list w))"

lemma chain_joined:
  assumes "chain ps"
  shows "ok (joined ps, snd (hd ps))" "key (pkt_data (joined ps)) = key (pkt_data (fst (hd ps)))"
proof -
  have "ok (fst (hd ps), snd (hd ps))" using assms by (cases ps) (auto simp: chain_def)
  from extend [OF this] show "ok (joined ps, snd (hd ps))" "key (pkt_data (joined ps)) = key (pkt_data (fst (hd ps)))"
    by (simp_all add: joined_def)
qed

lemma holds_key: "holds w f ps \<Longrightarrow> frag_key w f = key (pkt_data (fst (hd ps)))"
  using chain_joined by (simp add: holds_def frag_key_def)

lemma holds_match: "holds w f ps \<Longrightarrow> ok (p, h) \<Longrightarrow> is_fragment R (frag_of w f) p h \<longleftrightarrow> frag_key w f = key (pkt_data p)"
  using match [of "frag_of w f" p h] chain_joined(1) [of ps] by (simp add: holds_def frag_key_def)

lemma chain_snoc:
  assumes "chain ps" "ok p" "key (pkt_data (fst p)) = key (pkt_data (fst (hd ps)))"
    "fragment_offset R (fst p) (snd p) = length (pkt_data (joined ps)) - snd (hd ps)"
  shows "chain (ps @ [p])"
proof -
  have ne: "ps \<noteq> []" using assms(1) by (simp add: chain_def)
  then have "ok (fst (hd ps), snd (hd ps))" using assms(1) by (simp add: chain_def)
  then have "snd (hd ps) \<le> length (pkt_data (fst (hd ps)))" by (rule ok_length)
  then have "fragment_offset R (fst p) (snd p) = length (concat (map frag_payload ps))" using assms(4) joined_length [OF ne] by simp
  moreover have "hd (ps @ [p]) = hd ps" using ne by simp
  ultimately show ?thesis using assms(1-3) unfolding chain_def contiguous_snoc by (metis Un_iff append_is_Nil_conv list.set(1) set_ConsD set_append empty_iff)
qed

lemma chain_ne: "chain ps \<Longrightarrow> ps \<noteq> []"
  unfolding chain_def by blast

lemma chain_single: "ok p \<Longrightarrow> fragment_offset R (fst p) (snd p) = 0 \<Longrightarrow> chain [p]"
  by (simp add: chain_def contiguous_def)

lemma find_key:
  assumes "frag_inv log w" "ok (p, h)"
  shows "case fragment_find R p h w of
      None \<Rightarrow> \<forall>f \<in> set (frag_list w). frag_key w f \<noteq> key (pkt_data p)
    | Some f \<Rightarrow> f \<in> set (frag_list w) \<and> frag_key w f = key (pkt_data p)"
proof -
  have m: "is_fragment R (frag_of w f) p h \<longleftrightarrow> frag_key w f = key (pkt_data p)" if "f \<in> set (frag_list w)" for f
    using assms that holds_match unfolding frag_inv_def by blast
  show ?thesis
  proof (cases "fragment_find R p h w")
    case None
    then have "\<not> is_fragment R (frag_of w f) p h" if "f \<in> set (frag_list w)" for f using that by (auto simp: fragment_find_def find_None_iff)
    then show ?thesis using m None by simp
  next
    case (Some f)
    then have "f \<in> set (frag_list w)" "is_fragment R (frag_of w f) p h" by (auto simp: fragment_find_def find_Some_iff)
    then show ?thesis using m Some by simp
  qed
qed

lemma holds_cong: "frag_of w' f = frag_of w f \<Longrightarrow> holds w' f ps = holds w f ps"
  by (simp add: holds_def)

lemma frag_inv_kept:
  assumes "frag_inv log w" "kept w w'" "timers_ok w'"
  shows "frag_inv (log @ xs) w'"
proof -
  have "frag_key w' = frag_key w" using assms(2) by (auto simp: frag_key_def kept_def)
  moreover have "f < next_frag w' \<and> (\<exists>ps. subseq ps (log @ xs) \<and> holds w' f ps)" if "f \<in> set (frag_list w)" for f
  proof -
    have "f < next_frag w" "\<exists>ps. subseq ps log \<and> holds w f ps" using assms(1) that by (simp_all add: frag_inv_def)
    then show ?thesis using assms(2) holds_cong [of w' f w] unfolding kept_def by (metis list_emb_prefix)
  qed
  ultimately show ?thesis using assms by (simp add: frag_inv_def kept_def)
qed

lemma inv_update:
  assumes "frag_inv log w" "timers_ok w'" "distinct (frag_list w')" "set (timers w') = set (frag_list w')" "next_frag w \<le> next_frag w'"
    "\<And>g. g \<in> set (frag_list w') \<Longrightarrow> g \<noteq> f \<Longrightarrow> g \<in> set (frag_list w) \<and> frag_of w' g = frag_of w g"
    "f \<in> set (frag_list w') \<Longrightarrow> f < next_frag w' \<and> (\<exists>ps. subseq ps (log @ xs) \<and> holds w' f ps)"
    "\<And>g. f \<in> set (frag_list w') \<Longrightarrow> g \<in> set (frag_list w) \<Longrightarrow> g \<noteq> f \<Longrightarrow> frag_key w g \<noteq> frag_key w' f"
  shows "frag_inv (log @ xs) w'"
proof -
  have old: "g < next_frag w \<and> (\<exists>ps. subseq ps log \<and> holds w g ps)" if "g \<in> set (frag_list w)" for g
    using assms(1) that by (simp add: frag_inv_def)
  have all: "g < next_frag w' \<and> (\<exists>ps. subseq ps (log @ xs) \<and> holds w' g ps)" if g: "g \<in> set (frag_list w')" for g
  proof (cases "g = f")
    case False
    then have "g \<in> set (frag_list w)" "frag_of w' g = frag_of w g" using assms(6) g by blast+
    then show ?thesis using old [of g] assms(5) holds_cong [of w' g w] by (meson list_emb_prefix order_less_le_trans)
  qed (use assms(7) g in blast)
  have same: "frag_key w' g = frag_key w g" if "g \<in> set (frag_list w')" "g \<noteq> f" for g
    using assms(6) that by (simp add: frag_key_def)
  have "inj_on (frag_key w') (set (frag_list w'))"
  proof (rule inj_onI)
    fix g g' assume g: "g \<in> set (frag_list w')" "g' \<in> set (frag_list w')" "frag_key w' g = frag_key w' g'"
    have inj: "inj_on (frag_key w) (set (frag_list w))" using assms(1) by (simp add: frag_inv_def)
    consider "g = f" "g' = f" | "g \<noteq> f" "g' = f" | "g = f" "g' \<noteq> f" | "g \<noteq> f" "g' \<noteq> f" by blast
    then show "g = g'"
    proof cases
      case 2
      then show ?thesis using g same assms(6,8) by metis
    next
      case 3
      then show ?thesis using g same assms(6,8) by metis
    next
      case 4
      then show ?thesis using g same assms(6) inj by (metis inj_onD)
    qed simp
  qed
  then show ?thesis using assms(2-4) all by (simp add: frag_inv_def)
qed

definition complete :: "frag_packet list \<Rightarrow> bool" where
  "complete ps \<longleftrightarrow> chain ps \<and> 2 \<le> length ps \<and> (\<forall>p \<in> set (tl (butlast ps)). has_more R p) \<and> \<not> has_more R (last ps)"

lemma inv_timers: "frag_inv log w \<Longrightarrow> timers_ok w" "frag_inv log w \<Longrightarrow> next_frag w \<notin> set (timers w)"
  "frag_inv log w \<Longrightarrow> distinct (frag_list w)" "frag_inv log w \<Longrightarrow> set (timers w) = set (frag_list w)"
  by (auto simp: frag_inv_def)

lemma step_new:
  assumes "frag_inv log w" "ok (p, h)" "fragment_find R p h w = None"
  shows "fst (fragment_reassemble R a tps now p h w) = None"
    "frag_inv (log @ [(p, h)]) (snd (fragment_reassemble R a tps now p h w))"
proof -
  let ?w = "snd (fragment_reassemble R a tps now p h w)" and ?n = "next_frag w"
  note n = reassemble_new [OF assms(3) inv_timers(1,2) [OF assms(1)], of a tps now]
  show "fst (fragment_reassemble R a tps now p h w) = None" by (rule n(1))
  show "frag_inv (log @ [(p, h)]) ?w"
  proof (cases "fragment_offset R p h = 0 \<and> a (frag_allocs w)")
    case True
    note m = n(3) [OF True]
    have "?n \<notin> set (frag_list w)" using inv_timers(2,4) [OF assms(1)] by simp
    moreover have "holds ?w ?n [(p, h)]" using m True chain_single [of "(p, h)"] assms(2) by (simp add: holds_def joined_def)
    moreover from this have "frag_key ?w ?n = key (pkt_data p)" using holds_key by fastforce
    moreover have "\<forall>f \<in> set (frag_list w). frag_key w f \<noteq> key (pkt_data p)" using find_key [OF assms(1,2)] assms(3) by simp
    moreover have "subseq [(p, h)] (log @ [(p, h)])" by (simp add: list_emb_append2)
    ultimately show ?thesis using m n(2) inv_timers [OF assms(1)]
      by (intro inv_update [OF assms(1), where f = ?n]) auto
  next
    case False
    then show ?thesis using n(2,4) by (intro frag_inv_kept [OF assms(1)])
  qed
qed

lemma step_more:
  fixes a :: "nat \<Rightarrow> bool" and tps now :: u32
  assumes "frag_inv log w" "ok (p, h)" "fragment_find R p h w = Some f"
  defines "x \<equiv> fragment_reassemble R a tps now p h w"
  shows "frag_inv (log @ [(p, h)]) (snd x)"
    "fst x = Some (q, g) \<Longrightarrow> \<exists>ps. subseq ps log \<and> complete (ps @ [(p, h)]) \<and> q = joined (ps @ [(p, h)]) \<and> g = snd (hd ps) \<and> ps \<noteq> []"
proof -
  have f: "f \<in> set (frag_list w)" "frag_key w f = key (pkt_data p)" using find_key [OF assms(1,2)] assms(3) by simp_all
  then obtain ps where ps: "subseq ps log" "holds w f ps" and fn: "f < next_frag w" using assms(1) by (auto simp: frag_inv_def)
  have ft: "f \<in> set (timers w)" using f inv_timers(4) [OF assms(1)] by simp
  note r = reassemble_more [OF assms(3) inv_timers(1) [OF assms(1)] ft, of a tps now, folded x_def]
  let ?off = "length (pkt_data (frag_iobuf (frag_of w f))) - frag_hdrlen (frag_of w f)"
  have *: "frag_inv (log @ [(p, h)]) (snd x) \<and> (fst x = Some (q, g) \<longrightarrow>
    complete (ps @ [(p, h)]) \<and> q = joined (ps @ [(p, h)]) \<and> g = snd (hd ps) \<and> ps \<noteq> [])"
  proof (cases "fragment_offset R p h = ?off \<and> a (frag_allocs w)")
    case False
    then show ?thesis using r(1,3) frag_inv_kept [OF assms(1)] by auto
  next
    case True
    note m = r(2) [OF True]
    have fo: "frag_of w f = \<lparr>frag_iobuf = joined ps, frag_hdrlen = snd (hd ps)\<rparr>" and ch: "chain ps" and ne: "ps \<noteq> []"
      using ps(2) chain_ne unfolding holds_def by blast+
    have ch2: "chain (ps @ [(p, h)])"
      using True fo f(2) holds_key [OF ps(2)] assms(2) by (intro chain_snoc [OF ch]) simp_all
    have fo2: "frag_of (snd x) f = \<lparr>frag_iobuf = joined (ps @ [(p, h)]), frag_hdrlen = snd (hd (ps @ [(p, h)]))\<rparr>"
      using m fo ne by (simp add: joined_snoc frag_payload_def)
    have key2: "frag_key (snd x) f = frag_key w f"
      using chain_joined(2) [OF ch] chain_joined(2) [OF ch2] fo fo2 ne by (simp add: frag_key_def)
    have inj: "frag_key w g \<noteq> frag_key (snd x) f" if "g \<in> set (frag_list w)" "g \<noteq> f" for g
    proof -
      have "inj_on (frag_key w) (set (frag_list w))" using assms(1) by (simp add: frag_inv_def)
      then show ?thesis using that f key2 inj_onD [of "frag_key w" "set (frag_list w)" g f] by metis
    qed
    have sub: "subseq (ps @ [(p, h)]) (log @ [(p, h)])" using ps(1) by simp
    show ?thesis
    proof (cases "more_fragments R p h")
      case True
      have "\<forall>q \<in> set (tl (ps @ [(p, h)])). has_more R q" using ps(2) ne True by (auto simp: holds_def has_more_def)
      then have "holds (snd x) f (ps @ [(p, h)])" unfolding holds_def using ch2 fo2 by blast
      then have ex: "\<exists>qs. subseq qs (log @ [(p, h)]) \<and> holds (snd x) f qs" using sub by blast
      have "set (f # remove1 f (timers w)) = set (frag_list w)"
        using ft inv_timers(1,4) [OF assms(1)] by (auto simp: timers_ok_def)
      then have "frag_inv (log @ [(p, h)]) (snd x)" using m r(1) True inv_timers(3) [OF assms(1)] fn inj ex
        by (intro inv_update [OF assms(1), where f = f]) simp_all
      then show ?thesis using m True by simp
    next
      case False
      then have "frag_inv (log @ [(p, h)]) (snd x)" using m r(1) inv_timers [OF assms(1)]
        by (intro inv_update [OF assms(1), where f = f]) (auto simp: timers_ok_def)
      moreover have "complete (ps @ [(p, h)])" unfolding complete_def using False ps(2) ch2 ne
        by (simp add: has_more_def holds_def Suc_le_eq)
      ultimately show ?thesis using m False fo fo2 ne by auto
    qed
  qed
  then show "frag_inv (log @ [(p, h)]) (snd x)" by simp
  show "\<exists>ps. subseq ps log \<and> complete (ps @ [(p, h)]) \<and> q = joined (ps @ [(p, h)]) \<and> g = snd (hd ps) \<and> ps \<noteq> []" if "fst x = Some (q, g)"
    using * that ps(1) by blast
qed

lemma step_poll:
  assumes "frag_inv log w"
  shows "frag_inv log (retry_poll fragment_expired tps now w)"
proof -
  let ?x = "retry_poll fragment_expired tps now w"
  note p = fragment_poll [OF inv_timers(1) [OF assms] inv_timers(4) [OF assms] inv_timers(3) [OF assms], of tps now]
  from p(4) show ?thesis
  proof
    assume "timers ?x = timers w \<and> timer_of ?x = timer_of w \<and> frag_list ?x = frag_list w"
    then show ?thesis using frag_inv_kept [OF assms, of ?x "[]"] p(1-3) by (simp add: kept_def)
  next
    assume "\<exists>t \<in> set (timers w). timer_due now (timer_of w t) \<and> timers ?x = remove1 t (timers w) \<and> frag_list ?x = remove1 t (frag_list w) \<and>
        (\<forall>f. f \<noteq> t \<longrightarrow> timer_of ?x f = timer_of w f)"
    then obtain t where t: "timers ?x = remove1 t (timers w)" "frag_list ?x = remove1 t (frag_list w)" by blast
    have d: "distinct (timers w)" "distinct (frag_list w)" "set (timers w) = set (frag_list w)"
      using inv_timers [OF assms] by (auto simp: timers_ok_def)
    have "frag_inv (log @ []) ?x" using t p(1-3) d by (intro inv_update [OF assms, where f = t]) simp_all
    then show ?thesis by simp
  qed
qed

lemma run_safe:
  assumes "frag_inv log w" "\<forall>p \<in> set (event_frags evs). ok p" "frag_run R a tps evs w = (rs, w')"
  shows "frag_inv (log @ event_frags evs) w' \<and>
    (\<forall>k q g. k < length evs \<and> rs ! k = Some (q, g) \<longrightarrow>
       (\<exists>ps. subseq ps (log @ event_frags (take (Suc k) evs)) \<and> complete ps \<and> q = joined ps \<and> g = snd (hd ps) \<and>
          event_frag (evs ! k) = Some (last ps)))"
  using assms
proof (induction evs arbitrary: log w rs)
  case Nil
  then show ?case by (simp add: map_filter_def)
next
  case (Cons e evs)
  obtain r w1 where r: "frag_event_step R a tps e w = (r, w1)" by (metis surj_pair)
  obtain ss where ss: "frag_run R a tps evs w1 = (ss, w')" "rs = r # ss" using Cons.prems(3) r
    by (cases "frag_run R a tps evs w1") auto
  have oks: "\<forall>p \<in> set (event_frags evs). ok p" using Cons.prems(2) by (auto simp: map_filter_def split: if_splits)
  have step: "frag_inv (log @ event_frags [e]) w1 \<and> (\<forall>q g. r = Some (q, g) \<longrightarrow>
    (\<exists>ps. subseq ps (log @ event_frags [e]) \<and> complete ps \<and> q = joined ps \<and> g = snd (hd ps) \<and> event_frag e = Some (last ps)))"
  proof (cases e)
    case (Poll now)
    then show ?thesis using step_poll [OF Cons.prems(1), of tps now] r by (auto simp: map_filter_def)
  next
    case (Fragment now p h)
    have okp: "ok (p, h)" using Cons.prems(2) Fragment by (simp add: map_filter_def)
    have r': "fragment_reassemble R a tps now p h w = (r, w1)" using r Fragment by simp
    show ?thesis
    proof (cases "fragment_find R p h w")
      case None
      then show ?thesis using step_new [OF Cons.prems(1) okp None, of a tps now] r' Fragment by (simp add: map_filter_def)
    next
      case (Some f)
      note m = step_more [OF Cons.prems(1) okp Some, of a tps now, unfolded r']
      have "\<exists>ps. subseq ps (log @ [(p, h)]) \<and> complete ps \<and> q = joined ps \<and> g = snd (hd ps) \<and> last ps = (p, h)" if rq: "r = Some (q, g)" for q g
      proof -
        obtain ps where ps: "subseq ps log" "complete (ps @ [(p, h)])" "q = joined (ps @ [(p, h)])" "g = snd (hd ps)" "ps \<noteq> []"
          using m(2) [of q g] rq by auto
        then show ?thesis by (intro exI [of _ "ps @ [(p, h)]"]) simp
      qed
      then show ?thesis using m(1) Fragment by (simp add: map_filter_def) metis
    qed
  qed
  have ef: "event_frags (x # xs) = event_frags [x] @ event_frags xs" for x xs by (simp add: map_filter_def)
  have IH: "frag_inv ((log @ event_frags [e]) @ event_frags evs) w' \<and>
    (\<forall>k q g. k < length evs \<and> ss ! k = Some (q, g) \<longrightarrow>
       (\<exists>ps. subseq ps ((log @ event_frags [e]) @ event_frags (take (Suc k) evs)) \<and> complete ps \<and> q = joined ps \<and> g = snd (hd ps) \<and>
          event_frag (evs ! k) = Some (last ps)))"
    using step by (intro Cons.IH [OF _ oks ss(1)]) blast
  show ?case
  proof (intro conjI allI impI)
    show "frag_inv (log @ event_frags (e # evs)) w'" using IH ef [of e evs] by simp
    fix k q g assume k: "k < length (e # evs) \<and> rs ! k = Some (q, g)"
    show "\<exists>ps. subseq ps (log @ event_frags (take (Suc k) (e # evs))) \<and> complete ps \<and> q = joined ps \<and> g = snd (hd ps) \<and>
          event_frag ((e # evs) ! k) = Some (last ps)"
    proof (cases k)
      case 0
      then show ?thesis using step k ss(2) by simp
    next
      case (Suc i)
      then show ?thesis using IH k ss(2) ef [of e "take (Suc i) evs"] by auto
    qed
  qed
qed

text \<open>The part \<open>qs\<close> of a chain with key \<open>k\<close> has been received, the last fragment of it at time \<open>s\<close>.\<close>

definition pending :: "u32 \<Rightarrow> u32 \<Rightarrow> 'k \<Rightarrow> frag_packet list \<Rightarrow> ('o, 'p, 'a) frag_world_scheme \<Rightarrow> bool" where
  "pending tps s k qs w \<longleftrightarrow>
     (if qs = [] then \<forall>f \<in> set (frag_list w). frag_key w f \<noteq> k
      else \<exists>f \<in> set (frag_list w). holds w f qs \<and> frag_key w f = k \<and> timed tps s w f)"

lemma pending_kept: "kept w w' \<Longrightarrow> pending tps s k qs w \<Longrightarrow> pending tps s k qs w'"
  by (auto simp: pending_def kept_def frag_key_def holds_def timed_def)

lemma pending_poll:
  assumes "frag_inv log w" "pending tps s k qs w" "qs = [] \<or> now - s < tps div 2"
  shows "pending tps s k qs (retry_poll fragment_expired tps now w)"
proof -
  let ?x = "retry_poll fragment_expired tps now w"
  note p = fragment_poll [OF inv_timers(1) [OF assms(1)] inv_timers(4) [OF assms(1)] inv_timers(3) [OF assms(1)], of tps now]
  have key: "frag_key ?x f = frag_key w f" for f using p(2) by (simp add: frag_key_def)
  have sub: "set (frag_list ?x) \<subseteq> set (frag_list w)" using p(4) set_remove1_subset by fastforce
  show ?thesis
  proof (cases "qs = []")
    case True
    then show ?thesis using assms(2) sub key by (auto simp: pending_def)
  next
    case False
    then obtain f where f: "f \<in> set (frag_list w)" "holds w f qs" "frag_key w f = k" "timed tps s w f"
      using assms(2) by (auto simp: pending_def)
    have "\<not> timer_due now (timer_of w f)" using f(4) assms(3) False by (simp add: timer_due_def timed_def not_le)
    then have "f \<in> set (frag_list ?x) \<and> timer_of ?x f = timer_of w f" using p(4) f(1)
      by (metis in_set_remove1)
    moreover have "holds ?x f qs" using f(2) p(2) holds_cong by metis
    ultimately show ?thesis using f key False by (auto simp: pending_def timed_def)
  qed
qed

lemma pending_other:
  assumes "frag_inv log w" "pending tps s k qs w" "ok (p, h)" "key (pkt_data p) \<noteq> k"
  shows "pending tps s k qs (snd (fragment_reassemble R a tps now p h w))"
proof -
  let ?x = "snd (fragment_reassemble R a tps now p h w)"
  have main: "pending tps s k qs ?x" if "set (frag_list ?x) \<subseteq> insert g (set (frag_list w))" "frag_key ?x g = key (pkt_data p)"
    "set (frag_list w) \<subseteq> insert g (set (frag_list ?x))" "\<forall>f \<in> set (frag_list w). f = g \<longrightarrow> frag_key w f \<noteq> k"
    "\<forall>f. f \<noteq> g \<longrightarrow> frag_of ?x f = frag_of w f \<and> timer_of ?x f = timer_of w f" for g
  proof -
    have key: "frag_key ?x f = frag_key w f" if "f \<noteq> g" for f using \<open>\<forall>f. f \<noteq> g \<longrightarrow> _\<close> that by (simp add: frag_key_def)
    show ?thesis
    proof (cases "qs = []")
      case True
      then have "\<forall>f \<in> set (frag_list w). frag_key w f \<noteq> k" using assms(2) by (simp add: pending_def)
      moreover have "frag_key ?x f \<noteq> k" if "f \<in> set (frag_list ?x)" "f \<in> set (frag_list w) \<Longrightarrow> frag_key w f \<noteq> k" for f
        using that \<open>set (frag_list ?x) \<subseteq> _\<close> \<open>frag_key ?x g = _\<close> key [of f] assms(4) by (cases "f = g") auto
      ultimately show ?thesis using True unfolding pending_def by simp
    next
      case False
      then obtain f where f: "f \<in> set (frag_list w)" "holds w f qs" "frag_key w f = k" "timed tps s w f"
        using assms(2) by (auto simp: pending_def)
      then have "f \<noteq> g" using that(4) by blast
      then have "f \<in> set (frag_list ?x)" "holds ?x f qs" "frag_key ?x f = k" "timed tps s ?x f"
        using f that(3,5) key holds_cong [of ?x f w] by (auto simp: timed_def)
      then show ?thesis using False by (auto simp: pending_def)
    qed
  qed
  show ?thesis
  proof (cases "fragment_find R p h w")
    case None
    note n = reassemble_new [OF None inv_timers(1,2) [OF assms(1)], of a tps now]
    show ?thesis
    proof (cases "fragment_offset R p h = 0 \<and> a (frag_allocs w)")
      case True
      have "next_frag w \<notin> set (frag_list w)" using inv_timers(2,4) [OF assms(1)] by simp
      then show ?thesis using n(3) [OF True] by (intro main [of "next_frag w"]) (auto simp: frag_key_def)
    next
      case False
      then show ?thesis using n(4) pending_kept assms(2) by blast
    qed
  next
    case (Some f)
    have f: "f \<in> set (frag_list w)" "frag_key w f = key (pkt_data p)" using find_key [OF assms(1,3)] Some by simp_all
    then have ft: "f \<in> set (timers w)" using inv_timers(4) [OF assms(1)] by simp
    obtain ps where ps: "holds w f ps" using assms(1) f(1) by (auto simp: frag_inv_def)
    then have okf: "ok (frag_iobuf (frag_of w f), frag_hdrlen (frag_of w f))" using chain_joined(1) [of ps] by (simp add: holds_def)
    note r = reassemble_more [OF Some inv_timers(1) [OF assms(1)] ft, of a tps now]
    show ?thesis
    proof (cases "fragment_offset R p h = length (pkt_data (frag_iobuf (frag_of w f))) - frag_hdrlen (frag_of w f) \<and> a (frag_allocs w)")
      case True
      note m = r(2) [OF True]
      have "frag_key ?x f = key (pkt_data p)" using m extend [OF okf] f(2) by (simp add: frag_key_def)
      moreover have "set (frag_list ?x) \<subseteq> set (frag_list w)" "set (frag_list w) \<subseteq> insert f (set (frag_list ?x))"
        using m inv_timers(3) [OF assms(1)] by (auto split: if_splits)
      ultimately show ?thesis using m f assms(4) by (intro main [of f]) auto
    next
      case False
      then show ?thesis using r(3) pending_kept assms(2) by blast
    qed
  qed
qed

lemma chain_next:
  assumes "chain (qs @ p # rest)" "qs \<noteq> []"
  shows "fragment_offset R (fst p) (snd p) = length (pkt_data (joined qs)) - snd (hd qs)"
proof -
  have "ok (fst (hd qs), snd (hd qs))" using assms by (simp add: chain_def)
  then have "length (pkt_data (joined qs)) - snd (hd qs) = length (concat (map frag_payload qs))"
    using joined_length [OF assms(2)] ok_length by blast
  moreover have "fragment_offset R (fst p) (snd p) = length (concat (map frag_payload qs))"
    using assms(1) unfolding chain_def contiguous_def by (metis (no_types, lifting) append_eq_conv_conj length_append length_greater_0_conv less_add_same_cancel1 list.distinct(1) nth_append_length)
  ultimately show ?thesis by simp
qed

lemma pending_first:
  assumes "frag_inv log w" "pending tps s k [] w" "ok (p, h)" "key (pkt_data p) = k" "fragment_offset R p h = 0" "\<And>n. a n"
  shows "pending tps now k [(p, h)] (snd (fragment_reassemble R a tps now p h w))"
proof -
  let ?x = "snd (fragment_reassemble R a tps now p h w)"
  have None: "fragment_find R p h w = None"
    using find_key [OF assms(1,3)] assms(2,4) by (cases "fragment_find R p h w") (auto simp: pending_def)
  have c: "fragment_offset R p h = 0 \<and> a (frag_allocs w)" using assms(5,6) by blast
  note m = reassemble_new(3) [OF None inv_timers(1,2) [OF assms(1)], of a tps now, OF c]
  have "holds ?x (next_frag w) [(p, h)]" using m chain_single [of "(p, h)"] assms(3,5) by (simp add: holds_def joined_def)
  then show ?thesis using m holds_key [of ?x "next_frag w" "[(p, h)]"] assms(4) by (auto simp: pending_def)
qed

lemma pending_found:
  assumes "frag_inv log w" "pending tps s k qs w" "qs \<noteq> []" "ok (p, h)" "key (pkt_data p) = k"
  obtains f where "fragment_find R p h w = Some f" "holds w f qs" "f \<in> set (timers w)" "f \<in> set (frag_list w)"
proof -
  obtain g where g: "g \<in> set (frag_list w)" "holds w g qs" "frag_key w g = k" using assms(2,3) by (auto simp: pending_def)
  show ?thesis
  proof (cases "fragment_find R p h w")
    case None
    then show ?thesis using find_key [OF assms(1,4)] g assms(5) by auto
  next
    case (Some f)
    then have "f \<in> set (frag_list w)" "frag_key w f = k" using find_key [OF assms(1,4)] assms(5) by simp_all
    moreover have "inj_on (frag_key w) (set (frag_list w))" using assms(1) by (simp add: frag_inv_def)
    ultimately have "f = g" using g by (metis inj_onD)
    then show ?thesis using that Some g inv_timers(4) [OF assms(1)] by blast
  qed
qed

lemma pending_next:
  fixes a :: "nat \<Rightarrow> bool" and tps now :: u32
  assumes "frag_inv log w" "pending tps s k qs w" "qs \<noteq> []" "chain (qs @ (p, h) # rest)" "key (pkt_data p) = k" "\<And>n. a n"
  defines "x \<equiv> fragment_reassemble R a tps now p h w"
  shows "has_more R (p, h) \<Longrightarrow> pending tps now k (qs @ [(p, h)]) (snd x)"
    "\<not> has_more R (p, h) \<Longrightarrow> fst x = Some (joined (qs @ [(p, h)]), snd (hd qs))"
proof -
  have okp: "ok (p, h)" using assms(4) by (simp add: chain_def)
  obtain f where f: "fragment_find R p h w = Some f" "holds w f qs" "f \<in> set (timers w)" "f \<in> set (frag_list w)"
    using pending_found [OF assms(1-3) okp assms(5)] .
  have fo: "frag_of w f = \<lparr>frag_iobuf = joined qs, frag_hdrlen = snd (hd qs)\<rparr>" and ch: "chain qs" using f(2) by (simp_all add: holds_def)
  have off: "fragment_offset R p h = length (pkt_data (joined qs)) - snd (hd qs)" using chain_next [OF assms(4,3)] by simp
  then have c: "fragment_offset R p h = length (pkt_data (frag_iobuf (frag_of w f))) - frag_hdrlen (frag_of w f) \<and> a (frag_allocs w)"
    using fo assms(6) by simp
  note m = reassemble_more(2) [OF f(1) inv_timers(1) [OF assms(1)] f(3), of a tps now, OF c, folded x_def]
  show "fst x = Some (joined (qs @ [(p, h)]), snd (hd qs))" if "\<not> has_more R (p, h)"
    using m that fo assms(3) by (simp add: has_more_def joined_snoc frag_payload_def)
  have kq: "key (pkt_data (fst (hd qs))) = k" using assms(4,5) unfolding chain_def by (metis append_is_Nil_conv assms(3) fst_conv hd_append2 in_set_conv_decomp)
  show "pending tps now k (qs @ [(p, h)]) (snd x)" if more: "has_more R (p, h)"
  proof -
    have "chain (qs @ [(p, h)])" using off kq assms(5) okp by (intro chain_snoc [OF ch]) simp_all
    moreover have "\<forall>q \<in> set (tl (qs @ [(p, h)])). has_more R q" using f(2) more assms(3) by (auto simp: holds_def)
    moreover have "frag_of (snd x) f = \<lparr>frag_iobuf = joined (qs @ [(p, h)]), frag_hdrlen = snd (hd (qs @ [(p, h)]))\<rparr>"
      using m fo assms(3) by (simp add: joined_snoc frag_payload_def)
    ultimately have h: "holds (snd x) f (qs @ [(p, h)])" unfolding holds_def by blast
    then have "frag_key (snd x) f = k" using holds_key [OF h] kq assms(3) by simp
    then show ?thesis using h m more f(4) by (auto simp: pending_def has_more_def)
  qed
qed

lemma step_inv:
  assumes "frag_inv log w" "ok (p, h)"
  shows "frag_inv (log @ [(p, h)]) (snd (fragment_reassemble R a tps now p h w))"
  using step_new(2) [OF assms] step_more(1) [OF assms] by (cases "fragment_find R p h w") blast+

lemma run_complete:
  fixes a :: "nat \<Rightarrow> bool" and tps t0 :: u32
  defines "d \<equiv> \<lambda>t. unat (t - t0)" and "F \<equiv> \<lambda>k evs. filter (\<lambda>p. key (pkt_data (fst p)) = k) (event_frags evs)"
  assumes "frag_inv log w" "pending tps s k qs w" "\<forall>p \<in> set (event_frags evs). ok p" "\<And>n. a n"
    "complete (qs @ F k evs)" "evs \<noteq> []" "\<exists>p. event_frag (last evs) = Some p \<and> key (pkt_data (fst p)) = k"
    "\<forall>e \<in> set evs. d (event_time e) < unat (tps div 2)" "sorted (map (\<lambda>e. d (event_time e)) evs)"
    "qs \<noteq> [] \<longrightarrow> (\<forall>e \<in> set evs. d s \<le> d (event_time e))"
  shows "last (fst (frag_run R a tps evs w)) = Some (joined (qs @ F k evs), snd (hd (qs @ F k evs)))"
  using assms(3-)
proof (induction evs arbitrary: log w s qs)
  case (Cons e evs)
  obtain r w1 where r: "frag_event_step R a tps e w = (r, w1)" by (metis surj_pair)
  obtain rs w2 where rs: "frag_run R a tps evs w1 = (rs, w2)" by (metis surj_pair)
  have run: "fst (frag_run R a tps (e # evs) w) = r # rs" using r rs by simp
  have ok2: "\<forall>p \<in> set (event_frags evs). ok p" using Cons.prems(3) by (auto simp: map_filter_def split: if_splits)
  have srt: "sorted (map (\<lambda>e. d (event_time e)) evs)" "\<forall>e' \<in> set evs. d (event_time e) \<le> d (event_time e')" using Cons.prems(9) by auto
  show ?case
  proof (cases "evs = []")
    case True
    then obtain now p h where e: "e = Fragment now p h" "key (pkt_data p) = k" using Cons.prems(7) by (cases e) auto
    then have F: "F k (e # evs) = [(p, h)]" using True by (simp add: F_def map_filter_def)
    then have c: "complete (qs @ [(p, h)])" using Cons.prems(5) by simp
    then have "qs \<noteq> []" "chain (qs @ [(p, h)])" "\<not> has_more R (p, h)" by (auto simp: complete_def)
    then have "fst (fragment_reassemble R a tps now p h w) = Some (joined (qs @ [(p, h)]), snd (hd qs))"
      using pending_next(2) [OF Cons.prems(1,2) _ _ e(2) Cons.prems(4), where h = h and rest = "[]" and now = now] by simp
    then show ?thesis using run r rs True e F \<open>qs \<noteq> []\<close> by simp
  next
    case False
    have len: "rs \<noteq> []" using frag_run_length [of R a tps evs w1] rs False by auto
    have lastk: "\<exists>p. event_frag (last evs) = Some p \<and> key (pkt_data (fst p)) = k" using Cons.prems(7) False by simp
    have Fne: "F k evs \<noteq> []"
    proof -
      obtain p where p: "event_frag (last evs) = Some p" "key (pkt_data (fst p)) = k" using lastk by blast
      then have "p \<in> set (event_frags evs)" using last_in_set [OF False] by (force simp: map_filter_def image_iff)
      then show ?thesis using p(2) by (auto simp: F_def filter_empty_conv)
    qed
    have IH: "last rs = Some (joined (qs' @ F k evs), snd (hd (qs' @ F k evs)))"
      if "frag_inv log' w1" "pending tps s' k qs' w1" "complete (qs' @ F k evs)" "qs' \<noteq> [] \<longrightarrow> (\<forall>e \<in> set evs. d s' \<le> d (event_time e))" for log' s' qs'
      using Cons.IH [OF that(1,2) ok2 Cons.prems(4) that(3) False lastk _ srt(1) that(4)] Cons.prems(8) rs by simp
    have ls: "last (fst (frag_run R a tps (e # evs) w)) = last rs" using run len by simp
    show ?thesis
    proof (cases e)
      case (Poll now)
      have F: "F k (e # evs) = F k evs" using Poll by (simp add: F_def map_filter_def)
      have "qs = [] \<or> now - s < tps div 2"
      proof (cases "qs = []")
        case ne: False
        have le: "d s \<le> d now" "d now < unat (tps div 2)" using Cons.prems(8,10) ne Poll by simp_all
        have "now - s = (now - t0) - (s - t0)" by simp
        then have "unat (now - s) = d now - d s" using le(1) unat_sub_u32 [of "s - t0" "now - t0"] by (simp add: d_def)
        then have "unat (now - s) < unat (tps div 2)" using le(2) by linarith
        then show ?thesis by (simp add: word_less_nat_alt)
      qed simp
      then have "pending tps s k qs w1" using pending_poll [OF Cons.prems(1,2), where now = now] r Poll by auto
      moreover have "frag_inv log w1" using step_poll [OF Cons.prems(1), of tps now] r Poll by auto
      ultimately show ?thesis using IH Cons.prems(5,10) ls F by simp
    next
      case (Fragment now p h)
      have okp: "ok (p, h)" using Cons.prems(3) Fragment by (simp add: map_filter_def)
      have w1: "w1 = snd (fragment_reassemble R a tps now p h w)" using r Fragment by simp
      have inv: "frag_inv (log @ [(p, h)]) w1" using step_inv [OF Cons.prems(1) okp] w1 by simp
      show ?thesis
      proof (cases "key (pkt_data p) = k")
        case other: False
        have F: "F k (e # evs) = F k evs" using Fragment other by (simp add: F_def map_filter_def)
        have "pending tps s k qs w1" using pending_other [OF Cons.prems(1,2) okp other] w1 by blast
        from IH [OF inv this] show ?thesis using Cons.prems(5,10) ls F by simp
      next
        case k: True
        have F: "F k (e # evs) = (p, h) # F k evs" using Fragment k by (simp add: F_def map_filter_def)
        then have c: "complete (qs @ (p, h) # F k evs)" using Cons.prems(5) by simp
        then have ch: "chain (qs @ (p, h) # F k evs)" by (simp add: complete_def)
        have "pending tps now k (qs @ [(p, h)]) w1"
        proof (cases "qs = []")
          case True
          then have "fragment_offset R p h = 0" using ch by (auto simp: chain_def contiguous_def)
          then show ?thesis using pending_first [OF Cons.prems(1) _ okp k _ Cons.prems(4), where tps = tps and s = s and now = now] Cons.prems(2) True w1 by simp
        next
          case False
          then have "has_more R (p, h)" using c Fne by (cases qs) (auto simp: complete_def butlast_append)
          then show ?thesis using pending_next(1) [OF Cons.prems(1,2) False ch k Cons.prems(4), where now = now] w1 by simp
        qed
        then show ?thesis using IH [OF inv, of now "qs @ [(p, h)]"] c srt(2) ls F Fragment by simp
      qed
    qed
  qed
qed simp

end

end
