(* ===== verification/Strings.thy ===== *)
theory Strings
  imports Prelude "HOL-Library.Signed_Division"
begin

text \<open>
  Numbers and text: the conversions of \<open>core/vsprintf.c\<close>, \<open>core/misc.c\<close>, \<open>core/strtoull.c\<close> and
  \<open>include/stdlib.h\<close>.  A C string is the list of its characters before the terminating NUL; a
  character is a byte, widened as the signed \<open>char\<close> of i386 where the code widens it.  The value
  \<open>None\<close> of a formatting operation is a call whose behaviour is undefined: an argument of the wrong
  type, a conversion that overflows the temporary buffer, or a format that ends in the middle of a conversion.
\<close>


section \<open>Parsing numbers\<close>

text \<open>\<open>*p\<close> of a string.\<close>

fun hd0 :: "bytes \<Rightarrow> u8" where
  "hd0 [] = 0"
| "hd0 (c # p) = c"

definition isspace :: "u8 \<Rightarrow> bool" where
  "isspace c \<longleftrightarrow> c = 0x20 \<or> c = 0x0c \<or> c = 0x0a \<or> c = 0x0d \<or> c = 0x09 \<or> c = 0x0b"

definition strtoul_charval :: "u32 \<Rightarrow> u32" where
  "strtoul_charval charval =
     (if 0x61 \<le> charval then charval - 0x61 + 10
      else if 0x41 \<le> charval then charval - 0x41 + 10
      else if charval \<le> 0x39 then charval - 0x30
      else charval)"

definition strtoul_base :: "bytes \<Rightarrow> u32 \<Rightarrow> bytes \<times> u32" where
  "strtoul_base p base =
     (if base = 0 then
        (if hd0 p = 0x30 then
           (let p = tl p in
            if hd0 p OR 0x20 = 0x78 then (tl p, 16) else (p, 8))
         else (p, 10))
      else (p, base))"

text \<open>
  The loop over the digits, for the two widths of \<open>strtoul\<close> and \<open>strtoull\<close>.  The value of the terminating NUL is at
  least every base that is used, so the loop ends there at the latest.
\<close>

fun digits_loop :: "u32 \<Rightarrow> 'a::len word \<Rightarrow> bytes \<Rightarrow> 'a word \<times> bytes" where
  "digits_loop base ret [] = (ret, [])"
| "digits_loop base ret (c # p) =
     (let charval = strtoul_charval (scast c) in
      if base \<le> charval then (ret, c # p)
      else digits_loop base (ret * ucast base + ucast charval) p)"

definition strto :: "bytes \<Rightarrow> u32 \<Rightarrow> 'a::len word \<times> bytes" where
  "strto p base =
     (let p = dropWhile isspace p;
          negative = (hd0 p = 0x2d);
          p = (if negative then tl p else p);
          (p, base) = strtoul_base p base;
          (ret, p) = digits_loop base 0 p
      in (if negative then - ret else ret, p))"

definition strtoul :: "bytes \<Rightarrow> u32 \<Rightarrow> u32 \<times> bytes" where
  "strtoul p base = strto p base"

definition strtoull :: "bytes \<Rightarrow> u32 \<Rightarrow> u64 \<times> bytes" where
  "strtoull p base = strto p base"

section \<open>Formatting numbers\<close>

definition LCASE :: u32 where "LCASE = 0x20"
definition ALT_FORM :: u32 where "ALT_FORM = 0x02"
definition ZPAD :: u32 where "ZPAD = 0x10"

text \<open>The digits of \<open>format_hex\<close>, written in front of those already there.\<close>

definition hex_digit :: "u64 \<Rightarrow> u8" where
  "hex_digit n = [0x30, 0x31, 0x32, 0x33, 0x34, 0x35, 0x36, 0x37, 0x38, 0x39,
     0x41, 0x42, 0x43, 0x44, 0x45, 0x46] ! unat (n AND 0xf)"

function hex_digits :: "u8 \<Rightarrow> u64 \<Rightarrow> bytes \<Rightarrow> bytes" where
  "hex_digits case_mod num buf =
     (let buf = (hex_digit num OR case_mod) # buf;
          num' = drop_bit 4 num
      in if num' \<noteq> 0 then hex_digits case_mod num' buf else buf)"
  by pat_completeness auto

termination hex_digits
proof (relation "measure (\<lambda>(_, num, _). unat num)")
  fix num x :: u64 and case_mod buf xa
  assume x: "x = drop_bit 4 num" "x \<noteq> 0"
  have "0 < unat x" using x(2) by (simp add: unat_gt_0)
  moreover have "unat x = unat num div 16" using unat_drop_bit_div [of 4 num] x(1) by simp
  ultimately show "((case_mod, x, xa), (case_mod, num, buf)) \<in> measure (\<lambda>(_, num, _). unat num)"
    by simp
qed simp

definition pad_to :: "u32 \<Rightarrow> u8 \<Rightarrow> bytes \<Rightarrow> bytes" where
  "pad_to width pad buf = replicate (nat (sint width) - length buf) pad @ buf"

definition format_hex :: "u64 \<Rightarrow> u32 \<Rightarrow> u32 \<Rightarrow> bytes" where
  "format_hex num width fl =
     (let case_mod = ucast (fl AND LCASE);
          pad = ucast ((fl AND ZPAD) OR 0x20);
          buf = pad_to width pad (hex_digits case_mod num [])
      in if fl AND ALT_FORM \<noteq> 0 then 0x30 # (0x58 OR case_mod) # buf else buf)"

text \<open>The digits of \<open>format_decimal\<close>, with the truncating division of C.\<close>

function dec_digits :: "int \<Rightarrow> bytes \<Rightarrow> bytes" where
  "dec_digits num buf =
     (let buf = word_of_int (0x30 + num smod 10) # buf;
          num' = num sdiv 10
      in if num' \<noteq> 0 then dec_digits num' buf else buf)"
  by pat_completeness auto

termination dec_digits
proof (relation "measure (\<lambda>(num, _). nat \<bar>num\<bar>)")
  fix num x :: int and buf xa
  assume "x = num sdiv 10" "x \<noteq> 0"
  then have "\<bar>x\<bar> = \<bar>num\<bar> div 10" "\<bar>x\<bar> \<noteq> 0"
    by (auto simp: signed_divide_int_def abs_mult sgn_if)
  then show "((x, xa), (num, buf)) \<in> measure (\<lambda>(num, _). nat \<bar>num\<bar>)" by auto
qed simp

definition format_decimal :: "u32 \<Rightarrow> u32 \<Rightarrow> u32 \<Rightarrow> bytes" where
  "format_decimal num width fl =
     (let zpad = fl AND ZPAD;
          pad = ucast (zpad OR 0x20);
          negative = sint num < 0;
          num = (if negative then - num else num);
          buf = dec_digits (sint num) [];
          buf = (if negative \<and> zpad = 0 then 0x2d # buf else buf);
          buf = pad_to width pad buf
      in if negative \<and> zpad \<noteq> 0 then 0x2d # tl buf else buf)"

section \<open>Format strings\<close>

datatype printf_arg =
    ArgInt u32 | ArgLongLong u64 | ArgStr "bytes option" | ArgWStr "u32 list option"

fun parse_flags :: "u32 \<Rightarrow> bytes \<Rightarrow> u32 \<times> bytes" where
  "parse_flags fl [] = (fl, [])"
| "parse_flags fl (c # fmt) =
     (if c = 0x23 then parse_flags (fl OR ALT_FORM) fmt
      else if c = 0x30 then parse_flags (fl OR ZPAD) fmt
      else (fl, c # fmt))"

fun parse_width :: "u32 \<Rightarrow> bytes \<Rightarrow> u32 \<times> bytes" where
  "parse_width width [] = (width, [])"
| "parse_width width (c # fmt) =
     (if scast c - 0x30 < (10 :: u32) then parse_width (width * 10 + (scast c - 0x30)) fmt
      else (width, c # fmt))"

text \<open>The length modifier is an index into \<open>type_sizes\<close>.\<close>

definition LONG_LEN :: int where "LONG_LEN = 3"
definition INT_LEN :: int where "INT_LEN = 2"
definition SIZE_T_LEN :: int where "SIZE_T_LEN = 5"

definition type_sizes :: "int \<Rightarrow> nat option" where
  "type_sizes i = (if 0 \<le> i \<and> i < 6 then Some ([1, 2, 4, 4, 8, 4] ! nat i) else None)"

fun parse_length :: "int \<Rightarrow> bytes \<Rightarrow> int \<times> bytes" where
  "parse_length len [] = (len, [])"
| "parse_length len (c # fmt) =
     (if c = 0x68 then parse_length (len - 1) fmt
      else if c = 0x6c then parse_length (len + 1) fmt
      else if c = 0x7a then parse_length SIZE_T_LEN fmt
      else (len, c # fmt))"

text \<open>A result in the temporary buffer of 32 characters.\<close>

definition in_tmp_buf :: "bytes \<Rightarrow> bytes option" where
  "in_tmp_buf buf = (if length buf \<le> 31 then Some buf else None)"

definition convert_hex :: "u32 \<Rightarrow> u32 \<Rightarrow> nat \<Rightarrow> printf_arg list \<Rightarrow> (bytes \<times> printf_arg list) option" where
  "convert_hex fl width sz args =
     (case args of
        ArgLongLong hex # args \<Rightarrow>
          if 8 \<le> sz then map_option (\<lambda>b. (b, args)) (in_tmp_buf (format_hex hex width fl)) else None
      | ArgInt hex # args \<Rightarrow>
          if 8 \<le> sz then None else map_option (\<lambda>b. (b, args)) (in_tmp_buf (format_hex (ucast hex) width fl))
      | _ \<Rightarrow> None)"

definition convert :: "u32 \<Rightarrow> u32 \<Rightarrow> int \<Rightarrow> u8 \<Rightarrow> printf_arg list \<Rightarrow> (bytes \<times> printf_arg list) option" where
  "convert fl width len c args =
     (if c = 0x63 then
        (case args of
           ArgInt x # args \<Rightarrow>
             Some (if len < LONG_LEN then [ucast x] else takeWhile (\<lambda>c. c \<noteq> 0) [ucast x], args)
         | _ \<Rightarrow> None)
      else if c = 0x73 then
        (if len < LONG_LEN then
           (case args of
              ArgStr s # args \<Rightarrow> Some (case s of None \<Rightarrow> [0x3c, 0x4e, 0x55, 0x4c, 0x4c, 0x3e] | Some s \<Rightarrow> s, args)
            | _ \<Rightarrow> None)
         else
           (case args of
              ArgWStr s # args \<Rightarrow> Some (case s of None \<Rightarrow> [] | Some s \<Rightarrow> map ucast s, args)
            | _ \<Rightarrow> None))
      else if c = 0x70 then
        (case args of
           ArgInt ptrval # args \<Rightarrow>
             map_option (\<lambda>b. (b, args)) (in_tmp_buf (format_hex (scast ptrval) width (ALT_FORM OR LCASE)))
         | _ \<Rightarrow> None)
      else if c AND NOT 0x20 = 0x58 then
        (case type_sizes len of
           None \<Rightarrow> None
         | Some sz \<Rightarrow> convert_hex (fl OR ucast (c AND 0x20)) width sz args)
      else if c = 0x64 \<or> c = 0x69 then
        (case type_sizes len of
           None \<Rightarrow> None
         | Some sz \<Rightarrow>
             (case args of
                ArgInt decimal # args \<Rightarrow> map_option (\<lambda>b. (b, args)) (in_tmp_buf (format_decimal decimal width fl))
              | _ \<Rightarrow> None))
      else Some ([c], args))"

lemma parse_flags_length: "length (snd (parse_flags fl fmt)) \<le> length fmt"
  by (induction fl fmt rule: parse_flags.induct) auto

lemma parse_width_length: "length (snd (parse_width w fmt)) \<le> length fmt"
  by (induction w fmt rule: parse_width.induct) (auto simp: Let_def)

lemma parse_length_length: "length (snd (parse_length l fmt)) \<le> length fmt"
  by (induction l fmt rule: parse_length.induct) auto

text \<open>The characters that \<open>vcprintf\<close> passes to the handler of its context.\<close>

function vcprintf :: "bytes \<Rightarrow> printf_arg list \<Rightarrow> bytes option" where
  "vcprintf [] args = Some []"
| "vcprintf (c # fmt) args =
     (if c \<noteq> 0x25 then map_option (Cons c) (vcprintf fmt args)
      else
        (let (fl, fmt1) = parse_flags 0 fmt;
             (width, fmt2) = parse_width 0 fmt1;
             (len, fmt3) = parse_length INT_LEN fmt2
         in case fmt3 of
              [] \<Rightarrow> None
            | c # fmt' \<Rightarrow>
                (case convert fl width len c args of
                   None \<Rightarrow> None
                 | Some (out, args') \<Rightarrow> map_option (\<lambda>rest. out @ rest) (vcprintf fmt' args'))))"
  by pat_completeness auto

termination vcprintf
proof (relation "measure (\<lambda>(fmt, _). length fmt)", goal_cases)
  case (3 c fmt args x fl fmt1 y width fmt2 z len fmt3 d fmt' r)
  then have "length (d # fmt') \<le> length fmt"
    using parse_flags_length [of 0 fmt] parse_width_length [of 0 fmt1] parse_length_length [of INT_LEN fmt2]
    by (metis le_trans snd_conv)
  then show ?case by simp
qed simp_all

declare vcprintf.simps(2) [simp del]

lemma vcprintf_char: "c \<noteq> 0x25 \<Longrightarrow> vcprintf (c # fmt) args = map_option (Cons c) (vcprintf fmt args)"
  by (simp add: vcprintf.simps(2))

lemma vcprintf_conversion:
  "parse_flags 0 fmt = (fl, fmt1) \<Longrightarrow> parse_width 0 fmt1 = (width, fmt2) \<Longrightarrow> parse_length INT_LEN fmt2 = (len, c # fmt') \<Longrightarrow>
     convert fl width len c args = Some (out, args') \<Longrightarrow>
     vcprintf (0x25 # fmt) args = map_option ((@) out) (vcprintf fmt' args')"
  by (simp add: vcprintf.simps(2))

text \<open>The conversion \<open>%d\<close>.\<close>

lemma vcprintf_decimal:
  "length (format_decimal x 0 0) \<le> 31 \<Longrightarrow>
     vcprintf (0x25 # 0x64 # fmt) (ArgInt x # args) = map_option ((@) (format_decimal x 0 0)) (vcprintf fmt args)"
  by (rule vcprintf_conversion [of _ 0 "0x64 # fmt" 0 "0x64 # fmt" INT_LEN "0x64" fmt])
    (simp_all add: convert_def type_sizes_def INT_LEN_def in_tmp_buf_def)

section \<open>Buffers\<close>

text \<open>\<open>printf_sputc\<close> called for each character in turn, on a buffer that may be shorter than \<open>max_len\<close> claims.\<close>

definition printf_sputc :: "nat \<Rightarrow> bytes \<Rightarrow> nat \<Rightarrow> u8 \<Rightarrow> bytes" where
  "printf_sputc max_len buf len c = (if len < max_len then buf[len := c] else buf)"

fun sputc_all :: "nat \<Rightarrow> bytes \<Rightarrow> nat \<Rightarrow> bytes \<Rightarrow> bytes" where
  "sputc_all max_len buf len [] = buf"
| "sputc_all max_len buf len (c # cs) = sputc_all max_len (printf_sputc max_len buf len c) (len + 1) cs"

definition vsnprintf :: "bytes \<Rightarrow> nat \<Rightarrow> bytes \<Rightarrow> printf_arg list \<Rightarrow> (nat \<times> bytes) option" where
  "vsnprintf buf bufsize fmt args =
     (case vcprintf fmt args of
        None \<Rightarrow> None
      | Some out \<Rightarrow>
          (let buf = sputc_all bufsize buf 0 out;
               len = length out
           in if bufsize \<noteq> 0 then
                (let term = bufsize - 1; term = (if len < term then len else term)
                 in Some (len, buf[term := 0]))
              else Some (len, buf)))"

definition vssnprintf :: "bytes \<Rightarrow> int \<Rightarrow> bytes \<Rightarrow> printf_arg list \<Rightarrow> (nat \<times> bytes) option" where
  "vssnprintf buf ssize fmt args = vsnprintf buf (nat (if ssize < 0 then 0 else ssize)) fmt args"

section \<open>Digits read back\<close>

lemma less_16_cases:
  "m < 16 \<Longrightarrow> m = 0 \<or> m = 1 \<or> m = 2 \<or> m = 3 \<or> m = 4 \<or> m = 5 \<or> m = 6 \<or> m = 7 \<or> m = 8 \<or> m = 9 \<or>
     m = 10 \<or> m = 11 \<or> m = 12 \<or> m = 13 \<or> m = 14 \<or> m = (15 :: nat)"
  by presburger

lemma hex_digit_values:
  fixes m :: nat
  defines "d \<equiv> [0x30, 0x31, 0x32, 0x33, 0x34, 0x35, 0x36, 0x37, 0x38, 0x39, 0x41, 0x42, 0x43, 0x44, 0x45, 0x46 :: u8] ! m"
  assumes "m < 16" "cm = 0 \<or> cm = 0x20"
  shows "strtoul_charval (scast (d OR cm)) = of_nat m \<and> \<not> isspace (d OR cm) \<and> d OR cm \<noteq> 0x2d"
  using less_16_cases [OF assms(2)] assms(3)
  by (elim disjE; simp add: d_def strtoul_charval_def isspace_def)

lemma and_15_nat: "unat (n AND 0xf :: u64) = unat n mod 16"
proof -
  have "n AND 0xf = n mod 16" using take_bit_eq_mask [of 4 n] by (simp add: take_bit_eq_mod mask_eq_exp_minus_1)
  then show ?thesis by (simp add: unat_mod)
qed

lemma hex_digit_value:
  assumes "cm = 0 \<or> cm = 0x20"
  shows "strtoul_charval (scast (hex_digit n OR cm)) = of_nat (unat n mod 16)"
    and "\<not> isspace (hex_digit n OR cm)" "hex_digit n OR cm \<noteq> 0x2d"
  using hex_digit_values [of "unat n mod 16" cm] assms unfolding hex_digit_def and_15_nat by auto

lemma digits_loop_hex_digit:
  assumes "cm = 0 \<or> cm = 0x20"
  shows "digits_loop 16 r ((hex_digit n OR cm) # buf) = digits_loop 16 (r * 16 + of_nat (unat n mod 16)) buf"
proof -
  have "\<not> 16 \<le> (of_nat m :: u32)" "ucast (of_nat m :: u32) = (of_nat m :: 'a word)" if "m < 16" for m
    using that by (simp_all add: word_le_nat_alt unsigned_of_nat take_bit_nat_eq_self)
  then show ?thesis by (simp add: hex_digit_value(1) [OF assms])
qed

declare hex_digits.simps [simp del] dec_digits.simps [simp del]

lemma digits_loop_hex_digits:
  "cm = 0 \<or> cm = 0x20 \<Longrightarrow>
     \<exists>k. \<forall>r :: 'a::len word. digits_loop 16 r (hex_digits cm n buf) = digits_loop 16 (r * 16 ^ k + of_nat (unat n)) buf"
proof (induction cm n buf rule: hex_digits.induct)
  case (1 cm n buf)
  let ?d = "hex_digit n OR cm" and ?n = "drop_bit 4 n"
  have "unat n = unat ?n * 16 + unat n mod 16"
    using div_mult_mod_eq [of "unat n" 16] unat_drop_bit_div [of 4 n] by simp
  then have n: "of_nat (unat n) = of_nat (unat ?n) * 16 + (of_nat (unat n mod 16) :: 'a word)"
    by (metis of_nat_add of_nat_mult of_nat_numeral)
  show ?case
  proof (cases "?n = 0")
    case True
    then show ?thesis
      using n digits_loop_hex_digit [OF "1.prems", of _ n buf]
      by (subst hex_digits.simps) (auto intro!: exI [of _ 1])
  next
    case False
    from "1.IH" [OF refl refl False "1.prems"] obtain k where
      k: "\<And>r :: 'a word. digits_loop 16 r (hex_digits cm ?n (?d # buf)) = digits_loop 16 (r * 16 ^ k + of_nat (unat ?n)) (?d # buf)"
      by blast
    have "digits_loop 16 r (hex_digits cm n buf) = digits_loop 16 (r * 16 ^ Suc k + of_nat (unat n)) buf" for r :: "'a word"
      using False k [of r] digits_loop_hex_digit [OF "1.prems", of "r * 16 ^ k + of_nat (unat ?n)" n buf] n
      by (subst hex_digits.simps) (simp add: Let_def algebra_simps)
    then show ?thesis by blast
  qed
qed

lemma digits_loop_zeros: "digits_loop base 0 (replicate n 0x30 @ p) = digits_loop base (0 :: 'a::len word) p" if "0 < base"
proof (induction n)
  case (Suc n)
  have "strtoul_charval 0x30 = 0" by (simp add: strtoul_charval_def)
  with Suc that show ?case by (simp add: word_gt_0)
qed simp

lemma strto_digits:
  assumes "p = sp @ q" "\<forall>c \<in> set sp. isspace c" "q = c # q'" "\<not> isspace c" "c \<noteq> 0x2d" "base \<noteq> 0"
  shows "strto p base = digits_loop base 0 q"
proof -
  have "dropWhile isspace p = q" using assms by (induction sp arbitrary: p) auto
  then show ?thesis using assms by (simp add: strto_def strtoul_base_def Let_def split: prod.split)
qed

lemma hex_digits_first:
  "cm = 0 \<or> cm = 0x20 \<Longrightarrow> \<exists>c q. hex_digits cm n buf = c # q \<and> \<not> isspace c \<and> c \<noteq> 0x2d"
proof (induction cm n buf rule: hex_digits.induct)
  case (1 cm n buf)
  then show ?case
    using hex_digit_value(2,3) [OF "1.prems", of n] by (subst hex_digits.simps) (auto simp: Let_def)
qed

lemma flag_cases:
  "fl AND LCASE = (if bit fl 5 then LCASE else 0)" "fl AND ZPAD = (if bit fl 4 then ZPAD else 0)"
  "fl AND ALT_FORM = (if bit fl 1 then ALT_FORM else 0)"
  using and_exp_word [of fl 5] and_exp_word [of fl 4] and_exp_word [of fl 1]
  by (simp_all add: LCASE_def ZPAD_def ALT_FORM_def)

lemma case_mod_cases: "ucast (fl AND LCASE) = (0 :: u8) \<or> ucast (fl AND LCASE) = (0x20 :: u8)"
  unfolding flag_cases by (simp add: LCASE_def)

lemma pad_cases: "ucast ((fl AND ZPAD) OR 0x20) = (if fl AND ZPAD = 0 then 0x20 else 0x30 :: u8)"
  unfolding flag_cases by (simp add: ZPAD_def)

lemma strto_padded:
  assumes "pad = 0x20 \<or> pad = 0x30" "q = c # q'" "\<not> isspace c" "c \<noteq> 0x2d" "base \<noteq> 0"
  shows "strto (replicate n pad @ q) base = digits_loop base (0 :: 'a::len word) q"
proof (cases "pad = 0x20")
  case True
  with assms show ?thesis by (intro strto_digits [of _ "replicate n pad"]) (auto simp: isspace_def)
next
  case False
  with assms(1) have pad: "pad = 0x30" by simp
  have "\<exists>c' p. replicate n pad @ q = c' # p \<and> \<not> isspace c' \<and> c' \<noteq> 0x2d"
    using assms(2-) pad by (cases n) (auto simp: isspace_def)
  then have "strto (replicate n pad @ q) base = digits_loop base (0 :: 'a word) (replicate n pad @ q)"
    using assms(5) strto_digits [of _ "[]"] by fastforce
  then show ?thesis using digits_loop_zeros [of base n q] assms(5) pad by (simp add: word_gt_0)
qed

lemma hex_read:
  assumes "strtoul_arg = (if fl AND ALT_FORM = 0 then 16 else 0)" "fl AND ALT_FORM = 0 \<or> fl AND ZPAD \<noteq> 0 \<or> width = 0"
  shows "strto (format_hex n width fl) strtoul_arg = (of_nat (unat n) :: 'a::len word, [])"
proof -
  let ?cm = "ucast (fl AND LCASE) :: u8" and ?pad = "ucast ((fl AND ZPAD) OR 0x20) :: u8"
  let ?h = "hex_digits ?cm n []"
  obtain c q where q: "?h = c # q" "\<not> isspace c" "c \<noteq> 0x2d"
    using hex_digits_first [OF case_mod_cases] by blast
  have d: "digits_loop 16 0 ?h = (of_nat (unat n) :: 'a word, [])"
    using digits_loop_hex_digits [OF case_mod_cases, of fl n "[]", where 'a = 'a] by (auto dest: spec [of _ 0])
  show ?thesis
  proof (cases "fl AND ALT_FORM = 0")
    case True
    then have "format_hex n width fl = replicate (nat (sint width) - length ?h) ?pad @ ?h"
      by (simp add: format_hex_def pad_to_def Let_def)
    moreover have "strto (replicate k ?pad @ ?h) 16 = digits_loop 16 (0 :: 'a word) ?h" for k
      by (rule strto_padded [OF _ q]) (simp_all add: pad_cases)
    ultimately show ?thesis using True assms(1) d by simp
  next
    case False
    then have "strto (format_hex n width fl) strtoul_arg = digits_loop 16 (0 :: 'a word) (pad_to width ?pad ?h)"
      using assms(1) case_mod_cases [of fl]
      by (auto simp: format_hex_def strto_def strtoul_base_def Let_def isspace_def split: prod.split)
    with False assms(2) d show ?thesis
      by (auto simp: pad_to_def pad_cases digits_loop_zeros)
  qed
qed

text \<open>
  Hexadecimal numbers are read back: whatever the field width, the padding and the case of the digits,
  \<open>strtoull\<close> and \<open>strtoul\<close> in base 16 return the number that \<open>format_hex\<close> wrote and stop at its end; with
  a \<open>0x\<close> prefix and zero padding the base is found from the prefix.
\<close>

lemma hex_read_back:
  assumes "strtoul_arg = (if fl AND ALT_FORM = 0 then 16 else 0)" "fl AND ALT_FORM = 0 \<or> fl AND ZPAD \<noteq> 0 \<or> width = 0"
  shows "strtoull (format_hex n width fl) strtoul_arg = (n, []) \<and>
    strtoul (format_hex (ucast m) width fl) strtoul_arg = (m, [])"
  using hex_read [OF assms, of n, where 'a = 64] hex_read [OF assms, of "ucast m", where 'a = 32]
    take_bit_nat_eq_self [of "unat m" 64] unat_u32_less [of m]
  by (simp add: strtoull_def strtoul_def unsigned_ucast_eq take_bit_word_eq_self)

section \<open>Decimal numbers\<close>

lemma dec_digit_values:
  "m < 10 \<Longrightarrow> strtoul_charval (scast (word_of_int (0x30 + int m) :: u8)) = of_nat m \<and>
     \<not> isspace (word_of_int (0x30 + int m)) \<and> word_of_int (0x30 + int m) \<noteq> (0x2d :: u8)"
proof -
  assume "m < 10"
  then have "m = 0 \<or> m = 1 \<or> m = 2 \<or> m = 3 \<or> m = 4 \<or> m = 5 \<or> m = 6 \<or> m = 7 \<or> m = 8 \<or> m = 9"
    by presburger
  then show ?thesis by (elim disjE; simp add: strtoul_charval_def isspace_def)
qed

lemma dec_digits_unfold:
  "dec_digits (int n) buf =
     (let buf = word_of_int (0x30 + int (n mod 10)) # buf in if n div 10 \<noteq> 0 then dec_digits (int (n div 10)) buf else buf)"
  by (subst dec_digits.simps) (simp add: signed_divide_int_def signed_modulo_int_def Let_def zdiv_int zmod_int)

lemma digits_loop_dec_digit:
  "m < 10 \<Longrightarrow> digits_loop 10 r (word_of_int (0x30 + int m) # buf) = digits_loop 10 (r * 10 + of_nat m :: 'a::len word) buf"
  using dec_digit_values [of m]
  by (simp add: word_le_nat_alt unsigned_of_nat take_bit_nat_eq_self)

lemma digits_loop_dec_digits:
  "\<exists>k. \<forall>r :: 'a::len word. digits_loop 10 r (dec_digits (int n) buf) = digits_loop 10 (r * 10 ^ k + of_nat n) buf"
proof (induction n arbitrary: buf rule: less_induct)
  case (less n)
  let ?d = "word_of_int (0x30 + int (n mod 10)) :: u8" and ?n = "n div 10"
  have n: "of_nat n = of_nat ?n * 10 + (of_nat (n mod 10) :: 'a word)"
    by (metis div_mult_mod_eq of_nat_add of_nat_mult of_nat_numeral)
  note step = digits_loop_dec_digit [of "n mod 10" _ buf, where 'a = 'a]
  show ?case
  proof (cases "?n = 0")
    case True
    then show ?thesis using n step by (subst dec_digits_unfold) (auto intro!: exI [of _ 1])
  next
    case False
    then have "?n < n" by auto
    from less [OF this, of "?d # buf"] obtain k where
      k: "\<And>r :: 'a word. digits_loop 10 r (dec_digits (int ?n) (?d # buf)) = digits_loop 10 (r * 10 ^ k + of_nat ?n) (?d # buf)"
      by blast
    have "digits_loop 10 r (dec_digits (int n) buf) = digits_loop 10 (r * 10 ^ Suc k + of_nat n) buf" for r :: "'a word"
      using False k [of r] step [of "r * 10 ^ k + of_nat ?n"] n
      by (subst dec_digits_unfold) (simp add: Let_def algebra_simps)
    then show ?thesis by blast
  qed
qed

lemma dec_digits_first: "\<exists>c q. dec_digits (int n) buf = c # q \<and> \<not> isspace c \<and> c \<noteq> 0x2d"
proof (induction n arbitrary: buf rule: less_induct)
  case (less n)
  show ?case
  proof (cases "n div 10 = 0")
    case True
    then show ?thesis using dec_digit_values [of "n mod 10"] by (subst dec_digits_unfold) simp
  next
    case False
    then have "n div 10 < n" by auto
    from less [OF this] False show ?thesis by (subst dec_digits_unfold) (simp add: Let_def)
  qed
qed

lemma dec_read: "digits_loop 10 0 (dec_digits (int n) []) = (of_nat n :: 'a::len word, [])"
  using digits_loop_dec_digits [of n "[]", where 'a = 'a] by (auto dest: spec [of _ 0])

lemma sint_pos_u32:
  assumes "0 \<le> sint (num :: u32)"
  shows "sint num = int (unat num)"
proof -
  have "uint num < 2147483648" using assms sint_u32_nonneg [of num] uint_nat [of num] by linarith
  moreover have "- 2147483648 \<le> uint num" by (rule order_trans [of _ 0]) simp_all
  ultimately show ?thesis
    using signed_take_bit_int_eq_self [of 31 "uint num"] by (simp add: sint_uint)
qed

lemma sint_neg_u32:
  assumes "sint (num :: u32) < 0" "num \<noteq> 0x80000000"
  shows "sint (- num) = int (unat (- num))"
proof -
  have "unat num \<noteq> 2147483648" using assms(2) by (simp add: word_unat_eq_iff)
  then have "2147483648 < unat num" using assms(1) sint_u32_nonneg [of num] by simp
  then have "unat (- num) < 2147483648" using unat_sub_wrap_u32 [of 0 num] by simp
  then show ?thesis using sint_pos_u32 sint_u32_nonneg by blast
qed

text \<open>
  Decimal numbers are read back: \<open>strtoul\<close> in base 10 returns the number that \<open>format_decimal\<close> wrote,
  whatever the field width, for every number but the most negative one, and except for
  negative numbers padded with zeros.
\<close>

lemma decimal_read_back:
  assumes "num \<noteq> 0x80000000" "fl AND ZPAD = 0 \<or> 0 \<le> sint num"
  shows "strtoul (format_decimal num width fl) 10 = (num, [])"
proof (cases "sint num < 0")
  case True
  let ?d = "dec_digits (int (unat (- num))) []"
  have "format_decimal num width fl = replicate (nat (sint width) - Suc (length ?d)) 0x20 @ 0x2d # ?d"
    using True assms by (simp add: format_decimal_def pad_to_def Let_def sint_neg_u32 pad_cases)
  moreover have "dropWhile isspace (replicate n 0x20 @ 0x2d # ?d) = 0x2d # ?d" for n
    by (induction n) (auto simp: isspace_def)
  ultimately show ?thesis
    using dec_read [of "unat (- num)", where 'a = 32]
    by (simp add: strtoul_def strto_def strtoul_base_def Let_def)
next
  case False
  let ?d = "dec_digits (int (unat num)) []" and ?pad = "ucast ((fl AND ZPAD) OR 0x20) :: u8"
  obtain c q where q: "?d = c # q" "\<not> isspace c" "c \<noteq> 0x2d" using dec_digits_first by blast
  have "format_decimal num width fl = replicate (nat (sint width) - length ?d) ?pad @ ?d"
    using False by (simp add: format_decimal_def pad_to_def Let_def sint_pos_u32)
  moreover have "strto (replicate k ?pad @ ?d) 10 = digits_loop 10 (0 :: u32) ?d" for k
    by (rule strto_padded [OF _ q]) (simp_all add: pad_cases)
  ultimately show ?thesis using dec_read [of "unat num", where 'a = 32] by (simp add: strtoul_def)
qed



lemma decimal_zero_padded_loses_digit: "format_decimal (- 12) 2 ZPAD = [0x2d, 0x32]"
  by (simp add: format_decimal_def pad_to_def Let_def ZPAD_def dec_digits.simps signed_divide_int_def signed_modulo_int_def)

lemma hex_space_padded: "format_hex 0xab 4 LCASE = replicate 2 0x20 @ [0x61, 0x62]"
  by (simp add: format_hex_def pad_to_def Let_def LCASE_def ZPAD_def ALT_FORM_def hex_digits.simps hex_digit_def)

lemma decimal_most_negative: "format_decimal 0x80000000 0 0 = [0x2d, 0x2e, 0x2f, 0x2c, 0x29, 0x2c, 0x28, 0x2d, 0x2a, 0x2c, 0x28]"
  by (simp add: format_decimal_def pad_to_def Let_def ZPAD_def dec_digits.simps signed_divide_int_def signed_modulo_int_def)

section \<open>Buffers are not overrun\<close>

lemma sputc_all_length: "length (sputc_all n buf k out) = length buf"
  by (induction n buf k out rule: sputc_all.induct) (simp_all add: printf_sputc_def)

lemma sputc_all_nth:
  "i < length buf \<Longrightarrow> sputc_all n buf k out ! i = (if k \<le> i \<and> i < k + length out \<and> i < n then out ! (i - k) else buf ! i)"
proof (induction n buf k out rule: sputc_all.induct)
  case (2 n buf k c cs)
  then show ?case
    by (auto simp: printf_sputc_def nth_list_update nth_Cons' Suc_le_eq)
qed auto

text \<open>
  C21.  \<open>vsnprintf\<close> stays inside its buffer: it returns the length of the formatted text, never changes a
  character behind the given size, and leaves in the buffer the text, cut off where necessary,
  followed by a NUL.
\<close>

theorem vsnprintf_bounded:
  assumes "vcprintf fmt args = Some out" "n \<le> length buf" "m = min (length out) (n - 1)"
  shows "\<exists>buf'. vsnprintf buf n fmt args = Some (length out, buf') \<and> length buf' = length buf \<and>
    drop n buf' = drop n buf \<and> (0 < n \<longrightarrow> take m buf' = take m out \<and> buf' ! m = 0)"
proof (cases "n = 0")
  case True
  have "sputc_all 0 buf k out = buf" for k
    by (rule nth_equalityI) (simp_all add: sputc_all_length sputc_all_nth)
  with True assms(1) show ?thesis by (simp add: vsnprintf_def)
next
  case False
  let ?b = "(sputc_all n buf 0 out)[m := 0]"
  have "vsnprintf buf n fmt args = Some (length out, ?b)"
    using False assms by (simp add: vsnprintf_def Let_def min_def)
  moreover have "drop n ?b = drop n buf"
    using False assms(2,3) by (intro nth_equalityI) (auto simp: sputc_all_length sputc_all_nth nth_list_update)
  moreover have "take m ?b = take m out"
    using False assms(2,3) by (intro nth_equalityI) (auto simp: sputc_all_length sputc_all_nth nth_list_update)
  moreover have "?b ! m = 0" using False assms(2,3) by (simp add: sputc_all_length)
  ultimately show ?thesis by (simp add: sputc_all_length)
qed

theorem vsnprintf_bounded_witness:
  "\<exists>buf'. vsnprintf [1, 1, 1, 1] 3 [0x61, 0x25, 0x64, 0x62] [ArgInt 7] = Some (3, buf') \<and>
     length buf' = 4 \<and> take 2 buf' = [0x61, 0x37] \<and> buf' ! 2 = 0 \<and> drop 3 buf' = [1]"
proof -
  have "format_decimal 7 0 0 = [0x37]"
    by (simp add: format_decimal_def pad_to_def Let_def ZPAD_def dec_digits.simps signed_divide_int_def signed_modulo_int_def)
  then have "vcprintf [0x61, 0x25, 0x64, 0x62] [ArgInt 7] = Some [0x61, 0x37, 0x62]"
    by (simp add: vcprintf_char vcprintf_decimal)
  moreover have "3 \<le> length [1, 1, 1, 1 :: u8]" "2 = min (length [0x61, 0x37, 0x62 :: u8]) (3 - 1)" by simp_all
  ultimately have "\<exists>buf'. vsnprintf [1, 1, 1, 1] 3 [0x61, 0x25, 0x64, 0x62] [ArgInt 7] = Some (length [0x61, 0x37, 0x62 :: u8], buf') \<and>
      length buf' = length [1, 1, 1, 1 :: u8] \<and> drop 3 buf' = drop 3 [1, 1, 1, 1 :: u8] \<and>
      (0 < (3 :: nat) \<longrightarrow> take 2 buf' = take 2 [0x61, 0x37, 0x62 :: u8] \<and> buf' ! 2 = 0)"
    by (rule vsnprintf_bounded)
  moreover have "length [0x61, 0x37, 0x62 :: u8] = 3" "length [1, 1, 1, 1 :: u8] = 4" "drop 3 [1, 1, 1, 1 :: u8] = [1]"
    "take 2 [0x61, 0x37, 0x62 :: u8] = [0x61, 0x37]" "0 < (3 :: nat)" by simp_all
  ultimately show ?thesis by (simp only: simp_thms) blast
qed

end
