(* ===== verification/Encodings.thy ===== *)
theory Encodings
  imports Strings
begin

text \<open>
  Textual encodings of binary data: dotted-quad IPv4 addresses (\<open>inet_aton\<close> of \<open>core/misc.c\<close> and \<open>inet_ntoa\<close> of
  \<open>net/ipv4.c\<close>), base16 (\<open>core/base16.c\<close>) and base64 (\<open>core/base64.c\<close>).  Encoders give the
  characters in front of the terminating NUL.
\<close>

section \<open>IPv4 addresses\<close>

text \<open>An address is its four bytes in network byte order.\<close>

definition inet_ntoa :: "bytes \<Rightarrow> bytes option" where
  "inet_ntoa a = vcprintf [0x25, 0x64, 0x2e, 0x25, 0x64, 0x2e, 0x25, 0x64, 0x2e, 0x25, 0x64]
     [ArgInt (ucast (a ! 0)), ArgInt (ucast (a ! 1)), ArgInt (ucast (a ! 2)), ArgInt (ucast (a ! 3))]"

text \<open>The loop of \<open>inet_aton\<close>, with \<open>k\<close> iterations to go.\<close>

fun aton_loop :: "nat \<Rightarrow> bytes \<Rightarrow> u32 \<Rightarrow> (u32 \<times> bytes) option" where
  "aton_loop 0 p ip = Some (ip, p)"
| "aton_loop (Suc k) p ip =
     (let (val, q) = strtoul p 10 in
      if q = p \<or> 255 < val then None
      else if k \<noteq> 0 \<and> hd0 q \<noteq> 0x2e then None
      else aton_loop k (if k \<noteq> 0 then tl q else q) (push_bit 8 ip OR val))"

definition inet_aton :: "bytes \<Rightarrow> bytes option" where
  "inet_aton cp =
     (case aton_loop 4 cp 0 of
        None \<Rightarrow> None
      | Some (ip, p) \<Rightarrow> if hd0 p = 0 then Some (be32 ip) else None)"

section \<open>Base16\<close>

definition base16_encoded_len :: "nat \<Rightarrow> nat" where
  "base16_encoded_len raw_len = 2 * raw_len"

definition base16_decoded_max_len :: "bytes \<Rightarrow> nat" where
  "base16_decoded_max_len encoded = (length encoded + 1) div 2"

fun base16_encode :: "bytes \<Rightarrow> bytes option" where
  "base16_encode [] = Some []"
| "base16_encode (b # raw) =
     (case vcprintf [0x25, 0x30, 0x32, 0x78] [ArgInt (ucast b)] of
        None \<Rightarrow> None
      | Some out \<Rightarrow> map_option ((@) out) (base16_encode raw))"

text \<open>
  The loop of \<open>hex_decode\<close>: the buffer and the number of bytes decoded.  A missing digit is read as the
  terminating NUL.  A store outside the buffer, for which \<open>len\<close> is too large, is the value \<open>None\<close>.
\<close>

function hex_loop :: "u8 \<Rightarrow> nat \<Rightarrow> bytes \<Rightarrow> u32 \<Rightarrow> bytes \<Rightarrow> (errno + u32 \<times> bytes) option" where
  "hex_loop separator len out cnt encoded =
     (if hd0 encoded = 0 then Some (Inr (cnt, out))
      else if cnt \<noteq> 0 \<and> separator \<noteq> 0 \<and> hd0 encoded \<noteq> separator then Some (Inl EINVAL)
      else
        (let encoded = (if cnt \<noteq> 0 \<and> separator \<noteq> 0 then tl encoded else encoded);
             sixteens = strtoul_charval (scast (hd0 encoded)) in
         if 16 \<le> sixteens then Some (Inl EINVAL)
         else
           (let units = strtoul_charval (scast (hd0 (tl encoded))) in
            if 16 \<le> units then Some (Inl EINVAL)
            else if unat cnt < len \<and> length out \<le> unat cnt then None
            else hex_loop separator len
                   (if unat cnt < len then out[unat cnt := ucast (push_bit 4 sixteens OR units)] else out)
                   (cnt + 1) (tl (tl encoded)))))"
  by pat_completeness auto

termination hex_loop
proof (relation "measure (\<lambda>(_, _, _, _, e). length e)", simp, goal_cases)
  case (1 separator len out cnt encoded)
  then show ?case by (cases encoded) auto
qed

definition hex_decode :: "bytes \<Rightarrow> u8 \<Rightarrow> bytes \<Rightarrow> nat \<Rightarrow> (errno + u32 \<times> bytes) option" where
  "hex_decode encoded separator data len = hex_loop separator len data 0 encoded"

definition base16_decode :: "bytes \<Rightarrow> bytes \<Rightarrow> (errno + u32 \<times> bytes) option" where
  "base16_decode encoded raw = hex_decode encoded 0 raw (2 ^ 32 - 1)"

section \<open>Base64\<close>

definition base64 :: bytes where
  "base64 = map (\<lambda>i. 0x41 + of_nat i) [0..<26] @ map (\<lambda>i. 0x61 + of_nat i) [0..<26] @
     map (\<lambda>i. 0x30 + of_nat i) [0..<10] @ [0x2b, 0x2f]"

definition base64_encoded_len :: "nat \<Rightarrow> nat" where
  "base64_encoded_len raw_len = (raw_len + 3 - 1) div 3 * 4"

definition base64_decoded_max_len :: "bytes \<Rightarrow> nat" where
  "base64_decoded_max_len encoded = (length encoded + 4 - 1) div 4 * 3"

text \<open>The six bits of the data from bit \<open>bit\<close> on, and the loops of \<open>base64_encode\<close>, at \<open>bit\<close> \<open>6 * n\<close>.\<close>

definition sextet :: "bytes \<Rightarrow> nat \<Rightarrow> u32" where
  "sextet raw bt =
     (let byte = bt div 8;
          shift = bt mod 8;
          tmp = push_bit shift (ucast (raw ! byte));
          tmp = (if byte + 1 < length raw then tmp OR drop_bit (8 - shift) (ucast (raw ! (byte + 1))) else tmp)
      in drop_bit 2 tmp AND 0x3f)"

function base64_pads :: "nat \<Rightarrow> bytes" where
  "base64_pads n = (if 6 * n mod 8 \<noteq> 0 then 0x3d # base64_pads (n + 1) else [])"
  by pat_completeness auto

termination base64_pads
  by (relation "measure (\<lambda>n. 6 * n mod 8)", simp) (simp, presburger)

function base64_chars :: "bytes \<Rightarrow> nat \<Rightarrow> nat \<Rightarrow> bytes" where
  "base64_chars raw raw_bit_len n =
     (if 6 * n < raw_bit_len
      then base64 ! unat (sextet raw (6 * n)) # base64_chars raw raw_bit_len (n + 1)
      else base64_pads n)"
  by pat_completeness auto

termination base64_chars
  by (relation "measure (\<lambda>(raw, raw_bit_len, n). raw_bit_len - n)") auto

definition base64_encode :: "bytes \<Rightarrow> bytes" where
  "base64_encode raw = base64_chars raw (8 * length raw mod 2 ^ 32) 0"

text \<open>
  \<open>strchr\<close> on the table.  The 64 characters of the table fill its array, so that there is no NUL behind
  them and the search goes on through \<open>tail\<close>, the memory behind the table up to the next NUL.
\<close>

fun strchr_index :: "bytes \<Rightarrow> u8 \<Rightarrow> nat option" where
  "strchr_index [] c = None"
| "strchr_index (x # s) c = (if x = c then Some 0 else map_option Suc (strchr_index s c))"

text \<open>\<open>raw_bytes[i] |= v\<close>, which is \<open>None\<close> outside the buffer.\<close>

definition or_byte :: "nat \<Rightarrow> u32 \<Rightarrow> bytes \<Rightarrow> bytes option" where
  "or_byte i v raw = (if i < length raw then Some (raw[i := raw ! i OR ucast v]) else None)"

fun base64_loop :: "bytes \<Rightarrow> bytes \<Rightarrow> bytes \<Rightarrow> u32 \<Rightarrow> nat \<Rightarrow> (errno + u32 \<times> bytes) option" where
  "base64_loop tail [] raw bt pad_count =
     (if bt mod 8 \<noteq> 0 then Some (Inl EINVAL) else Some (Inr (bt div 8, raw)))"
| "base64_loop tail (c # encoded) raw bt pad_count =
     (if isspace c then base64_loop tail encoded raw bt pad_count
      else if c = 0x3d then
        (if 2 \<le> pad_count then Some (Inl EINVAL)
         else base64_loop tail encoded raw (bt - 2) (pad_count + 1))
      else if pad_count \<noteq> 0 then Some (Inl EINVAL)
      else
        (case strchr_index (base64 @ tail) c of
           None \<Rightarrow> Some (Inl EINVAL)
         | Some match \<Rightarrow>
             (let decoded = push_bit 2 (of_nat match);
                  i = unat (bt div 8); shift = unat (bt mod 8) in
              case or_byte i (drop_bit shift decoded) raw of
                None \<Rightarrow> None
              | Some raw \<Rightarrow>
                  (case or_byte (i + 1) (push_bit (8 - shift) decoded) raw of
                     None \<Rightarrow> None
                   | Some raw \<Rightarrow> base64_loop tail encoded raw (bt + 6) pad_count))))"

definition base64_decode :: "bytes \<Rightarrow> bytes \<Rightarrow> bytes \<Rightarrow> (errno + u32 \<times> bytes) option" where
  "base64_decode tail encoded raw =
     (let n = base64_decoded_max_len encoded in
      if length raw < n then None
      else base64_loop tail encoded (replicate n 0 @ drop n raw) 0 0)"

section \<open>IPv4 addresses are read back\<close>

lemma dec_digits_append: "dec_digits (int n) buf = dec_digits (int n) [] @ buf"
proof (induction n arbitrary: buf rule: less_induct)
  case (less n)
  show ?case
  proof (cases "n div 10 = 0")
    case True
    then show ?thesis by (simp add: dec_digits_unfold [of n] Let_def)
  next
    case False
    then have "n div 10 < n" by auto
    from less [OF this, of "[_]"] less [OF this, of "_ # buf"] False show ?thesis
      by (simp add: dec_digits_unfold [of n] Let_def)
  qed
qed

lemma dec_digits_length: "n < 10 ^ k \<Longrightarrow> 0 < k \<Longrightarrow> length (dec_digits (int n) buf) \<le> length buf + k"
proof (induction k arbitrary: n buf)
  case (Suc k)
  show ?case
  proof (cases "n div 10 = 0")
    case True
    then show ?thesis by (simp add: dec_digits_unfold [of n] Let_def)
  next
    case False
    with Suc.prems have "n div 10 < 10 ^ k" "0 < k" by (auto intro: gr0I)
    from Suc.IH [OF this, of "_ # buf"] False show ?thesis
      by (simp add: dec_digits_unfold [of n] Let_def)
  qed
qed simp

lemma digits_loop_stop: "base \<le> strtoul_charval (scast c) \<Longrightarrow> digits_loop base r (c # p) = (r, c # p)"
  by simp

lemma strtoul_dec:
  assumes "\<And>r :: u32. digits_loop 10 r p = (r, p)"
  shows "strtoul (dec_digits (int n) [] @ p) 10 = (of_nat n, p)"
proof -
  obtain k where "\<And>r :: u32. digits_loop 10 r (dec_digits (int n) p) = digits_loop 10 (r * 10 ^ k + of_nat n) p"
    using digits_loop_dec_digits [of n p, where 'a = 32] by blast
  from this [of 0] have "digits_loop 10 (0 :: u32) (dec_digits (int n) [] @ p) = (of_nat n, p)"
    using assms by (simp flip: dec_digits_append)
  moreover obtain c q where "dec_digits (int n) [] @ p = c # q" "\<not> isspace c" "c \<noteq> 0x2d"
    using dec_digits_first [of n p] by (auto simp flip: dec_digits_append)
  ultimately show ?thesis
    using strto_digits [of "dec_digits (int n) [] @ p" "[]" _ c q 10, where 'a = 32] by (simp add: strtoul_def)
qed

lemma format_byte:
  "format_decimal (ucast (b :: u8)) 0 0 = dec_digits (int (unat b)) []" "length (format_decimal (ucast b) 0 0) \<le> 3"
proof -
  have "unat b < 256" by (rule unat_u8_less)
  have "sint (ucast b :: u32) = int (unat b)"
    using sint_pos_u32 [of "ucast b"] sint_u32_nonneg [of "ucast b"] \<open>unat b < 256\<close> by simp
  then show eq: "format_decimal (ucast b) 0 0 = dec_digits (int (unat b)) []"
    by (simp add: format_decimal_def pad_to_def Let_def ZPAD_def)
  show "length (format_decimal (ucast b) 0 0) \<le> 3"
    unfolding eq using dec_digits_length [of "unat b" 3 "[]"] \<open>unat b < 256\<close> by simp
qed

lemma inet_ntoa_digits:
  "inet_ntoa [a, b, c, d] = Some (dec_digits (int (unat a)) [] @ 0x2e # dec_digits (int (unat b)) [] @ 0x2e #
     dec_digits (int (unat c)) [] @ 0x2e # dec_digits (int (unat d)) [])"
proof -
  have "length (format_decimal (ucast (x :: u8)) 0 0) \<le> 31" for x using format_byte(2) [of x] by simp
  then show ?thesis
    by (simp add: inet_ntoa_def vcprintf_decimal vcprintf_char format_byte(1))
qed

text \<open>
  IPv4 addresses are read back: \<open>inet_aton\<close> accepts what \<open>inet_ntoa\<close> writes for an address and returns the same address;
  the text fits into the buffer of 16 characters.
\<close>

lemma inet_read_back:
  "\<exists>s. inet_ntoa [a, b, c, d] = Some s \<and> length s \<le> 15 \<and> inet_aton s = Some [a, b, c, d]"
proof -
  let ?d = "\<lambda>x :: u8. dec_digits (uint x) []"
  have dot: "strtoul (?d x @ 0x2e # p) 10 = (ucast x, 0x2e # p)" for x p
    using strtoul_dec [of "0x2e # p" "unat x"] by (simp add: strtoul_charval_def)
  have last: "strtoul (?d x) 10 = (ucast x, [])" for x
    using strtoul_dec [of "[]" "unat x"] by simp
  have small: "\<not> 255 < (ucast x :: u32)" for x :: u8
    using unat_u8_less [of x] by (simp add: word_less_nat_alt not_less less_Suc_eq_le [symmetric])
  have nonempty: "?d x \<noteq> []" for x using dec_digits_first [of "unat x" "[]"] by auto
  have len: "length (?d x) \<le> 3" for x using format_byte [of x] by simp
  let ?s = "?d a @ 0x2e # ?d b @ 0x2e # ?d c @ 0x2e # ?d d"
  have "aton_loop 4 ?s 0 = Some (push_bit 8 (push_bit 8 (push_bit 8 (ucast a) OR ucast b) OR ucast c) OR ucast d, [])"
  proof -
    have more: "aton_loop (Suc (Suc k)) (?d x @ 0x2e # p) ip = aton_loop (Suc k) p (push_bit 8 ip OR ucast x)" for k x p ip
      using small [of x] nonempty [of x] by (simp add: dot)
    have final: "aton_loop (Suc 0) (?d x) ip = Some (push_bit 8 ip OR ucast x, [])" for x ip
      using small [of x] nonempty [of x] by (simp add: last)
    have four: "4 = Suc (Suc (Suc (Suc 0)))" by simp
    show ?thesis unfolding four more final by simp
  qed
  moreover have "length ?s \<le> 15" using len [of a] len [of b] len [of c] len [of d] by simp
  moreover have "be32 (push_bit 8 (push_bit 8 (push_bit 8 (ucast a) OR ucast b) OR ucast c) OR ucast d) = [a, b, c, d]"
    unfolding be32_def by (auto intro!: bit_word_eqI simp: bit_simps not_bit_u8)
  ultimately show ?thesis
    by (intro exI [of _ ?s]) (simp add: inet_ntoa_digits inet_aton_def)
qed

section \<open>Base16 is read back\<close>

lemma ucast_byte_u64: "unat (ucast (b :: u8) :: u64) = unat b" "ucast (ucast b :: u32) = (ucast b :: u64)"
  using take_bit_nat_eq_self [of "unat b" 64] order_less_trans [OF unat_u8_less, of "2 ^ 64" b]
  by (simp add: unsigned_ucast_eq) (rule bit_word_eqI, auto simp: bit_simps not_bit_u8 intro: ccontr)

lemma format_hex_byte:
  "format_hex (ucast (b :: u8)) 2 (ZPAD OR LCASE) = [hex_digit (drop_bit 4 (ucast b)) OR 0x20, hex_digit (ucast b) OR 0x20]"
proof -
  have high: "drop_bit 8 (ucast b :: u64) = 0"
    by (rule bit_word_eqI) (simp add: bit_simps not_bit_u8)
  have two: "hex_digits 0x20 (ucast b) [] =
      (if drop_bit 4 (ucast b :: u64) = 0 then [hex_digit (ucast b) OR 0x20]
       else [hex_digit (drop_bit 4 (ucast b)) OR 0x20, hex_digit (ucast b) OR 0x20])"
    using high by (simp add: hex_digits.simps [of _ "ucast b"] hex_digits.simps [of _ "drop_bit 4 (ucast b)"] Let_def)
  show ?thesis
    by (simp add: format_hex_def pad_to_def Let_def LCASE_def ZPAD_def ALT_FORM_def two hex_digit_def [of 0])
qed

lemma vcprintf_hex_byte:
  "vcprintf [0x25, 0x30, 0x32, 0x78] [ArgInt (ucast (b :: u8))] =
     Some [hex_digit (drop_bit 4 (ucast b)) OR 0x20, hex_digit (ucast b) OR 0x20]"
proof -
  have "convert ZPAD 2 INT_LEN 0x78 [ArgInt (ucast b)] =
      Some ([hex_digit (drop_bit 4 (ucast b)) OR 0x20, hex_digit (ucast b) OR 0x20], [])"
    using format_hex_byte [of b]
    by (simp add: convert_def convert_hex_def type_sizes_def INT_LEN_def in_tmp_buf_def LCASE_def ucast_byte_u64)
  then show ?thesis
    by (subst vcprintf_conversion [of _ ZPAD "[0x32, 0x78]" 2 "[0x78]" INT_LEN "0x78" "[]"]) simp_all
qed

lemma hex_byte_value:
  fixes b :: u8
  defines "h \<equiv> hex_digit (drop_bit 4 (ucast b)) OR 0x20" and "l \<equiv> hex_digit (ucast b) OR 0x20"
  shows "\<not> 16 \<le> strtoul_charval (scast h)" "\<not> 16 \<le> strtoul_charval (scast l)" "h \<noteq> 0"
    "ucast (push_bit 4 (strtoul_charval (scast h)) OR strtoul_charval (scast l)) = b"
proof -
  have v: "strtoul_charval (scast h) = of_nat (unat b div 16)" "strtoul_charval (scast l) = of_nat (unat b mod 16)"
    using unat_u8_less [of b] unfolding h_def l_def
    by (simp_all add: hex_digit_value unat_drop_bit_div ucast_byte_u64 less_mult_imp_div_less)
  show "\<not> 16 \<le> strtoul_charval (scast h)" "\<not> 16 \<le> strtoul_charval (scast l)"
    using unat_u8_less [of b] by (simp_all add: v word_le_nat_alt unat_of_nat)
  have "bit h 5" unfolding h_def by (simp add: bit_or_iff)
  then show "h \<noteq> 0" by auto
  have "of_nat (unat b div 16) = drop_bit 4 (ucast b :: u32)" "of_nat (unat b mod 16) = ucast b AND (mask 4 :: u32)"
    using unat_u8_less [of b] by (simp_all add: word_unat_eq_iff unat_drop_bit_div unat_of_nat unat_mod take_bit_eq_mod flip: take_bit_eq_mask)
  then show "ucast (push_bit 4 (strtoul_charval (scast h)) OR strtoul_charval (scast l)) = b"
    unfolding v by (auto intro!: bit_word_eqI simp: bit_simps)
qed

lemma base16_encode_some:
  "base16_encode raw = Some (concat (map (\<lambda>b. [hex_digit (drop_bit 4 (ucast b)) OR 0x20, hex_digit (ucast b) OR 0x20]) raw))"
  by (induction raw) (simp_all add: vcprintf_hex_byte)

lemma hex_loop_encoded:
  assumes "base16_encode raw = Some e" "unat cnt + length raw < len" "len < 2 ^ 32" "unat cnt + length raw \<le> length out"
  shows "hex_loop 0 len out cnt e =
    Some (Inr (cnt + of_nat (length raw), take (unat cnt) out @ raw @ drop (unat cnt + length raw) out))"
  using assms
proof (induction raw arbitrary: e cnt out)
  case Nil
  then show ?case by simp
next
  case (Cons b raw)
  define e' where "e' = concat (map (\<lambda>b :: u8. [hex_digit (drop_bit 4 (ucast b)) OR 0x20, hex_digit (ucast b) OR 0x20]) raw)"
  have e: "e = (hex_digit (drop_bit 4 (ucast b)) OR 0x20) # (hex_digit (ucast b) OR 0x20) # e'" "base16_encode raw = Some e'"
    using Cons.prems(1) by (simp_all add: base16_encode_some e'_def)
  have cnt: "unat (cnt + 1) = unat cnt + 1" using Cons.prems by (simp add: unat_word_ariths)
  have "hex_loop 0 len out cnt e = hex_loop 0 len (out[unat cnt := b]) (cnt + 1) e'"
    unfolding e(1) using hex_byte_value [of b] Cons.prems by (subst hex_loop.simps) (simp add: Let_def)
  also have "\<dots> = Some (Inr (cnt + 1 + of_nat (length raw),
      take (unat cnt + 1) (out[unat cnt := b]) @ raw @ drop (unat cnt + 1 + length raw) (out[unat cnt := b])))"
    using Cons.IH [OF e(2), of "cnt + 1" "out[unat cnt := b]"] Cons.prems by (simp add: cnt)
  finally show ?case using Cons.prems by (simp add: take_Suc_conv_app_nth algebra_simps)
qed

text \<open>
  Base16 data is read back: \<open>base16_decode\<close> of what \<open>base16_encode\<close> writes stores the data at the front of the buffer, returns
  its length and leaves the rest of the buffer as it was; the encoding has the announced length.
\<close>

lemma base16_read_back:
  assumes "length raw < 2 ^ 32 - 1" "length raw \<le> length buf"
  shows "\<exists>e. base16_encode raw = Some e \<and> length e = base16_encoded_len (length raw) \<and> base16_decoded_max_len e = length raw \<and>
    base16_decode e buf = Some (Inr (of_nat (length raw), raw @ drop (length raw) buf))"
proof -
  obtain e where e: "base16_encode raw = Some e" "length e = 2 * length raw"
    by (simp add: base16_encode_some length_concat comp_def sum_list_triv)
  then show ?thesis
    using hex_loop_encoded [OF e(1), of 0 "2 ^ 32 - 1" buf] assms
    by (simp add: base16_decode_def hex_decode_def base16_encoded_len_def base16_decoded_max_len_def)
qed

section \<open>Base64 is read back\<close>

declare base64_pads.simps [simp del] base64_chars.simps [simp del]

text \<open>Data as a sequence of bits, the most significant bit of each byte first.\<close>

definition rbit :: "bytes \<Rightarrow> nat \<Rightarrow> bool" where
  "rbit raw i = (i div 8 < length raw \<and> bit (raw ! (i div 8)) (7 - i mod 8))"

lemma rbit_at: "m < 8 \<Longrightarrow> rbit raw (8 * q + m) = (q < length raw \<and> bit (raw ! q) (7 - m))"
  by (simp add: rbit_def)

lemma rbit_list_eq:
  assumes "length xs = length ys" "\<And>i. i < 8 * length xs \<Longrightarrow> rbit xs i = rbit ys i"
  shows "xs = ys"
proof (rule nth_equalityI [OF assms(1)], rule bit_word_eqI)
  fix q n assume "q < length xs" "n < LENGTH(8)"
  with assms(2) [of "8 * q + (7 - n)"] show "bit (xs ! q) n = bit (ys ! q) n"
    using assms(1) by (simp add: rbit_at)
qed

lemma rbit_append: "rbit (xs @ ys) i = (if i < 8 * length xs then rbit xs i else rbit ys (i - 8 * length xs))"
proof -
  consider "i < 8 * length xs" | r where "i = 8 * length xs + r" using le_Suc_ex not_le by blast
  then show ?thesis by cases (auto simp: rbit_def nth_append)
qed

lemma shift_cases: "6 * k mod 8 \<in> {0, 2, 4, 6 :: nat}"
  by (simp, presburger)

lemma less_6_cases: "j < 6 \<Longrightarrow> j = 0 \<or> j = 1 \<or> j = 2 \<or> j = 3 \<or> j = 4 \<or> j = (5 :: nat)"
  by linarith

lemma less_8_cases: "j < 8 \<Longrightarrow> j = 0 \<or> j = 1 \<or> j = 2 \<or> j = 3 \<or> j = 4 \<or> j = 5 \<or> j = 6 \<or> j = (7 :: nat)"
  by linarith

lemma bit_sextet:
  assumes "8 * q + sh < 8 * length raw" "sh \<in> {0, 2, 4, 6}" "j < 6"
  shows "bit (sextet raw (8 * q + sh)) j = rbit raw (8 * q + (sh + 5 - j))"
proof -
  have q: "q < length raw" "(8 * q + sh) div 8 = q" "(8 * q + sh) mod 8 = sh" using assms by auto
  define R where "R = rbit raw (8 * q + (sh + 5 - j))"
  have low: "R = bit (raw ! q) (2 + j - sh)" if "sh + 5 - j < 8"
  proof -
    have "7 - (sh + 5 - j) = 2 + j - sh" using that assms(2,3) by auto
    then show ?thesis using rbit_at [OF that, of raw q] q(1) by (simp only: simp_thms R_def)
  qed
  have high: "R = (Suc q < length raw \<and> bit (raw ! Suc q) (10 + j - sh))" if "8 \<le> sh + 5 - j"
  proof -
    have "8 * q + (sh + 5 - j) = 8 * Suc q + (sh + 5 - j - 8)" "7 - (sh + 5 - j - 8) = 10 + j - sh" "sh + 5 - j - 8 < 8"
      using that assms(2,3) by auto
    then show ?thesis using rbit_at [of "sh + 5 - j - 8" raw "Suc q"] by (simp only: simp_thms R_def)
  qed
  show ?thesis
    unfolding R_def [symmetric] using assms(2) less_6_cases [OF assms(3)] low high
    by (auto simp: sextet_def Let_def q bit_simps not_bit_u8)
qed

lemma sextet_less: "unat (sextet raw p) < 64"
proof -
  have "sextet raw p = take_bit 6 (sextet raw p)"
    by (simp add: sextet_def Let_def take_bit_eq_mask mask_eq_exp_minus_1 and.assoc)
  then have "unat (sextet raw p) = unat (sextet raw p) mod 2 ^ 6" by (metis take_bit_u32_unat)
  then show ?thesis by simp
qed

lemma base64_table:
  "distinct base64" "length base64 = 64" "c \<in> set base64 \<Longrightarrow> \<not> isspace c \<and> c \<noteq> 0x3d"
  by (simp_all add: base64_def isspace_def upt_rec) (auto simp: upt_rec)

lemma strchr_index_nth: "distinct xs \<Longrightarrow> v < length xs \<Longrightarrow> strchr_index (xs @ t) (xs ! v) = Some v"
  by (induction xs arbitrary: v) (auto simp: nth_Cons split: nat.splits)

lemma base64_pads_at:
  assumes "8 * l \<le> 6 * k" "6 * k < 8 * l + 6"
  shows "base64_pads k = replicate ((6 * k - 8 * l) div 2) 0x3d" "even (6 * k - 8 * l)"
proof -
  have "6 * k = 8 * l \<or> 6 * k = 8 * l + 2 \<or> 6 * k = 8 * l + 4" using assms by presburger
  then consider "6 * k = 8 * l" | "6 * k = 8 * l + 2" | "6 * k = 8 * l + 4" by blast
  then show "base64_pads k = replicate ((6 * k - 8 * l) div 2) 0x3d"
  proof cases
    case 1
    then show ?thesis by (simp add: base64_pads.simps [of k])
  next
    case 2
    then have "6 * k mod 8 = 2" "6 * (k + 1) mod 8 = 0" by presburger+
    with 2 show ?thesis by (simp add: base64_pads.simps [of k] base64_pads.simps [of "Suc k"])
  next
    case 3
    then have "6 * k mod 8 = 4" "6 * (k + 1) mod 8 = 2" "6 * (k + 2) mod 8 = 0" by presburger+
    moreover have "(6 * k - 8 * l) div 2 = Suc (Suc 0)" using 3 by simp
    ultimately show ?thesis
      by (simp add: base64_pads.simps [of k] base64_pads.simps [of "Suc k"] base64_pads.simps [of "Suc (Suc k)"])
  qed
  show "even (6 * k - 8 * l)" by simp
qed

text \<open>A decoded group of six bits extends the data by these bits.\<close>

lemma rbit_or_bytes:
  assumes "s = (of_nat v :: u32)" "v < 64" "sh \<in> {0, 2, 4, 6}"
    "or_byte q (drop_bit sh (push_bit 2 s)) B = Some B1" "or_byte (q + 1) (push_bit (8 - sh) (push_bit 2 s)) B1 = Some B2"
  shows "length B2 = length B"
    "rbit B2 i = (rbit B i \<or> 8 * q + sh \<le> i \<and> i < 8 * q + sh + 6 \<and> bit s (8 * q + sh + 5 - i))"
proof -
  define t where "t = push_bit 2 s"
  have bit_t: "bit t n = (2 \<le> n \<and> n < 32 \<and> bit s (n - 2))" for n by (auto simp: t_def bit_simps)
  have len: "Suc q < length B"
    and B2: "B2 = B[q := B ! q OR ucast (drop_bit sh t), Suc q := B ! Suc q OR ucast (push_bit (8 - sh) t)]"
    using assms(4,5) by (auto simp: or_byte_def t_def split: if_splits)
  show "length B2 = length B" by (simp add: B2)
  have "take_bit 6 v = v" using assms(2) by (simp add: take_bit_nat_eq_self)
  then have small: "\<not> bit s n" if "6 \<le> n" for n
    using that bit_take_bit_iff [of 6 v n] by (simp add: assms(1) bit_simps)
  obtain p m where i: "i = 8 * p + m" "m < 8" by (metis div_mult_mod_eq mod_less_divisor mult.commute zero_less_numeral)
  consider "p = q" | "p = Suc q" | "p < q" | "Suc q < p" by linarith
  then show "rbit B2 i = (rbit B i \<or> 8 * q + sh \<le> i \<and> i < 8 * q + sh + 6 \<and> bit s (8 * q + sh + 5 - i))"
  proof cases
    case 1
    then show ?thesis unfolding i(1) rbit_at [OF i(2)] using len assms(3) less_8_cases [OF i(2)]
      by (auto simp: B2 bit_simps bit_t small)
  next
    case 2
    then show ?thesis unfolding i(1) rbit_at [OF i(2)] using len assms(3) less_8_cases [OF i(2)]
      by (auto simp: B2 bit_simps bit_t small)
  next
    case 3
    then show ?thesis unfolding i(1) rbit_at [OF i(2)] using len assms(3) i(2) by (auto simp: B2)
  next
    case 4
    then show ?thesis unfolding i(1) rbit_at [OF i(2)] using len assms(3) by (auto simp: B2)
  qed
qed

lemma base64_loop_sextet:
  assumes p: "p = 8 * q + sh" "sh \<in> {0, 2, 4, 6}" and "p < 8 * length raw" "8 * length raw < 2 ^ 32" "Suc q < length B"
    "\<And>i. rbit B i = (rbit B0 i \<or> i < p \<and> rbit raw i)"
  shows "\<exists>B'. length B' = length B \<and> (\<forall>i. rbit B' i = (rbit B0 i \<or> i < p + 6 \<and> rbit raw i)) \<and>
    base64_loop tail (base64 ! unat (sextet raw p) # e) B (of_nat p) 0 = base64_loop tail e B' (of_nat (p + 6)) 0"
proof -
  let ?s = "sextet raw p"
  have v: "unat ?s < 64" by (rule sextet_less)
  then have "base64 ! unat ?s \<in> set base64" by (simp add: base64_table(2))
  then have c: "\<not> isspace (base64 ! unat ?s)" "base64 ! unat ?s \<noteq> 0x3d" using base64_table(3) by auto
  have at: "strchr_index (base64 @ tail) (base64 ! unat ?s) = Some (unat ?s)"
    using v by (simp add: strchr_index_nth base64_table)
  have "p div 8 = q" "p mod 8 = sh" using p by auto
  then have pos: "unat (of_nat p div 8 :: u32) = q" "unat (of_nat p mod 8 :: u32) = sh"
    using assms(3,4) by (simp_all add: unat_div unat_mod unat_of_nat)
  obtain B1 where B1: "or_byte q (drop_bit sh (push_bit 2 ?s)) B = Some B1" "length B1 = length B"
    using assms(5) by (simp add: or_byte_def)
  obtain B2 where B2: "or_byte (q + 1) (push_bit (8 - sh) (push_bit 2 ?s)) B1 = Some B2"
    using assms(5) B1 by (simp add: or_byte_def)
  note or = rbit_or_bytes [OF _ v p(2) B1(1) B2, folded p(1)]
  have "rbit B2 i = (rbit B0 i \<or> i < p + 6 \<and> rbit raw i)" for i
  proof (cases "p \<le> i \<and> i < p + 6")
    case True
    then have "p + 5 - i < 6" "8 * q + (sh + 5 - (p + 5 - i)) = i" using p(1) by auto
    then have "bit ?s (p + 5 - i) = rbit raw i"
      using bit_sextet [of q sh raw "p + 5 - i"] assms(3) p by simp
    with True show ?thesis using or(2) [of i] assms(6) [of i] by auto
  next
    case False
    then show ?thesis using or(2) [of i] assms(6) [of i] by auto
  qed
  moreover have "base64_loop tail (base64 ! unat ?s # e) B (of_nat p) 0 = base64_loop tail e B2 (of_nat (p + 6)) 0"
    using c at pos B1(1) B2 by (simp add: Let_def add.commute)
  ultimately show ?thesis using or(1) by auto
qed

lemma base64_loop_pads:
  "n \<le> 2 - pc \<Longrightarrow> bt' = bt - 2 * of_nat n \<Longrightarrow> base64_loop tail (replicate n 0x3d) B bt pc =
     (if bt' mod 8 \<noteq> 0 then Some (Inl EINVAL) else Some (Inr (bt' div 8, B)))"
proof (induction n arbitrary: bt pc)
  case (Suc n)
  have "\<not> isspace 0x3d" by (simp add: isspace_def)
  moreover have "\<not> 2 \<le> pc" "n \<le> 2 - (pc + 1)" "bt' = bt - 2 - 2 * of_nat n" using Suc.prems by (auto simp: algebra_simps)
  ultimately show ?case using Suc.IH [of "pc + 1" "bt - 2"] by simp
qed simp

lemma of_nat_div_u32:
  "8 * n < 2 ^ 32 \<Longrightarrow> of_nat (8 * n) mod 8 = (0 :: u32)" "8 * n < 2 ^ 32 \<Longrightarrow> of_nat (8 * n) div 8 = (of_nat n :: u32)"
proof -
  assume "8 * n < 2 ^ 32"
  then have "unat (of_nat (8 * n) :: u32) = 8 * n" "unat (of_nat n :: u32) = n"
    by (simp_all only: unat_of_nat, auto)
  then show "of_nat (8 * n) mod 8 = (0 :: u32)" "of_nat (8 * n) div 8 = (of_nat n :: u32)"
    by (simp_all only: word_unat_eq_iff unat_mod unat_div, simp_all)
qed

lemma base64_loop_chars:
  assumes "8 * length raw < 2 ^ 32" "(length raw + 2) div 3 * 3 < length B" "6 * k < 8 * length raw + 6"
    "\<And>i. rbit B i = (rbit B0 i \<or> i < 6 * k \<and> rbit raw i)"
  shows "\<exists>B'. length B' = length B \<and> (\<forall>i. rbit B' i = (rbit B0 i \<or> rbit raw i)) \<and>
    base64_loop tail (base64_chars raw (8 * length raw) k) B (of_nat (6 * k)) 0 = Some (Inr (of_nat (length raw), B'))"
  using assms
proof (induction "8 * length raw - k" arbitrary: k B rule: less_induct)
  case less
  show ?case
  proof (cases "6 * k < 8 * length raw")
    case True
    have "Suc (6 * k div 8) \<le> length raw" "length raw \<le> (length raw + 2) div 3 * 3" using True by presburger+
    then have k: "6 * k = 8 * (6 * k div 8) + 6 * k mod 8" "Suc (6 * k div 8) < length B"
      using less.prems(2) mult_div_mod_eq [of 8 "6 * k"] by linarith+
    have six: "6 * k + 6 = 6 * (k + 1)" by simp
    have chars: "base64_chars raw (8 * length raw) k = base64 ! unat (sextet raw (6 * k)) # base64_chars raw (8 * length raw) (k + 1)"
      using True by (simp add: base64_chars.simps [of raw _ k])
    obtain B' where B': "length B' = length B" "\<And>i. rbit B' i = (rbit B0 i \<or> i < 6 * (k + 1) \<and> rbit raw i)"
      "base64_loop tail (base64_chars raw (8 * length raw) k) B (of_nat (6 * k)) 0 =
         base64_loop tail (base64_chars raw (8 * length raw) (k + 1)) B' (of_nat (6 * (k + 1))) 0"
      using base64_loop_sextet [OF k(1) shift_cases True less.prems(1) k(2) less.prems(4), where tail = tail and
        e = "base64_chars raw (8 * length raw) (k + 1)"] unfolding chars six by blast
    show ?thesis
      unfolding B'(1) [symmetric] B'(3)
    proof (rule less.hyps)
      show "8 * length raw - (k + 1) < 8 * length raw - k" "6 * (k + 1) < 8 * length raw + 6" using True by auto
    qed (use less.prems(1,2) B'(1,2) in \<open>simp_all only:\<close>)
  next
    case False
    define n where "n = (6 * k - 8 * length raw) div 2"
    have n: "base64_pads k = replicate n 0x3d" "6 * k = 8 * length raw + 2 * n" "n \<le> 2"
      using base64_pads_at [of "length raw" k] False less.prems(3) unfolding n_def by (simp only: not_less, presburger+)
    have "of_nat (8 * length raw) = of_nat (6 * k) - 2 * (of_nat n :: u32)" unfolding n(2) by simp
    from base64_loop_pads [of n 0 _ _ tail B, OF _ this] n(3)
    have "base64_loop tail (base64_chars raw (8 * length raw) k) B (of_nat (6 * k)) 0 = Some (Inr (of_nat (length raw), B))"
      unfolding base64_chars.simps [of raw _ k] using False by (simp only: n(1) of_nat_div_u32 [OF less.prems(1)]) simp
    moreover have "i < 6 * k" if "rbit raw i" for i using that False by (auto simp: rbit_def)
    ultimately show ?thesis using less.prems(4) by blast
  qed
qed

lemma base64_chars_length:
  assumes "length raw + r = 3 * t" "r < 3" "6 * k < 8 * length raw + 6"
  shows "length (base64_chars raw (8 * length raw) k) + k = 4 * t"
  using assms(3)
proof (induction "8 * length raw - k" arbitrary: k rule: less_induct)
  case less
  show ?case
  proof (cases "6 * k < 8 * length raw")
    case True
    then have "length (base64_chars raw (8 * length raw) (k + 1)) + (k + 1) = 4 * t"
      by (intro less.hyps) auto
    then show ?thesis using True by (simp add: base64_chars.simps [of raw _ k])
  next
    case False
    define n where "n = (6 * k - 8 * length raw) div 2"
    have n: "base64_pads k = replicate n 0x3d" "6 * k = 8 * length raw + 2 * n" "n \<le> 2"
      using base64_pads_at [of "length raw" k] False less.prems unfolding n_def by (simp only: not_less, presburger+)
    have "3 * k + 4 * r = 12 * t + n" using n(2) assms(1) by linarith
    moreover have "n = 0 \<or> n = 1 \<or> n = 2" "r = 0 \<or> r = 1 \<or> r = 2" using n(3) assms(2) by linarith+
    ultimately have "n + k = 4 * t" by presburger
    then show ?thesis using n(1) False by (simp add: base64_chars.simps [of raw _ k])
  qed
qed

text \<open>
  Base64 data is read back: \<open>base64_decode\<close> of what \<open>base64_encode\<close> writes returns the length of the data, with the data at the front
  of the buffer and the rest of the cleared part zero, whatever lies behind the table; the encoding has the announced length.  The buffer has
  to have one byte more than \<open>base64_decoded_max_len\<close> asks for.
\<close>

lemma base64_read_back:
  assumes "8 * length raw < 2 ^ 32" "base64_decoded_max_len (base64_encode raw) < length buf"
  shows "length (base64_encode raw) = base64_encoded_len (length raw) \<and> base64_decode tail (base64_encode raw) buf =
    Some (Inr (of_nat (length raw), raw @ replicate (base64_decoded_max_len (base64_encode raw) - length raw) 0 @
      drop (base64_decoded_max_len (base64_encode raw)) buf))"
proof -
  let ?M = "(length raw + 2) div 3 * 3" and ?e = "base64_encode raw"
  have e: "?e = base64_chars raw (8 * length raw) 0" using assms(1) by (simp add: base64_encode_def)
  then have len: "length ?e = (length raw + 2) div 3 * 4" using base64_chars_length [of raw "(length raw + 2) div 3 * 3 - length raw" "(length raw + 2) div 3" 0] by simp
  then have M: "base64_decoded_max_len ?e = ?M" "length raw \<le> ?M" by (simp_all add: base64_decoded_max_len_def)
  define B0 where "B0 = replicate ?M 0 @ drop ?M buf"
  have B0: "length B0 = length buf" using assms(2) M by (simp add: B0_def)
  obtain B' where B': "length B' = length B0" "\<And>i. rbit B' i = (rbit B0 i \<or> rbit raw i)"
    "base64_loop tail ?e B0 0 0 = Some (Inr (of_nat (length raw), B'))"
    using base64_loop_chars [of raw B0 0 B0 tail] assms M B0 by (auto simp: e)
  have "B' = raw @ drop (length raw) B0"
  proof (rule rbit_list_eq)
    show "length B' = length (raw @ drop (length raw) B0)" using B'(1) B0 assms(2) M by simp
    fix i
    have "take (length raw) B0 = replicate (length raw) 0" using M by (simp add: B0_def min_def)
    then have split: "replicate (length raw) 0 @ drop (length raw) B0 = B0" by (metis append_take_drop_id)
    have "rbit B0 i = (\<not> i < 8 * length raw \<and> rbit (drop (length raw) B0) (i - 8 * length raw))"
      using rbit_append [of "replicate (length raw) 0" "drop (length raw) B0" i, unfolded split]
      by (simp add: rbit_def [of "replicate _ _"] nth_replicate)
    moreover have "rbit raw i \<Longrightarrow> i < 8 * length raw" by (auto simp: rbit_def)
    ultimately show "rbit B' i = rbit (raw @ drop (length raw) B0) i" by (auto simp: rbit_append B'(2))
  qed
  then show ?thesis
    using B'(3) len M assms(2) by (simp add: base64_decode_def Let_def B0_def base64_encoded_len_def)
qed

text \<open>
  C22.  Encoded data is read back.  \<open>inet_aton\<close> accepts what \<open>inet_ntoa\<close> writes for an address and returns the same
  address; the text fits into the buffer of 16 characters.  \<open>base16_decode\<close> of what \<open>base16_encode\<close> writes stores the
  data at the front of the buffer, returns its length and leaves the rest of the buffer as it was.  \<open>base64_decode\<close> of
  what \<open>base64_encode\<close> writes returns the length of the data, with the data at the front of the buffer and the rest of
  the cleared part zero, whatever lies behind the table; the buffer has to have one byte more than
  \<open>base64_decoded_max_len\<close> asks for.  Both encodings have the announced length.
\<close>

theorem encodings_read_back:
  assumes "8 * length raw < 2 ^ 32" "length raw \<le> length buf" "base64_decoded_max_len (base64_encode raw) < length buf64"
  shows "(\<exists>s. inet_ntoa [a, b, c, d] = Some s \<and> length s \<le> 15 \<and> inet_aton s = Some [a, b, c, d]) \<and>
    (\<exists>e. base16_encode raw = Some e \<and> length e = base16_encoded_len (length raw) \<and> base16_decoded_max_len e = length raw \<and>
      base16_decode e buf = Some (Inr (of_nat (length raw), raw @ drop (length raw) buf))) \<and>
    length (base64_encode raw) = base64_encoded_len (length raw) \<and> base64_decode tail (base64_encode raw) buf64 =
      Some (Inr (of_nat (length raw), raw @ replicate (base64_decoded_max_len (base64_encode raw) - length raw) 0 @
        drop (base64_decoded_max_len (base64_encode raw)) buf64))"
  using inet_read_back [of a b c d] base16_read_back [of raw buf] base64_read_back [of raw buf64 tail] assms by simp

theorem encodings_read_back_witness:
  "(\<exists>s. inet_ntoa [10, 0, 2, 15] = Some s \<and> inet_aton s = Some [10, 0, 2, 15]) \<and>
   (\<exists>e. base16_encode [0x4d, 0x61] = Some e \<and> base16_decode e [0, 0, 1] = Some (Inr (2, [0x4d, 0x61, 1]))) \<and>
   base64_decode [] (base64_encode [0x4d, 0x61]) [0xff, 0xff, 0xff, 0xff] = Some (Inr (2, [0x4d, 0x61, 0, 0xff]))"
proof -
  have "length (base64_encode [0x4d, 0x61]) = 4"
    using base64_chars_length [of "[0x4d, 0x61]" 1 1 0] by (simp add: base64_encode_def)
  then have "base64_decoded_max_len (base64_encode [0x4d, 0x61]) = 3" by (simp add: base64_decoded_max_len_def)
  then show ?thesis
    using encodings_read_back [of "[0x4d, 0x61]" "[0, 0, 1]" "[0xff, 0xff, 0xff, 0xff]" 10 0 2 15 "[]"] by auto
qed

text \<open>The buffer of the documented size is one byte short: the last group of a decoded text touches the byte behind it.\<close>

lemma base64_decode_overrun: "base64_decode tail [0x41, 0x41, 0x41, 0x41] [0, 0, 0] = None"
proof -
  have "base64 = 0x41 # tl base64" by (simp add: base64_def upt_rec)
  then have A: "strchr_index (base64 @ tail) 0x41 = Some 0" by (metis append_Cons strchr_index.simps(2))
  have "replicate 3 (0 :: u8) = [0, 0, 0]" by (simp add: numeral_3_eq_3)
  then show ?thesis
    by (simp add: base64_decode_def base64_decoded_max_len_def Let_def A or_byte_def isspace_def)
qed

end
