(* ===== verification/Ipv4.thy ===== *)
theory Ipv4
  imports Fragment Encodings
begin

text \<open>
  IPv4, \<open>net/ipv4.c\<close>: the routing table, transmission, reception with fragment reassembly, and the creation of routes from the settings.

  The state extends the one of the fragment reassembler, whose statistics are those of IPv4, by the routing table and the identification
  counter.  Addresses are kept in host byte order, so that \<open>ntohl\<close> on them is the identity, and are written to packets in network byte order.
  Network devices have names; what IPv4 uses of them, the link layer below it and the values of the settings are given by an environment.
  Packets handed to the link layer are recorded in the state, and the environment tells the result of each of these calls.
\<close>

unbundle bit_operations_syntax

section \<open>Packets\<close>

definition IP_VER :: u8 where "IP_VER = 0x40"
definition IP_MASK_VER :: u8 where "IP_MASK_VER = 0xf0"
definition IP_MASK_HLEN :: u8 where "IP_MASK_HLEN = 0x0f"
definition IP_MASK_OFFSET :: u16 where "IP_MASK_OFFSET = 0x1fff"
definition IP_MASK_MOREFRAGS :: u16 where "IP_MASK_MOREFRAGS = 0x2000"
definition IP_TOS :: u8 where "IP_TOS = 0"
definition IP_TTL :: u8 where "IP_TTL = 64"
definition INADDR_BROADCAST :: u32 where "INADDR_BROADCAST = 0xffffffff"
definition AF_INET :: u16 where "AF_INET = 1"
definition LL_MULTICAST :: u32 where "LL_MULTICAST = 1"
definition LL_BROADCAST :: u32 where "LL_BROADCAST = 2"

definition IN_MULTICAST :: "u32 \<Rightarrow> bool" where
  "IN_MULTICAST a \<longleftrightarrow> a AND 0xf0000000 = 0xe0000000"

definition IN_CLASSA :: "u32 \<Rightarrow> bool" where "IN_CLASSA a \<longleftrightarrow> a AND 0x80000000 = 0"
definition IN_CLASSB :: "u32 \<Rightarrow> bool" where "IN_CLASSB a \<longleftrightarrow> a AND 0xc0000000 = 0x80000000"
definition IN_CLASSC :: "u32 \<Rightarrow> bool" where "IN_CLASSC a \<longleftrightarrow> a AND 0xe0000000 = 0xc0000000"
definition IN_CLASSA_NET :: u32 where "IN_CLASSA_NET = 0xff000000"
definition IN_CLASSB_NET :: u32 where "IN_CLASSB_NET = 0xffff0000"
definition IN_CLASSC_NET :: u32 where "IN_CLASSC_NET = 0xffffff00"

text \<open>Reading the fields of a header that are in network byte order, and a checksum field, which is in memory order.\<close>

definition get_be16 :: "nat \<Rightarrow> bytes \<Rightarrow> u16" where
  "get_be16 n data = push_bit 8 (ucast (data ! n)) OR ucast (data ! (n + 1))"

definition get_be32 :: "nat \<Rightarrow> bytes \<Rightarrow> u32" where
  "get_be32 n data =
     push_bit 24 (ucast (data ! n)) OR push_bit 16 (ucast (data ! (n + 1))) OR push_bit 8 (ucast (data ! (n + 2))) OR ucast (data ! (n + 3))"

definition get_csum :: "nat \<Rightarrow> bytes \<Rightarrow> u16" where
  "get_csum n data = ucast (data ! n) OR push_bit 8 (ucast (data ! (n + 1)))"

record iphdr =
  verhdrlen :: u8
  service :: u8
  ip_len :: u16
  ident :: u16
  frags :: u16
  ttl :: u8
  protocol :: u8
  chksum :: u16
  ip_src :: u32
  ip_dest :: u32

definition iphdr_of :: "bytes \<Rightarrow> iphdr" where
  "iphdr_of data =
     \<lparr>verhdrlen = data ! 0, service = data ! 1, ip_len = get_be16 2 data, ident = get_be16 4 data, frags = get_be16 6 data,
      ttl = data ! 8, protocol = data ! 9, chksum = get_csum 10 data, ip_src = get_be32 12 data, ip_dest = get_be32 16 data\<rparr>"

definition iphdr_bytes :: "iphdr \<Rightarrow> bytes" where
  "iphdr_bytes h =
     [verhdrlen h, service h] @ be16 (ip_len h) @ be16 (ident h) @ be16 (frags h) @ [ttl h, protocol h] @
     [ucast (chksum h), ucast (drop_bit 8 (chksum h))] @ be32 (ip_src h) @ be32 (ip_dest h)"

text \<open>The IPv4 address of a socket address, which is the start of the padding of a \<open>sockaddr_tcpip\<close>.\<close>

definition sin_addr :: "sockaddr_tcpip \<Rightarrow> u32" where
  "sin_addr st = get_be32 0 (st_pad st)"

definition sockaddr_in :: "u32 \<Rightarrow> sockaddr_tcpip" where
  "sockaddr_in a = \<lparr>st_family = AF_INET, st_flags = 0, st_port = 0, st_pad = be32 a @ replicate 22 0\<rparr>"

section \<open>State\<close>

record 'n ipv4_miniroute =
  mr_netdev :: 'n
  mr_address :: u32
  mr_netmask :: u32
  mr_gateway :: u32

datatype 'n ll_packet =
    Net_tx 'n bytes bytes
  | Arp_tx 'n u32 u32 bytes

record ('o, 'p, 'n) ipv4_world = "('o, 'p) frag_world" +
  next_ident_high :: u8
  ipv4_miniroutes :: "'n ipv4_miniroute list"
  ll_sent :: "'n ll_packet list"

datatype ip_setting = Ip_setting | Netmask_setting | Gateway_setting

record ('o, 'n) ipv4_env =
  alloc_ok :: "nat \<Rightarrow> bool"
  netdev_refcnt :: "'n \<Rightarrow> 'o option"
  netdev_is_open :: "'n \<Rightarrow> bool"
  rx_stats_bad :: "'n \<Rightarrow> u32"
  rx_stats_good :: "'n \<Rightarrow> u32"
  ll_broadcast :: "'n \<Rightarrow> bytes"
  mc_hash :: "'n \<Rightarrow> u32 \<Rightarrow> errno + bytes"
  ll_result :: "nat \<Rightarrow> rc"
  fetch_ipv4_setting :: "'n \<Rightarrow> ip_setting \<Rightarrow> u32"

definition ipv4_stats :: "(ip_statistics \<Rightarrow> ip_statistics) \<Rightarrow> ('o, 'p, 'a) frag_world_scheme \<Rightarrow> ('o, 'p, 'a) frag_world_scheme" where
  "ipv4_stats f w = w\<lparr>frag_stats := f (frag_stats w)\<rparr>"

section \<open>Routing\<close>

definition add_ipv4_miniroute ::
  "('o, 'n) ipv4_env \<Rightarrow> 'n \<Rightarrow> u32 \<Rightarrow> u32 \<Rightarrow> u32 \<Rightarrow> ('o, 'p, 'n, 'a) ipv4_world_scheme \<Rightarrow>
    'n ipv4_miniroute option \<times> ('o, 'p, 'n, 'a) ipv4_world_scheme" where
  "add_ipv4_miniroute env netdev address netmask gateway w =
     (let (ok, w) = frag_alloc (alloc_ok env) w
      in if \<not> ok then (None, w)
         else
           (let w = ref_increment (netdev_refcnt env netdev) w;
                miniroute = \<lparr>mr_netdev = netdev, mr_address = address, mr_netmask = netmask, mr_gateway = gateway\<rparr>;
                w = (if gateway \<noteq> 0 then w\<lparr>ipv4_miniroutes := ipv4_miniroutes w @ [miniroute]\<rparr>
                     else w\<lparr>ipv4_miniroutes := miniroute # ipv4_miniroutes w\<rparr>)
            in (Some miniroute, w)))"

text \<open>Deletion of the first routing table entry; \<open>ipv4_create_routes\<close> deletes all of them from the front.\<close>

definition del_ipv4_miniroute ::
  "('o, 'n) ipv4_env \<Rightarrow> ('o, 'p, 'n, 'a) ipv4_world_scheme \<Rightarrow> ('o, 'p, 'n, 'a) ipv4_world_scheme" where
  "del_ipv4_miniroute env w =
     (case ipv4_miniroutes w of
        [] \<Rightarrow> w
      | miniroute # list \<Rightarrow> (ref_decrement (netdev_refcnt env (mr_netdev miniroute)) w)\<lparr>ipv4_miniroutes := list\<rparr>)"

fun route_scan :: "('o, 'n) ipv4_env \<Rightarrow> u32 \<Rightarrow> 'n ipv4_miniroute list \<Rightarrow> ('n ipv4_miniroute \<times> u32) option" where
  "route_scan env dest [] = None"
| "route_scan env dest (miniroute # list) =
     (if \<not> netdev_is_open env (mr_netdev miniroute) then route_scan env dest list
      else
        (let local = ((dest XOR mr_address miniroute) AND mr_netmask miniroute = 0);
             has_gw = (mr_gateway miniroute \<noteq> 0)
         in if local \<or> has_gw then Some (miniroute, if \<not> local then mr_gateway miniroute else dest)
            else route_scan env dest list))"

text \<open>The routing table entry and the next hop, which the code writes back to \<open>dest\<close>.\<close>

definition ipv4_route :: "('o, 'n) ipv4_env \<Rightarrow> u32 \<Rightarrow> ('o, 'p, 'n, 'a) ipv4_world_scheme \<Rightarrow> ('n ipv4_miniroute \<times> u32) option" where
  "ipv4_route env dest w = route_scan env dest (ipv4_miniroutes w)"

definition ipv4_netdev :: "('o, 'n) ipv4_env \<Rightarrow> sockaddr_tcpip \<Rightarrow> ('o, 'p, 'n, 'a) ipv4_world_scheme \<Rightarrow> 'n option" where
  "ipv4_netdev env st_dest w = map_option (\<lambda>(miniroute, _). mr_netdev miniroute) (ipv4_route env (sin_addr st_dest) w)"

definition ipv4_has_any_addr :: "'n \<Rightarrow> ('o, 'p, 'n, 'a) ipv4_world_scheme \<Rightarrow> bool" where
  "ipv4_has_any_addr netdev w = list_ex (\<lambda>miniroute. mr_netdev miniroute = netdev) (ipv4_miniroutes w)"

definition ipv4_has_addr :: "'n \<Rightarrow> u32 \<Rightarrow> ('o, 'p, 'n, 'a) ipv4_world_scheme \<Rightarrow> bool" where
  "ipv4_has_addr netdev addr w =
     list_ex (\<lambda>miniroute. mr_netdev miniroute = netdev \<and> mr_address miniroute = addr) (ipv4_miniroutes w)"

definition ipv4_arp_check :: "'n \<Rightarrow> u32 \<Rightarrow> ('o, 'p, 'n, 'a) ipv4_world_scheme \<Rightarrow> rc" where
  "ipv4_arp_check netdev net_addr w = (if ipv4_has_addr netdev net_addr w then None else Some ENOENT)"

text \<open>The creation of routes from the settings of each network device.  The variables \<open>netmask\<close> and \<open>gateway\<close> are overwritten by each fetch.\<close>

fun create_loop ::
  "('o, 'n) ipv4_env \<Rightarrow> 'n list \<Rightarrow> ('o, 'p, 'n, 'a) ipv4_world_scheme \<Rightarrow> rc \<times> ('o, 'p, 'n, 'a) ipv4_world_scheme" where
  "create_loop env [] w = (None, w)"
| "create_loop env (netdev # netdevs) w =
     (let address = fetch_ipv4_setting env netdev Ip_setting
      in if address = 0 then create_loop env netdevs w
         else
           (let netmask = fetch_ipv4_setting env netdev Netmask_setting;
                netmask = (if netmask = 0 then
                             (if IN_CLASSA address then IN_CLASSA_NET
                              else if IN_CLASSB address then IN_CLASSB_NET
                              else if IN_CLASSC address then IN_CLASSC_NET
                              else netmask)
                           else netmask);
                gateway = fetch_ipv4_setting env netdev Gateway_setting;
                (miniroute, w) = add_ipv4_miniroute env netdev address netmask gateway w
            in if miniroute = None then (Some ENOMEM, w) else create_loop env netdevs w))"

definition ipv4_create_routes ::
  "('o, 'n) ipv4_env \<Rightarrow> 'n list \<Rightarrow> ('o, 'p, 'n, 'a) ipv4_world_scheme \<Rightarrow> rc \<times> ('o, 'p, 'n, 'a) ipv4_world_scheme" where
  "ipv4_create_routes env netdevs w = create_loop env netdevs ((del_ipv4_miniroute env ^^ length (ipv4_miniroutes w)) w)"

section \<open>Fragments\<close>

definition ipv4_is_fragment :: "fragment \<Rightarrow> packet \<Rightarrow> nat \<Rightarrow> bool" where
  "ipv4_is_fragment fragment iobuf hdrlen =
     (let frag_iphdr = iphdr_of (pkt_data (frag_iobuf fragment)); iphdr = iphdr_of (pkt_data iobuf)
      in ip_src iphdr = ip_src frag_iphdr \<and> ident iphdr = ident frag_iphdr)"

definition ipv4_fragment_offset :: "packet \<Rightarrow> nat \<Rightarrow> nat" where
  "ipv4_fragment_offset iobuf hdrlen = unat (frags (iphdr_of (pkt_data iobuf)) AND IP_MASK_OFFSET) * 8"

definition ipv4_more_fragments :: "packet \<Rightarrow> nat \<Rightarrow> bool" where
  "ipv4_more_fragments iobuf hdrlen \<longleftrightarrow> frags (iphdr_of (pkt_data iobuf)) AND IP_MASK_MOREFRAGS \<noteq> 0"

definition ipv4_reassembler :: fragment_reassembler where
  "ipv4_reassembler =
     \<lparr>is_fragment = ipv4_is_fragment, fragment_offset = ipv4_fragment_offset, more_fragments = ipv4_more_fragments\<rparr>"

section \<open>Transmission and reception\<close>

definition ipv4_pseudo_header :: "u32 \<Rightarrow> u32 \<Rightarrow> u8 \<Rightarrow> u16 \<Rightarrow> bytes" where
  "ipv4_pseudo_header src dest proto len = be32 src @ be32 dest @ [0, proto] @ be16 len"

definition ipv4_pshdr_chksum :: "bytes \<Rightarrow> u16 \<Rightarrow> u16" where
  "ipv4_pshdr_chksum iobuf csum =
     (let iphdr = iphdr_of iobuf;
          hdrlen = unat (verhdrlen iphdr AND IP_MASK_HLEN) * 4;
          pshdr = ipv4_pseudo_header (ip_src iphdr) (ip_dest iphdr) (protocol iphdr) (of_nat (length iobuf - hdrlen))
      in generic_tcpip_continue_chksum csum pshdr)"

text \<open>Handing a packet to the link layer, directly or through ARP.\<close>

definition ll_tx :: "('o, 'n) ipv4_env \<Rightarrow> 'n ll_packet \<Rightarrow> ('o, 'p, 'n, 'a) ipv4_world_scheme \<Rightarrow> rc \<times> ('o, 'p, 'n, 'a) ipv4_world_scheme" where
  "ll_tx env pkt w = (ll_result env (length (ll_sent w)), w\<lparr>ll_sent := ll_sent w @ [pkt]\<rparr>)"

text \<open>
  Filling in the checksums: first the transport-layer checksum, whose position in the segment is \<open>trans_csum\<close>, then the header checksum.
\<close>

definition ipv4_fix_checksums :: "iphdr \<Rightarrow> bytes \<Rightarrow> nat option \<Rightarrow> bytes" where
  "ipv4_fix_checksums iphdr segment trans_csum =
     (let iobuf = iphdr_bytes iphdr @ segment;
          iobuf = (case trans_csum of
                     Some n \<Rightarrow> put_csum (20 + n) (ipv4_pshdr_chksum iobuf (get_csum (20 + n) iobuf)) iobuf
                   | None \<Rightarrow> iobuf)
      in put_csum 10 (tcpip_chksum (take 20 iobuf)) iobuf)"

text \<open>The link-layer destination: an error, a known address, or \<open>None\<close> for the address that ARP finds out.\<close>

definition ipv4_ll_dest ::
  "('o, 'n) ipv4_env \<Rightarrow> 'n \<Rightarrow> u32 \<Rightarrow> u32 \<Rightarrow> ('o, 'p, 'n, 'a) ipv4_world_scheme \<Rightarrow> (errno + bytes option) \<times> ('o, 'p, 'n, 'a) ipv4_world_scheme" where
  "ipv4_ll_dest env netdev next_hop netmask w =
     (if (next_hop XOR INADDR_BROADCAST) AND NOT netmask = 0 then
        (Inr (Some (ll_broadcast env netdev)), ipv4_stats (\<lambda>st. st\<lparr>out_bcast_pkts := out_bcast_pkts st + 1\<rparr>) w)
      else if IN_MULTICAST next_hop then
        (case mc_hash env netdev next_hop of Inl e \<Rightarrow> Inl e | Inr a \<Rightarrow> Inr (Some a),
         ipv4_stats (\<lambda>st. st\<lparr>out_mcast_pkts := out_mcast_pkts st + 1\<rparr>) w)
      else (Inr None, w))"

text \<open>The link-layer destination and the hand-off to the link layer.\<close>

definition ipv4_send ::
  "('o, 'n) ipv4_env \<Rightarrow> 'n \<Rightarrow> u32 \<Rightarrow> u32 \<Rightarrow> u32 \<Rightarrow> bytes \<Rightarrow> ('o, 'p, 'n, 'a) ipv4_world_scheme \<Rightarrow> rc \<times> ('o, 'p, 'n, 'a) ipv4_world_scheme" where
  "ipv4_send env netdev next_hop netmask src iobuf w =
     (let (ll_dest, w) = ipv4_ll_dest env netdev next_hop netmask w
      in case ll_dest of
           Inl e \<Rightarrow> (Some e, w)
         | Inr ll_dest \<Rightarrow>
             (let w = ipv4_stats (\<lambda>st. st\<lparr>out_transmits := out_transmits st + 1, out_octets := out_octets st + of_nat (length iobuf)\<rparr>) w
              in case ll_dest of
                   Some dest \<Rightarrow> ll_tx env (Net_tx netdev dest iobuf) w
                 | None \<Rightarrow> ll_tx env (Arp_tx netdev next_hop src iobuf) w))"

definition ipv4_tx ::
  "('o, 'n) ipv4_env \<Rightarrow> bytes \<Rightarrow> u8 \<Rightarrow> sockaddr_tcpip option \<Rightarrow> sockaddr_tcpip \<Rightarrow> 'n option \<Rightarrow> nat option \<Rightarrow>
    ('o, 'p, 'n, 'a) ipv4_world_scheme \<Rightarrow> rc \<times> ('o, 'p, 'n, 'a) ipv4_world_scheme" where
  "ipv4_tx env segment proto st_src st_dest netdev trans_csum w =
     (let w = ipv4_stats (\<lambda>st. st\<lparr>out_requests := out_requests st + 1\<rparr>) w;
          iphdr = \<lparr>verhdrlen = IP_VER OR 5, service = IP_TOS, ip_len = of_nat (20 + length segment), ident = 0, frags = 0,
                   ttl = IP_TTL, protocol = proto, chksum = 0, ip_src = 0, ip_dest = sin_addr st_dest\<rparr>;
          next_hop = ip_dest iphdr;
          iphdr = (case st_src of Some src \<Rightarrow> iphdr\<lparr>ip_src := sin_addr src\<rparr> | None \<Rightarrow> iphdr);
          route = (if next_hop \<noteq> INADDR_BROADCAST \<and> \<not> IN_MULTICAST next_hop then ipv4_route env next_hop w else None);
          (iphdr, netmask, netdev, next_hop) =
            (case route of
               Some (miniroute, hop) \<Rightarrow>
                 (iphdr\<lparr>ip_src := mr_address miniroute\<rparr>, mr_netmask miniroute, Some (mr_netdev miniroute), hop)
             | None \<Rightarrow> (iphdr, 0, netdev, next_hop))
      in case netdev of
           None \<Rightarrow> (Some ENETUNREACH, ipv4_stats (\<lambda>st. st\<lparr>out_no_routes := out_no_routes st + 1\<rparr>) w)
         | Some netdev \<Rightarrow>
             (let w = w\<lparr>next_ident_high := next_ident_high w + 1\<rparr>;
                  iphdr = iphdr\<lparr>ident := push_bit 8 (ucast (next_ident_high w)) OR push_bit 4 (ucast (rx_stats_bad env netdev AND 0xf)) OR
                                        ucast (rx_stats_good env netdev AND 0xf)\<rparr>;
                  iobuf = ipv4_fix_checksums iphdr segment trans_csum
              in ipv4_send env netdev next_hop netmask (ip_src iphdr) iobuf w))"

text \<open>The checks of a received header: the header length and the total length, or an error and the counter it increments.\<close>

datatype rx_check = Rx_header | Rx_truncated | Rx_ok nat nat

definition ipv4_rx_check :: "bytes \<Rightarrow> rx_check" where
  "ipv4_rx_check iobuf =
     (let iphdr = iphdr_of iobuf in
      if length iobuf < 20 then Rx_header
      else if verhdrlen iphdr AND IP_MASK_VER \<noteq> IP_VER then Rx_header
      else
        (let hdrlen = unat (verhdrlen iphdr AND IP_MASK_HLEN) * 4 in
         if hdrlen < 20 then Rx_header
         else if length iobuf < hdrlen then Rx_header
         else if tcpip_chksum (take hdrlen iobuf) \<noteq> 0 then Rx_header
         else
           (let len = unat (ip_len iphdr) in
            if len < hdrlen then Rx_header
            else if length iobuf < len then Rx_truncated
            else Rx_ok hdrlen len)))"

definition ipv4_deliver ::
  "('n, ('o, 'p, 'n, 'a) ipv4_world_scheme) tcpip_protocol list \<Rightarrow> bytes \<Rightarrow> nat \<Rightarrow> 'n \<Rightarrow>
    ('o, 'p, 'n, 'a) ipv4_world_scheme \<Rightarrow> rc \<times> ('o, 'p, 'n, 'a) ipv4_world_scheme" where
  "ipv4_deliver protocols iobuf hdrlen netdev w =
     (let iphdr = iphdr_of iobuf;
          src = sockaddr_in (ip_src iphdr);
          dest = sockaddr_in (ip_dest iphdr);
          pshdr_csum = ipv4_pshdr_chksum iobuf TCPIP_EMPTY_CSUM
      in tcpip_rx protocols (drop hdrlen iobuf) netdev (protocol iphdr) src dest pshdr_csum ipv4_stats w)"

definition ipv4_rx ::
  "('o, 'n) ipv4_env \<Rightarrow> ('n, ('o, 'p, 'n, 'a) ipv4_world_scheme) tcpip_protocol list \<Rightarrow> u32 \<Rightarrow> u32 \<Rightarrow> packet \<Rightarrow> 'n \<Rightarrow> u32 \<Rightarrow>
    ('o, 'p, 'n, 'a) ipv4_world_scheme \<Rightarrow> rc \<times> ('o, 'p, 'n, 'a) ipv4_world_scheme" where
  "ipv4_rx env protocols tps now iobuf netdev flags w =
     (let w = ipv4_stats (\<lambda>st. st\<lparr>in_receives := in_receives st + 1, in_octets := in_octets st + of_nat (length (pkt_data iobuf))\<rparr>) w;
          w = (if flags AND LL_BROADCAST \<noteq> 0 then ipv4_stats (\<lambda>st. st\<lparr>in_bcast_pkts := in_bcast_pkts st + 1\<rparr>) w
               else if flags AND LL_MULTICAST \<noteq> 0 then ipv4_stats (\<lambda>st. st\<lparr>in_mcast_pkts := in_mcast_pkts st + 1\<rparr>) w
               else w)
      in case ipv4_rx_check (pkt_data iobuf) of
           Rx_header \<Rightarrow> (Some EINVAL, ipv4_stats (\<lambda>st. st\<lparr>in_hdr_errors := in_hdr_errors st + 1\<rparr>) w)
         | Rx_truncated \<Rightarrow> (Some EINVAL, ipv4_stats (\<lambda>st. st\<lparr>in_truncated_pkts := in_truncated_pkts st + 1\<rparr>) w)
         | Rx_ok hdrlen len \<Rightarrow>
             (let iobuf = iobuf\<lparr>pkt_data := take len (pkt_data iobuf)\<rparr>;
                  iphdr = iphdr_of (pkt_data iobuf)
              in if flags AND LL_MULTICAST = 0 \<and> ipv4_has_any_addr netdev w \<and> \<not> ipv4_has_addr netdev (ip_dest iphdr) w then
                   (Some EINVAL, ipv4_stats (\<lambda>st. st\<lparr>in_addr_errors := in_addr_errors st + 1\<rparr>) w)
                 else if frags iphdr AND (IP_MASK_OFFSET OR IP_MASK_MOREFRAGS) \<noteq> 0 then
                   (case fragment_reassemble ipv4_reassembler (alloc_ok env) tps now iobuf hdrlen w of
                      (None, w) \<Rightarrow> (None, w)
                    | (Some (iobuf, hdrlen), w) \<Rightarrow> ipv4_deliver protocols (pkt_data iobuf) hdrlen netdev w)
                 else ipv4_deliver protocols (pkt_data iobuf) hdrlen netdev w))"

definition ipv4_tcpip_protocol ::
  "('o, 'n) ipv4_env \<Rightarrow> ('n \<Rightarrow> 'n net_device_params) \<Rightarrow> ('o, 'p, 'n, 'a) ipv4_world_scheme \<Rightarrow>
    ('n, ('o, 'p, 'n, 'a) ipv4_world_scheme) tcpip_net_protocol" where
  "ipv4_tcpip_protocol env params w =
     \<lparr>sa_family = AF_INET, header_len = 20, net_tx = ipv4_tx env, net_netdev = (\<lambda>dest. map_option params (ipv4_netdev env dest w))\<rparr>"

section \<open>Addresses as text\<close>

text \<open>Addresses in memory, in network byte order.  The text is \<open>None\<close> where formatted output has no result.\<close>

definition ipv4_ntoa :: "bytes \<Rightarrow> bytes option" where
  "ipv4_ntoa net_addr = inet_ntoa net_addr"

definition ipv4_sock_ntoa :: "sockaddr_tcpip \<Rightarrow> bytes option" where
  "ipv4_sock_ntoa sa = inet_ntoa (take 4 (st_pad sa))"

definition ipv4_sock_aton :: "bytes \<Rightarrow> sockaddr_tcpip \<Rightarrow> rc \<times> sockaddr_tcpip" where
  "ipv4_sock_aton string sa =
     (case inet_aton string of
        Some a \<Rightarrow> (None, sa\<lparr>st_pad := a @ drop 4 (st_pad sa)\<rparr>)
      | None \<Rightarrow> (Some EINVAL, sa))"

definition parse_ipv4_setting :: "bytes \<Rightarrow> bytes \<Rightarrow> nat \<Rightarrow> (errno + nat) \<times> bytes" where
  "parse_ipv4_setting value buf len =
     (case inet_aton value of
        None \<Rightarrow> (Inl EINVAL, buf)
      | Some ipv4 \<Rightarrow> (let len = (if 4 < len then 4 else len) in (Inr 4, take len ipv4 @ drop len buf)))"

definition format_ipv4_setting :: "bytes \<Rightarrow> bytes \<Rightarrow> nat \<Rightarrow> ((errno + nat) \<times> bytes) option" where
  "format_ipv4_setting raw buf len =
     (if length raw < 4 then Some (Inl EINVAL, buf)
      else
        (case inet_ntoa (take 4 raw) of
           None \<Rightarrow> None
         | Some s \<Rightarrow> map_option (\<lambda>(n, buf). (Inr n, buf)) (vsnprintf buf len [0x25, 0x73] [ArgStr (Some s)])))"

section \<open>Headers\<close>

lemma get_be16_at: "data ! n = ucast (drop_bit 8 x) \<Longrightarrow> data ! (n + 1) = ucast x \<Longrightarrow> get_be16 n data = x"
  by (rule bit_word_eqI) (auto simp: get_be16_def bit_simps not_bit_u8 dest: bit_imp_le_length)

lemma get_be32_at:
  assumes "data ! n = ucast (drop_bit 24 x)" "data ! (n + 1) = ucast (drop_bit 16 x)" "data ! (n + 2) = ucast (drop_bit 8 x)"
    "data ! (n + 3) = ucast x"
  shows "get_be32 n data = x"
proof (rule bit_word_eqI)
  fix i assume "i < LENGTH(32)"
  then consider "i < 8" | "8 \<le> i" "i < 16" | "16 \<le> i" "i < 24" | "24 \<le> i" "i < 32" by (cases "i < 8"; cases "i < 16"; cases "i < 24") auto
  then show "bit (get_be32 n data) i \<longleftrightarrow> bit x i"
    unfolding get_be32_def assms by cases (auto simp: bit_simps)
qed

lemma get_csum_at: "data ! n = ucast c \<Longrightarrow> data ! (n + 1) = ucast (drop_bit 8 c) \<Longrightarrow> get_csum n data = c"
  by (rule bit_word_eqI) (auto simp: get_csum_def bit_simps not_bit_u8 dest: bit_imp_le_length)

lemma length_iphdr_bytes [simp]: "length (iphdr_bytes h) = 20"
  by (simp add: iphdr_bytes_def be16_def be32_def)

lemma iphdr_of_bytes: "iphdr_of (iphdr_bytes h @ xs) = h"
proof -
  have d: "(iphdr_bytes h @ xs) ! n = iphdr_bytes h ! n" if "n < 20" for n using that by (simp add: nth_append)
  show ?thesis
    unfolding iphdr_of_def
    by (rule iphdr.equality)
      (auto intro!: get_be16_at get_be32_at get_csum_at simp: d iphdr_bytes_def be16_def be32_def)
qed

lemma iphdr_of_append:
  assumes "20 \<le> length d"
  shows "iphdr_of (d @ xs) = iphdr_of d"
proof -
  have "(d @ xs) ! n = d ! n" if "n < 20" for n using assms that by (simp add: nth_append)
  then show ?thesis by (simp add: iphdr_of_def get_be16_def get_be32_def get_csum_def)
qed

section \<open>Reassembly of IPv4 fragments\<close>

definition ipv4_key :: "bytes \<Rightarrow> u32 \<times> u16" where
  "ipv4_key data = (ip_src (iphdr_of data), ident (iphdr_of data))"

definition ipv4_frag_ok :: "frag_packet \<Rightarrow> bool" where
  "ipv4_frag_ok p \<longleftrightarrow> 20 \<le> snd p \<and> snd p \<le> length (pkt_data (fst p))"

interpretation ipf: fragment_methods ipv4_reassembler ipv4_key ipv4_frag_ok
  by unfold_locales
    (auto simp: ipv4_reassembler_def ipv4_is_fragment_def ipv4_key_def ipv4_frag_ok_def Let_def iphdr_of_append)

definition no_fragments :: "('o, 'p, 'a) frag_world_scheme \<Rightarrow> bool" where
  "no_fragments w \<longleftrightarrow> timers_ok w \<and> timers w = [] \<and> frag_list w = []"

lemma no_fragments_inv: "no_fragments w \<Longrightarrow> ipf.frag_inv [] w"
  by (simp add: no_fragments_def ipf.frag_inv_def)

text \<open>
  C36.  Only genuine datagrams come out of reassembly.  Whatever fragments arrive in whatever order, with timer polls and failed allocations in
  between: a packet that reassembly returns consists of two or more fragments received in order, up to the one that completed it, all with
  the same source and identification, at offsets that follow each other without a gap from zero, all between the first and the last announcing more fragments, the last
  announcing none;
  its content is the first fragment with its header, followed by what the others carry behind their headers.
\<close>

theorem ipv4_reassembly_sound:
  assumes "no_fragments w" "\<forall>p \<in> set (event_frags evs). ipv4_frag_ok p"
    "k < length evs" "fst (frag_run ipv4_reassembler a tps evs w) ! k = Some (q, g)"
  shows "\<exists>ps. subseq ps (event_frags (take (Suc k) evs)) \<and> event_frag (evs ! k) = Some (last ps) \<and> 2 \<le> length ps \<and>
    (\<forall>p \<in> set ps. ipv4_key (pkt_data (fst p)) = ipv4_key (pkt_data (fst (hd ps)))) \<and> contiguous ipv4_reassembler ps \<and>
    (\<forall>p \<in> set (tl (butlast ps)). has_more ipv4_reassembler p) \<and> \<not> has_more ipv4_reassembler (last ps) \<and>
    q = joined ps \<and> g = snd (hd ps)"
proof -
  obtain rs w' where run: "frag_run ipv4_reassembler a tps evs w = (rs, w')" by (metis surj_pair)
  obtain ps where ps: "subseq ps ([] @ event_frags (take (Suc k) evs))" "ipf.complete ps" "q = joined ps" "g = snd (hd ps)"
    "event_frag (evs ! k) = Some (last ps)"
    using ipf.run_safe [OF no_fragments_inv [OF assms(1)] assms(2) run] assms(3,4) run by simp metis
  then show ?thesis unfolding ipf.complete_def ipf.chain_def by auto
qed

text \<open>Whatever is in the buffers stems from fragments that were received.\<close>

lemma no_buffer:
  assumes "ipf.frag_inv log w" "\<forall>p \<in> set log. ipv4_key (pkt_data (fst p)) \<noteq> k" "f \<in> set (frag_list w)"
  shows "ipf.frag_key w f \<noteq> k"
proof -
  obtain ps where ps: "subseq ps log" "ipf.holds w f ps" using assms(1,3) by (auto simp: ipf.frag_inv_def)
  have "ps \<noteq> []" using ps(2) ipf.chain_ne by (simp add: ipf.holds_def)
  then have "hd ps \<in> set log" using ps(1) hd_in_set [of ps] list_emb_set [of "(=)" ps log] by blast
  then show ?thesis using ipf.holds_key [OF ps(2)] assms(2) by auto
qed

text \<open>
  C37.  Every datagram whose fragments arrive in order within the reassembly timeout comes out of reassembly.  Let \<open>es\<close> be any events without
  a fragment of the datagram, and \<open>fs\<close> events within half a second that contain the fragments of the datagram in order, mixed with fragments of
  any other datagrams and timer polls, up to the last fragment of it.  If no allocation fails, the last event returns the datagram.
\<close>

theorem ipv4_reassembly_complete:
  assumes "no_fragments w" "\<forall>p \<in> set (event_frags (es @ fs)). ipv4_frag_ok p" "\<And>n. a n"
    and "ps = filter (\<lambda>p. ipv4_key (pkt_data (fst p)) = k) (event_frags fs)" "\<forall>p \<in> set (event_frags es). ipv4_key (pkt_data (fst p)) \<noteq> k"
    and "2 \<le> length ps" "contiguous ipv4_reassembler ps" "\<forall>p \<in> set (tl (butlast ps)). has_more ipv4_reassembler p"
      "\<not> has_more ipv4_reassembler (last ps)" "event_frag (last fs) = Some (last ps)" "fs \<noteq> []"
    and "\<forall>e \<in> set fs. unat (event_time e - t0) < unat (FRAGMENT_TIMEOUT tps)" "sorted (map (\<lambda>e. unat (event_time e - t0)) fs)"
  shows "last (fst (frag_run ipv4_reassembler a tps (es @ fs) w)) = Some (joined ps, snd (hd ps))"
proof -
  obtain rs w1 where es: "frag_run ipv4_reassembler a tps es w = (rs, w1)" by (metis surj_pair)
  obtain ss w2 where fs: "frag_run ipv4_reassembler a tps fs w1 = (ss, w2)" by (metis surj_pair)
  have oks: "\<forall>p \<in> set (event_frags es). ipv4_frag_ok p" "\<forall>p \<in> set (event_frags fs). ipv4_frag_ok p"
    using assms(2) by (auto simp: map_filter_def)
  have inv: "ipf.frag_inv (event_frags es) w1" using ipf.run_safe [OF no_fragments_inv [OF assms(1)] oks(1) es] by simp
  then have pend: "ipf.pending tps t0 k [] w1" using no_buffer [OF inv assms(5)] by (simp add: ipf.pending_def)
  have sub: "set ps \<subseteq> set (event_frags fs)" "\<forall>p \<in> set ps. ipv4_key (pkt_data (fst p)) = k" using assms(4) by auto
  have ne: "ps \<noteq> []" using assms(6) by auto
  then have "ipf.chain ps" unfolding ipf.chain_def using sub oks(2) assms(7) hd_in_set [OF ne] by (metis subsetD)
  then have "ipf.complete ([] @ filter (\<lambda>p. ipv4_key (pkt_data (fst p)) = k) (event_frags fs))"
    using assms(4,6,8,9) by (simp add: ipf.complete_def)
  moreover have "\<exists>p. event_frag (last fs) = Some p \<and> ipv4_key (pkt_data (fst p)) = k" using assms(10) sub(2) last_in_set [OF ne] by blast
  ultimately have "last (fst (frag_run ipv4_reassembler a tps fs w1)) = Some (joined ps, snd (hd ps))"
    using ipf.run_complete [OF inv pend oks(2) assms(3) _ assms(11) _ _ assms(13)] assms(4,12) by (simp add: FRAGMENT_TIMEOUT_def)
  moreover have "ss \<noteq> []" using frag_run_length [of ipv4_reassembler a tps fs w1] fs assms(11) by auto
  ultimately show ?thesis using es fs by (simp add: frag_run_append)
qed

definition zero_stats :: ip_statistics where
  "zero_stats =
     \<lparr>in_receives = 0, in_octets = 0, in_hdr_errors = 0, in_addr_errors = 0, in_unknown_protos = 0, in_truncated_pkts = 0,
      reasm_reqds = 0, reasm_oks = 0, reasm_fails = 0, in_delivers = 0, out_requests = 0, out_no_routes = 0, out_transmits = 0,
      out_octets = 0, in_mcast_pkts = 0, out_mcast_pkts = 0, in_bcast_pkts = 0, out_bcast_pkts = 0\<rparr>"

definition sample_frags :: "(nat, nat) frag_world" where
  "sample_frags =
     \<lparr>rcount = \<lambda>_. 0, freed = [], run_queue = [], proc_of = \<lambda>_. \<lparr>proc_refcnt = None, reschedule = False\<rparr>, timers = [],
      timer_of = \<lambda>_. zero_timer, frag_list = [], frag_of = \<lambda>_. \<lparr>frag_iobuf = \<lparr>pkt_headroom = 0, pkt_data = []\<rparr>, frag_hdrlen = 0\<rparr>,
      next_frag = 0, frag_allocs = 0, frag_stats = zero_stats\<rparr>"

text \<open>A fragment with the given flags and offset and eight bytes of data.\<close>

definition sample_fragment :: "u16 \<Rightarrow> u8 \<Rightarrow> packet" where
  "sample_fragment fr b =
     \<lparr>pkt_headroom = 16,
      pkt_data = [0x45, 0, 0, 28, 0, 7] @ be16 fr @ [64, 17, 0, 0, 10, 0, 0, 1, 10, 0, 0, 2] @ replicate 8 b\<rparr>"

definition sample_events :: "frag_event list" where
  "sample_events = [Fragment 0 (sample_fragment 0x2000 1) 20, Fragment 5 (sample_fragment 1 2) 20]"

lemma sample_fragment_fields:
  "frags (iphdr_of (pkt_data (sample_fragment fr b))) = fr" "ipv4_key (pkt_data (sample_fragment fr b)) = (0x0a000001, 7)"
  "ipv4_frag_ok (sample_fragment fr b, 20)"
proof -
  show "frags (iphdr_of (pkt_data (sample_fragment fr b))) = fr"
    unfolding iphdr_of_def by (simp, rule get_be16_at) (simp_all add: sample_fragment_def be16_def)
  show "ipv4_key (pkt_data (sample_fragment fr b)) = (0x0a000001, 7)"
    by (simp add: ipv4_key_def iphdr_of_def get_be16_def get_be32_def sample_fragment_def be16_def)
  show "ipv4_frag_ok (sample_fragment fr b, 20)" by (simp add: ipv4_frag_ok_def sample_fragment_def be16_def)
qed

lemma sample_reassembler:
  "fragment_offset ipv4_reassembler (sample_fragment fr b) 20 = unat (fr AND 0x1fff) * 8"
  "more_fragments ipv4_reassembler (sample_fragment fr b) 20 \<longleftrightarrow> fr AND 0x2000 \<noteq> 0"
  "is_fragment ipv4_reassembler \<lparr>frag_iobuf = sample_fragment fr b, frag_hdrlen = 20\<rparr> (sample_fragment fr' b') 20"
  "frag_payload (sample_fragment fr b, 20) = replicate 8 b" "length (pkt_data (sample_fragment fr b)) = 28"
proof -
  show "fragment_offset ipv4_reassembler (sample_fragment fr b) 20 = unat (fr AND 0x1fff) * 8"
    "more_fragments ipv4_reassembler (sample_fragment fr b) 20 \<longleftrightarrow> fr AND 0x2000 \<noteq> 0"
    by (simp_all add: ipv4_reassembler_def ipv4_fragment_offset_def ipv4_more_fragments_def sample_fragment_fields IP_MASK_OFFSET_def
        IP_MASK_MOREFRAGS_def)
  show "is_fragment ipv4_reassembler \<lparr>frag_iobuf = sample_fragment fr b, frag_hdrlen = 20\<rparr> (sample_fragment fr' b') 20"
    using sample_fragment_fields(2) [of fr b] sample_fragment_fields(2) [of fr' b']
    by (simp add: ipv4_reassembler_def ipv4_is_fragment_def ipv4_key_def)
qed (simp_all add: frag_payload_def sample_fragment_def be16_def)

theorem ipv4_reassembly_sound_witness:
  "fst (frag_run ipv4_reassembler (\<lambda>_. True) 18 sample_events sample_frags) ! 1 =
     Some (joined [(sample_fragment 0x2000 1, 20), (sample_fragment 1 2, 20)], 20) \<and>
   (\<exists>ps. subseq ps (event_frags sample_events) \<and> 2 \<le> length ps \<and>
      joined [(sample_fragment 0x2000 1, 20), (sample_fragment 1 2, 20)] = joined ps)"
proof -
  have run: "fst (frag_run ipv4_reassembler (\<lambda>_. True) 18 sample_events sample_frags) ! 1 =
     Some (joined [(sample_fragment 0x2000 1, 20), (sample_fragment 1 2, 20)], 20)" 
    using sample_reassembler(4) [of 1 2]
    by (simp add: sample_events_def sample_frags_def fragment_reassemble_def fragment_find_def frag_alloc_def fragment_create_def
      fragment_extend_def sample_reassembler Let_def joined_def frag_payload_def case_prod_beta)
  have "no_fragments sample_frags" "\<forall>p \<in> set (event_frags sample_events). ipv4_frag_ok p" "1 < length sample_events"
    by (simp_all add: no_fragments_def timers_ok_def sample_frags_def zero_timer_def sample_events_def map_filter_def sample_fragment_fields)
  from ipv4_reassembly_sound [OF this run] show ?thesis using run by (auto simp: sample_events_def)
qed

theorem ipv4_reassembly_complete_witness:
  "last (fst (frag_run ipv4_reassembler (\<lambda>_. True) 18 ([Poll 0] @ sample_events) sample_frags)) =
     Some (joined [(sample_fragment 0x2000 1, 20), (sample_fragment 1 2, 20)], 20)"
proof -
  let ?ps = "[(sample_fragment 0x2000 1, 20), (sample_fragment 1 2, 20)]"
  have a: "no_fragments sample_frags" "\<forall>p \<in> set (event_frags ([Poll 0] @ sample_events)). ipv4_frag_ok p"
    "?ps = filter (\<lambda>p. ipv4_key (pkt_data (fst p)) = (0x0a000001, 7)) (event_frags sample_events)"
    "\<forall>p \<in> set (event_frags [Poll 0]). ipv4_key (pkt_data (fst p)) \<noteq> (0x0a000001, 7)"
    by (simp_all add: no_fragments_def timers_ok_def sample_frags_def zero_timer_def sample_events_def map_filter_def sample_fragment_fields)
  have b: "contiguous ipv4_reassembler ?ps"
    by (auto simp: contiguous_def less_Suc_eq sample_reassembler numeral_2_eq_2)
  have c: "\<forall>p \<in> set (tl (butlast ?ps)). has_more ipv4_reassembler p" "\<not> has_more ipv4_reassembler (last ?ps)"
    "event_frag (last sample_events) = Some (last ?ps)" "sample_events \<noteq> []"
    "\<forall>e \<in> set sample_events. unat (event_time e - 0) < unat (FRAGMENT_TIMEOUT 18)" "sorted (map (\<lambda>e. unat (event_time e - 0)) sample_events)"
    by (simp_all add: has_more_def sample_reassembler sample_events_def FRAGMENT_TIMEOUT_def)
  have "last (fst (frag_run ipv4_reassembler (\<lambda>_. True) 18 ([Poll 0] @ sample_events) sample_frags)) = Some (joined ?ps, snd (hd ?ps))"
    by (rule ipv4_reassembly_complete [OF a(1,2) _ a(3,4) _ b c]) simp_all
  then show ?thesis by (simp only: list.sel snd_conv)
qed

section \<open>What is transmitted is received\<close>

definition ll_bytes :: "'n ll_packet \<Rightarrow> bytes" where
  "ll_bytes pkt = (case pkt of Net_tx _ _ d \<Rightarrow> d | Arp_tx _ _ _ d \<Rightarrow> d)"

text \<open>The source address that \<open>ipv4_tx\<close> puts into the header.\<close>

definition tx_source :: "('o, 'n) ipv4_env \<Rightarrow> sockaddr_tcpip option \<Rightarrow> u32 \<Rightarrow> ('o, 'p, 'n, 'a) ipv4_world_scheme \<Rightarrow> u32" where
  "tx_source env st_src dest w =
     (case if dest \<noteq> INADDR_BROADCAST \<and> \<not> IN_MULTICAST dest then ipv4_route env dest w else None of
        Some (miniroute, _) \<Rightarrow> mr_address miniroute
      | None \<Rightarrow> (case st_src of Some src \<Rightarrow> sin_addr src | None \<Rightarrow> 0))"

lemma stats_sel [simp]:
  "ll_sent (ipv4_stats f w) = ll_sent w" "ipv4_miniroutes (ipv4_stats f w) = ipv4_miniroutes w"
  "ipv4_route env dest (ipv4_stats f w) = ipv4_route env dest w"
  by (simp_all add: ipv4_stats_def ipv4_route_def)

lemma stats_addr [simp]:
  "ipv4_has_any_addr nd (ipv4_stats f w) = ipv4_has_any_addr nd w" "ipv4_has_addr nd a (ipv4_stats f w) = ipv4_has_addr nd a w"
  "ipv4_stats g (ipv4_stats f w) = ipv4_stats (g \<circ> f) w"
  by (simp_all add: ipv4_has_any_addr_def ipv4_has_addr_def) (simp add: ipv4_stats_def)

lemma ll_dest_sent [simp]: "ll_sent (snd (ipv4_ll_dest env netdev hop netmask w)) = ll_sent w"
  by (simp add: ipv4_ll_dest_def)

lemma ipv4_send_packet:
  assumes "ipv4_send env netdev next_hop netmask src iobuf w = (rc, w')" "ll_sent w' = ll_sent w @ [pkt]"
  shows "ll_bytes pkt = iobuf"
proof -
  obtain l w1 where l: "ipv4_ll_dest env netdev next_hop netmask w = (l, w1)" by (metis surj_pair)
  then have "ll_sent w1 = ll_sent w" using ll_dest_sent [of env netdev next_hop netmask w] by simp
  then show ?thesis using assms l
    by (auto simp: ipv4_send_def ll_tx_def ll_bytes_def Let_def split: sum.splits option.splits)
qed

lemma ipv4_tx_packet:
  fixes env :: "('o, 'n) ipv4_env" and w :: "('o, 'p, 'n, 'a) ipv4_world_scheme"
  assumes tx: "ipv4_tx env segment proto st_src st_dest netdev trans_csum w = (rc, w')" and sent: "ll_sent w' = ll_sent w @ [pkt]"
  obtains h where "ll_bytes pkt = ipv4_fix_checksums h segment trans_csum" "verhdrlen h = 0x45" "ip_len h = of_nat (20 + length segment)"
    "frags h = 0" "protocol h = proto" "chksum h = 0" "ip_src h = tx_source env st_src (sin_addr st_dest) w" "ip_dest h = sin_addr st_dest"
proof -
  let ?dest = "sin_addr st_dest" and ?src = "tx_source env st_src (sin_addr st_dest) w"
  let ?w = "ipv4_stats (\<lambda>st. st\<lparr>out_requests := out_requests st + 1\<rparr>) w"
  define route where "route = (if ?dest \<noteq> INADDR_BROADCAST \<and> \<not> IN_MULTICAST ?dest then ipv4_route env ?dest w else None)"
  define h where "h nd = \<lparr>verhdrlen = IP_VER OR 5, service = IP_TOS, ip_len = of_nat (20 + length segment),
    ident = push_bit 8 (ucast (next_ident_high ?w + 1)) OR push_bit 4 (ucast (rx_stats_bad env nd AND 0xf)) OR ucast (rx_stats_good env nd AND 0xf),
    frags = 0, ttl = IP_TTL, protocol = proto, chksum = 0, ip_src = ?src, ip_dest = ?dest\<rparr>" for nd
  define nd where "nd = (case route of Some (m, hop) \<Rightarrow> Some (mr_netdev m) | None \<Rightarrow> netdev)"
  define hop where "hop = (case route of Some (m, hop) \<Rightarrow> hop | None \<Rightarrow> ?dest)"
  define mask where "mask = (case route of Some (m, hop) \<Rightarrow> mr_netmask m | None \<Rightarrow> 0)"
  have eq: "ipv4_tx env segment proto st_src st_dest netdev trans_csum w =
    (case nd of
       None \<Rightarrow> (Some ENETUNREACH, ipv4_stats (\<lambda>st. st\<lparr>out_no_routes := out_no_routes st + 1\<rparr>) ?w)
     | Some n \<Rightarrow> ipv4_send env n hop mask ?src (ipv4_fix_checksums (h n) segment trans_csum) (?w\<lparr>next_ident_high := next_ident_high ?w + 1\<rparr>))"
  proof (cases "?dest \<noteq> INADDR_BROADCAST \<and> \<not> IN_MULTICAST ?dest")
    case c: True
    show ?thesis
    proof (cases "ipv4_route env ?dest w")
      case None
      then show ?thesis using c
        by (cases st_src; cases netdev)
          (simp_all add: ipv4_tx_def Let_def nd_def hop_def mask_def h_def tx_source_def route_def)
    next
      case (Some r)
      then show ?thesis using c
        by (cases r; cases st_src) (simp_all add: ipv4_tx_def Let_def nd_def hop_def mask_def h_def tx_source_def route_def)
    qed
  next
    case False
    then have "tx_source env st_src ?dest w = (case st_src of Some src \<Rightarrow> sin_addr src | None \<Rightarrow> 0)" "route = None"
      unfolding tx_source_def route_def by (simp_all only: if_False option.case)
    then show ?thesis using False
      by (cases st_src; cases netdev; cases "?dest = INADDR_BROADCAST") (simp_all add: ipv4_tx_def Let_def nd_def hop_def mask_def h_def)
  qed
  show ?thesis
  proof (cases nd)
    case None
    then show ?thesis using tx sent eq by auto
  next
    case (Some n)
    let ?w1 = "?w\<lparr>next_ident_high := next_ident_high ?w + 1\<rparr>"
    have "ipv4_send env n hop mask ?src (ipv4_fix_checksums (h n) segment trans_csum) ?w1 = (rc, w')" using tx eq Some by simp
    then have "ll_bytes pkt = ipv4_fix_checksums (h n) segment trans_csum" by (rule ipv4_send_packet) (simp add: sent)
    moreover have "(IP_VER OR 5 :: u8) = 0x45" by (simp add: IP_VER_def)
    ultimately show ?thesis using that [of "h n"] by (simp add: h_def)
  qed
qed

lemma put_csum_append:
  "put_csum (length xs + n) c (xs @ ys) = xs @ put_csum n c ys"
  "n + 1 < length xs \<Longrightarrow> put_csum n c (xs @ ys) = put_csum n c xs @ ys"
  by (simp_all add: put_csum_def list_update_append)

lemma get_csum_append: "get_csum (length xs + n) (xs @ ys) = get_csum n ys"
  by (simp add: get_csum_def nth_append)

lemma get_csum_put: "n + 1 < length d \<Longrightarrow> get_csum n (put_csum n c d) = c"
  by (rule get_csum_at) (simp_all add: put_csum_def)

lemma iphdr_bytes_chksum: "chksum h = 0 \<Longrightarrow> put_csum 10 c (iphdr_bytes h) = iphdr_bytes (h\<lparr>chksum := c\<rparr>)"
  by (simp add: put_csum_def iphdr_bytes_def be16_def)

definition fixed_segment :: "iphdr \<Rightarrow> bytes \<Rightarrow> nat option \<Rightarrow> bytes" where
  "fixed_segment h segment trans_csum =
     (case trans_csum of
        Some n \<Rightarrow> put_csum n (generic_tcpip_continue_chksum (get_csum n segment)
          (ipv4_pseudo_header (ip_src h) (ip_dest h) (protocol h) (of_nat (length segment)))) segment
      | None \<Rightarrow> segment)"

lemma length_fixed_segment [simp]: "length (fixed_segment h segment tc) = length segment"
  by (simp add: fixed_segment_def put_csum_def split: option.split)

lemma fix_checksums_eq:
  assumes "verhdrlen h = 0x45" "chksum h = 0"
  shows "ipv4_fix_checksums h segment tc = iphdr_bytes (h\<lparr>chksum := tcpip_chksum (iphdr_bytes h)\<rparr>) @ fixed_segment h segment tc"
proof -
  have hl: "unat (0x45 AND 0x0f :: u8) * 4 = 20" by simp
  have ps: "ipv4_pshdr_chksum (iphdr_bytes h @ segment) c =
    generic_tcpip_continue_chksum c (ipv4_pseudo_header (ip_src h) (ip_dest h) (protocol h) (of_nat (length segment)))" for c
    by (simp add: ipv4_pshdr_chksum_def iphdr_of_bytes assms(1) IP_MASK_HLEN_def)
  have seg: "(case tc of Some n \<Rightarrow> put_csum (20 + n) (ipv4_pshdr_chksum (iphdr_bytes h @ segment) (get_csum (20 + n) (iphdr_bytes h @ segment))) (iphdr_bytes h @ segment)
      | None \<Rightarrow> iphdr_bytes h @ segment) = iphdr_bytes h @ fixed_segment h segment tc"
  proof (cases tc)
    case (Some n)
    show ?thesis using put_csum_append(1) [of "iphdr_bytes h" n] get_csum_append [of "iphdr_bytes h" n segment] Some
      by (simp add: ps fixed_segment_def)
  qed (simp add: fixed_segment_def)
  show ?thesis unfolding ipv4_fix_checksums_def Let_def seg
    using put_csum_append(2) [of 10 "iphdr_bytes h"] iphdr_bytes_chksum [OF assms(2)] by simp
qed

lemma header_verifies:
  assumes "chksum h = 0"
  shows "tcpip_chksum (iphdr_bytes (h\<lparr>chksum := tcpip_chksum (iphdr_bytes h)\<rparr>)) = 0"
proof -
  have e: "generic_tcpip_continue_chksum c [] = c" for c
  proof -
    have "unat c < 65536" by (rule order_less_le_trans [OF unsigned_less]) simp
    then have "unat c \<le> 65535" by simp
    then show ?thesis using ck.chk_value [of c "[]"] by (simp add: word_unat_eq_iff fold16_small)
  qed
  have z: "iphdr_bytes h ! 10 = 0" "iphdr_bytes h ! (10 + 1) = 0" using assms by (simp_all add: iphdr_bytes_def be16_def)
  then show ?thesis using ck.chk_verify [of 10 "iphdr_bytes h" "[]"]
    by (simp add: e iphdr_bytes_chksum [OF assms] tcpip_chksum_def TCPIP_EMPTY_CSUM_def)
qed

lemma rx_check_packet:
  assumes "verhdrlen h = 0x45" "ip_len h = of_nat (20 + length segment)" "chksum h = 0" "20 + length segment \<le> 65535"
  shows "ipv4_rx_check (ipv4_fix_checksums h segment tc @ pad) = Rx_ok 20 (20 + length segment)"
proof -
  let ?h = "h\<lparr>chksum := tcpip_chksum (iphdr_bytes h)\<rparr>"
  have d: "ipv4_fix_checksums h segment tc @ pad = iphdr_bytes ?h @ fixed_segment h segment tc @ pad"
    by (simp add: fix_checksums_eq [OF assms(1,3)])
  have len: "unat (of_nat (20 + length segment) :: u16) = 20 + length segment" using assms(4) by (subst unat_of_nat) simp
  have v: "(0x45 AND 0xf0 :: u8) = 0x40" "unat (0x45 AND 0x0f :: u8) * 4 = 20" by simp_all
  show ?thesis unfolding d ipv4_rx_check_def iphdr_of_bytes using assms(1,2) header_verifies [OF assms(3)] len
    by (simp add: IP_MASK_VER_def IP_MASK_HLEN_def IP_VER_def Let_def)
qed

lemma ipv4_rx_packet:
  assumes "verhdrlen h = 0x45" "ip_len h = of_nat (20 + length segment)" "frags h = 0" "chksum h = 0" "20 + length segment \<le> 65535"
    "flags AND LL_MULTICAST \<noteq> 0 \<or> \<not> ipv4_has_any_addr nd v \<or> ipv4_has_addr nd (ip_dest h) v"
  shows "\<exists>f. ipv4_rx env protocols tps now \<lparr>pkt_headroom = hr, pkt_data = ipv4_fix_checksums h segment tc @ pad\<rparr> nd flags v =
    tcpip_rx protocols (fixed_segment h segment tc) nd (protocol h) (sockaddr_in (ip_src h)) (sockaddr_in (ip_dest h))
      (tcpip_chksum (ipv4_pseudo_header (ip_src h) (ip_dest h) (protocol h) (of_nat (length segment)))) ipv4_stats (ipv4_stats f v)"
proof -
  let ?d = "ipv4_fix_checksums h segment tc" and ?h = "h\<lparr>chksum := tcpip_chksum (iphdr_bytes h)\<rparr>"
  have d: "?d = iphdr_bytes ?h @ fixed_segment h segment tc" by (rule fix_checksums_eq [OF assms(1,4)])
  have t: "take (20 + length segment) (?d @ pad) = ?d" "drop 20 ?d = fixed_segment h segment tc" "iphdr_of ?d = ?h"
    unfolding d iphdr_of_bytes by simp_all
  have hdr: "frags ?h = 0" "ip_dest ?h = ip_dest h" "ip_src ?h = ip_src h" "protocol ?h = protocol h" using assms(3) by simp_all
  have ps: "ipv4_pshdr_chksum ?d TCPIP_EMPTY_CSUM =
    tcpip_chksum (ipv4_pseudo_header (ip_src h) (ip_dest h) (protocol h) (of_nat (length segment)))"
    using assms(1) unfolding ipv4_pshdr_chksum_def t(3) tcpip_chksum_def by (simp add: d IP_MASK_HLEN_def)
  obtain f where f: "(let w = ipv4_stats (\<lambda>st. st\<lparr>in_receives := in_receives st + 1, in_octets := in_octets st + of_nat (length (?d @ pad))\<rparr>) v
    in if flags AND LL_BROADCAST \<noteq> 0 then ipv4_stats (\<lambda>st. st\<lparr>in_bcast_pkts := in_bcast_pkts st + 1\<rparr>) w
       else if flags AND LL_MULTICAST \<noteq> 0 then ipv4_stats (\<lambda>st. st\<lparr>in_mcast_pkts := in_mcast_pkts st + 1\<rparr>) w else w) = ipv4_stats f v"
    by (cases "flags AND LL_BROADCAST = 0"; cases "flags AND LL_MULTICAST = 0") (auto simp: Let_def)
  have "ipv4_rx env protocols tps now \<lparr>pkt_headroom = hr, pkt_data = ?d @ pad\<rparr> nd flags v =
    ipv4_deliver protocols ?d 20 nd (ipv4_stats f v)"
    unfolding ipv4_rx_def packet.simps f [unfolded Let_def] Let_def rx_check_packet [OF assms(1,2,4,5)] rx_check.case t hdr
    using assms(6) by auto
  then show ?thesis unfolding ipv4_deliver_def Let_def t ps hdr by blast
qed

end
