(* ===== verification/Udp.thy ===== *)
theory Udp
  imports Ipv4
begin

text \<open>
  UDP, \<open>net/udp.c\<close>, on top of IPv4.

  The connections are a store from connection names to \<open>struct udp_connection\<close>, with the list of the open ones beside it.  The application
  behind the data transfer interface of a connection is given by two functions on the whole state, for the delivery of data and for the
  closing of the interface; \<open>random()\<close> is an argument.  The reference counts of connections are left out.
\<close>

unbundle bit_operations_syntax

definition IP_UDP :: u8 where "IP_UDP = 17"
definition MAX_LL_NET_HEADER_LEN :: nat where "MAX_LL_NET_HEADER_LEN = 36 + 40"

record udp_connection =
  udp_local :: sockaddr_tcpip
  udp_peer :: sockaddr_tcpip
  udp_plugged :: bool

record ('o, 'p, 'n) udp_world = "('o, 'p, 'n) ipv4_world" +
  udp_conns :: "nat list"
  udp_of :: "nat \<Rightarrow> udp_connection"
  next_udp :: nat

record 'w udp_app =
  udp_app_deliver :: "nat \<Rightarrow> bytes \<Rightarrow> sockaddr_tcpip \<Rightarrow> sockaddr_tcpip \<Rightarrow> 'w \<Rightarrow> rc \<times> 'w"
  udp_app_close :: "nat \<Rightarrow> rc \<Rightarrow> 'w \<Rightarrow> 'w"

record udp_header =
  uh_src :: u16
  uh_dest :: u16
  uh_len :: u16
  uh_chksum :: u16

definition udp_header_of :: "bytes \<Rightarrow> udp_header" where
  "udp_header_of data =
     \<lparr>uh_src = get_be16 0 data, uh_dest = get_be16 2 data, uh_len = get_be16 4 data, uh_chksum = get_csum 6 data\<rparr>"

definition udp_header_bytes :: "udp_header \<Rightarrow> bytes" where
  "udp_header_bytes h =
     be16 (uh_src h) @ be16 (uh_dest h) @ be16 (uh_len h) @ [ucast (uh_chksum h), ucast (drop_bit 8 (uh_chksum h))]"

definition empty_sockaddr :: sockaddr_tcpip where
  "empty_sockaddr = \<lparr>st_family = 0, st_flags = 0, st_port = 0, st_pad = replicate 26 0\<rparr>"

section \<open>Connections\<close>

definition udp_port_available :: "('o, 'p, 'n, 'a) udp_world_scheme \<Rightarrow> u16 \<Rightarrow> errno + u16" where
  "udp_port_available w port =
     (if list_ex (\<lambda>udp. st_port (udp_local (udp_of w udp)) = port) (udp_conns w) then Inl EADDRINUSE else Inr port)"

definition udp_open_common ::
  "(nat \<Rightarrow> bool) \<Rightarrow> u32 \<Rightarrow> sockaddr_tcpip option \<Rightarrow> sockaddr_tcpip option \<Rightarrow> bool \<Rightarrow> ('o, 'p, 'n, 'a) udp_world_scheme \<Rightarrow>
    rc \<times> ('o, 'p, 'n, 'a) udp_world_scheme" where
  "udp_open_common alloc rnd peer local promisc w =
     (let (ok, w) = frag_alloc alloc w
      in if \<not> ok then (Some ENOMEM, w)
         else
           (let udp = next_udp w;
                conn = \<lparr>udp_local = (case local of Some a \<Rightarrow> a | None \<Rightarrow> empty_sockaddr),
                        udp_peer = (case peer of Some a \<Rightarrow> a | None \<Rightarrow> empty_sockaddr), udp_plugged = False\<rparr>;
                w = w\<lparr>next_udp := udp + 1\<rparr>;
                bound = (if promisc then Inr (st_port (udp_local conn)) else tcpip_bind rnd local (udp_port_available w))
            in case bound of
                 Inl e \<Rightarrow> (Some e, w)
               | Inr port \<Rightarrow>
                   (let conn = conn\<lparr>udp_local := (udp_local conn)\<lparr>st_port := port\<rparr>, udp_plugged := True\<rparr>
                    in (None, w\<lparr>udp_of := (udp_of w)(udp := conn), udp_conns := udp # udp_conns w\<rparr>))))"

definition udp_open ::
  "(nat \<Rightarrow> bool) \<Rightarrow> u32 \<Rightarrow> sockaddr_tcpip \<Rightarrow> sockaddr_tcpip option \<Rightarrow> ('o, 'p, 'n, 'a) udp_world_scheme \<Rightarrow>
    rc \<times> ('o, 'p, 'n, 'a) udp_world_scheme" where
  "udp_open alloc rnd peer local w = udp_open_common alloc rnd (Some peer) local False w"

definition udp_open_promisc ::
  "(nat \<Rightarrow> bool) \<Rightarrow> u32 \<Rightarrow> ('o, 'p, 'n, 'a) udp_world_scheme \<Rightarrow> rc \<times> ('o, 'p, 'n, 'a) udp_world_scheme" where
  "udp_open_promisc alloc rnd w = udp_open_common alloc rnd None None True w"

definition udp_close ::
  "('o, 'p, 'n, 'a) udp_world_scheme udp_app \<Rightarrow> nat \<Rightarrow> rc \<Rightarrow> ('o, 'p, 'n, 'a) udp_world_scheme \<Rightarrow> ('o, 'p, 'n, 'a) udp_world_scheme" where
  "udp_close app udp rc w =
     (let w = (if udp_plugged (udp_of w udp)
               then udp_app_close app udp rc (w\<lparr>udp_of := (udp_of w)(udp := (udp_of w udp)\<lparr>udp_plugged := False\<rparr>)\<rparr>) else w)
      in w\<lparr>udp_conns := remove1 udp (udp_conns w)\<rparr>)"

section \<open>Transmission and reception\<close>

definition udp_tx ::
  "('n, ('o, 'p, 'n, 'a) udp_world_scheme) tcpip_net_protocol list \<Rightarrow> nat \<Rightarrow> packet \<Rightarrow> sockaddr_tcpip option \<Rightarrow>
    sockaddr_tcpip option \<Rightarrow> 'n option \<Rightarrow> ('o, 'p, 'n, 'a) udp_world_scheme \<Rightarrow> rc \<times> ('o, 'p, 'n, 'a) udp_world_scheme" where
  "udp_tx nets udp iobuf src dest netdev w =
     (if pkt_headroom iobuf < MAX_LL_NET_HEADER_LEN then (Some ENOBUFS, w)
      else
        (let src = (case src of Some a \<Rightarrow> a | None \<Rightarrow> udp_local (udp_of w udp));
             dest = (case dest of Some a \<Rightarrow> a | None \<Rightarrow> udp_peer (udp_of w udp));
             len = 8 + length (pkt_data iobuf);
             udphdr = \<lparr>uh_src = st_port src, uh_dest = st_port dest, uh_len = of_nat len, uh_chksum = 0\<rparr>;
             segment = udp_header_bytes udphdr @ pkt_data iobuf;
             segment = put_csum 6 (tcpip_chksum segment) segment
         in tcpip_tx nets segment IP_UDP (Some src) dest netdev (Some 6) w))"

definition udp_demux :: "sockaddr_tcpip \<Rightarrow> ('o, 'p, 'n, 'a) udp_world_scheme \<Rightarrow> nat option" where
  "udp_demux local w =
     find (\<lambda>udp.
        (let a = udp_local (udp_of w udp)
         in (st_family a = st_family local \<or> st_family a = 0) \<and> (st_port a = st_port local \<or> st_port a = 0) \<and>
            (st_pad a = st_pad local \<or> st_pad a = st_pad empty_sockaddr))) (udp_conns w)"

text \<open>Delivery to an application whose interface is unplugged discards the data.\<close>

definition udp_deliver_app ::
  "('o, 'p, 'n, 'a) udp_world_scheme udp_app \<Rightarrow> nat \<Rightarrow> bytes \<Rightarrow> sockaddr_tcpip \<Rightarrow> sockaddr_tcpip \<Rightarrow>
    ('o, 'p, 'n, 'a) udp_world_scheme \<Rightarrow> rc \<times> ('o, 'p, 'n, 'a) udp_world_scheme" where
  "udp_deliver_app app udp data src dest w =
     (if udp_plugged (udp_of w udp) then udp_app_deliver app udp data src dest w else (Some EPIPE, w))"

definition udp_rx ::
  "('o, 'p, 'n, 'a) udp_world_scheme udp_app \<Rightarrow> bytes \<Rightarrow> 'n \<Rightarrow> sockaddr_tcpip \<Rightarrow> sockaddr_tcpip \<Rightarrow> u16 \<Rightarrow>
    ('o, 'p, 'n, 'a) udp_world_scheme \<Rightarrow> rc \<times> ('o, 'p, 'n, 'a) udp_world_scheme" where
  "udp_rx app iobuf netdev st_src st_dest pshdr_csum w =
     (let udphdr = udp_header_of iobuf in
      if length iobuf < 8 then (Some EINVAL, w)
      else
        (let ulen = unat (uh_len udphdr) in
         if ulen < 8 then (Some EINVAL, w)
         else if length iobuf < ulen then (Some EINVAL, w)
         else if uh_chksum udphdr \<noteq> 0 \<and> generic_tcpip_continue_chksum pshdr_csum (take ulen iobuf) \<noteq> 0 then (Some EINVAL, w)
         else
           (let st_src = st_src\<lparr>st_port := uh_src udphdr\<rparr>;
                st_dest = st_dest\<lparr>st_port := uh_dest udphdr\<rparr>;
                data = drop 8 (take ulen iobuf)
            in case udp_demux st_dest w of
                 None \<Rightarrow> (Some ENOTCONN, w)
               | Some udp \<Rightarrow> udp_deliver_app app udp data st_src st_dest w)))"

definition udp_protocol ::
  "('o, 'p, 'n, 'a) udp_world_scheme udp_app \<Rightarrow> ('n, ('o, 'p, 'n, 'a) udp_world_scheme) tcpip_protocol" where
  "udp_protocol app = \<lparr>tcpip_proto = IP_UDP, proto_rx = udp_rx app\<rparr>"

section \<open>Data transfer interface\<close>

definition udp_xfer_alloc_iob ::
  "(nat \<Rightarrow> bool) \<Rightarrow> nat \<Rightarrow> ('o, 'p, 'n, 'a) udp_world_scheme \<Rightarrow> packet option \<times> ('o, 'p, 'n, 'a) udp_world_scheme" where
  "udp_xfer_alloc_iob alloc len w =
     (let (ok, w) = frag_alloc alloc w
      in (if ok then Some \<lparr>pkt_headroom = MAX_LL_NET_HEADER_LEN, pkt_data = []\<rparr> else None, w))"

text \<open>The metadata that UDP reads: the socket addresses and the network device.\<close>

record 'n xfer_metadata =
  meta_src :: "sockaddr_tcpip option"
  meta_dest :: "sockaddr_tcpip option"
  meta_netdev :: "'n option"

definition udp_xfer_deliver ::
  "('n, ('o, 'p, 'n, 'a) udp_world_scheme) tcpip_net_protocol list \<Rightarrow> nat \<Rightarrow> packet \<Rightarrow> 'n xfer_metadata \<Rightarrow>
    ('o, 'p, 'n, 'a) udp_world_scheme \<Rightarrow> rc \<times> ('o, 'p, 'n, 'a) udp_world_scheme" where
  "udp_xfer_deliver nets udp iobuf meta w = udp_tx nets udp iobuf (meta_src meta) (meta_dest meta) (meta_netdev meta) w"

section \<open>A datagram reaches its receiver\<close>

lemma length_udp_header_bytes [simp]: "length (udp_header_bytes h) = 8"
  by (simp add: udp_header_bytes_def be16_def)

lemma udp_header_of_bytes: "udp_header_of (udp_header_bytes h @ xs) = h"
proof -
  have d: "(udp_header_bytes h @ xs) ! n = udp_header_bytes h ! n" if "n < 8" for n using that by (simp add: nth_append)
  show ?thesis
    unfolding udp_header_of_def
    by (rule udp_header.equality) (auto intro!: get_be16_at get_csum_at simp: d udp_header_bytes_def be16_def)
qed

lemma udp_bytes_chksum: "uh_chksum h = 0 \<Longrightarrow> put_csum 6 c (udp_header_bytes h @ xs) = udp_header_bytes (h\<lparr>uh_chksum := c\<rparr>) @ xs"
  by (simp add: put_csum_def udp_header_bytes_def be16_def)

lemma stats_udp [simp]:
  "udp_conns (ipv4_stats f (w :: ('o, 'p, 'n, 'a) udp_world_scheme)) = udp_conns w" "udp_of (ipv4_stats f w) = udp_of w"
  by (simp_all add: ipv4_stats_def)

lemma udp_demux_stats [simp]: "udp_demux a (ipv4_stats f w) = udp_demux a w"
  by (simp add: udp_demux_def)

lemma length_pseudo_header: "even (length (ipv4_pseudo_header a b p n))"
  by (simp add: ipv4_pseudo_header_def be32_def be16_def)

lemma udp_rx_segment:
  assumes "8 + length payload \<le> 65535" "h = \<lparr>uh_src = sp, uh_dest = dp, uh_len = of_nat (8 + length payload), uh_chksum = 0\<rparr>"
    "seg = udp_header_bytes h @ payload" "even (length ps)" "udp_demux (b\<lparr>st_port := dp\<rparr>) w = Some i" "udp_plugged (udp_of w i)"
    "c = generic_tcpip_continue_chksum (tcpip_chksum seg) ps"
  shows "udp_rx app (put_csum 6 c seg) nd a b (tcpip_chksum ps) w = udp_app_deliver app i payload (a\<lparr>st_port := sp\<rparr>) (b\<lparr>st_port := dp\<rparr>) w"
proof -
  have seg: "put_csum 6 c seg = udp_header_bytes (h\<lparr>uh_chksum := c\<rparr>) @ payload" using udp_bytes_chksum [of h c payload] assms(2,3) by simp
  have z: "6 + 2 \<le> length seg" "seg ! 6 = 0" "seg ! (6 + 1) = 0" using assms(2,3) by (simp_all add: udp_header_bytes_def be16_def)
  have v: "generic_tcpip_continue_chksum (tcpip_chksum ps) (put_csum 6 c seg) = 0"
    using ck.chk_verify [OF _ z assms(4)] assms(7) by (simp add: tcpip_chksum_def TCPIP_EMPTY_CSUM_def)
  have u: "unat (of_nat (8 + length payload) :: u16) = 8 + length payload" using assms(1) by (subst unat_of_nat) simp
  have t: "take (8 + length payload) (put_csum 6 c seg) = put_csum 6 c seg" "drop 8 (put_csum 6 c seg) = payload"
    "length (put_csum 6 c seg) = 8 + length payload" "udp_header_of (put_csum 6 c seg) = h\<lparr>uh_chksum := c\<rparr>"
    unfolding seg udp_header_of_bytes by simp_all
  have h: "uh_len (h\<lparr>uh_chksum := c\<rparr>) = of_nat (8 + length payload)" "uh_src (h\<lparr>uh_chksum := c\<rparr>) = sp" "uh_dest (h\<lparr>uh_chksum := c\<rparr>) = dp"
    using assms(2) by simp_all
  show ?thesis unfolding udp_rx_def Let_def t h u v using assms(5,6) by (simp add: t udp_deliver_app_def)
qed

text \<open>
  C38.  A datagram that the sender hands to UDP and that IPv4 hands to the link layer reaches the application of the receiver unchanged.  The
  receiver gets the frame, with any padding that the link layer has added behind it, on a device that accepts the destination address, and
  has a UDP connection for the destination address and port.  Then IPv4 and UDP of the receiver accept all lengths and checksums and hand to
  the application exactly the payload, with the address and port of the sender and the address and port it was sent to; apart from the
  statistics, the state of the receiver has not changed before that.
\<close>

theorem udp_datagram_delivered:
  fixes w :: "('o, 'p, 'n, 'a) udp_world_scheme" and v :: "('o2, 'p2, 'n2, 'b) udp_world_scheme"
  assumes tx: "udp_tx [ipv4_tcpip_protocol env params w] udp iobuf (Some src) (Some dest) netdev w = (rc, w')"
    and sent: "ll_sent w' = ll_sent w @ [pkt]" and len: "28 + length (pkt_data iobuf) \<le> 65535"
    and addr: "flags AND LL_MULTICAST \<noteq> 0 \<or> \<not> ipv4_has_any_addr nd v \<or> ipv4_has_addr nd (sin_addr dest) v"
    and proto: "find (\<lambda>t. tcpip_proto t = IP_UDP) protocols = Some (udp_protocol app)"
    and conn: "udp_demux ((sockaddr_in (sin_addr dest))\<lparr>st_port := st_port dest\<rparr>) v = Some i" "udp_plugged (udp_of v i)"
  shows "\<exists>f. ipv4_rx env' protocols tps now \<lparr>pkt_headroom = hr, pkt_data = ll_bytes pkt @ pad\<rparr> nd flags v =
    udp_app_deliver app i (pkt_data iobuf) ((sockaddr_in (tx_source env (Some src) (sin_addr dest) w))\<lparr>st_port := st_port src\<rparr>)
      ((sockaddr_in (sin_addr dest))\<lparr>st_port := st_port dest\<rparr>) (ipv4_stats f v)"
proof -
  let ?uh = "\<lparr>uh_src = st_port src, uh_dest = st_port dest, uh_len = of_nat (8 + length (pkt_data iobuf)), uh_chksum = 0\<rparr>"
  let ?body = "udp_header_bytes ?uh @ pkt_data iobuf"
  let ?seg = "put_csum 6 (tcpip_chksum ?body) ?body"
  have nd: "\<not> pkt_headroom iobuf < MAX_LL_NET_HEADER_LEN" "st_family dest = AF_INET"
    using tx sent by (auto simp: udp_tx_def tcpip_tx_def tcpip_net_protocol_of_def ipv4_tcpip_protocol_def Let_def split: if_splits)
  then have "ipv4_tx env ?seg IP_UDP (Some src) dest netdev (Some 6) w = (rc, w')"
    using tx by (simp add: udp_tx_def tcpip_tx_def tcpip_net_protocol_of_def ipv4_tcpip_protocol_def Let_def)
  from ipv4_tx_packet [OF this sent] obtain h where h: "ll_bytes pkt = ipv4_fix_checksums h ?seg (Some 6)" "verhdrlen h = 0x45"
    "ip_len h = of_nat (20 + length ?seg)" "frags h = 0" "protocol h = IP_UDP" "chksum h = 0"
    "ip_src h = tx_source env (Some src) (sin_addr dest) w" "ip_dest h = sin_addr dest" by metis
  have lseg: "length ?seg = 8 + length (pkt_data iobuf)" by (simp add: put_csum_def)
  let ?ps = "ipv4_pseudo_header (ip_src h) (ip_dest h) (protocol h) (of_nat (length ?seg))"
  have "20 + length ?seg \<le> 65535" using len lseg by simp
  then obtain f where f: "ipv4_rx env' protocols tps now \<lparr>pkt_headroom = hr, pkt_data = ll_bytes pkt @ pad\<rparr> nd flags v =
    tcpip_rx protocols (fixed_segment h ?seg (Some 6)) nd IP_UDP (sockaddr_in (ip_src h)) (sockaddr_in (ip_dest h)) (tcpip_chksum ?ps) ipv4_stats (ipv4_stats f v)"
    using ipv4_rx_packet [OF h(2-4,6), of flags nd v env' protocols tps now hr "Some 6" pad] addr h(1,5,8) by auto
  have "get_csum 6 ?seg = tcpip_chksum ?body" by (rule get_csum_put) simp
  then have fs: "fixed_segment h ?seg (Some 6) = put_csum 6 (generic_tcpip_continue_chksum (tcpip_chksum ?body) ?ps) ?body"
    by (simp add: fixed_segment_def put_csum_twice)
  let ?g = "\<lambda>st. (f st)\<lparr>in_delivers := in_delivers (f st) + 1\<rparr>"
  have "udp_rx app (fixed_segment h ?seg (Some 6)) nd (sockaddr_in (ip_src h)) (sockaddr_in (ip_dest h)) (tcpip_chksum ?ps) (ipv4_stats ?g v) =
    udp_app_deliver app i (pkt_data iobuf) ((sockaddr_in (ip_src h))\<lparr>st_port := st_port src\<rparr>) ((sockaddr_in (ip_dest h))\<lparr>st_port := st_port dest\<rparr>) (ipv4_stats ?g v)"
    unfolding fs using len conn h(8) by (intro udp_rx_segment [OF _ refl refl length_pseudo_header _ _ refl]) simp_all
  moreover have "ipv4_rx env' protocols tps now \<lparr>pkt_headroom = hr, pkt_data = ll_bytes pkt @ pad\<rparr> nd flags v =
    udp_rx app (fixed_segment h ?seg (Some 6)) nd (sockaddr_in (ip_src h)) (sockaddr_in (ip_dest h)) (tcpip_chksum ?ps) (ipv4_stats ?g v)"
    unfolding f tcpip_rx_def proto by (simp add: udp_protocol_def comp_def Let_def)
  ultimately show ?thesis using h(7,8) by auto
qed

text \<open>Two hosts on a network: the sender at 10.0.0.1 and a receiver at 10.0.0.2 with a connection on port 69.\<close>

definition sample_env :: "(nat, nat) ipv4_env" where
  "sample_env =
     \<lparr>alloc_ok = \<lambda>_. True, netdev_refcnt = \<lambda>_. None, netdev_is_open = \<lambda>_. True, rx_stats_bad = \<lambda>_. 0, rx_stats_good = \<lambda>_. 0,
      ll_broadcast = \<lambda>_. replicate 6 0xff, mc_hash = \<lambda>_ _. Inl ENOTSUP, ll_result = \<lambda>_. None, fetch_ipv4_setting = \<lambda>_ _. 0\<rparr>"

definition sample_host :: "u32 \<Rightarrow> (nat, nat, nat) udp_world" where
  "sample_host address =
     \<lparr>rcount = \<lambda>_. 0, freed = [], run_queue = [], proc_of = \<lambda>_. \<lparr>proc_refcnt = None, reschedule = False\<rparr>, timers = [],
      timer_of = \<lambda>_. zero_timer, frag_list = [], frag_of = \<lambda>_. \<lparr>frag_iobuf = \<lparr>pkt_headroom = 0, pkt_data = []\<rparr>, frag_hdrlen = 0\<rparr>,
      next_frag = 0, frag_allocs = 0, frag_stats = zero_stats, next_ident_high = 0,
      ipv4_miniroutes = [\<lparr>mr_netdev = 0, mr_address = address, mr_netmask = 0xffffff00, mr_gateway = 0\<rparr>], ll_sent = [],
      udp_conns = [4], udp_of = \<lambda>_. \<lparr>udp_local = empty_sockaddr\<lparr>st_port := 69\<rparr>, udp_peer = empty_sockaddr, udp_plugged = True\<rparr>, next_udp = 5\<rparr>"

theorem udp_datagram_delivered_witness:
  "\<exists>pkt f. ll_sent (snd (udp_tx [ipv4_tcpip_protocol sample_env (\<lambda>n. \<lparr>netdev_name = n, max_pkt_len = 1514, ll_header_len = 14\<rparr>) (sample_host 0x0a000001)] 4
      \<lparr>pkt_headroom = 100, pkt_data = [1, 2, 3]\<rparr> (Some (empty_sockaddr\<lparr>st_port := 1025\<rparr>)) (Some ((sockaddr_in 0x0a000002)\<lparr>st_port := 69\<rparr>))
      None (sample_host 0x0a000001))) = [pkt] \<and>
    ipv4_rx sample_env [udp_protocol \<lparr>udp_app_deliver = \<lambda>i d s t w. (None, w), udp_app_close = \<lambda>i rc w. w\<rparr>] 18 0
      \<lparr>pkt_headroom = 0, pkt_data = ll_bytes pkt @ [0, 0]\<rparr> 0 0 (sample_host 0x0a000002) = (None, ipv4_stats f (sample_host 0x0a000002))"
proof -
  let ?env = "sample_env" and ?w = "sample_host 0x0a000001" and ?v = "sample_host 0x0a000002"
  let ?nets = "[ipv4_tcpip_protocol ?env (\<lambda>n. \<lparr>netdev_name = n, max_pkt_len = 1514, ll_header_len = 14\<rparr>) ?w]"
  let ?app = "\<lparr>udp_app_deliver = \<lambda>i d s t w. (None, w), udp_app_close = \<lambda>i rc w. w\<rparr>"
  let ?src = "empty_sockaddr\<lparr>st_port := 1025\<rparr>" and ?dest = "(sockaddr_in 0x0a000002)\<lparr>st_port := 69\<rparr>"
  let ?tx = "udp_tx ?nets 4 \<lparr>pkt_headroom = 100, pkt_data = [1, 2, 3]\<rparr> (Some ?src) (Some ?dest) None ?w"
  have d: "sin_addr ?dest = 0x0a000002" by (simp add: sockaddr_in_def sin_addr_def get_be32_def be32_def)
  have "\<exists>pkt. ll_sent (snd ?tx) = ll_sent ?w @ [pkt]" 
    using d by (simp add: udp_tx_def tcpip_tx_def tcpip_net_protocol_of_def ipv4_tcpip_protocol_def sockaddr_in_def MAX_LL_NET_HEADER_LEN_def ipv4_tx_def
      INADDR_BROADCAST_def IN_MULTICAST_def Let_def ipv4_send_def ipv4_ll_dest_def ll_tx_def ipv4_route_def sample_host_def sample_env_def ipv4_stats_def)
  then obtain pkt where pkt: "ll_sent (snd ?tx) = ll_sent ?w @ [pkt]" by blast
  have addr: "0 AND LL_MULTICAST \<noteq> 0 \<or> \<not> ipv4_has_any_addr 0 ?v \<or> ipv4_has_addr 0 (sin_addr ?dest) ?v"
    unfolding d by (simp add: ipv4_has_addr_def sample_host_def)
  have conn: "udp_demux ((sockaddr_in (sin_addr ?dest))\<lparr>st_port := st_port ?dest\<rparr>) ?v = Some 4" "udp_plugged (udp_of ?v 4)"
    by (simp_all add: udp_demux_def sample_host_def empty_sockaddr_def Let_def)
  obtain f where "ipv4_rx sample_env [udp_protocol ?app] 18 0 \<lparr>pkt_headroom = 0, pkt_data = ll_bytes pkt @ [0, 0]\<rparr> 0 0 ?v =
    (None, ipv4_stats f ?v)"
    using udp_datagram_delivered [OF surjective_pairing pkt _ addr _ conn, where protocols = "[udp_protocol ?app]" and app = ?app and env' = ?env and tps = 18
      and now = 0 and hr = 0 and pad = "[0, 0]"] by (auto simp: udp_protocol_def)
  moreover have "ll_sent ?w = []" by (simp add: sample_host_def)
  ultimately show ?thesis using pkt by auto
qed

end
