(* ===== verification/Dhcpopts.thy ===== *)
theory Dhcpopts
  imports Prelude
begin

text \<open>
  DHCP options, \<open>net/dhcpopts.c\<close>.

  An options block is the memory from \<open>options->data\<close> on, what lies behind the block included, with the used and the allocated length.  Blocks
  are far smaller than the address space, so that lengths and offsets are natural numbers; where the code computes with lengths that may be
  negative for malformed blocks, the wrap-around of \<open>size_t\<close> is written out.  The method \<open>realloc\<close> of a block is a parameter of the operations
  that call it.  A block is a record that further fields extend, for the structure that contains it.
\<close>

unbundle bit_operations_syntax

definition DHCP_PAD :: u32 where "DHCP_PAD = 0"
definition DHCP_END :: u32 where "DHCP_END = 255"
definition DHCP_MAX_OPTION :: u32 where "DHCP_MAX_OPTION = 254"
definition DHCP_OPTION_HEADER_LEN :: nat where "DHCP_OPTION_HEADER_LEN = 2"
definition DHCP_MAX_LEN :: nat where "DHCP_MAX_LEN = 0xff"

definition DHCP_ENCAP_OPT :: "u32 \<Rightarrow> u32 \<Rightarrow> u32" where
  "DHCP_ENCAP_OPT encapsulator encapsulated = push_bit 8 encapsulator OR encapsulated"

definition DHCP_ENCAPSULATOR :: "u32 \<Rightarrow> u32" where
  "DHCP_ENCAPSULATOR encap_opt = drop_bit 8 encap_opt"

definition DHCP_ENCAPSULATED :: "u32 \<Rightarrow> u32" where
  "DHCP_ENCAPSULATED encap_opt = encap_opt AND 0xff"

definition DHCP_IS_ENCAP_OPT :: "u32 \<Rightarrow> bool" where
  "DHCP_IS_ENCAP_OPT opt \<longleftrightarrow> DHCP_ENCAPSULATOR opt \<noteq> 0"

record dhcp_options =
  opt_data :: "nat \<Rightarrow> u8"
  used_len :: nat
  alloc_len :: nat

definition memmove :: "(nat \<Rightarrow> u8) \<Rightarrow> nat \<Rightarrow> nat \<Rightarrow> nat \<Rightarrow> nat \<Rightarrow> u8" where
  "memmove m dest src n = (\<lambda>i. if dest \<le> i \<and> i < dest + n then m (src + (i - dest)) else m i)"

definition memset :: "(nat \<Rightarrow> u8) \<Rightarrow> nat \<Rightarrow> u8 \<Rightarrow> nat \<Rightarrow> nat \<Rightarrow> u8" where
  "memset m dest c n = (\<lambda>i. if dest \<le> i \<and> i < dest + n then c else m i)"

definition memcpy :: "(nat \<Rightarrow> u8) \<Rightarrow> nat \<Rightarrow> bytes \<Rightarrow> nat \<Rightarrow> u8" where
  "memcpy m dest data = (\<lambda>i. if dest \<le> i \<and> i < dest + length data then data ! (i - dest) else m i)"

section \<open>Finding options\<close>

definition dhcp_option_len :: "(nat \<Rightarrow> u8) \<Rightarrow> nat \<Rightarrow> nat" where
  "dhcp_option_len m option =
     (if ucast (m option) = DHCP_END \<or> ucast (m option) = DHCP_PAD then 1
      else unat (m (option + 1)) + DHCP_OPTION_HEADER_LEN)"

lemma option_len_pos [simp]: "0 < dhcp_option_len m option"
  by (simp add: dhcp_option_len_def DHCP_OPTION_HEADER_LEN_def)

text \<open>The search loop, with the offset of the encapsulator found so far and the offset, or \<open>None\<close> for \<open>-ENOENT\<close>, as result.\<close>

function find_loop :: "(nat \<Rightarrow> u8) \<Rightarrow> u32 \<Rightarrow> nat option \<Rightarrow> nat \<Rightarrow> nat \<Rightarrow> nat option \<times> nat option" where
  "find_loop m tag encap_offset offset remaining =
     (if remaining = 0 then (None, encap_offset)
      else
        (let option_len = dhcp_option_len m offset; option_tag = ucast (m offset) in
         if remaining < option_len then (None, encap_offset)
         else if option_tag = DHCP_END then (if tag = DHCP_END then Some offset else None, encap_offset)
         else if option_tag = tag then (Some offset, encap_offset)
         else if DHCP_IS_ENCAP_OPT tag \<and> option_tag = DHCP_ENCAPSULATOR tag then
           find_loop m (DHCP_ENCAPSULATED tag) (Some offset) (offset + DHCP_OPTION_HEADER_LEN) option_len
         else find_loop m tag encap_offset (offset + option_len) (remaining - option_len)))"
  by pat_completeness auto

lemma encapsulated_less: "DHCP_IS_ENCAP_OPT tag \<Longrightarrow> unat (DHCP_ENCAPSULATED tag) < unat tag"
proof -
  assume "DHCP_IS_ENCAP_OPT tag"
  then have "unat (drop_bit 8 tag) \<noteq> 0" by (simp add: DHCP_IS_ENCAP_OPT_def DHCP_ENCAPSULATOR_def unat_eq_zero)
  then have "256 \<le> unat tag" by (simp add: unat_drop_bit_div)
  moreover have "DHCP_ENCAPSULATED tag = take_bit 8 tag" unfolding DHCP_ENCAPSULATED_def by (simp add: take_bit_eq_mask mask_eq_exp_minus_1)
  moreover have "unat (take_bit 8 tag) < 256" by (simp add: take_bit_u32_unat)
  ultimately show ?thesis by simp
qed

lemma encapsulator_less: "tag \<noteq> 0 \<Longrightarrow> unat (DHCP_ENCAPSULATOR tag) < unat tag"
proof -
  assume "tag \<noteq> 0"
  then have "0 < unat tag" by (simp add: unat_gt_0)
  then show ?thesis by (simp add: DHCP_ENCAPSULATOR_def unat_drop_bit_div)
qed

termination find_loop
  by (relation "measures [\<lambda>(m, tag, e, offset, remaining). unat tag, \<lambda>(m, tag, e, offset, remaining). remaining]")
    (auto simp: encapsulated_less)

declare find_loop.simps [simp del]

definition find_dhcp_option_with_encap :: "'a dhcp_options_scheme \<Rightarrow> u32 \<Rightarrow> (errno + nat) \<times> nat option" where
  "find_dhcp_option_with_encap options tag =
     (if tag = DHCP_PAD then (Inl ENOENT, None)
      else
        (let (offset, encap_offset) = find_loop (opt_data options) tag None 0 (used_len options)
         in (case offset of None \<Rightarrow> Inl ENOENT | Some offset \<Rightarrow> Inr offset, encap_offset)))"

section \<open>Storing options\<close>

definition dhcpopt_no_realloc :: "'a dhcp_options_scheme \<Rightarrow> nat \<Rightarrow> rc \<times> 'a dhcp_options_scheme" where
  "dhcpopt_no_realloc options len = (if len \<le> alloc_len options then None else Some ENOSPC, options)"

text \<open>A difference of lengths as a \<open>size_t\<close>.\<close>

definition size_diff :: "nat \<Rightarrow> nat \<Rightarrow> nat" where
  "size_diff a b = nat ((int a - int b) mod 2 ^ 32)"

text \<open>Making room: the expansion of the block, if necessary, with the new space cleared.\<close>

definition expand_options ::
  "('a dhcp_options_scheme \<Rightarrow> nat \<Rightarrow> rc \<times> 'a dhcp_options_scheme) \<Rightarrow> nat \<Rightarrow> 'a dhcp_options_scheme \<Rightarrow> rc \<times> 'a dhcp_options_scheme" where
  "expand_options realloc new_used_len options =
     (if alloc_len options < new_used_len then
        (let old_alloc_len = alloc_len options in
         case realloc options new_used_len of
           (Some e, options) \<Rightarrow> (Some e, options)
         | (None, options) \<Rightarrow>
             (None, options\<lparr>opt_data := memset (opt_data options) old_alloc_len 0 (alloc_len options - old_alloc_len)\<rparr>))
      else (None, options))"

definition update_encapsulator :: "nat option \<Rightarrow> nat \<Rightarrow> nat \<Rightarrow> 'a dhcp_options_scheme \<Rightarrow> rc \<times> 'a dhcp_options_scheme" where
  "update_encapsulator encap_offset old_len new_len options =
     (case encap_offset of
        None \<Rightarrow> (None, options)
      | Some encap \<Rightarrow>
          (let new_encapsulator_len = size_diff (unat (opt_data options (encap + 1)) + new_len) old_len in
           if DHCP_MAX_LEN < new_encapsulator_len then (Some ENOSPC, options)
           else (None, options\<lparr>opt_data := (opt_data options)(encap + 1 := of_nat new_encapsulator_len)\<rparr>)))"

definition resize_dhcp_option ::
  "('a dhcp_options_scheme \<Rightarrow> nat \<Rightarrow> rc \<times> 'a dhcp_options_scheme) \<Rightarrow> nat \<Rightarrow> nat option \<Rightarrow> nat \<Rightarrow> nat \<Rightarrow>
    'a dhcp_options_scheme \<Rightarrow> rc \<times> 'a dhcp_options_scheme" where
  "resize_dhcp_option realloc offset encap_offset old_len new_len options =
     (if DHCP_MAX_LEN < new_len then (Some ENOSPC, options)
      else
        (let new_used_len = size_diff (used_len options + new_len) old_len in
         case expand_options realloc new_used_len options of
           (Some e, options) \<Rightarrow> (Some e, options)
         | (None, options) \<Rightarrow>
             (case update_encapsulator encap_offset old_len new_len options of
                (Some e, options) \<Rightarrow> (Some e, options)
              | (None, options) \<Rightarrow>
                  (let options = options\<lparr>used_len := new_used_len\<rparr>;
                       options = options\<lparr>opt_data := memmove (opt_data options) (offset + new_len) (offset + old_len)
                                           (size_diff new_used_len (offset + new_len))\<rparr>
                   in if new_used_len < alloc_len options then realloc options new_used_len else (None, options)))))"

text \<open>The value goes into the option at the offset, unless it is empty.\<close>

definition put_option :: "u32 \<Rightarrow> bytes \<Rightarrow> nat \<Rightarrow> 'a dhcp_options_scheme \<Rightarrow> 'a dhcp_options_scheme" where
  "put_option tag data offset options =
     (if data \<noteq> [] then
        options\<lparr>opt_data := memcpy ((opt_data options)(offset := ucast tag, offset + 1 := of_nat (length data)))
                             (offset + DHCP_OPTION_HEADER_LEN) data\<rparr>
      else options)"

function set_dhcp_option ::
  "('a dhcp_options_scheme \<Rightarrow> nat \<Rightarrow> rc \<times> 'a dhcp_options_scheme) \<Rightarrow> 'a dhcp_options_scheme \<Rightarrow> u32 \<Rightarrow> bytes \<Rightarrow>
    (errno + nat) \<times> 'a dhcp_options_scheme" where
  "set_dhcp_option realloc options tag data =
     (if tag = DHCP_PAD then (Inl ENOTTY, options)
      else
        (let encap_tag = DHCP_ENCAPSULATOR tag;
             new_len = (if data \<noteq> [] then length data + DHCP_OPTION_HEADER_LEN else 0);
             creation_offset = (case fst (find_dhcp_option_with_encap options DHCP_END) of Inr offset \<Rightarrow> offset | Inl _ \<Rightarrow> used_len options);
             (found, encap) = find_dhcp_option_with_encap options tag;
             old_len = (case found of Inr offset \<Rightarrow> dhcp_option_len (opt_data options) offset | Inl _ \<Rightarrow> 0);
             (encap_offset, options) =
               (if encap_tag \<noteq> 0 then
                  (case encap of
                     Some encap \<Rightarrow> (Inr (Some encap), options)
                   | None \<Rightarrow>
                       (case set_dhcp_option realloc options encap_tag [ucast DHCP_END] of
                          (Inl e, options) \<Rightarrow> (Inl e, options)
                        | (Inr encap, options) \<Rightarrow> (Inr (Some encap), options)))
                else (Inr encap, options))
         in case encap_offset of
              Inl e \<Rightarrow> (Inl e, options)
            | Inr encap_offset \<Rightarrow>
                (let creation_offset = (case encap_offset of
                       Some encap \<Rightarrow> if encap_tag \<noteq> 0 then encap + DHCP_OPTION_HEADER_LEN else creation_offset
                     | None \<Rightarrow> creation_offset);
                     offset = (case found of Inr offset \<Rightarrow> offset | Inl _ \<Rightarrow> creation_offset)
                 in case resize_dhcp_option realloc offset encap_offset old_len new_len options of
                      (Some e, options) \<Rightarrow> (Inl e, options)
                    | (None, options) \<Rightarrow>
                        (let options = put_option tag data offset options;
                             options =
                               (case encap_offset of
                                  Some encap \<Rightarrow>
                                    if opt_data options (encap + 1) \<le> 1 then snd (set_dhcp_option realloc options encap_tag []) else options
                                | None \<Rightarrow> options)
                         in (Inr offset, options)))))"
  by pat_completeness auto
termination
  by (relation "measure (\<lambda>(realloc, options, tag, data). unat tag)") (auto simp: DHCP_PAD_def encapsulator_less)

declare set_dhcp_option.simps [simp del]

section \<open>The interface\<close>

definition dhcpopt_applies :: "u32 \<Rightarrow> bool" where
  "dhcpopt_applies tag \<longleftrightarrow> tag \<noteq> 0 \<and> tag \<le> DHCP_ENCAP_OPT DHCP_MAX_OPTION DHCP_MAX_OPTION"

definition dhcpopt_store ::
  "('a dhcp_options_scheme \<Rightarrow> nat \<Rightarrow> rc \<times> 'a dhcp_options_scheme) \<Rightarrow> 'a dhcp_options_scheme \<Rightarrow> u32 \<Rightarrow> bytes \<Rightarrow>
    rc \<times> 'a dhcp_options_scheme" where
  "dhcpopt_store realloc options tag data =
     (case set_dhcp_option realloc options tag data of (Inl e, options) \<Rightarrow> (Some e, options) | (Inr _, options) \<Rightarrow> (None, options))"

text \<open>The length of the option, and the buffer filled with its value.\<close>

definition dhcpopt_fetch :: "'a dhcp_options_scheme \<Rightarrow> u32 \<Rightarrow> bytes \<Rightarrow> (errno + nat) \<times> bytes" where
  "dhcpopt_fetch options tag buf =
     (case fst (find_dhcp_option_with_encap options tag) of
        Inl e \<Rightarrow> (Inl e, buf)
      | Inr offset \<Rightarrow>
          (let option_len = unat (opt_data options (offset + 1));
               len = (if option_len < length buf then option_len else length buf)
           in (Inr option_len, map (\<lambda>i. opt_data options (offset + 2 + i)) [0..<len] @ drop len buf)))"

function used_loop :: "(nat \<Rightarrow> u8) \<Rightarrow> nat \<Rightarrow> nat \<Rightarrow> nat \<Rightarrow> nat" where
  "used_loop m offset remaining used =
     (if remaining = 0 then used
      else
        (let option_len = dhcp_option_len m offset in
         if remaining < option_len then used
         else used_loop m (offset + option_len) (remaining - option_len) (if ucast (m offset) \<noteq> DHCP_PAD then offset + option_len else used)))"
  by pat_completeness auto
termination
  by (relation "measure (\<lambda>(m, offset, remaining, used). remaining)") auto

declare used_loop.simps [simp del]

definition dhcpopt_update_used_len :: "'a dhcp_options_scheme \<Rightarrow> 'a dhcp_options_scheme" where
  "dhcpopt_update_used_len options = options\<lparr>used_len := used_loop (opt_data options) 0 (alloc_len options) 0\<rparr>"

definition dhcpopt_init :: "'a dhcp_options_scheme \<Rightarrow> (nat \<Rightarrow> u8) \<Rightarrow> nat \<Rightarrow> 'a dhcp_options_scheme" where
  "dhcpopt_init options data len = dhcpopt_update_used_len (options\<lparr>opt_data := data, alloc_len := len\<rparr>)"

section \<open>The options of a block\<close>

text \<open>
  What a block means: padding and options up to the end marker, the end of the block, or an option that is longer than what is left.
\<close>

datatype dhcp_item = Pad | Opt u8 bytes

primrec enc_item :: "dhcp_item \<Rightarrow> bytes" where
  "enc_item Pad = [0]"
| "enc_item (Opt t d) = t # of_nat (length d) # d"

primrec item_ok :: "dhcp_item \<Rightarrow> bool" where
  "item_ok Pad = True"
| "item_ok (Opt t d) = (t \<noteq> 0 \<and> t \<noteq> 255 \<and> length d \<le> 255)"

primrec has_tag :: "u8 \<Rightarrow> dhcp_item \<Rightarrow> bool" where
  "has_tag t Pad = False"
| "has_tag t (Opt u d) = (u = t)"

abbreviation enc :: "dhcp_item list \<Rightarrow> bytes" where
  "enc items \<equiv> concat (map enc_item items)"

function parse_items :: "bytes \<Rightarrow> dhcp_item list \<times> bytes" where
  "parse_items [] = ([], [])"
| "parse_items (c # xs) =
     (if c = 255 then ([], c # xs)
      else if c = 0 then (let (items, rest) = parse_items xs in (Pad # items, rest))
      else
        (case xs of
           [] \<Rightarrow> ([], c # xs)
         | n # ys \<Rightarrow>
             if length ys < unat n then ([], c # xs)
             else (let (items, rest) = parse_items (drop (unat n) ys) in (Opt c (take (unat n) ys) # items, rest))))"
  by pat_completeness auto
termination by (relation "measure length") auto

fun first_value :: "u8 \<Rightarrow> dhcp_item list \<Rightarrow> bytes option" where
  "first_value t [] = None"
| "first_value t (Pad # items) = first_value t items"
| "first_value t (Opt u d # items) = (if u = t then Some d else first_value t items)"

text \<open>The value of a tag in a block, and of an encapsulated tag in the option that encapsulates it.\<close>

definition tag_value :: "u8 \<Rightarrow> bytes \<Rightarrow> bytes option" where
  "tag_value t block = first_value t (fst (parse_items block))"

definition option_value :: "u32 \<Rightarrow> bytes \<Rightarrow> bytes option" where
  "option_value tag block =
     (if DHCP_IS_ENCAP_OPT tag
      then Option.bind (tag_value (ucast (DHCP_ENCAPSULATOR tag)) block) (tag_value (ucast (DHCP_ENCAPSULATED tag)))
      else tag_value (ucast tag) block)"

definition end_marked :: "bytes \<Rightarrow> bool" where
  "end_marked block \<longleftrightarrow> snd (parse_items block) \<noteq> [] \<and> hd (snd (parse_items block)) = 255"

definition block_ok :: "bytes \<Rightarrow> bool" where
  "block_ok block \<longleftrightarrow> snd (parse_items block) = [] \<or> end_marked block"

definition used_bytes :: "'a dhcp_options_scheme \<Rightarrow> bytes" where
  "used_bytes options = map (opt_data options) [0..<used_len options]"

lemma parse_enc: "enc (fst (parse_items xs)) @ snd (parse_items xs) = xs"
  by (induction xs rule: parse_items.induct) (auto simp: case_prod_beta Let_def split: list.splits)

lemma parse_ok: "item \<in> set (fst (parse_items xs)) \<Longrightarrow> item_ok item"
proof (induction xs rule: parse_items.induct)
  case (2 c xs)
  show ?case
  proof (cases "c = 255 \<or> c = 0")
    case True
    then show ?thesis using 2 by (auto simp: case_prod_beta Let_def)
  next
    case False
    have "unat n \<le> 255" for n :: u8 using unat_u8_less [of n] by simp
    then show ?thesis using 2 False by (auto simp: case_prod_beta Let_def min_def split: list.splits if_splits)
  qed
qed simp

lemma parse_items_enc:
  assumes "\<forall>item \<in> set items. item_ok item" "parse_items rest = ([], rest)"
  shows "parse_items (enc items @ rest) = (items, rest)"
  using assms(1)
proof (induction items)
  case Nil
  then show ?case using assms(2) by simp
next
  case (Cons item items)
  then show ?case by (cases item) (auto simp: unat_of_nat unat_u8_less)
qed

lemma parse_rest: "parse_items (snd (parse_items xs)) = ([], snd (parse_items xs))"
  by (induction xs rule: parse_items.induct) (auto simp: case_prod_beta Let_def split: list.splits)

lemma parse_terminal: "rest = [] \<or> hd rest = 255 \<Longrightarrow> parse_items rest = ([], rest)"
  by (cases rest) auto

lemma first_value_None: "first_value t items = None \<longleftrightarrow> (\<forall>item \<in> set items. \<not> has_tag t item)"
  by (induction t items rule: first_value.induct) auto

lemma first_value_Some:
  assumes "first_value t items = Some d"
  obtains pre post where "items = pre @ Opt t d # post" "\<forall>item \<in> set pre. \<not> has_tag t item"
  using assms
proof (induction t items arbitrary: thesis rule: first_value.induct)
  case (2 t items)
  then obtain pre post where "items = pre @ Opt t d # post" "\<forall>item \<in> set pre. \<not> has_tag t item" by auto
  then show ?case using 2(2) [of "Pad # pre" post] by simp
next
  case (3 t u d' items)
  show ?case
  proof (cases "u = t")
    case True
    then show ?thesis using 3(2) [of "[]" items] 3(3) by simp
  next
    case False
    then obtain pre post where "items = pre @ Opt t d # post" "\<forall>item \<in> set pre. \<not> has_tag t item" using 3 by auto
    then show ?thesis using 3(2) [of "Opt u d' # pre" post] False by simp
  qed
qed simp

lemma first_value_append:
  "first_value t (xs @ ys) = (case first_value t xs of Some d \<Rightarrow> Some d | None \<Rightarrow> first_value t ys)"
  by (induction t xs rule: first_value.induct) auto

section \<open>Searching\<close>

definition holds_at :: "(nat \<Rightarrow> u8) \<Rightarrow> nat \<Rightarrow> bytes \<Rightarrow> bool" where
  "holds_at m off xs \<longleftrightarrow> (\<forall>i<length xs. m (off + i) = xs ! i)"

lemma holds_at_append [simp]: "holds_at m off (xs @ ys) \<longleftrightarrow> holds_at m off xs \<and> holds_at m (off + length xs) ys"
proof
  assume *: "holds_at m off (xs @ ys)"
  then have "holds_at m off xs" unfolding holds_at_def by (auto simp: nth_append)
  moreover have "holds_at m (off + length xs) ys" unfolding holds_at_def
  proof (intro allI impI)
    fix i assume "i < length ys"
    then show "m (off + length xs + i) = ys ! i" using * [unfolded holds_at_def, rule_format, of "length xs + i"] by (simp add: add.assoc)
  qed
  ultimately show "holds_at m off xs \<and> holds_at m (off + length xs) ys" ..
next
  assume *: "holds_at m off xs \<and> holds_at m (off + length xs) ys"
  show "holds_at m off (xs @ ys)" unfolding holds_at_def
  proof (intro allI impI)
    fix i assume i: "i < length (xs @ ys)"
    show "m (off + i) = (xs @ ys) ! i"
    proof (cases "i < length xs")
      case True
      then show ?thesis using * by (simp add: holds_at_def nth_append)
    next
      case False
      then show ?thesis using * [THEN conjunct2, unfolded holds_at_def, rule_format, of "i - length xs"] i by (simp add: nth_append)
    qed
  qed
qed

lemma holds_at_Nil [simp]: "holds_at m off []"
  by (simp add: holds_at_def)

lemma holds_at_Cons [simp]: "holds_at m off (x # xs) \<longleftrightarrow> m off = x \<and> holds_at m (Suc off) xs"
  using holds_at_append [of m off "[x]" xs] by (simp add: holds_at_def)

lemma holds_at_used: "holds_at (opt_data options) 0 (used_bytes options)"
  by (simp add: holds_at_def used_bytes_def)

lemma length_used [simp]: "length (used_bytes options) = used_len options"
  by (simp add: used_bytes_def)

lemma ucast_u8_eq [simp]:
  "(ucast (a :: u8) = (ucast b :: u32)) = (a = b)" "(ucast a = DHCP_END) = (a = 255)" "(ucast a = DHCP_PAD) = (a = 0)"
  "(ucast a = (255 :: u32)) = (a = 255)" "(ucast a = (0 :: u32)) = (a = 0)"
proof -
  have *: "(ucast a = (ucast b :: u32)) = (a = b)" for a b :: u8
    by (auto simp: word_unat_eq_iff)
  show "(ucast a = (ucast b :: u32)) = (a = b)" by (rule *)
  show "(ucast a = DHCP_END) = (a = 255)" "(ucast a = (255 :: u32)) = (a = 255)" using * [of a 255] by (simp_all add: DHCP_END_def)
  show "(ucast a = DHCP_PAD) = (a = 0)" "(ucast a = (0 :: u32)) = (a = 0)" using * [of a 0] by (simp_all add: DHCP_PAD_def)
qed

lemma ucast_ucast_u8 [simp]: "ucast (ucast (t :: u8) :: u32) = t"
  by (rule bit_word_eqI) (simp add: bit_simps)

lemma unat_of_nat_u8: "n \<le> 255 \<Longrightarrow> unat (of_nat n :: u8) = n"
  by (simp add: unat_of_nat)

lemma option_len_item:
  assumes "holds_at m off (enc_item item)" "item_ok item"
  shows "dhcp_option_len m off = length (enc_item item)"
  using assms by (cases item) (auto simp: dhcp_option_len_def DHCP_OPTION_HEADER_LEN_def unat_of_nat DHCP_PAD_def)

text \<open>The search passes over options with other tags.\<close>

definition passes :: "u32 \<Rightarrow> dhcp_item \<Rightarrow> bool" where
  "passes tag item \<longleftrightarrow> (\<forall>u. has_tag u item \<longrightarrow> ucast u \<noteq> tag \<and> (DHCP_IS_ENCAP_OPT tag \<longrightarrow> ucast u \<noteq> DHCP_ENCAPSULATOR tag))"

lemma find_skip:
  assumes "\<forall>item \<in> set items. item_ok item \<and> passes tag item" "holds_at m off (enc items)" "tag \<noteq> 0"
  shows "find_loop m tag e off (length (enc items) + r) = find_loop m tag e (off + length (enc items)) r"
  using assms(1,2)
proof (induction items arbitrary: off)
  case (Cons item items)
  have len: "dhcp_option_len m off = length (enc_item item)" using Cons.prems by (intro option_len_item) auto
  have h: "holds_at m (off + length (enc_item item)) (enc items)" using Cons.prems(2) by simp
  have step: "find_loop m tag e off (length (enc_item item) + n) = find_loop m tag e (off + length (enc_item item)) n" for n
    using Cons.prems assms(3) len
    by (subst find_loop.simps, cases item)
      (auto simp: Let_def passes_def DHCP_IS_ENCAP_OPT_def DHCP_PAD_def DHCP_END_def)
  show ?case using step [of "length (enc items) + r"] Cons.IH [OF _ h] Cons.prems(1) by (simp add: add.assoc)
qed simp

lemma find_at:
  assumes "holds_at m off (enc_item (Opt t d))" "item_ok (Opt t d)" "length (enc_item (Opt t d)) \<le> r"
  shows "find_loop m (ucast t) e off r = (Some off, e)"
    "DHCP_IS_ENCAP_OPT tag \<Longrightarrow> ucast t = DHCP_ENCAPSULATOR tag \<Longrightarrow> ucast t \<noteq> tag \<Longrightarrow>
       find_loop m tag e off r = find_loop m (DHCP_ENCAPSULATED tag) (Some off) (off + 2) (length d + 2)"
proof -
  have m: "m off = t" "t \<noteq> 255" "dhcp_option_len m off = length d + 2" "0 < r" "length d + 2 \<le> r"
    using assms option_len_item [OF assms(1,2)] by auto
  then show "find_loop m (ucast t) e off r = (Some off, e)" by (subst find_loop.simps) (simp add: Let_def)
  assume "DHCP_IS_ENCAP_OPT tag" "ucast t = DHCP_ENCAPSULATOR tag" "ucast t \<noteq> tag"
  then show "find_loop m tag e off r = find_loop m (DHCP_ENCAPSULATED tag) (Some off) (off + 2) (length d + 2)"
    using m ucast_u8_eq(2) [of t] by (subst find_loop.simps) (simp add: Let_def DHCP_OPTION_HEADER_LEN_def)
qed

lemma find_stop:
  assumes "rest = [] \<and> r = 0 \<or> rest \<noteq> [] \<and> hd rest = 255 \<and> holds_at m off rest \<and> 0 < r"
  shows "tag \<noteq> DHCP_END \<Longrightarrow> find_loop m tag e off r = (None, e)"
    "find_loop m DHCP_END e off r = (if rest = [] then None else Some off, e)"
  using assms by (subst find_loop.simps, cases rest; auto simp: Let_def dhcp_option_len_def DHCP_END_def)+

text \<open>The tags of options, alone or in an encapsulating option.\<close>

definition plain :: "u8 \<Rightarrow> bool" where
  "plain t \<longleftrightarrow> t \<noteq> 0 \<and> t \<noteq> 255"

definition valid_tag :: "u32 \<Rightarrow> bool" where
  "valid_tag tag \<longleftrightarrow>
     (if DHCP_IS_ENCAP_OPT tag
      then DHCP_ENCAPSULATOR tag \<le> DHCP_MAX_OPTION \<and> DHCP_ENCAPSULATED tag \<noteq> 0 \<and> DHCP_ENCAPSULATED tag \<le> DHCP_MAX_OPTION
      else tag \<noteq> 0 \<and> tag \<le> DHCP_MAX_OPTION)"

lemma plain_of:
  assumes "x \<noteq> 0" "x \<le> DHCP_MAX_OPTION"
  shows "plain (ucast x)" "ucast (ucast x :: u8) = x"
proof -
  have "unat x \<le> 254" using assms(2) by (simp add: word_le_nat_alt DHCP_MAX_OPTION_def)
  then have u: "unat (ucast x :: u8) = unat x" by (simp add: unsigned_ucast_eq take_bit_nat_eq_self)
  have "x \<noteq> 255" using assms(2) by (auto simp: DHCP_MAX_OPTION_def)
  show e: "ucast (ucast x :: u8) = x" by (simp add: word_unat_eq_iff u)
  show "plain (ucast x)" unfolding plain_def
  proof
    show "ucast x \<noteq> (0 :: u8)" using e assms(1) by fastforce
    show "ucast x \<noteq> (255 :: u8)" using e \<open>x \<noteq> 255\<close> by fastforce
  qed
qed

lemma valid_tag_cases:
  assumes "valid_tag tag"
  obtains (Simple) t where "plain t" "tag = ucast t" "\<not> DHCP_IS_ENCAP_OPT tag"
  | (Encap) e s where "plain e" "plain s" "DHCP_IS_ENCAP_OPT tag" "DHCP_ENCAPSULATOR tag = ucast e" "DHCP_ENCAPSULATED tag = ucast s"
proof (cases "DHCP_IS_ENCAP_OPT tag")
  case True
  then show ?thesis using assms plain_of [of "DHCP_ENCAPSULATOR tag"] plain_of [of "DHCP_ENCAPSULATED tag"]
    by (intro Encap [of "ucast (DHCP_ENCAPSULATOR tag)" "ucast (DHCP_ENCAPSULATED tag)"])
      (auto simp: valid_tag_def DHCP_IS_ENCAP_OPT_def)
next
  case False
  then show ?thesis using assms plain_of [of tag] by (intro Simple [of "ucast tag"]) (auto simp: valid_tag_def)
qed

lemma not_encap [simp]: "\<not> DHCP_IS_ENCAP_OPT (ucast (t :: u8))" "DHCP_ENCAPSULATOR (ucast t) = 0"
proof -
  have "unat (drop_bit 8 (ucast t :: u32)) = 0" using unat_u8_less [of t] by (simp add: unat_drop_bit_div)
  then show "DHCP_ENCAPSULATOR (ucast t) = 0" by (simp add: DHCP_ENCAPSULATOR_def unat_eq_zero)
  then show "\<not> DHCP_IS_ENCAP_OPT (ucast t)" by (simp add: DHCP_IS_ENCAP_OPT_def)
qed

lemma tag_eqI:
  assumes "DHCP_ENCAPSULATOR a = DHCP_ENCAPSULATOR b" "DHCP_ENCAPSULATED a = DHCP_ENCAPSULATED b"
  shows "a = b"
proof (rule bit_word_eqI)
  fix n assume "n < LENGTH(32)"
  have m: "(0xff :: u32) = mask 8" by (simp add: mask_eq_exp_minus_1)
  show "bit a n = bit b n"
  proof (cases "n < 8")
    case True
    then show ?thesis using arg_cong [OF assms(2), of "\<lambda>x. bit x n"] unfolding DHCP_ENCAPSULATED_def m by (simp add: bit_simps)
  next
    case False
    then show ?thesis using arg_cong [OF assms(1), of "\<lambda>x. bit x (n - 8)"] unfolding DHCP_ENCAPSULATOR_def by (simp add: bit_simps)
  qed
qed

lemma plain_encap: "DHCP_IS_ENCAP_OPT tag \<Longrightarrow> ucast (t :: u8) \<noteq> tag" "plain t \<Longrightarrow> ucast t \<noteq> DHCP_END" "plain t \<Longrightarrow> ucast t \<noteq> (0 :: u32)"
  "plain t \<Longrightarrow> ucast t \<noteq> DHCP_PAD" "DHCP_IS_ENCAP_OPT tag \<Longrightarrow> tag \<noteq> 0 \<and> tag \<noteq> DHCP_END \<and> tag \<noteq> DHCP_PAD"
proof -
  assume *: "DHCP_IS_ENCAP_OPT tag"
  show "ucast (t :: u8) \<noteq> tag" using * not_encap(1) by metis
  show "tag \<noteq> 0 \<and> tag \<noteq> DHCP_END \<and> tag \<noteq> DHCP_PAD"
    using * not_encap(1) [of 0] not_encap(1) [of 255] by (auto simp: DHCP_END_def DHCP_PAD_def)
qed (simp_all add: plain_def)

definition items_ok :: "dhcp_item list \<Rightarrow> bool" where
  "items_ok items \<longleftrightarrow> (\<forall>item \<in> set items. item_ok item)"

definition lacks :: "u8 \<Rightarrow> dhcp_item list \<Rightarrow> bool" where
  "lacks t items \<longleftrightarrow> (\<forall>item \<in> set items. \<not> has_tag t item)"

lemma items_ok_simps [simp]:
  "items_ok []" "items_ok (x # xs) \<longleftrightarrow> item_ok x \<and> items_ok xs" "items_ok (xs @ ys) \<longleftrightarrow> items_ok xs \<and> items_ok ys"
  "lacks t []" "lacks t (x # xs) \<longleftrightarrow> \<not> has_tag t x \<and> lacks t xs" "lacks t (xs @ ys) \<longleftrightarrow> lacks t xs \<and> lacks t ys"
  by (auto simp: items_ok_def lacks_def)

lemma lacks_passes:
  assumes "lacks t items" "items_ok items"
  shows "\<not> DHCP_IS_ENCAP_OPT tag \<Longrightarrow> tag = ucast t \<Longrightarrow> \<forall>item \<in> set items. item_ok item \<and> passes tag item"
    "DHCP_IS_ENCAP_OPT tag \<Longrightarrow> DHCP_ENCAPSULATOR tag = ucast t \<Longrightarrow> \<forall>item \<in> set items. item_ok item \<and> passes tag item"
  using assms plain_encap(1) [of tag] by (auto simp: lacks_def items_ok_def passes_def)

lemma find_plain:
  assumes "plain t" "lacks t pre" "items_ok pre" "holds_at m off (enc pre)"
  shows "holds_at m (off + length (enc pre)) (enc_item (Opt t d)) \<Longrightarrow> length d \<le> 255 \<Longrightarrow> length d + 2 \<le> r \<Longrightarrow>
      find_loop m (ucast t) e off (length (enc pre) + r) = (Some (off + length (enc pre)), e)"
    "rest = [] \<and> r = 0 \<or> rest \<noteq> [] \<and> hd rest = 255 \<and> holds_at m (off + length (enc pre)) rest \<and> 0 < r \<Longrightarrow>
      find_loop m (ucast t) e off (length (enc pre) + r) = (None, e)"
proof -
  have skip: "find_loop m (ucast t) e off (length (enc pre) + r) = find_loop m (ucast t) e (off + length (enc pre)) r"
    using lacks_passes(1) [OF assms(2,3)] assms(1,4) plain_encap(3) by (intro find_skip) auto
  show "find_loop m (ucast t) e off (length (enc pre) + r) = (Some (off + length (enc pre)), e)"
    if "holds_at m (off + length (enc pre)) (enc_item (Opt t d))" "length d \<le> 255" "length d + 2 \<le> r"
    unfolding skip using that assms(1) by (intro find_at) (auto simp: plain_def)
  show "find_loop m (ucast t) e off (length (enc pre) + r) = (None, e)"
    if "rest = [] \<and> r = 0 \<or> rest \<noteq> [] \<and> hd rest = 255 \<and> holds_at m (off + length (enc pre)) rest \<and> 0 < r"
    unfolding skip by (rule find_stop(1) [OF that plain_encap(2) [OF assms(1)]])
qed

definition terminal :: "bytes \<Rightarrow> bool" where
  "terminal rest \<longleftrightarrow> rest = [] \<or> hd rest = 255"

lemma terminal_at:
  "terminal rest \<Longrightarrow> holds_at m off rest \<Longrightarrow>
     rest = [] \<and> length rest = 0 \<or> rest \<noteq> [] \<and> hd rest = 255 \<and> holds_at m off rest \<and> 0 < length rest"
  by (auto simp: terminal_def)

lemma find_option_simple:
  assumes "plain t"
  shows "used_bytes opts = enc (pre @ Opt t d # post) @ rest \<Longrightarrow> items_ok (pre @ Opt t d # post) \<Longrightarrow> lacks t pre \<Longrightarrow>
      find_dhcp_option_with_encap opts (ucast t) = (Inr (length (enc pre)), None)"
    "used_bytes opts = enc items @ rest \<Longrightarrow> items_ok items \<Longrightarrow> terminal rest \<Longrightarrow> lacks t items \<Longrightarrow>
      find_dhcp_option_with_encap opts (ucast t) = (Inl ENOENT, None)"
    "used_bytes opts = enc items @ rest \<Longrightarrow> items_ok items \<Longrightarrow> terminal rest \<Longrightarrow>
      (case fst (find_dhcp_option_with_encap opts DHCP_END) of Inr offset \<Rightarrow> offset | Inl _ \<Rightarrow> used_len opts) = length (enc items)"
proof -
  show "find_dhcp_option_with_encap opts (ucast t) = (Inr (length (enc pre)), None)"
    if u: "used_bytes opts = enc (pre @ Opt t d # post) @ rest" "items_ok (pre @ Opt t d # post)" "lacks t pre"
  proof -
    have h: "holds_at (opt_data opts) 0 (enc pre)" "holds_at (opt_data opts) (0 + length (enc pre)) (enc_item (Opt t d))"
      using holds_at_used [of opts] unfolding u by simp_all
    have "used_len opts = length (enc pre) + (length d + 2 + length (enc post @ rest))"
      using arg_cong [OF u(1), of length] by simp
    moreover have "find_loop (opt_data opts) (ucast t) None 0 (length (enc pre) + (length d + 2 + length (enc post @ rest))) = (Some (0 + length (enc pre)), None)"
      using u(2) by (intro find_plain(1) [OF assms u(3) _ h]) simp_all
    ultimately show ?thesis using plain_encap(4) [OF assms] by (simp add: find_dhcp_option_with_encap_def)
  qed
  show "find_dhcp_option_with_encap opts (ucast t) = (Inl ENOENT, None)"
    if u: "used_bytes opts = enc items @ rest" "items_ok items" "terminal rest" "lacks t items"
  proof -
    have h: "holds_at (opt_data opts) 0 (enc items)" "holds_at (opt_data opts) (0 + length (enc items)) rest"
      using holds_at_used [of opts] unfolding u by simp_all
    have "used_len opts = length (enc items) + length rest" using arg_cong [OF u(1), of length] by simp
    then show ?thesis using find_plain(2) [OF assms u(4,2) h(1) terminal_at [OF u(3) h(2)], of None] plain_encap(4) [OF assms]
      by (simp add: find_dhcp_option_with_encap_def)
  qed
  show "(case fst (find_dhcp_option_with_encap opts DHCP_END) of Inr offset \<Rightarrow> offset | Inl _ \<Rightarrow> used_len opts) = length (enc items)"
    if u: "used_bytes opts = enc items @ rest" "items_ok items" "terminal rest"
  proof -
    have h: "holds_at (opt_data opts) 0 (enc items)" "holds_at (opt_data opts) (0 + length (enc items)) rest"
      using holds_at_used [of opts] unfolding u by simp_all
    have len: "used_len opts = length (enc items) + length rest" using arg_cong [OF u(1), of length] by simp
    have "\<forall>item \<in> set items. item_ok item \<and> passes DHCP_END item"
    proof
      fix item assume "item \<in> set items"
      then have "item_ok item" using u(2) by (simp add: items_ok_def)
      then show "item_ok item \<and> passes DHCP_END item"
        using not_encap(1) [of 255] by (cases item) (auto simp: passes_def DHCP_END_def)
    qed
    then have "find_loop (opt_data opts) DHCP_END None 0 (used_len opts) = (if rest = [] then None else Some (length (enc items)), None)"
      using find_skip [of items DHCP_END "opt_data opts" 0 None "length rest"] h(1) find_stop(2) [OF terminal_at [OF u(3) h(2)], of None] len
      by (simp add: DHCP_END_def)
    then show ?thesis using len by (simp add: find_dhcp_option_with_encap_def DHCP_END_def DHCP_PAD_def)
  qed
qed

lemma find_option_encap:
  assumes tag: "plain e" "plain s" "DHCP_IS_ENCAP_OPT tag" "DHCP_ENCAPSULATOR tag = ucast e" "DHCP_ENCAPSULATED tag = ucast s"
  shows "used_bytes opts = enc (pre @ Opt e D # post) @ rest \<Longrightarrow> items_ok (pre @ Opt e D # post) \<Longrightarrow> lacks e pre \<Longrightarrow>
      D = enc (ipre @ Opt s d # ipost) @ irest \<Longrightarrow> items_ok (ipre @ Opt s d # ipost) \<Longrightarrow> lacks s ipre \<Longrightarrow>
      find_dhcp_option_with_encap opts tag = (Inr (length (enc pre) + 2 + length (enc ipre)), Some (length (enc pre)))"
    "used_bytes opts = enc (pre @ Opt e D # post) @ rest \<Longrightarrow> items_ok (pre @ Opt e D # post) \<Longrightarrow> lacks e pre \<Longrightarrow>
      D = enc items @ irest \<Longrightarrow> items_ok items \<Longrightarrow> irest \<noteq> [] \<Longrightarrow> terminal irest \<Longrightarrow> lacks s items \<Longrightarrow>
      find_dhcp_option_with_encap opts tag = (Inl ENOENT, Some (length (enc pre)))"
    "used_bytes opts = enc items @ rest \<Longrightarrow> items_ok items \<Longrightarrow> terminal rest \<Longrightarrow> lacks e items \<Longrightarrow>
      find_dhcp_option_with_encap opts tag = (Inl ENOENT, None)"
proof -
  have enter: "find_loop (opt_data opts) tag None 0 (used_len opts) = find_loop (opt_data opts) (ucast s) (Some (length (enc pre))) (length (enc pre) + 2) (length D + 2) \<and>
      holds_at (opt_data opts) (length (enc pre) + 2) D"
    if u: "used_bytes opts = enc (pre @ Opt e D # post) @ rest" "items_ok (pre @ Opt e D # post)" "lacks e pre" for pre D post rest
  proof -
    have h: "holds_at (opt_data opts) 0 (enc pre)" "holds_at (opt_data opts) (length (enc pre)) (enc_item (Opt e D))"
      using holds_at_used [of opts] unfolding u by simp_all
    have len: "used_len opts = length (enc pre) + (length D + 2 + length (enc post @ rest))" using arg_cong [OF u(1), of length] by simp
    have "find_loop (opt_data opts) tag None 0 (used_len opts) = find_loop (opt_data opts) tag None (0 + length (enc pre)) (length D + 2 + length (enc post @ rest))"
      unfolding len using lacks_passes(2) [OF u(3) _ tag(3,4)] u(2) h(1) plain_encap(5) [OF tag(3)] by (intro find_skip) auto
    also have "\<dots> = find_loop (opt_data opts) (ucast s) (Some (length (enc pre))) (length (enc pre) + 2) (length D + 2)"
      using find_at(2) [OF h(2) _ _ tag(3)] u(2) tag plain_encap(1) [OF tag(3)] by (simp add: add.commute)
    finally show ?thesis using h(2) by simp
  qed
  show "find_dhcp_option_with_encap opts tag = (Inr (length (enc pre) + 2 + length (enc ipre)), Some (length (enc pre)))"
    if u: "used_bytes opts = enc (pre @ Opt e D # post) @ rest" "items_ok (pre @ Opt e D # post)" "lacks e pre"
      and D: "D = enc (ipre @ Opt s d # ipost) @ irest" "items_ok (ipre @ Opt s d # ipost)" "lacks s ipre"
  proof -
    have "find_loop (opt_data opts) (ucast s) (Some (length (enc pre))) (length (enc pre) + 2) (length (enc ipre) + (length d + 2 + length (enc ipost @ irest) + 2)) =
      (Some (length (enc pre) + 2 + length (enc ipre)), Some (length (enc pre)))"
      using enter [OF u] D tag(2) by (intro find_plain(1) [where d = d]) simp_all
    then show ?thesis using enter [OF u] D(1) plain_encap(5) [OF tag(3)] by (simp add: find_dhcp_option_with_encap_def add_ac)
  qed
  show "find_dhcp_option_with_encap opts tag = (Inl ENOENT, Some (length (enc pre)))"
    if u: "used_bytes opts = enc (pre @ Opt e D # post) @ rest" "items_ok (pre @ Opt e D # post)" "lacks e pre"
      and D: "D = enc items @ irest" "items_ok items" "irest \<noteq> []" "terminal irest" "lacks s items"
  proof -
    have "find_loop (opt_data opts) (ucast s) (Some (length (enc pre))) (length (enc pre) + 2) (length (enc items) + (length irest + 2)) =
      (None, Some (length (enc pre)))"
      using enter [OF u] D tag(2) by (intro find_plain(2) [where rest = irest]) (auto simp: terminal_def)
    then show ?thesis using enter [OF u] D(1) plain_encap(5) [OF tag(3)] by (simp add: find_dhcp_option_with_encap_def add_ac)
  qed
  show "find_dhcp_option_with_encap opts tag = (Inl ENOENT, None)"
    if u: "used_bytes opts = enc items @ rest" "items_ok items" "terminal rest" "lacks e items"
  proof -
    have h: "holds_at (opt_data opts) 0 (enc items)" "holds_at (opt_data opts) (0 + length (enc items)) rest"
      using holds_at_used [of opts] unfolding u by simp_all
    have len: "used_len opts = length (enc items) + length rest" using arg_cong [OF u(1), of length] by simp
    have "find_loop (opt_data opts) tag None 0 (used_len opts) = (None, None)"
      using find_skip [of items tag "opt_data opts" 0 None "length rest"] lacks_passes(2) [OF u(4,2) tag(3,4)] h(1)
        find_stop(1) [OF terminal_at [OF u(3) h(2)], of tag None] len plain_encap(5) [OF tag(3)] by simp
    then show ?thesis using plain_encap(5) [OF tag(3)] by (simp add: find_dhcp_option_with_encap_def)
  qed
qed

section \<open>Changing a block in place\<close>

text \<open>
  What the option code relies on when it has a block reallocated: success gives the length asked for and keeps the contents, failure changes
  nothing.  The relation \<open>keeps\<close> is what the owner of the block wants to be kept; writing inside the block keeps it.
\<close>

locale options_realloc =
  fixes realloc :: "'a dhcp_options_scheme \<Rightarrow> nat \<Rightarrow> rc \<times> 'a dhcp_options_scheme"
    and keeps :: "'a dhcp_options_scheme \<Rightarrow> 'a dhcp_options_scheme \<Rightarrow> bool"
  assumes realloc_ok: "realloc opts n = (None, opts') \<Longrightarrow> used_len opts \<le> n \<Longrightarrow> alloc_len opts < 2 ^ 31 \<Longrightarrow>
      used_len opts' = used_len opts \<and> n \<le> alloc_len opts' \<and> alloc_len opts' < 2 ^ 31 \<and>
      (\<forall>i. i < n \<and> i < alloc_len opts \<longrightarrow> opt_data opts' i = opt_data opts i)"
    and realloc_fail: "realloc opts n = (Some e, opts') \<Longrightarrow>
      used_len opts' = used_len opts \<and> alloc_len opts' = alloc_len opts \<and> (\<forall>i<alloc_len opts. opt_data opts' i = opt_data opts i)"
    and keeps_realloc: "realloc opts n = (r, opts') \<Longrightarrow> keeps opts opts'"
    and keeps_used: "keeps opts (opts\<lparr>used_len := n\<rparr>)"
    and keeps_data: "(\<And>i. alloc_len opts \<le> i \<Longrightarrow> m i = opt_data opts i) \<Longrightarrow> keeps opts (opts\<lparr>opt_data := m\<rparr>)"
    and keeps_trans: "keeps opts opts' \<Longrightarrow> keeps opts' opts'' \<Longrightarrow> keeps opts opts''"

text \<open>Without reallocation, the block stays where it is and the memory behind it is not touched.\<close>

definition memory_kept :: "'a dhcp_options_scheme \<Rightarrow> 'a dhcp_options_scheme \<Rightarrow> bool" where
  "memory_kept opts opts' \<longleftrightarrow> alloc_len opts' = alloc_len opts \<and> (\<forall>i\<ge>alloc_len opts. opt_data opts' i = opt_data opts i)"

interpretation nr: options_realloc dhcpopt_no_realloc memory_kept
  by unfold_locales (auto simp: dhcpopt_no_realloc_def memory_kept_def split: if_splits)

definition opts_fit :: "'a dhcp_options_scheme \<Rightarrow> bool" where
  "opts_fit opts \<longleftrightarrow> used_len opts \<le> alloc_len opts \<and> alloc_len opts < 2 ^ 31"

definition entry :: "u32 \<Rightarrow> bytes \<Rightarrow> bytes" where
  "entry tag data = (if data \<noteq> [] then ucast tag # of_nat (length data) # data else [])"

definition with_encapsulator :: "nat option \<Rightarrow> nat \<Rightarrow> nat \<Rightarrow> bytes \<Rightarrow> bytes" where
  "with_encapsulator encap old new xs =
     (case encap of None \<Rightarrow> xs | Some en \<Rightarrow> xs[en + 1 := of_nat (unat (xs ! (en + 1)) + new - old)])"

lemma size_diff_eq: "b \<le> a \<Longrightarrow> a < 2 ^ 32 \<Longrightarrow> size_diff a b = a - b"
  by (simp add: size_diff_def flip: of_nat_diff)

lemma used_bytes_nth [simp]: "i < used_len opts \<Longrightarrow> used_bytes opts ! i = opt_data opts i"
  by (simp add: used_bytes_def)

lemma used_bytes_eq: "used_bytes opts = used_bytes opts' \<longleftrightarrow> used_len opts = used_len opts' \<and> (\<forall>i<used_len opts. opt_data opts i = opt_data opts' i)"
  by (auto simp: list_eq_iff_nth_eq)

text \<open>Giving one tag a value, and what it means for all tags.  A block that does not start with padding does not get to.\<close>

definition leading :: "bytes \<Rightarrow> bytes \<Rightarrow> bool" where
  "leading xs ys \<longleftrightarrow> (xs = [] \<or> hd xs \<noteq> 0 \<longrightarrow> ys \<noteq> [] \<and> hd ys \<noteq> 0)"

definition value_set :: "u8 \<Rightarrow> bytes \<Rightarrow> bytes \<Rightarrow> bytes \<Rightarrow> bool" where
  "value_set t v xs ys \<longleftrightarrow>
     tag_value t ys = Some v \<and> (\<forall>u. u \<noteq> t \<longrightarrow> tag_value u ys = tag_value u xs) \<and> snd (parse_items ys) = snd (parse_items xs) \<and>
     leading xs ys"

lemma value_set_trans: "value_set t v xs ys \<Longrightarrow> value_set t w ys zs \<Longrightarrow> value_set t w xs zs"
  by (simp add: value_set_def leading_def)

lemma value_setI:
  assumes "items_ok (pre @ old @ post)" "plain t" "length data \<le> 255" "parse_items rest = ([], rest)" "lacks t pre"
    "old = [] \<and> lacks t post \<or> (\<exists>d. old = [Opt t d])"
  shows "value_set t data (enc (pre @ old @ post) @ rest) (enc (pre @ Opt t data # post) @ rest)"
proof -
  have p: "parse_items (enc (pre @ old @ post) @ rest) = (pre @ old @ post, rest)"
    "parse_items (enc (pre @ Opt t data # post) @ rest) = (pre @ Opt t data # post, rest)"
    using assms(1-4) by (intro parse_items_enc; auto simp: items_ok_def plain_def)+
  have l: "first_value t pre = None" using assms(5) by (simp add: first_value_None lacks_def)
  have "leading (enc (pre @ old @ post) @ rest) (enc (pre @ Opt t data # post) @ rest)"
  proof (cases pre)
    case Nil
    then show ?thesis using assms(2) by (simp add: leading_def plain_def)
  next
    case (Cons item items)
    have "enc_item item \<noteq> []" by (cases item) simp_all
    then show ?thesis using Cons by (simp add: leading_def)
  qed
  then show ?thesis unfolding value_set_def tag_value_def p using assms(6) l by (auto simp: first_value_append split: option.splits)
qed

lemma block_cases:
  obtains items rest where "xs = enc items @ rest" "items_ok items" "parse_items rest = ([], rest)" "items = fst (parse_items xs)" "rest = snd (parse_items xs)"
  using parse_enc [of xs] parse_ok [of _ xs] parse_rest [of xs] by (auto simp: items_ok_def)

lemma tag_cases:
  obtains (found) d pre post rest where "tag_value t xs = Some d" "xs = enc (pre @ Opt t d # post) @ rest" "items_ok (pre @ Opt t d # post)" "lacks t pre"
    "parse_items rest = ([], rest)" "rest = snd (parse_items xs)"
  | (missing) items rest where "tag_value t xs = None" "xs = enc items @ rest" "items_ok items" "lacks t items"
    "parse_items rest = ([], rest)" "rest = snd (parse_items xs)"
proof -
  obtain items rest where b: "xs = enc items @ rest" "items_ok items" "parse_items rest = ([], rest)" "items = fst (parse_items xs)" "rest = snd (parse_items xs)"
    by (rule block_cases)
  show ?thesis
  proof (cases "tag_value t xs")
    case None
    then have "lacks t items" unfolding b(4) by (simp add: tag_value_def first_value_None lacks_def)
    then show ?thesis using None b(1,2,3,5) missing by blast
  next
    case (Some d)
    then obtain pre post where "items = pre @ Opt t d # post" "lacks t pre"
      unfolding tag_value_def b(4) [symmetric] lacks_def by (rule first_value_Some)
    then show ?thesis using Some b(1,2,3,5) found by metis
  qed
qed

lemma terminal_rest: "block_ok xs \<Longrightarrow> terminal (snd (parse_items xs))"
  by (auto simp: block_ok_def end_marked_def terminal_def)

text \<open>
  The search for an encapsulated option reads on for two bytes behind the encapsulating option.  It stays inside if the option is found there or
  an end marker is.
\<close>

definition safe_tag :: "u32 \<Rightarrow> bytes \<Rightarrow> bool" where
  "safe_tag tag xs \<longleftrightarrow> \<not> DHCP_IS_ENCAP_OPT tag \<or>
     (case tag_value (ucast (DHCP_ENCAPSULATOR tag)) xs of
        None \<Rightarrow> True
      | Some D \<Rightarrow> tag_value (ucast (DHCP_ENCAPSULATED tag)) D \<noteq> None \<or> end_marked D)"

definition unrelated :: "u32 \<Rightarrow> u32 \<Rightarrow> bool" where
  "unrelated tag tag' \<longleftrightarrow> tag' \<noteq> tag \<and> tag' \<noteq> DHCP_ENCAPSULATOR tag \<and> DHCP_ENCAPSULATOR tag' \<noteq> tag"

lemma fetch_value:
  assumes "block_ok (used_bytes opts)" "valid_tag tag" "safe_tag tag (used_bytes opts)"
  shows "dhcpopt_fetch opts tag buf =
    (case option_value tag (used_bytes opts) of
       None \<Rightarrow> (Inl ENOENT, buf)
     | Some d \<Rightarrow> (Inr (length d), take (length buf) d @ drop (length d) buf))"
proof -
  have hit: "dhcpopt_fetch opts tag buf = (Inr (length d), take (length buf) d @ drop (length d) buf)"
    if f: "fst (find_dhcp_option_with_encap opts tag) = Inr off" and h: "holds_at (opt_data opts) off (enc_item (Opt t d))" "length d \<le> 255" for off t d
  proof -
    have l: "unat (opt_data opts (off + 1)) = length d" using h by (simp add: unat_of_nat_u8)
    have "holds_at (opt_data opts) (off + 2) d" using h(1) by simp
    then have "map (\<lambda>i. opt_data opts (off + 2 + i)) [0..<n] = take n d" if "n \<le> length d" for n
      using that by (intro nth_equalityI) (auto simp: holds_at_def)
    then show ?thesis using f l by (auto simp: dhcpopt_fetch_def Let_def)
  qed
  from assms(2) show ?thesis
  proof (cases rule: valid_tag_cases)
    case (Simple t)
    show ?thesis
    proof (cases rule: tag_cases [of t "used_bytes opts"])
      case (found d pre post rest)
      have "holds_at (opt_data opts) (length (enc pre)) (enc_item (Opt t d))" using holds_at_used [of opts] unfolding found(2) by simp
      then show ?thesis using hit find_option_simple(1) [OF Simple(1) found(2-4)] Simple found(1,3) by (simp add: option_value_def)
    next
      case (missing items rest)
      have "terminal rest" using terminal_rest [OF assms(1)] missing(6) by simp
      then show ?thesis using find_option_simple(2) [OF Simple(1) missing(2,3) _ missing(4)] Simple missing(1)
        by (simp add: option_value_def dhcpopt_fetch_def)
    qed
  next
    case (Encap e s)
    note tag = Encap
    show ?thesis
    proof (cases rule: tag_cases [of e "used_bytes opts"])
      case o: (found D pre post rest)
      show ?thesis
      proof (cases rule: tag_cases [of s D])
        case (found d ipre ipost irest)
        have "holds_at (opt_data opts) (length (enc pre) + 2 + length (enc ipre)) (enc_item (Opt s d))"
          using holds_at_used [of opts] unfolding o(2) found(2) by (simp add: add_ac)
        then show ?thesis using hit find_option_encap(1) [OF tag o(2-4) found(2-4)] tag o(1) found(1,3) by (simp add: option_value_def)
      next
        case (missing items irest)
        have "end_marked D" using assms(3) tag o(1) missing(1) by (auto simp: safe_tag_def)
        then have "irest \<noteq> []" "terminal irest" using missing(6) by (auto simp: end_marked_def terminal_def)
        then show ?thesis using find_option_encap(2) [OF tag o(2-4) missing(2,3) _ _ missing(4)] tag o(1) missing(1)
          by (simp add: option_value_def dhcpopt_fetch_def)
      qed
    next
      case (missing items rest)
      have "terminal rest" using terminal_rest [OF assms(1)] missing(6) by simp
      then show ?thesis using find_option_encap(3) [OF tag missing(2,3) _ missing(4)] tag missing(1)
        by (simp add: option_value_def dhcpopt_fetch_def)
    qed
  qed
qed

text \<open>The effect of a store on all values.\<close>

definition stored :: "u32 \<Rightarrow> bytes \<Rightarrow> bytes \<Rightarrow> bytes \<Rightarrow> bool" where
  "stored tag data xs ys \<longleftrightarrow>
     block_ok ys \<and> option_value tag ys = Some data \<and> safe_tag tag ys \<and> leading xs ys \<and>
     (\<forall>t. valid_tag t \<and> safe_tag t xs \<and> unrelated tag t \<longrightarrow> option_value t ys = option_value t xs \<and> safe_tag t ys)"

lemma value_set_end: "value_set t v xs ys \<Longrightarrow> end_marked ys = end_marked xs \<and> block_ok ys = block_ok xs"
  by (auto simp: value_set_def end_marked_def block_ok_def)

lemma stored_simple:
  assumes "value_set t data xs ys" "plain t" "block_ok xs"
  shows "stored (ucast t) data xs ys"
proof -
  have "option_value u ys = option_value u xs \<and> safe_tag u ys"
    if "valid_tag u" "safe_tag u xs" "unrelated (ucast t) u" for u
    using that(1)
  proof (cases rule: valid_tag_cases)
    case (Simple v)
    then show ?thesis using that(3) assms(1) by (auto simp: option_value_def safe_tag_def unrelated_def value_set_def)
  next
    case (Encap e s)
    then show ?thesis using that(2,3) assms(1) by (auto simp: option_value_def safe_tag_def unrelated_def value_set_def)
  qed
  then show ?thesis using assms value_set_end [OF assms(1)] unfolding stored_def
    by (auto simp: option_value_def safe_tag_def value_set_def)
qed

lemma stored_encap:
  assumes "value_set s data D D'" "value_set e D' xs ys" "block_ok xs"
    and tag: "plain e" "plain s" "DHCP_IS_ENCAP_OPT tag" "DHCP_ENCAPSULATOR tag = ucast e" "DHCP_ENCAPSULATED tag = ucast s"
    and D: "D = (case tag_value e xs of Some D \<Rightarrow> D | None \<Rightarrow> [255])"
  shows "stored tag data xs ys"
proof -
  have v: "tag_value s D' = Some data" "tag_value e ys = Some D'" "\<And>u. u \<noteq> e \<Longrightarrow> tag_value u ys = tag_value u xs"
    "\<And>u. u \<noteq> s \<Longrightarrow> tag_value u D' = tag_value u D"
    using assms(1,2) by (auto simp: value_set_def)
  have "option_value u ys = option_value u xs \<and> safe_tag u ys"
    if "valid_tag u" "safe_tag u xs" "unrelated tag u" for u
    using that(1)
  proof (cases rule: valid_tag_cases)
    case (Simple t)
    then have "t \<noteq> e" using that(3) tag(4) by (auto simp: unrelated_def)
    then show ?thesis using Simple v(3) by (auto simp: option_value_def safe_tag_def)
  next
    case (Encap e' s')
    show ?thesis
    proof (cases "e' = e")
      case False
      then show ?thesis using Encap that(2) v(3) by (auto simp: option_value_def safe_tag_def)
    next
      case True
      have "s' \<noteq> s"
      proof
        assume "s' = s"
        then have "DHCP_ENCAPSULATOR u = DHCP_ENCAPSULATOR tag" "DHCP_ENCAPSULATED u = DHCP_ENCAPSULATED tag" using True Encap tag by simp_all
        then have "u = tag" by (rule tag_eqI)
        then show False using that(3) by (simp add: unrelated_def)
      qed
      then have "tag_value s' D' = tag_value s' D" by (rule v(4))
      moreover have "end_marked D' = end_marked D" using value_set_end [OF assms(1)] by simp
      moreover have "tag_value s' [255] = None" "end_marked [255]" by (simp_all add: tag_value_def end_marked_def)
      ultimately show ?thesis using Encap True that(2) v(2) D by (auto simp: option_value_def safe_tag_def split: option.splits)
    qed
  qed
  moreover have "leading xs ys" using assms(2) by (simp add: value_set_def)
  ultimately show ?thesis using v tag assms(3) value_set_end [OF assms(2)] unfolding stored_def
    by (auto simp: option_value_def safe_tag_def)
qed

context options_realloc
begin

lemma keeps_refl: "keeps opts opts"
  using keeps_used [of opts "used_len opts"] by simp

lemma expand_ok:
  assumes "expand_options realloc n opts = (None, opts')" "opts_fit opts"
  shows "used_len opts' = used_len opts" "n \<le> alloc_len opts'" "opts_fit opts'" "\<forall>i<used_len opts. opt_data opts' i = opt_data opts i"
    "keeps opts opts'"
proof -
  have "used_len opts' = used_len opts \<and> n \<le> alloc_len opts' \<and> opts_fit opts' \<and> (\<forall>i<used_len opts. opt_data opts' i = opt_data opts i) \<and>
    keeps opts opts'"
  proof (cases "alloc_len opts < n")
    case True
    then obtain o1 where r: "realloc opts n = (None, o1)"
      and o1: "opts' = o1\<lparr>opt_data := memset (opt_data o1) (alloc_len opts) 0 (alloc_len o1 - alloc_len opts)\<rparr>"
      using assms(1) by (auto simp: expand_options_def Let_def split: prod.splits option.splits)
    have "keeps o1 opts'" using realloc_ok [OF r] True assms(2) unfolding o1 by (intro keeps_data) (auto simp: memset_def opts_fit_def)
    then have "keeps opts opts'" using keeps_realloc [OF r] by (rule keeps_trans [rotated])
    then show ?thesis using realloc_ok [OF r] True assms(2) unfolding o1 by (auto simp: opts_fit_def memset_def)
  next
    case False
    then show ?thesis using assms keeps_refl by (auto simp: expand_options_def opts_fit_def)
  qed
  then show "used_len opts' = used_len opts" "n \<le> alloc_len opts'" "opts_fit opts'" "\<forall>i<used_len opts. opt_data opts' i = opt_data opts i"
    "keeps opts opts'"
    by blast+
qed

lemma expand_fail:
  assumes "expand_options realloc n opts = (Some e, opts')" "opts_fit opts"
  shows "used_bytes opts' = used_bytes opts \<and> opts_fit opts'"
  using assms realloc_fail [of opts n]
  by (auto simp: expand_options_def Let_def used_bytes_eq opts_fit_def split: if_splits prod.splits option.splits)

lemma place:
  assumes "opts_fit opts" "off + old \<le> used_len opts"
    and r: "resize_dhcp_option realloc off encap old new opts = (None, o1)"
    and new: "new = (if data \<noteq> [] then length data + 2 else 0)"
    and en: "\<forall>en. encap = Some en \<longrightarrow> en + 1 < off \<and> old \<le> unat (opt_data opts (en + 1))"
    and xs: "xs = with_encapsulator encap old new (used_bytes opts)"
  shows "used_bytes (put_option tag data off o1) = take off xs @ entry tag data @ drop (off + old) xs" "opts_fit (put_option tag data off o1)"
    "new \<le> 255" "\<forall>en. encap = Some en \<longrightarrow> unat (opt_data opts (en + 1)) + new - old \<le> 255" "keeps opts (put_option tag data off o1)"
proof -
  let ?n = "used_len opts + new - old"
  have n255: "new \<le> 255" using r by (auto simp: resize_dhcp_option_def DHCP_MAX_LEN_def split: if_splits)
  then have sd: "size_diff (used_len opts + new) old = ?n" using assms(1,2) by (intro size_diff_eq) (auto simp: opts_fit_def)
  obtain oa ob where a: "expand_options realloc ?n opts = (None, oa)" and b: "update_encapsulator encap old new oa = (None, ob)"
    and o1: "(if ?n < alloc_len ob then realloc (ob\<lparr>used_len := ?n, opt_data := memmove (opt_data ob) (off + new) (off + old) (size_diff ?n (off + new))\<rparr>) ?n
      else (None, ob\<lparr>used_len := ?n, opt_data := memmove (opt_data ob) (off + new) (off + old) (size_diff ?n (off + new))\<rparr>)) = (None, o1)"
    using r n255 unfolding resize_dhcp_option_def sd Let_def by (auto simp: DHCP_MAX_LEN_def split: prod.splits option.splits cong: if_cong)
  note ea = expand_ok [OF a assms(1)]
  have ua: "used_bytes oa = used_bytes opts" using ea(1,4) by (simp add: used_bytes_eq)
  have enl: "en < used_len opts \<and> en + 1 < used_len opts \<and> size_diff (unat (opt_data oa (en + 1)) + new) old = unat (opt_data opts (en + 1)) + new - old"
    if "encap = Some en" for en
  proof -
    have "en + 1 < used_len opts" "opt_data oa (en + 1) = opt_data opts (en + 1)" using en that assms(2) ea(4) by auto
    then show ?thesis using en that n255 unat_u8_less [of "opt_data opts (en + 1)"] by (auto intro!: size_diff_eq)
  qed
  have ob: "used_bytes ob = xs" "used_len ob = used_len opts" "alloc_len ob = alloc_len oa"
    and e255: "\<forall>en. encap = Some en \<longrightarrow> unat (opt_data opts (en + 1)) + new - old \<le> 255"
  proof -
    show "used_bytes ob = xs" "used_len ob = used_len opts" "alloc_len ob = alloc_len oa"
      "\<forall>en. encap = Some en \<longrightarrow> unat (opt_data opts (en + 1)) + new - old \<le> 255"
      using b ea(1,4) enl
      by (auto simp: update_encapsulator_def xs with_encapsulator_def DHCP_MAX_LEN_def list_eq_iff_nth_eq nth_list_update Let_def
          split: option.splits if_splits)
  qed
  show "new \<le> 255" by (rule n255)
  show "\<forall>en. encap = Some en \<longrightarrow> unat (opt_data opts (en + 1)) + new - old \<le> 255" by (rule e255)
  have sd2: "size_diff ?n (off + new) = used_len opts - (off + old)"
    using assms(1,2) n255 by (subst size_diff_eq) (auto simp: opts_fit_def)
  let ?m = "memmove (opt_data ob) (off + new) (off + old) (used_len opts - (off + old))"
  have f: "used_len o1 = ?n" "opts_fit o1" "\<forall>i<?n. opt_data o1 i = ?m i"
  proof -
    have "used_len o1 = ?n \<and> opts_fit o1 \<and> (\<forall>i<?n. opt_data o1 i = ?m i)"
    proof (cases "?n < alloc_len ob")
      case True
      then show ?thesis using realloc_ok [of "ob\<lparr>used_len := ?n, opt_data := ?m\<rparr>" ?n o1] o1 ea(3) ob unfolding sd2
        by (auto simp: opts_fit_def)
    next
      case False
      then show ?thesis using o1 ea ob unfolding sd2 by (auto simp: opts_fit_def)
    qed
    then show "used_len o1 = ?n" "opts_fit o1" "\<forall>i<?n. opt_data o1 i = ?m i" by blast+
  qed
  show "keeps opts (put_option tag data off o1)"
  proof (rule keeps_trans [OF ea(5)], rule keeps_trans)
    show "keeps oa ob"
      using b ea(1,3) enl keeps_refl
      by (auto simp: update_encapsulator_def Let_def opts_fit_def split: option.splits if_splits intro!: keeps_data)
    let ?o = "ob\<lparr>used_len := ?n, opt_data := ?m\<rparr>"
    have "keeps ob ?o" by (rule keeps_trans [OF keeps_used keeps_data]) (use ea ob assms(2) in \<open>auto simp: memmove_def opts_fit_def\<close>)
    moreover have "keeps ?o o1" using o1 keeps_realloc keeps_refl unfolding sd2 by (auto split: if_splits)
    ultimately have "keeps ob o1" by (rule keeps_trans)
    moreover have "off + new \<le> alloc_len o1" using f(1,2) assms(2) unfolding opts_fit_def by linarith
    then have "keeps o1 (put_option tag data off o1)"
      using keeps_refl new by (auto simp: put_option_def memcpy_def DHCP_OPTION_HEADER_LEN_def intro!: keeps_data)
    ultimately show "keeps ob (put_option tag data off o1)" by (rule keeps_trans)
  qed
  have len: "length xs = used_len opts" using ob by (metis length_used)
  have obx: "opt_data ob i = xs ! i" if "i < used_len opts" for i using ob that by (metis used_bytes_nth)
  have el: "length (entry tag data) = new" by (simp add: entry_def new)
  have u: "used_len (put_option tag data off o1) = ?n" using f(1) by (simp add: put_option_def)
  show "used_bytes (put_option tag data off o1) = take off xs @ entry tag data @ drop (off + old) xs"
  proof (rule nth_equalityI)
    show "length (used_bytes (put_option tag data off o1)) = length (take off xs @ entry tag data @ drop (off + old) xs)"
      using u len el assms(2) by simp
    fix i assume "i < length (used_bytes (put_option tag data off o1))"
    then have i: "i < ?n" using u by simp
    consider "i < off" | "off \<le> i" "i < off + new" | "off + new \<le> i" by linarith
    then show "used_bytes (put_option tag data off o1) ! i = (take off xs @ entry tag data @ drop (off + old) xs) ! i"
    proof cases
      case 1
      then have "opt_data o1 i = xs ! i" using f(3) i obx assms(2) by (auto simp: memmove_def)
      then show ?thesis using 1 i u len assms(2) by (auto simp: put_option_def memcpy_def nth_append DHCP_OPTION_HEADER_LEN_def)
    next
      case 2
      then have "data \<noteq> []" using new by (auto split: if_splits)
      then have "i - off < Suc (Suc (length data))" using 2 new by simp
      then show ?thesis using 2 i u len assms(2) \<open>data \<noteq> []\<close> el
        by (cases "i - off = 0"; cases "i - off = 1")
          (auto simp: put_option_def memcpy_def nth_append entry_def DHCP_OPTION_HEADER_LEN_def nth_Cons' new numeral_2_eq_2)
    next
      case 3
      then have "opt_data o1 i = xs ! (off + old + (i - (off + new)))" using f(3) i obx assms(2) by (auto simp: memmove_def)
      then show ?thesis using 3 i u len assms(2) el
        by (auto simp: put_option_def memcpy_def nth_append DHCP_OPTION_HEADER_LEN_def new)
    qed
  qed
  show "opts_fit (put_option tag data off o1)" using f(2) by (simp add: opts_fit_def put_option_def)
qed


lemma set_simple:
  assumes "opts_fit opts" "block_ok (used_bytes opts)" "plain t" "data \<noteq> []"
    and "set_dhcp_option realloc opts (ucast t) data = (Inr off, opts')"
  shows "opts_fit opts'" "value_set t data (used_bytes opts) (used_bytes opts')" "length data \<le> 253" "keeps opts opts'"
    "used_len opts' = used_len opts + length data + 2 - (case tag_value t (used_bytes opts) of Some d \<Rightarrow> length d + 2 | None \<Rightarrow> 0)"
    "\<exists>pre post. used_bytes opts' = enc (pre @ Opt t data # post) @ snd (parse_items (used_bytes opts)) \<and>
      items_ok (pre @ Opt t data # post) \<and> lacks t pre \<and> off = length (enc pre)"
proof -
  let ?xs = "used_bytes opts" and ?rest = "snd (parse_items (used_bytes opts))"
  have "\<exists>pre old post. ?xs = enc (pre @ old @ post) @ ?rest \<and> items_ok (pre @ old @ post) \<and> lacks t pre \<and>
      (old = [] \<and> lacks t post \<or> (\<exists>d. old = [Opt t d])) \<and> off = length (enc pre) \<and>
      length (enc old) = (case tag_value t ?xs of Some d \<Rightarrow> length d + 2 | None \<Rightarrow> 0) \<and>
      (\<exists>o1. resize_dhcp_option realloc (length (enc pre)) None (length (enc old)) (length data + 2) opts = (None, o1) \<and>
        opts' = put_option (ucast t) data (length (enc pre)) o1)"
  proof (cases rule: tag_cases [of t ?xs])
    case (found d pre post rest)
    have f: "find_dhcp_option_with_encap opts (ucast t) = (Inr (length (enc pre)), None)"
      by (rule find_option_simple(1) [OF assms(3) found(2-4)])
    have len: "dhcp_option_len (opt_data opts) (length (enc pre)) = length d + 2"
      using option_len_item [of "opt_data opts" "length (enc pre)" "Opt t d"] holds_at_used [of opts] found(2,3) by simp
    show ?thesis
    proof (intro exI conjI)
      show "?xs = enc (pre @ [Opt t d] @ post) @ ?rest" unfolding found(6) [symmetric] using found(2) by simp
      show "items_ok (pre @ [Opt t d] @ post)" "lacks t pre" using found(3,4) by simp_all
      show "length (enc [Opt t d]) = (case tag_value t ?xs of Some d \<Rightarrow> length d + 2 | None \<Rightarrow> 0)" using found(1) by simp
      show "resize_dhcp_option realloc (length (enc pre)) None (length (enc [Opt t d])) (length data + 2) opts =
          (None, snd (resize_dhcp_option realloc (length (enc pre)) None (length (enc [Opt t d])) (length data + 2) opts))"
        "off = length (enc pre)"
        "opts' = put_option (ucast t) data (length (enc pre)) (snd (resize_dhcp_option realloc (length (enc pre)) None (length (enc [Opt t d])) (length data + 2) opts))"
        using assms(4,5) plain_encap(4) [OF assms(3)]
        by (auto simp: set_dhcp_option.simps [of realloc opts "ucast t" data] f len Let_def DHCP_OPTION_HEADER_LEN_def
            split: prod.splits option.splits)
    qed auto
  next
    case (missing items rest)
    have t: "terminal rest" using terminal_rest [OF assms(2)] missing(6) by simp
    have f: "find_dhcp_option_with_encap opts (ucast t) = (Inl ENOENT, None)"
      by (rule find_option_simple(2) [OF assms(3) missing(2,3) t missing(4)])
    note c = find_option_simple(3) [OF assms(3) missing(2,3) t]
    show ?thesis
    proof (intro exI conjI)
      show "?xs = enc (items @ [] @ []) @ ?rest" unfolding missing(6) [symmetric] using missing(2) by simp
      show "items_ok (items @ [] @ [])" "lacks t items" using missing(3,4) by simp_all
      show "length (enc []) = (case tag_value t ?xs of Some d \<Rightarrow> length d + 2 | None \<Rightarrow> 0)" using missing(1) by simp
      show "resize_dhcp_option realloc (length (enc items)) None (length (enc [])) (length data + 2) opts =
          (None, snd (resize_dhcp_option realloc (length (enc items)) None (length (enc [])) (length data + 2) opts))"
        "off = length (enc items)"
        "opts' = put_option (ucast t) data (length (enc items)) (snd (resize_dhcp_option realloc (length (enc items)) None (length (enc [])) (length data + 2) opts))"
        using assms(4,5) plain_encap(4) [OF assms(3)]
        by (auto simp: set_dhcp_option.simps [of realloc opts "ucast t" data] f c Let_def DHCP_OPTION_HEADER_LEN_def
            split: prod.splits option.splits)
    qed auto
  qed
  then obtain pre old post o1 where xs: "?xs = enc (pre @ old @ post) @ ?rest" "items_ok (pre @ old @ post)" "lacks t pre"
      "old = [] \<and> lacks t post \<or> (\<exists>d. old = [Opt t d])" "off = length (enc pre)"
      "length (enc old) = (case tag_value t ?xs of Some d \<Rightarrow> length d + 2 | None \<Rightarrow> 0)"
    and r: "resize_dhcp_option realloc (length (enc pre)) None (length (enc old)) (length data + 2) opts = (None, o1)"
      "opts' = put_option (ucast t) data (length (enc pre)) o1" by blast
  have ul: "length (enc pre) + length (enc old) \<le> used_len opts" using arg_cong [OF xs(1), of length] by simp
  have pl: "used_bytes opts' = take (length (enc pre)) ?xs @ entry (ucast t) data @ drop (length (enc pre) + length (enc old)) ?xs"
    "opts_fit opts'" "keeps opts opts'" "length data + 2 \<le> 255"
    using place(1,2,5) [OF assms(1) ul r(1), where data = data and xs = ?xs and tag = "ucast t"]
      place(3) [OF assms(1) ul r(1), where data = data and xs = ?xs] assms(4) r(2) by (simp_all add: with_encapsulator_def)
  have "take (length (enc pre)) ?xs = enc pre" "drop (length (enc pre) + length (enc old)) ?xs = enc post @ ?rest"
    by (subst xs(1), simp)+
  then have u: "used_bytes opts' = enc (pre @ Opt t data # post) @ ?rest" using pl(1) assms(4) by (simp add: entry_def)
  show "opts_fit opts'" "length data \<le> 253" "keeps opts opts'" using pl by simp_all
  show "used_len opts' = used_len opts + length data + 2 - (case tag_value t ?xs of Some d \<Rightarrow> length d + 2 | None \<Rightarrow> 0)"
    using arg_cong [OF pl(1), of length] ul assms(4) unfolding xs(6) [symmetric] by (simp add: entry_def)
  show "value_set t data ?xs (used_bytes opts')"
    using value_setI [OF xs(2) assms(3) _ parse_rest xs(3,4), of data ?xs] pl(4) unfolding u xs(1) [symmetric] by simp
  show "\<exists>pre post. used_bytes opts' = enc (pre @ Opt t data # post) @ ?rest \<and> items_ok (pre @ Opt t data # post) \<and> lacks t pre \<and> off = length (enc pre)"
    using u xs(2,3,5) pl(4) assms(3) by (intro exI [of _ pre] exI [of _ post]) (auto simp: plain_def)
qed

lemma encap_place:
  assumes "opts_fit opts" "used_bytes opts = enc (pre @ Opt e D # post) @ rest" "items_ok (pre @ Opt e D # post)"
    and D: "D = enc (ipre @ old @ ipost) @ irest" and "data \<noteq> []"
    and r: "resize_dhcp_option realloc (length (enc pre) + 2 + length (enc ipre)) (Some (length (enc pre))) (length (enc old)) (length data + 2) opts = (None, o1)"
    and o2: "o2 = put_option tag data (length (enc pre) + 2 + length (enc ipre)) o1"
    and D': "D' = enc ipre @ entry tag data @ enc ipost @ irest"
  shows "used_bytes o2 = enc (pre @ Opt e D' # post) @ rest" "opts_fit o2" "length D' \<le> 255" "length data \<le> 253"
    "opt_data o2 (length (enc pre) + 1) = of_nat (length D')" "keeps opts o2"
proof -
  let ?n = "length (enc pre)" and ?off = "length (enc pre) + 2 + length (enc ipre)"
  let ?xs = "with_encapsulator (Some ?n) (length (enc old)) (length data + 2) (used_bytes opts)"
  have len: "used_len opts = ?n + 2 + length D + length (enc post) + length rest" using arg_cong [OF assms(2), of length] by simp
  have enl: "unat (opt_data opts (?n + 1)) = length D"
    using holds_at_used [of opts] assms(3) unfolding assms(2) by (auto simp: unat_of_nat)
  have lD': "length D' = length D + (length data + 2) - length (enc old)" using D D' assms(5) by (simp add: entry_def)
  have lb: "length (enc old) \<le> length D" using D by simp
  have ul: "?off + length (enc old) \<le> used_len opts" using len D by simp
  have "?xs = (used_bytes opts)[?n + 1 := of_nat (length D')]" using enl lD' len by (simp add: with_encapsulator_def)
  then have xs: "?xs = enc pre @ e # of_nat (length D') # D @ enc post @ rest" unfolding assms(2) by (simp add: list_update_append)
  have "take ?off ?xs = enc pre @ e # of_nat (length D') # enc ipre"
    "drop (?off + length (enc old)) ?xs = enc ipost @ irest @ enc post @ rest" unfolding xs D by simp_all
  then show u: "used_bytes o2 = enc (pre @ Opt e D' # post) @ rest"
    using place(1) [OF assms(1) ul r, where data = data and xs = ?xs and tag = tag] assms(5) enl lb unfolding o2 D' by simp
  show "opts_fit o2" "keeps opts o2" using place(2,5) [OF assms(1) ul r, where data = data and xs = ?xs and tag = tag] assms(5) enl lb unfolding o2 by simp_all
  show "length D' \<le> 255" "length data \<le> 253"
    using place(4) [OF assms(1) ul r, where data = data and xs = ?xs] place(3) [OF assms(1) ul r, where data = data and xs = ?xs] assms(5) enl lb lD' by simp_all
  show "opt_data o2 (?n + 1) = of_nat (length D')" using holds_at_used [of o2] unfolding u by simp
qed

lemma set_encap_steps:
  assumes "set_dhcp_option realloc opts tag data = (Inr off, opts')" "DHCP_IS_ENCAP_OPT tag" "data \<noteq> []"
    and f: "find_dhcp_option_with_encap opts tag = (found, encap)"
  obtains en o0 o1 where "case encap of Some en' \<Rightarrow> en = en' \<and> o0 = opts | None \<Rightarrow> set_dhcp_option realloc opts (DHCP_ENCAPSULATOR tag) [255] = (Inr en, o0)"
    "off = (case found of Inr x \<Rightarrow> x | Inl _ \<Rightarrow> en + 2)"
    "resize_dhcp_option realloc off (Some en) (case found of Inr x \<Rightarrow> dhcp_option_len (opt_data opts) x | Inl _ \<Rightarrow> 0) (length data + 2) o0 = (None, o1)"
    "\<not> opt_data (put_option tag data off o1) (en + 1) \<le> 1 \<longrightarrow> opts' = put_option tag data off o1"
proof -
  have e: "DHCP_ENCAPSULATOR tag \<noteq> 0" "tag \<noteq> DHCP_PAD" using assms(2) plain_encap(5) by (auto simp: DHCP_IS_ENCAP_OPT_def)
  have "ucast DHCP_END = (255 :: u8)" by (simp add: DHCP_END_def)
  then show ?thesis using assms(1,3) e that
    by (subst (asm) set_dhcp_option.simps)
      (auto simp: f Let_def DHCP_OPTION_HEADER_LEN_def split: option.splits prod.splits sum.splits if_splits)
qed

lemma set_encap_found:
  assumes "opts_fit opts" "block_ok (used_bytes opts)" "data \<noteq> []"
    and tag: "plain e" "plain s" "DHCP_IS_ENCAP_OPT tag" "DHCP_ENCAPSULATOR tag = ucast e" "DHCP_ENCAPSULATED tag = ucast s"
    and D: "D = (case tag_value e (used_bytes opts) of Some D \<Rightarrow> D | None \<Rightarrow> [255])" "tag_value s D \<noteq> None \<or> end_marked D"
    and set: "set_dhcp_option realloc opts tag data = (Inr off, opts')"
  obtains pre post rest ipre old ipost irest o0 o1 where "opts_fit o0" "used_bytes o0 = enc (pre @ Opt e D # post) @ rest"
      "items_ok (pre @ Opt e D # post)" "lacks e pre" "parse_items rest = ([], rest)"
      "D = enc (ipre @ old @ ipost) @ irest" "items_ok (ipre @ old @ ipost)" "lacks s ipre" "parse_items irest = ([], irest)"
      "old = [] \<and> lacks s ipost \<or> (\<exists>d. old = [Opt s d])"
      "used_bytes o0 = used_bytes opts \<or> value_set e D (used_bytes opts) (used_bytes o0)" "keeps opts o0"
      "resize_dhcp_option realloc (length (enc pre) + 2 + length (enc ipre)) (Some (length (enc pre))) (length (enc old)) (length data + 2) o0 = (None, o1)"
      "\<not> opt_data (put_option tag data (length (enc pre) + 2 + length (enc ipre)) o1) (length (enc pre) + 1) \<le> 1 \<longrightarrow>
        opts' = put_option tag data (length (enc pre) + 2 + length (enc ipre)) o1"
proof (cases rule: tag_cases [of e "used_bytes opts"])
  case (found d pre post rest)
  have "d = D" using D(1) found(1) by simp
  note found = found [unfolded \<open>d = D\<close>]
  show ?thesis
  proof (cases rule: tag_cases [of s D])
    case i: (found d ipre ipost irest)
    have f: "find_dhcp_option_with_encap opts tag = (Inr (length (enc pre) + 2 + length (enc ipre)), Some (length (enc pre)))"
      by (rule find_option_encap(1) [OF tag found(2-4) i(2-4)])
    have "holds_at (opt_data opts) (length (enc pre) + 2 + length (enc ipre)) (enc_item (Opt s d))"
      using holds_at_used [of opts] unfolding found(2) i(2) by (simp add: add_ac)
    then have "dhcp_option_len (opt_data opts) (length (enc pre) + 2 + length (enc ipre)) = length (enc [Opt s d])"
      using option_len_item [of "opt_data opts" "length (enc pre) + 2 + length (enc ipre)" "Opt s d"] i(3) by simp
    moreover obtain en o0 o1 where k: "case Some (length (enc pre)) of Some en' \<Rightarrow> en = en' \<and> o0 = opts | None \<Rightarrow> set_dhcp_option realloc opts (DHCP_ENCAPSULATOR tag) [255] = (Inr en, o0)"
      "off = (case (Inr (length (enc pre) + 2 + length (enc ipre)) :: errno + nat) of Inr x \<Rightarrow> x | Inl _ \<Rightarrow> en + 2)"
      "resize_dhcp_option realloc off (Some en) (case (Inr (length (enc pre) + 2 + length (enc ipre)) :: errno + nat) of Inr x \<Rightarrow> dhcp_option_len (opt_data opts) x | Inl _ \<Rightarrow> 0) (length data + 2) o0 = (None, o1)"
      "\<not> opt_data (put_option tag data off o1) (en + 1) \<le> 1 \<longrightarrow> opts' = put_option tag data off o1"
      by (rule set_encap_steps [OF set tag(3) assms(3) f])
    ultimately have
      "resize_dhcp_option realloc (length (enc pre) + 2 + length (enc ipre)) (Some (length (enc pre))) (length (enc [Opt s d])) (length data + 2) opts = (None, o1)"
      "\<not> opt_data (put_option tag data (length (enc pre) + 2 + length (enc ipre)) o1) (length (enc pre) + 1) \<le> 1 \<longrightarrow>
        opts' = put_option tag data (length (enc pre) + 2 + length (enc ipre)) o1" by simp_all
    then show ?thesis using assms(1) found(2-5) i(2-5) keeps_refl
      by (intro that [of opts pre post rest ipre "[Opt s d]" ipost irest o1]) simp_all
  next
    case i: (missing items irest)
    have t: "irest \<noteq> []" "terminal irest" using D(2) i(1,6) by (auto simp: end_marked_def terminal_def)
    have f: "find_dhcp_option_with_encap opts tag = (Inl ENOENT, Some (length (enc pre)))"
      by (rule find_option_encap(2) [OF tag found(2-4) i(2,3) t i(4)])
    obtain en o0 o1 where k: "case Some (length (enc pre)) of Some en' \<Rightarrow> en = en' \<and> o0 = opts | None \<Rightarrow> set_dhcp_option realloc opts (DHCP_ENCAPSULATOR tag) [255] = (Inr en, o0)"
      "off = (case (Inl ENOENT :: errno + nat) of Inr x \<Rightarrow> x | Inl _ \<Rightarrow> en + 2)"
      "resize_dhcp_option realloc off (Some en) (case (Inl ENOENT :: errno + nat) of Inr x \<Rightarrow> dhcp_option_len (opt_data opts) x | Inl _ \<Rightarrow> 0) (length data + 2) o0 = (None, o1)"
      "\<not> opt_data (put_option tag data off o1) (en + 1) \<le> 1 \<longrightarrow> opts' = put_option tag data off o1"
      by (rule set_encap_steps [OF set tag(3) assms(3) f])
    then have
      "resize_dhcp_option realloc (length (enc pre) + 2) (Some (length (enc pre))) 0 (length data + 2) opts = (None, o1)"
      "\<not> opt_data (put_option tag data (length (enc pre) + 2) o1) (length (enc pre) + 1) \<le> 1 \<longrightarrow> opts' = put_option tag data (length (enc pre) + 2) o1"
      by simp_all
    then show ?thesis using assms(1) found(2-5) i(2-5) keeps_refl
      by (intro that [of opts pre post rest "[]" "[]" items irest o1]) simp_all
  qed
next
  case (missing items rest)
  have D255: "D = [255]" using D(1) missing(1) by simp
  have t: "terminal rest" using terminal_rest [OF assms(2)] missing(6) by simp
  have f: "find_dhcp_option_with_encap opts tag = (Inl ENOENT, None)"
    by (rule find_option_encap(3) [OF tag missing(2,3) t missing(4)])
  obtain en o0 o1 where k: "case (None :: nat option) of Some en' \<Rightarrow> en = en' \<and> o0 = opts | None \<Rightarrow> set_dhcp_option realloc opts (DHCP_ENCAPSULATOR tag) [255] = (Inr en, o0)"
      "off = (case (Inl ENOENT :: errno + nat) of Inr x \<Rightarrow> x | Inl _ \<Rightarrow> en + 2)"
      "resize_dhcp_option realloc off (Some en) (case (Inl ENOENT :: errno + nat) of Inr x \<Rightarrow> dhcp_option_len (opt_data opts) x | Inl _ \<Rightarrow> 0) (length data + 2) o0 = (None, o1)"
      "\<not> opt_data (put_option tag data off o1) (en + 1) \<le> 1 \<longrightarrow> opts' = put_option tag data off o1"
      by (rule set_encap_steps [OF set tag(3) assms(3) f])
  then have s: "set_dhcp_option realloc opts (ucast e) [255] = (Inr en, o0)"
    and r: "resize_dhcp_option realloc (en + 2) (Some en) 0 (length data + 2) o0 = (None, o1)"
      "\<not> opt_data (put_option tag data (en + 2) o1) (en + 1) \<le> 1 \<longrightarrow> opts' = put_option tag data (en + 2) o1"
    using tag(4) by simp_all
  note ss = set_simple [OF assms(1,2) tag(1) _ s]
  obtain pre post where u: "used_bytes o0 = enc (pre @ Opt e [255] # post) @ rest" "items_ok (pre @ Opt e [255] # post)" "lacks e pre" "en = length (enc pre)"
    using ss(6) missing(6) by auto
  have "value_set e [255] (used_bytes opts) (used_bytes o0)" "opts_fit o0" "keeps opts o0" using ss(1,2,4) by simp_all
  then show ?thesis using u r missing(5) D255
    by (intro that [of o0 pre post rest "[]" "[]" "[]" "[255]" o1]) simp_all
qed

lemma set_encap:
  assumes "opts_fit opts" "block_ok (used_bytes opts)" "data \<noteq> []"
    and tag: "plain e" "plain s" "DHCP_IS_ENCAP_OPT tag" "DHCP_ENCAPSULATOR tag = ucast e" "DHCP_ENCAPSULATED tag = ucast s"
    and D: "D = (case tag_value e (used_bytes opts) of Some D \<Rightarrow> D | None \<Rightarrow> [255])" "tag_value s D \<noteq> None \<or> end_marked D"
    and set: "set_dhcp_option realloc opts tag data = (Inr off, opts')"
  shows "opts_fit opts' \<and> keeps opts opts' \<and> (\<exists>D'. value_set s data D D' \<and> value_set e D' (used_bytes opts) (used_bytes opts'))"
proof -
  have ut: "ucast tag = s"
  proof -
    have "ucast (tag AND 0xff) = s" using tag(5) by (simp add: DHCP_ENCAPSULATED_def)
    moreover have "ucast (tag AND 0xff) = (ucast tag :: u8)"
    proof (rule bit_word_eqI)
      fix n assume "n < LENGTH(8)"
      have m: "(0xff :: u32) = mask 8" by (simp add: mask_eq_exp_minus_1)
      show "bit (ucast (tag AND 0xff) :: u8) n \<longleftrightarrow> bit (ucast tag :: u8) n" unfolding m using \<open>n < LENGTH(8)\<close> by (simp add: bit_simps)
    qed
    ultimately show ?thesis by simp
  qed
  obtain pre post rest ipre old ipost irest o0 o1 where o0: "opts_fit o0" "used_bytes o0 = enc (pre @ Opt e D # post) @ rest"
      "items_ok (pre @ Opt e D # post)" "lacks e pre" "parse_items rest = ([], rest)"
    and d: "D = enc (ipre @ old @ ipost) @ irest" "items_ok (ipre @ old @ ipost)" "lacks s ipre" "parse_items irest = ([], irest)"
      "old = [] \<and> lacks s ipost \<or> (\<exists>d. old = [Opt s d])"
    and vs: "used_bytes o0 = used_bytes opts \<or> value_set e D (used_bytes opts) (used_bytes o0)" and k: "keeps opts o0"
    and r: "resize_dhcp_option realloc (length (enc pre) + 2 + length (enc ipre)) (Some (length (enc pre))) (length (enc old)) (length data + 2) o0 = (None, o1)"
    and o': "\<not> opt_data (put_option tag data (length (enc pre) + 2 + length (enc ipre)) o1) (length (enc pre) + 1) \<le> 1 \<longrightarrow>
        opts' = put_option tag data (length (enc pre) + 2 + length (enc ipre)) o1"
    by (rule set_encap_found [OF assms])
  let ?D = "enc ipre @ entry tag data @ enc ipost @ irest"
  note pl = encap_place [OF o0(1-3) d(1) assms(3) r refl refl]
  have D': "?D = enc (ipre @ Opt s data # ipost) @ irest" using assms(3) by (simp add: entry_def ut)
  have "unat (of_nat (length ?D) :: u8) = length ?D" using pl(3) by (intro unat_of_nat_u8) simp
  moreover have "1 < length ?D" using assms(3) by (simp add: entry_def)
  ultimately have "\<not> (of_nat (length ?D) :: u8) \<le> 1" unfolding word_le_nat_alt by simp
  then have eq: "opts' = put_option tag data (length (enc pre) + 2 + length (enc ipre)) o1" using o' pl(5) by simp
  have "value_set s data D ?D" unfolding D' d(1) using d(2-5) pl(4) tag(2) by (intro value_setI) auto
  moreover have "value_set e ?D (enc (pre @ [Opt e D] @ post) @ rest) (enc (pre @ Opt e ?D # post) @ rest)"
    using o0 pl(3) tag(1) by (intro value_setI) auto
  then have "value_set e ?D (used_bytes o0) (used_bytes opts')" unfolding eq pl(1) o0(2) by simp
  then have "value_set e ?D (used_bytes opts) (used_bytes opts')" using vs value_set_trans by auto
  ultimately show ?thesis using pl(2) eq keeps_trans [OF k pl(6)] by blast
qed

lemma store_value:
  assumes "opts_fit opts" "block_ok (used_bytes opts)" "valid_tag tag" "safe_tag tag (used_bytes opts)" "data \<noteq> []"
    and "dhcpopt_store realloc opts tag data = (None, opts')"
  shows "opts_fit opts' \<and> keeps opts opts' \<and> stored tag data (used_bytes opts) (used_bytes opts')"
proof -
  obtain off where s: "set_dhcp_option realloc opts tag data = (Inr off, opts')"
    using assms(6) by (auto simp: dhcpopt_store_def split: prod.splits sum.splits)
  from assms(3) show ?thesis
  proof (cases rule: valid_tag_cases)
    case (Simple t)
    then show ?thesis using set_simple(1,2,4) [OF assms(1,2) Simple(1) assms(5)] s stored_simple [OF _ Simple(1) assms(2)] by auto
  next
    case (Encap e s')
    let ?D = "case tag_value e (used_bytes opts) of Some D \<Rightarrow> D | None \<Rightarrow> [255]"
    have "tag_value s' ?D \<noteq> None \<or> end_marked ?D"
      using assms(4) Encap by (auto simp: safe_tag_def end_marked_def split: option.splits)
    from set_encap [OF assms(1,2,5) Encap refl this s] stored_encap [OF _ _ assms(2) Encap refl] show ?thesis by blast
  qed
qed

end

section \<open>Blocks without reallocation\<close>

lemma resize_room:
  assumes "opts_fit opts" "off + old \<le> used_len opts" "resize_dhcp_option dhcpopt_no_realloc off encap old new opts = (r, opts')"
    and "\<forall>en. encap = Some en \<longrightarrow> old \<le> unat (opt_data opts (en + 1))"
  shows "r \<noteq> None \<longleftrightarrow> 255 < new \<or> alloc_len opts < used_len opts + new - old \<or> (\<exists>en. encap = Some en \<and> 255 < unat (opt_data opts (en + 1)) + new - old)"
    "r \<noteq> None \<Longrightarrow> r = Some ENOSPC \<and> opts' = opts"
proof -
  have "(r \<noteq> None \<longleftrightarrow> 255 < new \<or> alloc_len opts < used_len opts + new - old \<or> (\<exists>en. encap = Some en \<and> 255 < unat (opt_data opts (en + 1)) + new - old)) \<and>
      (r \<noteq> None \<longrightarrow> r = Some ENOSPC \<and> opts' = opts)"
  proof (cases "255 < new")
    case False
    then have sd: "size_diff (used_len opts + new) old = used_len opts + new - old" using assms(1,2) by (intro size_diff_eq) (auto simp: opts_fit_def)
    have se: "size_diff (unat (opt_data opts (en + 1)) + new) old = unat (opt_data opts (en + 1)) + new - old" if "encap = Some en" for en
      using assms(4) that False unat_u8_less [of "opt_data opts (en + 1)"] by (intro size_diff_eq) auto
    show ?thesis using assms(3) False se unfolding resize_dhcp_option_def sd Let_def
      by (auto simp: DHCP_MAX_LEN_def expand_options_def update_encapsulator_def dhcpopt_no_realloc_def Let_def
          split: if_splits option.splits)
  qed (use assms(3) in \<open>auto simp: resize_dhcp_option_def DHCP_MAX_LEN_def\<close>)
  then show "r \<noteq> None \<longleftrightarrow> 255 < new \<or> alloc_len opts < used_len opts + new - old \<or> (\<exists>en. encap = Some en \<and> 255 < unat (opt_data opts (en + 1)) + new - old)"
    "r \<noteq> None \<Longrightarrow> r = Some ENOSPC \<and> opts' = opts" by blast+
qed

text \<open>
  When there is no room for a value: in the option, in the block, where the new value takes the place of the former one, or in the encapsulating
  option.  A new encapsulating option takes three bytes, an end marker included.
\<close>

definition no_room :: "u32 \<Rightarrow> bytes \<Rightarrow> 'a dhcp_options_scheme \<Rightarrow> bool" where
  "no_room tag data opts \<longleftrightarrow>
     (let new = length data + 2;
          old = (case option_value tag (used_bytes opts) of Some d \<Rightarrow> length d + 2 | None \<Rightarrow> 0)
      in 255 < new \<or>
         (if DHCP_IS_ENCAP_OPT tag then
            (case tag_value (ucast (DHCP_ENCAPSULATOR tag)) (used_bytes opts) of
               Some D \<Rightarrow> alloc_len opts < used_len opts + new - old \<or> 255 < length D + new - old
             | None \<Rightarrow> alloc_len opts < used_len opts + 3 + new \<or> 255 < 1 + new)
          else alloc_len opts < used_len opts + new - old))"

lemma set_simple_room:
  assumes "opts_fit opts" "block_ok (used_bytes opts)" "plain t" "data \<noteq> []"
    and "set_dhcp_option dhcpopt_no_realloc opts (ucast t) data = (r, opts')"
  shows "isl r \<longleftrightarrow> 253 < length data \<or>
      alloc_len opts < used_len opts + (length data + 2) - (case tag_value t (used_bytes opts) of Some d \<Rightarrow> length d + 2 | None \<Rightarrow> 0)"
    "isl r \<Longrightarrow> r = Inl ENOSPC \<and> opts' = opts"
proof -
  let ?old = "case tag_value t (used_bytes opts) of Some d \<Rightarrow> length d + 2 | None \<Rightarrow> 0"
  have "\<exists>off x o1. resize_dhcp_option dhcpopt_no_realloc off None ?old (length data + 2) opts = (x, o1) \<and> off + ?old \<le> used_len opts \<and>
      (case x of Some e \<Rightarrow> r = Inl e \<and> opts' = o1 | None \<Rightarrow> \<not> isl r)"
  proof (cases rule: tag_cases [of t "used_bytes opts"])
    case (found d pre post rest)
    have f: "find_dhcp_option_with_encap opts (ucast t) = (Inr (length (enc pre)), None)"
      by (rule find_option_simple(1) [OF assms(3) found(2-4)])
    have len: "dhcp_option_len (opt_data opts) (length (enc pre)) = length d + 2"
      using option_len_item [of "opt_data opts" "length (enc pre)" "Opt t d"] holds_at_used [of opts] found(2,3) by simp
    have "length (enc pre) + (length d + 2) \<le> used_len opts" using arg_cong [OF found(2), of length] by simp
    then show ?thesis using assms(4,5) plain_encap(4) [OF assms(3)] found(1)
      by (intro exI [of _ "length (enc pre)"])
        (auto simp: set_dhcp_option.simps [of dhcpopt_no_realloc opts "ucast t" data] f len Let_def DHCP_OPTION_HEADER_LEN_def
          split: prod.splits option.splits)
  next
    case (missing items rest)
    have t: "terminal rest" using terminal_rest [OF assms(2)] missing(6) by simp
    have f: "find_dhcp_option_with_encap opts (ucast t) = (Inl ENOENT, None)"
      by (rule find_option_simple(2) [OF assms(3) missing(2,3) t missing(4)])
    note c = find_option_simple(3) [OF assms(3) missing(2,3) t]
    have "length (enc items) + 0 \<le> used_len opts" using arg_cong [OF missing(2), of length] by simp
    then show ?thesis using assms(4,5) plain_encap(4) [OF assms(3)] missing(1)
      by (intro exI [of _ "length (enc items)"])
        (auto simp: set_dhcp_option.simps [of dhcpopt_no_realloc opts "ucast t" data] f c Let_def DHCP_OPTION_HEADER_LEN_def
          split: prod.splits option.splits)
  qed
  then obtain off x o1 where x: "resize_dhcp_option dhcpopt_no_realloc off None ?old (length data + 2) opts = (x, o1)" "off + ?old \<le> used_len opts"
    "case x of Some e \<Rightarrow> r = Inl e \<and> opts' = o1 | None \<Rightarrow> \<not> isl r" by blast
  note rr = resize_room [OF assms(1) x(2,1)]
  have "isl r \<longleftrightarrow> x \<noteq> None" using x(3) by (auto split: option.splits)
  then show "isl r \<longleftrightarrow> 253 < length data \<or> alloc_len opts < used_len opts + (length data + 2) - ?old"
    "isl r \<Longrightarrow> r = Inl ENOSPC \<and> opts' = opts" using rr x(3) by auto
qed

text \<open>How a store into an encapsulating option ends: it fails with the new encapsulating option, or with the room for the value, or it succeeds.\<close>

lemma set_encap_result:
  assumes "set_dhcp_option realloc opts tag data = (r, opts')" "DHCP_IS_ENCAP_OPT tag" "data \<noteq> []"
    and f: "find_dhcp_option_with_encap opts tag = (found, encap)"
  obtains (encapsulator) err where "encap = None" "set_dhcp_option realloc opts (DHCP_ENCAPSULATOR tag) [255] = (Inl err, opts')" "r = Inl err"
  | (room) en o0 x o1 where "case encap of Some en' \<Rightarrow> en = en' \<and> o0 = opts | None \<Rightarrow> set_dhcp_option realloc opts (DHCP_ENCAPSULATOR tag) [255] = (Inr en, o0)"
    "resize_dhcp_option realloc (case found of Inr x \<Rightarrow> x | Inl _ \<Rightarrow> en + 2) (Some en)
       (case found of Inr x \<Rightarrow> dhcp_option_len (opt_data opts) x | Inl _ \<Rightarrow> 0) (length data + 2) o0 = (x, o1)"
    "case x of Some err \<Rightarrow> r = Inl err \<and> opts' = o1 | None \<Rightarrow> \<not> isl r"
proof -
  have e: "DHCP_ENCAPSULATOR tag \<noteq> 0" "tag \<noteq> DHCP_PAD" using assms(2) plain_encap(5) by (auto simp: DHCP_IS_ENCAP_OPT_def)
  have "ucast DHCP_END = (255 :: u8)" by (simp add: DHCP_END_def)
  then show ?thesis using assms(1,3) e that
    by (subst (asm) set_dhcp_option.simps)
      (auto simp: f Let_def DHCP_OPTION_HEADER_LEN_def split: option.splits prod.splits sum.splits if_splits)
qed

lemma set_encap_room_found:
  assumes "opts_fit opts" "data \<noteq> []"
    and tag: "plain e" "plain s" "DHCP_IS_ENCAP_OPT tag" "DHCP_ENCAPSULATOR tag = ucast e" "DHCP_ENCAPSULATED tag = ucast s"
    and safe: "safe_tag tag (used_bytes opts)"
    and D: "tag_value e (used_bytes opts) = Some D"
    and set: "set_dhcp_option dhcpopt_no_realloc opts tag data = (r, opts')"
  shows "(isl r \<longleftrightarrow> no_room tag data opts) \<and> (isl r \<longrightarrow> r = Inl ENOSPC \<and> opts' = opts)"
proof (cases rule: tag_cases [of e "used_bytes opts"])
  case (found d pre post rest)
  have "d = D" using D found(1) by simp
  note found = found [unfolded \<open>d = D\<close>]
  let ?old = "case tag_value s D of Some d \<Rightarrow> length d + 2 | None \<Rightarrow> 0"
  have len: "used_len opts = length (enc pre) + 2 + length D + length (enc post) + length rest" using arg_cong [OF found(2), of length] by simp
  have enl: "unat (opt_data opts (length (enc pre) + 1)) = length D"
    using holds_at_used [of opts] found(3) unfolding found(2) by (auto simp: unat_of_nat_u8)
  have "\<exists>off x o1. resize_dhcp_option dhcpopt_no_realloc off (Some (length (enc pre))) ?old (length data + 2) opts = (x, o1) \<and>
      off + ?old \<le> used_len opts \<and> ?old \<le> length D \<and> (case x of Some err \<Rightarrow> r = Inl err \<and> opts' = o1 | None \<Rightarrow> \<not> isl r)"
  proof (cases rule: tag_cases [of s D])
    case i: (found d ipre ipost irest)
    let ?off = "length (enc pre) + 2 + length (enc ipre)"
    have f: "find_dhcp_option_with_encap opts tag = (Inr ?off, Some (length (enc pre)))"
      by (rule find_option_encap(1) [OF tag found(2-4) i(2-4)])
    have "holds_at (opt_data opts) ?off (enc_item (Opt s d))"
      using holds_at_used [of opts] unfolding found(2) i(2) by (simp add: add_ac)
    then have "dhcp_option_len (opt_data opts) ?off = length d + 2"
      using option_len_item [of "opt_data opts" ?off "Opt s d"] i(3) by simp
    moreover have "length D = length (enc ipre) + (length d + 2) + length (enc ipost) + length irest" using arg_cong [OF i(2), of length] by simp
    ultimately show ?thesis using len i(1)
      by (cases rule: set_encap_result [OF set tag(3) assms(2) f]) (auto intro!: exI [of _ ?off])
  next
    case i: (missing items irest)
    have t: "irest \<noteq> []" "terminal irest" using safe found(1) i(1,6) tag by (auto simp: safe_tag_def end_marked_def terminal_def)
    have f: "find_dhcp_option_with_encap opts tag = (Inl ENOENT, Some (length (enc pre)))"
      by (rule find_option_encap(2) [OF tag found(2-4) i(2,3) t i(4)])
    show ?thesis using len i(1)
      by (cases rule: set_encap_result [OF set tag(3) assms(2) f]) (auto intro!: exI [of _ "length (enc pre) + 2"])
  qed
  then obtain off x o1 where x: "resize_dhcp_option dhcpopt_no_realloc off (Some (length (enc pre))) ?old (length data + 2) opts = (x, o1)"
    "off + ?old \<le> used_len opts" "?old \<le> length D" "case x of Some err \<Rightarrow> r = Inl err \<and> opts' = o1 | None \<Rightarrow> \<not> isl r" by blast
  note rr = resize_room [OF assms(1) x(2,1)]
  have v: "option_value tag (used_bytes opts) = tag_value s D" using tag D by (simp add: option_value_def)
  have "isl r \<longleftrightarrow> x \<noteq> None" using x(4) by (auto split: option.splits)
  moreover have "x \<noteq> None \<longleftrightarrow> no_room tag data opts" using rr(1) x(3) enl D tag(3,4) unfolding no_room_def Let_def v by simp
  moreover have "x \<noteq> None \<longrightarrow> r = Inl ENOSPC \<and> opts' = opts" using rr(2) x(3,4) enl by auto
  ultimately show ?thesis by blast
next
  case (missing items rest)
  from missing(1) D show ?thesis by simp
qed

lemma set_encap_room_missing:
  assumes "opts_fit opts" "block_ok (used_bytes opts)" "data \<noteq> []"
    and tag: "plain e" "plain s" "DHCP_IS_ENCAP_OPT tag" "DHCP_ENCAPSULATOR tag = ucast e" "DHCP_ENCAPSULATED tag = ucast s"
    and D: "tag_value e (used_bytes opts) = None"
    and set: "set_dhcp_option dhcpopt_no_realloc opts tag data = (r, opts')"
  shows "(isl r \<longleftrightarrow> no_room tag data opts) \<and> (isl r \<longrightarrow> r = Inl ENOSPC \<and> (opts' = opts \<or> opts_fit opts' \<and>
    memory_kept opts opts' \<and> value_set e [255] (used_bytes opts) (used_bytes opts')))"
proof (cases rule: tag_cases [of e "used_bytes opts"])
  case (missing items rest)
  have t: "terminal rest" using terminal_rest [OF assms(2)] missing(6) by simp
  have f: "find_dhcp_option_with_encap opts tag = (Inl ENOENT, None)"
    by (rule find_option_encap(3) [OF tag missing(2,3) t missing(4)])
  have nr: "no_room tag data opts \<longleftrightarrow> 253 < length data \<or> alloc_len opts < used_len opts + 3 + (length data + 2) \<or> 255 < 1 + (length data + 2)"
    using D tag(3,4) by (auto simp: no_room_def)
  show ?thesis
  proof (cases rule: set_encap_result [OF set tag(3) assms(3) f])
    case (1 err)
    then show ?thesis using set_simple_room [OF assms(1,2) tag(1) _ 1(2) [unfolded tag(4)]] D nr by auto
  next
    case (2 en o0 x o1)
    then have s: "set_dhcp_option dhcpopt_no_realloc opts (ucast e) [255] = (Inr en, o0)"
      and r: "resize_dhcp_option dhcpopt_no_realloc (en + 2) (Some en) 0 (length data + 2) o0 = (x, o1)" using tag(4) by simp_all
    note ss = nr.set_simple [OF assms(1,2) tag(1) _ s]
    obtain pre post where u: "used_bytes o0 = enc (pre @ Opt e [255] # post) @ rest" "en = length (enc pre)"
      using ss(6) missing(6) by auto
    have ul: "en + 2 + 0 \<le> used_len o0" using arg_cong [OF u(1), of length] u(2) by simp
    have en: "opt_data o0 (en + 1) = 1" using holds_at_used [of o0] unfolding u by simp
    have al: "alloc_len o0 = alloc_len opts" "used_len o0 = used_len opts + 3" using ss(4,5) D by (simp_all add: memory_kept_def)
    have rr: "x \<noteq> None \<longleftrightarrow> no_room tag data opts" "x \<noteq> None \<longrightarrow> x = Some ENOSPC \<and> o1 = o0"
      using resize_room [OF ss(1) ul r] en al unfolding nr by simp_all
    have "isl r \<longleftrightarrow> x \<noteq> None" using 2(3) by (auto split: option.splits)
    then show ?thesis using rr 2(3) ss(1,2,4) by auto
  qed
next
  case (found d pre post rest)
  from found(1) D show ?thesis by simp
qed

text \<open>The result of a store: it fails exactly if there is no room.  A new encapsulating option may then stay behind, empty.\<close>

lemma store_room:
  assumes "opts_fit opts" "block_ok (used_bytes opts)" "valid_tag tag" "safe_tag tag (used_bytes opts)" "data \<noteq> []"
    and "dhcpopt_store dhcpopt_no_realloc opts tag data = (rc, opts')"
  shows "rc \<noteq> None \<longleftrightarrow> no_room tag data opts"
    "rc \<noteq> None \<Longrightarrow> rc = Some ENOSPC \<and> (opts' = opts \<or> (\<exists>en. DHCP_ENCAPSULATOR tag = ucast en \<and> DHCP_IS_ENCAP_OPT tag \<and>
      tag_value en (used_bytes opts) = None \<and> opts_fit opts' \<and> memory_kept opts opts' \<and> value_set en [255] (used_bytes opts) (used_bytes opts')))"
proof -
  obtain r where s: "set_dhcp_option dhcpopt_no_realloc opts tag data = (r, opts')" "rc = (case r of Inl e \<Rightarrow> Some e | Inr _ \<Rightarrow> None)"
    using assms(6) by (auto simp: dhcpopt_store_def split: prod.splits sum.splits)
  have "(isl r \<longleftrightarrow> no_room tag data opts) \<and> (isl r \<longrightarrow> r = Inl ENOSPC \<and> (opts' = opts \<or> (\<exists>en. DHCP_ENCAPSULATOR tag = ucast en \<and> DHCP_IS_ENCAP_OPT tag \<and>
      tag_value en (used_bytes opts) = None \<and> opts_fit opts' \<and> memory_kept opts opts' \<and> value_set en [255] (used_bytes opts) (used_bytes opts'))))"
    using assms(3)
  proof (cases rule: valid_tag_cases)
    case (Simple t)
    have v: "option_value tag (used_bytes opts) = tag_value t (used_bytes opts)" using Simple by (simp add: option_value_def)
    show ?thesis using set_simple_room [OF assms(1,2) Simple(1) assms(5) s(1) [unfolded Simple(2)]] Simple(3) unfolding no_room_def Let_def v by auto
  next
    case (Encap en s')
    then show ?thesis
      using set_encap_room_missing [OF assms(1,2,5) Encap _ s(1)] set_encap_room_found [OF assms(1,5) Encap assms(4) _ s(1)]
      by (cases "tag_value en (used_bytes opts)") auto
  qed
  moreover have "rc \<noteq> None \<longleftrightarrow> isl r" using s(2) by (cases r) simp_all
  ultimately show "rc \<noteq> None \<longleftrightarrow> no_room tag data opts"
    "rc \<noteq> None \<Longrightarrow> rc = Some ENOSPC \<and> (opts' = opts \<or> (\<exists>en. DHCP_ENCAPSULATOR tag = ucast en \<and> DHCP_IS_ENCAP_OPT tag \<and>
      tag_value en (used_bytes opts) = None \<and> opts_fit opts' \<and> memory_kept opts opts' \<and> value_set en [255] (used_bytes opts) (used_bytes opts')))"
    using s(2) by auto
qed

section \<open>A new block\<close>

lemma used_loop_bounds: "used \<le> offset \<Longrightarrow> used \<le> used_loop m offset remaining used \<and> used_loop m offset remaining used \<le> offset + remaining"
proof (induction m offset remaining used rule: used_loop.induct)
  case (1 m offset remaining used)
  show ?case
  proof (cases "remaining = 0 \<or> remaining < dhcp_option_len m offset")
    case True
    then show ?thesis using 1(2) by (subst (1 2) used_loop.simps) (auto simp: Let_def)
  next
    case False
    then show ?thesis using 1 by (subst (1 2) used_loop.simps) (auto simp: Let_def)
  qed
qed

lemma block_ok_append:
  assumes "block_ok xs" "block_ok ys"
  shows "block_ok (xs @ ys)"
proof -
  obtain items rest where b: "xs = enc items @ rest" "items_ok items" "rest = snd (parse_items xs)" by (rule block_cases [of xs])
  obtain items' rest' where b': "ys = enc items' @ rest'" "items_ok items'" "parse_items rest' = ([], rest')" "rest' = snd (parse_items ys)"
    by (rule block_cases [of ys])
  have t: "terminal rest" "terminal rest'" using terminal_rest assms b(3) b'(4) by simp_all
  show ?thesis
  proof (cases rest)
    case Nil
    then have "xs @ ys = enc (items @ items') @ rest'" using b(1) b'(1) by simp
    moreover have "parse_items (enc (items @ items') @ rest') = (items @ items', rest')"
      using b(2) b'(2,3) by (intro parse_items_enc) (auto simp: items_ok_def)
    ultimately show ?thesis using t(2) unfolding block_ok_def end_marked_def terminal_def by auto
  next
    case (Cons c cs)
    then have "parse_items (enc items @ rest @ ys) = (items, rest @ ys)"
      using t(1) b(2) by (intro parse_items_enc parse_terminal) (auto simp: terminal_def items_ok_def)
    moreover have "xs @ ys = enc items @ rest @ ys" using b(1) by simp
    ultimately show ?thesis using t(1) Cons unfolding block_ok_def end_marked_def terminal_def by simp
  qed
qed

lemma block_ok_option: "block_ok (map m [off..<off + dhcp_option_len m off])"
proof -
  show ?thesis
  proof (cases "m off = 255 \<or> m off = 0")
    case True
    then have "dhcp_option_len m off = 1" by (auto simp: dhcp_option_len_def)
    then show ?thesis using True by (auto simp: block_ok_def end_marked_def)
  next
    case False
    let ?n = "unat (m (Suc off))"
    have n: "dhcp_option_len m off = ?n + 2" using False by (simp add: dhcp_option_len_def DHCP_OPTION_HEADER_LEN_def)
    have "map m [off..<off + (?n + 2)] = enc [Opt (m off) (map m [off + 2..<off + 2 + ?n])] @ []"
      by (simp add: upt_conv_Cons del: upt_Suc)
    moreover have "parse_items (enc [Opt (m off) (map m [off + 2..<off + 2 + ?n])] @ []) = ([Opt (m off) (map m [off + 2..<off + 2 + ?n])], [])"
      using False unat_u8_less [of "m (Suc off)"] by (intro parse_items_enc) auto
    ultimately show ?thesis unfolding n block_ok_def by simp
  qed
qed

lemma used_loop_block:
  "block_ok (map m [0..<offset]) \<Longrightarrow> block_ok (map m [0..<used]) \<Longrightarrow> block_ok (map m [0..<used_loop m offset remaining used])"
proof (induction m offset remaining used rule: used_loop.induct)
  case (1 m offset remaining used)
  let ?l = "dhcp_option_len m offset"
  show ?case
  proof (cases "remaining = 0 \<or> remaining < ?l")
    case True
    then show ?thesis using 1(3) by (subst used_loop.simps) (auto simp: Let_def)
  next
    case False
    have "map m [0..<offset + ?l] = map m [0..<offset] @ map m [offset..<offset + ?l]" by (simp add: upt_add_eq_append [of 0])
    then have "block_ok (map m [0..<offset + ?l])" using block_ok_append [OF 1(2) block_ok_option] by simp
    then show ?thesis using 1 False by (subst used_loop.simps) (auto simp: Let_def)
  qed
qed

lemma update_used_ok:
  assumes "alloc_len opts < 2 ^ 31"
  shows "opts_fit (dhcpopt_update_used_len opts) \<and> block_ok (used_bytes (dhcpopt_update_used_len opts))"
proof -
  have "block_ok []" by (simp add: block_ok_def)
  then show ?thesis using assms used_loop_bounds [of 0 0 "opt_data opts" "alloc_len opts"] used_loop_block [of "opt_data opts" 0 0 "alloc_len opts"]
    by (simp add: opts_fit_def dhcpopt_update_used_len_def used_bytes_def)
qed

lemma init_ok: "n < 2 ^ 31 \<Longrightarrow> opts_fit (dhcpopt_init opts m n) \<and> block_ok (used_bytes (dhcpopt_init opts m n))"
  unfolding dhcpopt_init_def by (rule update_used_ok) simp

section \<open>Storing and fetching\<close>

lemma stored_fetch:
  assumes "stored tag data (used_bytes opts) (used_bytes opts')" "block_ok (used_bytes opts)" "valid_tag tag"
  shows "dhcpopt_fetch opts' tag buf = (Inr (length data), take (length buf) data @ drop (length data) buf)"
    "valid_tag t \<Longrightarrow> safe_tag t (used_bytes opts) \<Longrightarrow> unrelated tag t \<Longrightarrow>
      dhcpopt_fetch opts' t buf = dhcpopt_fetch opts t buf \<and> safe_tag t (used_bytes opts')"
proof -
  have s: "block_ok (used_bytes opts')" "option_value tag (used_bytes opts') = Some data" "safe_tag tag (used_bytes opts')"
    using assms(1) by (simp_all add: stored_def)
  then show "dhcpopt_fetch opts' tag buf = (Inr (length data), take (length buf) data @ drop (length data) buf)"
    using fetch_value [OF s(1) assms(3) s(3)] by simp
  assume t: "valid_tag t" "safe_tag t (used_bytes opts)" "unrelated tag t"
  then have "option_value t (used_bytes opts') = option_value t (used_bytes opts)" "safe_tag t (used_bytes opts')"
    using assms(1) by (simp_all add: stored_def)
  then show "dhcpopt_fetch opts' t buf = dhcpopt_fetch opts t buf \<and> safe_tag t (used_bytes opts')"
    using fetch_value [OF s(1) t(1)] fetch_value [OF assms(2) t(1,2)] by simp
qed

text \<open>A new and empty encapsulating option leaves all other values as they are.\<close>

lemma new_encapsulator:
  assumes "value_set e [255] xs ys" "tag_value e xs = None" "valid_tag t" "safe_tag t xs" "t \<noteq> ucast e"
  shows "option_value t ys = option_value t xs \<and> safe_tag t ys"
proof -
  have v: "tag_value s [255] = None" "end_marked [255]" for s by (simp_all add: tag_value_def end_marked_def)
  from assms(3) show ?thesis
  proof (cases rule: valid_tag_cases)
    case (Simple t')
    then show ?thesis using assms by (auto simp: option_value_def safe_tag_def value_set_def)
  next
    case (Encap e' s')
    then show ?thesis using assms(1,2,4) v by (cases "e' = e") (auto simp: option_value_def safe_tag_def value_set_def)
  qed
qed

text \<open>
  C39.  Options are stored and fetched back in a block that cannot be reallocated, such as a DHCP packet.  Take a well-formed block, an option or
  encapsulated option whose search stays inside the encapsulating option (\<open>safe_tag\<close>), and a non-empty value.  The store fails exactly if there
  is no room, in the option, in the block or in the encapsulating option (\<open>no_room\<close>), and then with \<open>ENOSPC\<close>.  After a successful store,
  fetching the option returns the value and its length, cut off at the length of the buffer.  After a failed one the option has its former
  value, and the block is what it was, but for an empty encapsulating option that may have been added where there was none.  In both cases every
  unrelated option whose search stays inside keeps its value, the block stays well-formed, and no memory behind the block is written.  (Every
  block is well-formed after \<open>dhcpopt_init\<close>, whatever the memory holds: \<open>init_ok\<close>.)
\<close>

theorem dhcpopt_store_fetch:
  assumes "opts_fit opts" "block_ok (used_bytes opts)" "valid_tag tag" "safe_tag tag (used_bytes opts)" "data \<noteq> []"
    and "dhcpopt_store dhcpopt_no_realloc opts tag data = (rc, opts')"
  shows "rc = (if no_room tag data opts then Some ENOSPC else None) \<and>
    (case rc of
      None \<Rightarrow> dhcpopt_fetch opts' tag buf = (Inr (length data), take (length buf) data @ drop (length data) buf)
    | Some e \<Rightarrow> dhcpopt_fetch opts' tag buf = dhcpopt_fetch opts tag buf \<and>
        (opts' = opts \<or> DHCP_IS_ENCAP_OPT tag \<and> option_value (DHCP_ENCAPSULATOR tag) (used_bytes opts) = None \<and>
          option_value (DHCP_ENCAPSULATOR tag) (used_bytes opts') = Some [255])) \<and>
    (\<forall>t. valid_tag t \<and> safe_tag t (used_bytes opts) \<and> unrelated tag t \<longrightarrow>
      dhcpopt_fetch opts' t buf = dhcpopt_fetch opts t buf \<and> safe_tag t (used_bytes opts')) \<and>
    opts_fit opts' \<and> block_ok (used_bytes opts') \<and> safe_tag tag (used_bytes opts') \<and> memory_kept opts opts'"
proof (cases rc)
  case None
  then have s: "opts_fit opts'" "memory_kept opts opts'" "stored tag data (used_bytes opts) (used_bytes opts')"
    using nr.store_value [OF assms(1-5)] assms(6) by simp_all
  then show ?thesis using None stored_fetch [OF s(3) assms(2,3)] store_room(1) [OF assms] by (simp add: stored_def)
next
  case (Some e)
  then have n: "no_room tag data opts" using store_room(1) [OF assms] by simp
  consider "e = ENOSPC" "opts' = opts"
    | en where "e = ENOSPC" "DHCP_ENCAPSULATOR tag = ucast en" "DHCP_IS_ENCAP_OPT tag" "tag_value en (used_bytes opts) = None"
      "opts_fit opts'" "memory_kept opts opts'" "value_set en [255] (used_bytes opts) (used_bytes opts')"
    using store_room(2) [OF assms] Some by auto
  then show ?thesis
  proof cases
    case 1
    then show ?thesis using Some n assms(1,2,4) by (simp add: memory_kept_def)
  next
    case (2 en)
    have b: "block_ok (used_bytes opts')" using value_set_end [OF 2(7)] assms(2) by simp
    have "dhcpopt_fetch opts' t buf = dhcpopt_fetch opts t buf \<and> safe_tag t (used_bytes opts')"
      if "valid_tag t" "safe_tag t (used_bytes opts)" "t \<noteq> ucast en" for t
      using new_encapsulator [OF 2(7,4) that] fetch_value [OF assms(2) that(1,2)] fetch_value [OF b that(1)] by simp
    moreover have "tag \<noteq> ucast en" using plain_encap(1) [OF 2(3)] by metis
    moreover have "option_value (ucast en) xs = tag_value en xs" for xs by (simp add: option_value_def plain_encap)
    ultimately show ?thesis using Some n 2 b assms(3,4) by (simp add: unrelated_def value_set_def)
  qed
qed

theorem dhcpopt_store_fetch_witness:
  "\<exists>opts'. dhcpopt_store dhcpopt_no_realloc \<lparr>opt_data = \<lambda>_. 0, used_len = 0, alloc_len = 7\<rparr> (DHCP_ENCAP_OPT 43 6) [1, 2] = (None, opts') \<and>
     dhcpopt_fetch opts' (DHCP_ENCAP_OPT 43 6) [9, 9, 9] = (Inr 2, [1, 2, 9])"
proof -
  let ?o = "\<lparr>opt_data = \<lambda>_. 0, used_len = 0, alloc_len = 7\<rparr> :: dhcp_options" and ?t = "DHCP_ENCAP_OPT 43 6"
  have t: "DHCP_ENCAPSULATOR ?t = 43" "DHCP_ENCAPSULATED ?t = 6"
    by (simp_all add: DHCP_ENCAPSULATOR_def DHCP_ENCAPSULATED_def DHCP_ENCAP_OPT_def)
  have u: "used_bytes ?o = []" by (simp add: used_bytes_def)
  have h: "opts_fit ?o" "block_ok (used_bytes ?o)" "valid_tag ?t" "safe_tag ?t (used_bytes ?o)" "[1, 2 :: u8] \<noteq> []" "\<not> no_room ?t [1, 2] ?o"
    unfolding u by (simp_all add: opts_fit_def block_ok_def valid_tag_def safe_tag_def no_room_def tag_value_def DHCP_IS_ENCAP_OPT_def t DHCP_MAX_OPTION_def u)
  show ?thesis using dhcpopt_store_fetch [OF h(1-5) surjective_pairing, of "[9, 9, 9]"] h(6)
    by (intro exI [of _ "snd (dhcpopt_store dhcpopt_no_realloc ?o ?t [1, 2])"]) (auto simp: prod_eq_iff split: option.splits)
qed

text \<open>
  The search for an encapsulated option reads on behind the encapsulating option: here option 43 holds a byte of padding, and the search for
  option 43.6 finds the empty option 6 that follows it.
\<close>

lemma search_leaves_encapsulator:
  "fst (find_dhcp_option_with_encap \<lparr>opt_data = \<lambda>i. [43, 1, 0, 6, 0] ! i, used_len = 5, alloc_len = 5\<rparr> (DHCP_ENCAP_OPT 43 6)) = Inr 3"
  by (simp add: find_dhcp_option_with_encap_def DHCP_PAD_def DHCP_ENCAP_OPT_def find_loop.simps dhcp_option_len_def DHCP_END_def DHCP_IS_ENCAP_OPT_def
      DHCP_ENCAPSULATOR_def DHCP_ENCAPSULATED_def DHCP_OPTION_HEADER_LEN_def Let_def)

end
