(* ===== verification/Nvo.thy ===== *)
theory Nvo
  imports Dhcpopts Malloc
begin

text \<open>
  Non-volatile stored options, \<open>core/nvo.c\<close>, on a non-volatile storage device, \<open>drivers/nvs/nvs.c\<close>.

  The methods of a storage device are functions on the state of the device; reading does not change it.  A block of stored options extends its
  options block: the first byte of its data is the checksum, and the options follow.  In the environment of a block are its device, the method
  that resizes it, if any, whether an allocation of memory succeeds, and what newly allocated memory holds.  No allocation is longer than the
  heap, and one of no bytes always succeeds.  The checksum byte of a new allocation is whatever the
  field held before.  A failed read leaves the block as it was, where the code may have read a part; the caller frees the block then.
\<close>

unbundle bit_operations_syntax

section \<open>Storage devices\<close>

record 'd nvs_device =
  word_len_log2 :: nat
  nvs_size :: u32
  nvs_block_size :: u32
  nvs_dev_read :: "u32 \<Rightarrow> nat \<Rightarrow> 'd \<Rightarrow> errno + bytes"
  nvs_dev_write :: "u32 \<Rightarrow> bytes \<Rightarrow> 'd \<Rightarrow> rc \<times> 'd"

definition nvs_frag_len :: "'d nvs_device \<Rightarrow> u32 \<Rightarrow> nat \<Rightarrow> nat" where
  "nvs_frag_len nvs address max_len =
     (if nvs_block_size nvs = 0 then max_len
      else
        (let frag_len = unat (push_bit (word_len_log2 nvs) (nvs_block_size nvs - (address AND (nvs_block_size nvs - 1))))
         in if max_len < frag_len then max_len else frag_len))"

text \<open>The loops do not end if the length up to the next block boundary is zero.\<close>

partial_function (option) nvs_read_loop :: "'d nvs_device \<Rightarrow> 'd \<Rightarrow> u32 \<Rightarrow> nat \<Rightarrow> bytes \<Rightarrow> (errno + bytes) option" where
  "nvs_read_loop nvs d address len data =
     (if len = 0 then Some (Inr data)
      else
        (let frag_len = nvs_frag_len nvs address len
         in case nvs_dev_read nvs address frag_len d of
              Inl e \<Rightarrow> Some (Inl e)
            | Inr frag \<Rightarrow> nvs_read_loop nvs d (address + of_nat (frag_len div 2 ^ word_len_log2 nvs)) (len - frag_len) (data @ frag)))"

definition nvs_read :: "'d nvs_device \<Rightarrow> 'd \<Rightarrow> u32 \<Rightarrow> nat \<Rightarrow> (errno + bytes) option" where
  "nvs_read nvs d address len = nvs_read_loop nvs d address len []"

definition nvs_verify :: "'d nvs_device \<Rightarrow> 'd \<Rightarrow> u32 \<Rightarrow> bytes \<Rightarrow> rc option" where
  "nvs_verify nvs d address data =
     (case nvs_read nvs d address (length data) of
        None \<Rightarrow> None
      | Some (Inl e) \<Rightarrow> Some (Some e)
      | Some (Inr read_data) \<Rightarrow> Some (if data \<noteq> read_data then Some EIO else None))"

partial_function (option) nvs_write :: "'d nvs_device \<Rightarrow> u32 \<Rightarrow> bytes \<Rightarrow> 'd \<Rightarrow> (rc \<times> 'd) option" where
  "nvs_write nvs address data d =
     (if data = [] then Some (None, d)
      else
        (let frag_len = nvs_frag_len nvs address (length data)
         in case nvs_dev_write nvs address (take frag_len data) d of
              (Some e, d) \<Rightarrow> Some (Some e, d)
            | (None, d) \<Rightarrow>
                (case nvs_verify nvs d address (take frag_len data) of
                   None \<Rightarrow> None
                 | Some (Some e) \<Rightarrow> Some (Some e, d)
                 | Some None \<Rightarrow> nvs_write nvs (address + of_nat (frag_len div 2 ^ word_len_log2 nvs)) (drop frag_len data) d)))"

section \<open>Blocks of stored options\<close>

record 'd nvo_block = dhcp_options +
  nvo_len :: nat
  nvo_sum :: u8
  nvo_allocs :: nat
  nvs_state :: 'd

record 'd nvo_env =
  nvo_nvs :: "'d nvs_device"
  nvo_address :: u32
  nvo_resize :: "(nat \<Rightarrow> 'd \<Rightarrow> rc \<times> 'd) option"
  realloc_ok :: "nat \<Rightarrow> bool"
  new_memory :: "nat \<Rightarrow> u8"

definition nvo_bytes :: "'d nvo_block \<Rightarrow> bytes" where
  "nvo_bytes nvo = (if nvo_len nvo = 0 then [] else nvo_sum nvo # map (opt_data nvo) [0..<nvo_len nvo - 1])"

definition nvo_checksum :: "'d nvo_block \<Rightarrow> u8" where
  "nvo_checksum nvo = fold (\<lambda>b sum. sum + b) (nvo_bytes nvo) 0"

definition nvo_realloc :: "'d nvo_env \<Rightarrow> nat \<Rightarrow> 'd nvo_block \<Rightarrow> rc \<times> 'd nvo_block" where
  "nvo_realloc env len nvo =
     (let ok = (len = 0 \<or> len \<le> unat HEAP_SIZE \<and> realloc_ok env (nvo_allocs nvo));
          nvo = nvo\<lparr>nvo_allocs := nvo_allocs nvo + 1\<rparr>
      in if \<not> ok then (Some ENOMEM, nvo)
         else
           (let nvo = nvo\<lparr>opt_data := (\<lambda>i. if i < alloc_len nvo \<and> i + 1 < len then opt_data nvo i else new_memory env i), nvo_len := len\<rparr>
            in if len \<noteq> 0 then (None, nvo\<lparr>alloc_len := len - 1\<rparr>)
               else (None, nvo\<lparr>used_len := 0, alloc_len := 0\<rparr>)))"

definition nvo_realloc_dhcpopt :: "'d nvo_env \<Rightarrow> 'd nvo_block \<Rightarrow> nat \<Rightarrow> rc \<times> 'd nvo_block" where
  "nvo_realloc_dhcpopt env nvo len =
     (case nvo_resize env of
        None \<Rightarrow> dhcpopt_no_realloc nvo len
      | Some resize \<Rightarrow>
          (let len = (if len \<noteq> 0 then len + 1 else len) in
           case resize len (nvs_state nvo) of
             (Some e, d) \<Rightarrow> (Some e, nvo\<lparr>nvs_state := d\<rparr>)
           | (None, d) \<Rightarrow> nvo_realloc env len (nvo\<lparr>nvs_state := d\<rparr>)))"

definition nvo_load :: "'d nvo_env \<Rightarrow> 'd nvo_block \<Rightarrow> (rc \<times> 'd nvo_block) option" where
  "nvo_load env nvo =
     (if nvo_len nvo = 0 then Some (None, nvo)
      else
        (case nvs_read (nvo_nvs env) (nvs_state nvo) (nvo_address env) (nvo_len nvo) of
           None \<Rightarrow> None
         | Some (Inl e) \<Rightarrow> Some (Some e, nvo)
         | Some (Inr data) \<Rightarrow>
             (let nvo = nvo\<lparr>nvo_sum := hd data, opt_data := memcpy (opt_data nvo) 0 (tl data)\<rparr>;
                  nvo = (if nvo_checksum nvo \<noteq> 0 \<or> opt_data nvo 0 = 0
                         then nvo\<lparr>nvo_sum := 0, opt_data := memset (opt_data nvo) 0 0 (nvo_len nvo - 1)\<rparr> else nvo)
              in Some (None, dhcpopt_update_used_len nvo))))"

definition nvo_save :: "'d nvo_env \<Rightarrow> 'd nvo_block \<Rightarrow> (rc \<times> 'd nvo_block) option" where
  "nvo_save env nvo =
     (let nvo = (if 0 < nvo_len nvo then nvo\<lparr>nvo_sum := nvo_sum nvo - nvo_checksum nvo\<rparr> else nvo)
      in map_option (\<lambda>(rc, d). (rc, nvo\<lparr>nvs_state := d\<rparr>)) (nvs_write (nvo_nvs env) (nvo_address env) (nvo_bytes nvo) (nvs_state nvo)))"

section \<open>The interface\<close>

definition nvo_applies :: "'s option \<Rightarrow> u32 \<Rightarrow> bool" where
  "nvo_applies scope tag \<longleftrightarrow> scope = None \<and> dhcpopt_applies tag"

definition nvo_store :: "'d nvo_env \<Rightarrow> 'd nvo_block \<Rightarrow> u32 \<Rightarrow> bytes \<Rightarrow> (rc \<times> 'd nvo_block) option" where
  "nvo_store env nvo tag data =
     (case dhcpopt_store (nvo_realloc_dhcpopt env) nvo tag data of
        (Some e, nvo) \<Rightarrow> Some (Some e, nvo)
      | (None, nvo) \<Rightarrow> nvo_save env nvo)"

definition nvo_fetch :: "'d nvo_block \<Rightarrow> u32 \<Rightarrow> bytes \<Rightarrow> (errno + nat) \<times> bytes" where
  "nvo_fetch nvo tag buf = dhcpopt_fetch nvo tag buf"

text \<open>The registration with the settings layer, which is not modelled, gives the status code \<open>reg\<close>.\<close>

definition nvo_init :: "'d nvo_env \<Rightarrow> nat \<Rightarrow> 'd nvo_block \<Rightarrow> 'd nvo_block" where
  "nvo_init env len nvo = dhcpopt_init (nvo\<lparr>nvo_len := len\<rparr>) (new_memory env) 0"

definition register_nvo :: "'d nvo_env \<Rightarrow> rc \<Rightarrow> 'd nvo_block \<Rightarrow> (rc \<times> 'd nvo_block) option" where
  "register_nvo env reg nvo =
     (case nvo_realloc env (nvo_len nvo) nvo of
        (Some e, nvo) \<Rightarrow> Some (Some e, nvo)
      | (None, nvo) \<Rightarrow>
          (case nvo_load env nvo of
             None \<Rightarrow> None
           | Some (Some e, nvo) \<Rightarrow> Some (Some e, snd (nvo_realloc env 0 nvo))
           | Some (None, nvo) \<Rightarrow>
               (case reg of
                  Some e \<Rightarrow> Some (Some e, snd (nvo_realloc env 0 nvo))
                | None \<Rightarrow> Some (None, nvo))))"

definition unregister_nvo :: "'d nvo_env \<Rightarrow> 'd nvo_block \<Rightarrow> 'd nvo_block" where
  "unregister_nvo env nvo = snd (nvo_realloc env 0 nvo)"

section \<open>Reallocation\<close>

definition layout_ok :: "'d nvo_block \<Rightarrow> bool" where
  "layout_ok nvo \<longleftrightarrow> alloc_len nvo = nvo_len nvo - 1 \<and> nvo_len nvo \<le> unat HEAP_SIZE"

definition layout_kept :: "'d nvo_block \<Rightarrow> 'd nvo_block \<Rightarrow> bool" where
  "layout_kept nvo nvo' \<longleftrightarrow> (layout_ok nvo \<longrightarrow> layout_ok nvo')"

interpretation nv: options_realloc "nvo_realloc_dhcpopt env" layout_kept for env :: "'d nvo_env"
proof (unfold_locales, goal_cases)
  case (1 opts n opts')
  have "unat HEAP_SIZE < 2 ^ 31" by (simp add: HEAP_SIZE_def)
  with 1 show ?case
    by (auto simp: nvo_realloc_dhcpopt_def nvo_realloc_def dhcpopt_no_realloc_def Let_def split: option.splits prod.splits if_splits)
next
  case (2 opts n e opts')
  then show ?case
    by (auto simp: nvo_realloc_dhcpopt_def nvo_realloc_def dhcpopt_no_realloc_def Let_def split: option.splits prod.splits if_splits)
next
  case (3 opts n r opts')
  then show ?case
    by (auto simp: nvo_realloc_dhcpopt_def nvo_realloc_def dhcpopt_no_realloc_def layout_kept_def layout_ok_def Let_def split: option.splits prod.splits if_splits)
qed (auto simp: layout_kept_def layout_ok_def)

section \<open>Reading and writing a device\<close>

text \<open>
  A device that stores what is written to it: \<open>cells\<close> gives its contents by byte.  Reads succeed; a write may fail, and then leaves anything.
\<close>

definition nvs_reliable :: "'d nvs_device \<Rightarrow> ('d \<Rightarrow> nat \<Rightarrow> u8) \<Rightarrow> bool" where
  "nvs_reliable nvs cells \<longleftrightarrow>
     (\<forall>d a n. nvs_dev_read nvs a n d = Inr (map (\<lambda>i. cells d (unat a * 2 ^ word_len_log2 nvs + i)) [0..<n])) \<and>
     (\<forall>d a bs d'. nvs_dev_write nvs a bs d = (None, d') \<longrightarrow> cells d' = memcpy (cells d) (unat a * 2 ^ word_len_log2 nvs) bs)"

text \<open>A block of the device is less than 4 GB long, and so is what is read or written.\<close>

definition nvs_in_range :: "'d nvs_device \<Rightarrow> u32 \<Rightarrow> nat \<Rightarrow> bool" where
  "nvs_in_range nvs address len \<longleftrightarrow> unat (nvs_block_size nvs) * 2 ^ word_len_log2 nvs < 2 ^ 32 \<and> unat address + len < 2 ^ 32"

lemma nvs_frag:
  assumes "nvs_in_range nvs address len" "0 < len" "f = nvs_frag_len nvs address len"
  shows "0 < f" "f \<le> len" "f = len \<or> 2 ^ word_len_log2 nvs dvd f"
proof -
  let ?w = "word_len_log2 nvs" and ?b = "nvs_block_size nvs"
  have "0 < f \<and> f \<le> len \<and> (f = len \<or> 2 ^ ?w dvd f)"
  proof (cases "?b = 0")
    case False
    let ?r = "?b - (address AND (?b - 1))"
    have "address AND (?b - 1) \<le> ?b - 1" by (rule word_and_le1)
    moreover have "?b - 1 < ?b" using False by (metis word_gt_0 measure_unat unat_mono word_less_nat_alt)
    ultimately have lt: "address AND (?b - 1) < ?b" by (rule order.strict_trans1)
    then have r: "0 < unat ?r" "unat ?r \<le> unat ?b" by (simp_all add: unat_sub_if' word_less_nat_alt)
    then have "unat ?r * 2 ^ ?w < 2 ^ 32" using assms(1) by (metis nvs_in_range_def mult_le_mono1 order.strict_trans1)
    then have "unat (push_bit ?w ?r) = unat ?r * 2 ^ ?w" unfolding unsigned_push_bit_eq by (simp add: push_bit_eq_mult take_bit_nat_eq_self)
    then show ?thesis using assms(2,3) False r(1) by (auto simp: nvs_frag_len_def Let_def)
  qed (use assms in \<open>auto simp: nvs_frag_len_def\<close>)
  then show "0 < f" "f \<le> len" "f = len \<or> 2 ^ ?w dvd f" by blast+
qed

lemma nvs_next:
  assumes "nvs_in_range nvs address len" "0 < len" "f = nvs_frag_len nvs address len" "f < len" "a = address + of_nat (f div 2 ^ word_len_log2 nvs)"
  shows "unat a * 2 ^ word_len_log2 nvs = unat address * 2 ^ word_len_log2 nvs + f" "nvs_in_range nvs a (len - f)"
proof -
  let ?w = "word_len_log2 nvs"
  have f: "2 ^ ?w dvd f" using nvs_frag(3) [OF assms(1-3)] assms(4) by simp
  have le: "f div 2 ^ ?w \<le> f" by simp
  have s: "unat address + f div 2 ^ ?w < 2 ^ 32" "f div 2 ^ ?w < 2 ^ 32" using assms(1,4) le unfolding nvs_in_range_def by linarith+
  then have a: "unat a = unat address + f div 2 ^ ?w" unfolding assms(5) by (simp add: unat_add_u32 unat_of_nat_small)
  then show "unat a * 2 ^ ?w = unat address * 2 ^ ?w + f" using f by (simp add: add_mult_distrib)
  show "nvs_in_range nvs a (len - f)" using assms(1,4) a le unfolding nvs_in_range_def by linarith
qed

lemma read_loop:
  assumes "nvs_reliable nvs cells" "nvs_in_range nvs address len"
  shows "nvs_read_loop nvs d address len data =
    Some (Inr (data @ map (\<lambda>i. cells d (unat address * 2 ^ word_len_log2 nvs + i)) [0..<len]))"
  using assms(2)
proof (induction len arbitrary: address data rule: less_induct)
  case (less len)
  let ?w = "word_len_log2 nvs" and ?f = "nvs_frag_len nvs address len"
  let ?a = "address + of_nat (?f div 2 ^ ?w)" and ?c = "\<lambda>i. cells d (unat address * 2 ^ ?w + i)"
  show ?case
  proof (cases "len = 0")
    case False
    note f = nvs_frag [OF less.prems _ refl]
    have step: "nvs_read_loop nvs d address len data = nvs_read_loop nvs d ?a (len - ?f) (data @ map ?c [0..<?f])"
      using False assms(1) by (subst nvs_read_loop.simps) (simp add: Let_def nvs_reliable_def)
    show ?thesis
    proof (cases "?f = len")
      case True
      then show ?thesis using step by (simp add: nvs_read_loop.simps)
    next
      case l: False
      then have n: "?f < len" using f(2) False by simp
      note nx = nvs_next [OF less.prems _ refl n refl]
      have "nvs_read_loop nvs d ?a (len - ?f) (data @ map ?c [0..<?f]) =
        Some (Inr ((data @ map ?c [0..<?f]) @ map (\<lambda>i. cells d (unat ?a * 2 ^ ?w + i)) [0..<len - ?f]))"
        using less.IH [of "len - ?f" ?a "data @ map ?c [0..<?f]"] nx(2) f(1) n False by simp
      also have "map (\<lambda>i. cells d (unat ?a * 2 ^ ?w + i)) [0..<len - ?f] = map ?c [?f..<len]"
        using nx(1) n False by (intro nth_equalityI) (auto simp: add_ac)
      also have "(data @ map ?c [0..<?f]) @ map ?c [?f..<len] = data @ map ?c [0..<len]"
        using n upt_add_eq_append [of 0 ?f "len - ?f"] by simp
      finally show ?thesis using step by simp
    qed
  qed (simp add: nvs_read_loop.simps)
qed

lemma nvs_read_cells:
  "nvs_reliable nvs cells \<Longrightarrow> nvs_in_range nvs address len \<Longrightarrow>
    nvs_read nvs d address len = Some (Inr (map (\<lambda>i. cells d (unat address * 2 ^ word_len_log2 nvs + i)) [0..<len]))"
  by (simp add: nvs_read_def read_loop)

lemma nvs_write_cells:
  assumes "nvs_reliable nvs cells" "nvs_in_range nvs address (length data)" "nvs_write nvs address data d = Some (None, d')"
  shows "cells d' = memcpy (cells d) (unat address * 2 ^ word_len_log2 nvs) data"
  using assms(2,3)
proof (induction "length data" arbitrary: address data d rule: less_induct)
  case less
  let ?w = "word_len_log2 nvs" and ?f = "nvs_frag_len nvs address (length data)"
  let ?a = "address + of_nat (?f div 2 ^ ?w)"
  show ?case
  proof (cases "data = []")
    case True
    then show ?thesis using less.prems(2) by (subst (asm) nvs_write.simps) (auto simp: memcpy_def fun_eq_iff)
  next
    case False
    then have pos: "0 < length data" by simp
    note f = nvs_frag [OF less.prems(1) pos refl]
    obtain d1 where w: "nvs_dev_write nvs address (take ?f data) d = (None, d1)" and r: "nvs_write nvs ?a (drop ?f data) d1 = Some (None, d')"
      using less.prems(2) False by (subst (asm) nvs_write.simps) (auto simp: Let_def split: prod.splits option.splits)
    have c1: "cells d1 = memcpy (cells d) (unat address * 2 ^ ?w) (take ?f data)" using assms(1) w by (auto simp: nvs_reliable_def)
    show ?thesis
    proof (cases "?f = length data")
      case True
      then show ?thesis using r c1 by (subst (asm) nvs_write.simps) simp
    next
      case l: False
      then have n: "?f < length data" using f(2) by simp
      note nx = nvs_next [OF less.prems(1) pos refl n refl]
      have "cells d' = memcpy (cells d1) (unat ?a * 2 ^ ?w) (drop ?f data)"
        using less.hyps [of "drop ?f data" ?a d1] nx(2) f(1) n r by simp
      then show ?thesis unfolding c1 nx(1) using n by (auto simp: memcpy_def fun_eq_iff min_def)
    qed
  qed
qed

section \<open>Settings survive a reboot\<close>

text \<open>The whole memory of a block is scanned for options again.  An option that was found is found again, with the same value.\<close>

lemma parse_append:
  assumes "items_ok items"
  shows "parse_items (enc items @ ys) = (items @ fst (parse_items ys), snd (parse_items ys))"
proof -
  obtain items' rest where b: "ys = enc items' @ rest" "items_ok items'" "parse_items rest = ([], rest)" "items' = fst (parse_items ys)" "rest = snd (parse_items ys)"
    by (rule block_cases [of ys])
  have "parse_items (enc (items @ items') @ rest) = (items @ items', rest)"
    using assms b(2,3) by (intro parse_items_enc) (auto simp: items_ok_def)
  then show ?thesis unfolding b(4,5) [symmetric] using b(1) by simp
qed

lemma used_loop_items:
  assumes "items_ok items" "holds_at m offset (enc items)"
  shows "\<exists>u. used_loop m offset (length (enc items) + r) used = used_loop m (offset + length (enc items)) r u \<and>
    (items \<noteq> [] \<and> last items \<noteq> Pad \<longrightarrow> u = offset + length (enc items))"
  using assms
proof (induction items arbitrary: offset used)
  case (Cons item items)
  let ?l = "length (enc_item item)" and ?u = "if m offset \<noteq> 0 then offset + length (enc_item item) else used"
  have len: "dhcp_option_len m offset = ?l" using Cons.prems by (intro option_len_item) auto
  have "0 < ?l" by (cases item) simp_all
  then have step: "used_loop m offset (?l + n) used = used_loop m (offset + ?l) n ?u" for n
    by (subst used_loop.simps) (simp add: Let_def len)
  obtain u where u: "used_loop m (offset + ?l) (length (enc items) + r) ?u = used_loop m (offset + ?l + length (enc items)) r u"
    "items \<noteq> [] \<and> last items \<noteq> Pad \<longrightarrow> u = offset + ?l + length (enc items)"
    using Cons.IH [of "offset + ?l" ?u] Cons.prems by auto
  show ?case
  proof (cases "items = []")
    case True
    have "item \<noteq> Pad \<longrightarrow> m offset \<noteq> 0" using Cons.prems by (cases item) auto
    then show ?thesis using step [of r] True by (intro exI [of _ ?u]) auto
  next
    case False
    then show ?thesis using step [of "length (enc items) + r"] u by (intro exI [of _ u]) (auto simp: add.assoc)
  qed
qed auto

lemma holds_at_prefix: "holds_at m 0 xs \<Longrightarrow> length xs \<le> n \<Longrightarrow> map m [0..<n] = xs @ map m [length xs..<n]"
  by (rule nth_equalityI) (auto simp: holds_at_def nth_append)

lemma rescan_value:
  assumes "used_len opts \<le> alloc_len opts" "tag_value t (used_bytes opts) = Some v"
  shows "tag_value t (used_bytes (dhcpopt_update_used_len opts)) = Some v"
proof (cases rule: tag_cases [of t "used_bytes opts"])
  case (found d pre post rest)
  let ?i = "pre @ [Opt t v]" and ?n = "used_loop (opt_data opts) 0 (alloc_len opts) 0"
  have d: "d = v" using found(1) assms(2) by simp
  have i: "items_ok ?i" "lacks t pre" using found(3,4) d by simp_all
  have h: "holds_at (opt_data opts) 0 (enc ?i)" using holds_at_used [of opts] unfolding found(2) d by simp
  have len: "length (enc ?i) \<le> used_len opts" using arg_cong [OF found(2), of length] d by simp
  then obtain r where r: "alloc_len opts = length (enc ?i) + r" using assms(1) by (metis le_trans nat_le_iff_add)
  obtain u where u: "?n = used_loop (opt_data opts) (length (enc ?i)) r u" "u = length (enc ?i)"
    using used_loop_items [OF i(1) h, of r 0] unfolding r by auto
  then have n: "length (enc ?i) \<le> ?n" using used_loop_bounds [of u "length (enc ?i)"] by simp
  have "used_bytes (dhcpopt_update_used_len opts) = map (opt_data opts) [0..<?n]" by (simp add: used_bytes_def dhcpopt_update_used_len_def)
  then have "used_bytes (dhcpopt_update_used_len opts) = enc ?i @ map (opt_data opts) [length (enc ?i)..<?n]" unfolding holds_at_prefix [OF h n] .
  moreover have "first_value t pre = None" using i(2) by (simp add: first_value_None lacks_def)
  then have "tag_value t (enc ?i @ ys) = Some v" for ys unfolding tag_value_def parse_append [OF i(1)] by (simp add: first_value_append)
  ultimately show ?thesis by (simp only:)
next
  case (missing items rest)
  show ?thesis using missing(1) assms(2) by simp
qed

lemma rescan_option:
  assumes "used_len opts \<le> alloc_len opts" "option_value tag (used_bytes opts) = Some v" "valid_tag tag"
  shows "option_value tag (used_bytes (dhcpopt_update_used_len opts)) = Some v \<and> safe_tag tag (used_bytes (dhcpopt_update_used_len opts))"
  using assms(3)
proof (cases rule: valid_tag_cases)
  case (Simple t)
  then show ?thesis using assms rescan_value by (auto simp: option_value_def safe_tag_def)
next
  case (Encap e s)
  then obtain D where "tag_value e (used_bytes opts) = Some D" "tag_value s D = Some v"
    using assms(2) by (auto simp: option_value_def bind_eq_Some_conv)
  then show ?thesis using Encap rescan_value [OF assms(1)] by (auto simp: option_value_def safe_tag_def)
qed

lemma fold_sum: "fold (\<lambda>b sum. sum + b) bs (a :: u8) = a + fold (\<lambda>b sum. sum + b) bs 0"
proof (induction bs arbitrary: a)
  case (Cons b bs)
  show ?case using Cons [of "a + b"] Cons [of b] by (simp add: add.assoc)
qed simp

text \<open>The block that is saved has a checksum of zero, and its options are as they were.\<close>

lemma save_bytes:
  assumes "nvo_save env nvo = Some (None, nvo')" "0 < nvo_len nvo"
  shows "nvo_checksum nvo' = 0" "nvo_len nvo' = nvo_len nvo" "opt_data nvo' = opt_data nvo" "used_len nvo' = used_len nvo" "alloc_len nvo' = alloc_len nvo"
    "nvs_write (nvo_nvs env) (nvo_address env) (nvo_bytes nvo') (nvs_state nvo) = Some (None, nvs_state nvo')"
proof -
  have b: "nvo_bytes (n\<lparr>nvs_state := d\<rparr>) = nvo_bytes n" for n :: "'a nvo_block" and d by (simp add: nvo_bytes_def)
  show "nvo_len nvo' = nvo_len nvo" "opt_data nvo' = opt_data nvo" "used_len nvo' = used_len nvo" "alloc_len nvo' = alloc_len nvo"
    "nvs_write (nvo_nvs env) (nvo_address env) (nvo_bytes nvo') (nvs_state nvo) = Some (None, nvs_state nvo')"
    using assms by (auto simp: nvo_save_def Let_def b)
  obtain d where n': "nvo' = nvo\<lparr>nvo_sum := nvo_sum nvo - nvo_checksum nvo, nvs_state := d\<rparr>" using assms by (auto simp: nvo_save_def Let_def)
  let ?ds = "map (opt_data nvo) [0..<nvo_len nvo - 1]"
  have "nvo_checksum nvo = nvo_sum nvo + fold (\<lambda>b sum. sum + b) ?ds 0"
    using assms(2) fold_sum [of ?ds "nvo_sum nvo"] by (simp add: nvo_checksum_def nvo_bytes_def)
  then show "nvo_checksum nvo' = 0"
    using assms(2) fold_sum [of ?ds "nvo_sum nvo'"] unfolding n' by (simp add: nvo_checksum_def nvo_bytes_def)
qed

text \<open>What a block with the saved contents holds after it has been registered again.\<close>

lemma register_saved:
  assumes dev: "nvs_reliable (nvo_nvs env) cells" "nvs_in_range (nvo_nvs env) (nvo_address env) (nvo_len nvo)"
    and saved: "\<forall>i<nvo_len nvo. cells (nvs_state r) (unat (nvo_address env) * 2 ^ word_len_log2 (nvo_nvs env) + i) = nvo_bytes nvo ! i"
    and nvo: "1 < nvo_len nvo" "alloc_len nvo = nvo_len nvo - 1" "nvo_checksum nvo = 0" "opt_data nvo 0 \<noteq> 0"
    and alloc: "nvo_len nvo \<le> unat HEAP_SIZE" "realloc_ok env (nvo_allocs r)"
  shows "\<exists>r'. register_nvo env None (nvo_init env (nvo_len nvo) r) = Some (None, dhcpopt_update_used_len r') \<and>
    alloc_len r' = alloc_len nvo \<and> (\<forall>i<alloc_len nvo. opt_data r' i = opt_data nvo i)"
proof -
  let ?len = "nvo_len nvo"
  obtain r1 where r1: "nvo_realloc env ?len (nvo_init env ?len r) = (None, r1)" "nvo_len r1 = ?len" "alloc_len r1 = ?len - 1" "nvs_state r1 = nvs_state r"
    using alloc nvo(1) by (auto simp: nvo_realloc_def nvo_init_def dhcpopt_init_def dhcpopt_update_used_len_def Let_def)
  have bytes: "nvo_bytes nvo = nvo_sum nvo # map (opt_data nvo) [0..<?len - 1]" using nvo(1) by (simp add: nvo_bytes_def)
  have "map (\<lambda>i. cells (nvs_state r) (unat (nvo_address env) * 2 ^ word_len_log2 (nvo_nvs env) + i)) [0..<?len] = nvo_bytes nvo"
    using saved nvo(1) by (intro nth_equalityI) (auto simp: bytes)
  then have rd: "nvs_read (nvo_nvs env) (nvs_state r1) (nvo_address env) ?len = Some (Inr (nvo_bytes nvo))"
    using nvs_read_cells [OF dev] r1(4) by simp
  let ?r2 = "r1\<lparr>nvo_sum := nvo_sum nvo, opt_data := memcpy (opt_data r1) 0 (map (opt_data nvo) [0..<?len - 1])\<rparr>"
  have d: "\<forall>i<?len - 1. opt_data ?r2 i = opt_data nvo i" by (simp add: memcpy_def)
  have "nvo_bytes ?r2 = nvo_bytes nvo" using nvo(1) r1(2) d by (auto simp: nvo_bytes_def)
  then have "nvo_checksum ?r2 = 0" using nvo(3) by (simp add: nvo_checksum_def)
  moreover have "opt_data ?r2 0 \<noteq> 0" using d nvo(1,4) by simp
  ultimately have "nvo_load env r1 = Some (None, dhcpopt_update_used_len ?r2)"
    using rd r1(2) nvo(1) bytes by (simp add: nvo_load_def Let_def)
  then have "register_nvo env None (nvo_init env ?len r) = Some (None, dhcpopt_update_used_len ?r2)"
    using r1(1) by (simp add: register_nvo_def nvo_init_def dhcpopt_init_def dhcpopt_update_used_len_def)
  then show ?thesis using d r1(3) nvo(2) by (intro exI [of _ ?r2]) simp
qed

text \<open>The writing loop ends.  It fails only if the device fails to write.\<close>

lemma nvs_range_less: "nvs_in_range nvs address len \<Longrightarrow> n \<le> len \<Longrightarrow> nvs_in_range nvs address n"
  by (simp add: nvs_in_range_def)

lemma nvs_write_returns:
  assumes "nvs_reliable nvs cells" "nvs_in_range nvs address (length data)"
  shows "\<exists>rc d'. nvs_write nvs address data d = Some (rc, d') \<and> (rc = None \<or> (\<exists>a bs d. fst (nvs_dev_write nvs a bs d) = rc))"
  using assms(2)
proof (induction "length data" arbitrary: address data d rule: less_induct)
  case less
  let ?f = "nvs_frag_len nvs address (length data)"
  let ?a = "address + of_nat (?f div 2 ^ word_len_log2 nvs)"
  show ?case
  proof (cases "data = []")
    case False
    then have pos: "0 < length data" by simp
    note f = nvs_frag [OF less.prems pos refl]
    obtain rc d1 where w: "nvs_dev_write nvs address (take ?f data) d = (rc, d1)" by fastforce
    show ?thesis
    proof (cases rc)
      case None
      have "map (\<lambda>i. cells d1 (unat address * 2 ^ word_len_log2 nvs + i)) [0..<?f] = take ?f data"
        using assms(1) w None f(2) by (intro nth_equalityI) (auto simp: nvs_reliable_def memcpy_def)
      then have v: "nvs_verify nvs d1 address (take ?f data) = Some None"
        using nvs_read_cells [OF assms(1) nvs_range_less [OF less.prems f(2)]] f(2) by (simp add: nvs_verify_def min_absorb2)
      have step: "nvs_write nvs address data d = nvs_write nvs ?a (drop ?f data) d1"
        using False None w v by (subst nvs_write.simps) (simp add: Let_def)
      show ?thesis
      proof (cases "?f = length data")
        case True
        then show ?thesis using step by (simp add: nvs_write.simps)
      next
        case l: False
        then have n: "?f < length data" using f(2) by simp
        show ?thesis unfolding step
          using less.hyps [of "drop ?f data" ?a d1] nvs_next(2) [OF less.prems pos refl n refl] f(1) n by simp
      qed
    next
      case (Some e)
      then have "nvs_write nvs address data d = Some (Some e, d1)" using False w by (subst nvs_write.simps) (simp add: Let_def)
      moreover have "fst (nvs_dev_write nvs address (take ?f data) d) = Some e" using w Some by simp
      ultimately show ?thesis by blast
    qed
  qed (simp add: nvs_write.simps)
qed

text \<open>The block in memory and on the device after the options have been changed.\<close>

lemma length_nvo_bytes [simp]: "length (nvo_bytes nvo) = nvo_len nvo"
  by (simp add: nvo_bytes_def)

lemma save_returns:
  assumes "nvs_reliable (nvo_nvs env) cells" "nvs_in_range (nvo_nvs env) (nvo_address env) (unat HEAP_SIZE)" "nvo_len nvo \<le> unat HEAP_SIZE"
  shows "\<exists>rc nvo'. nvo_save env nvo = Some (rc, nvo') \<and> (rc = None \<or> (\<exists>a bs d. fst (nvs_dev_write (nvo_nvs env) a bs d) = rc))"
proof -
  let ?n = "if 0 < nvo_len nvo then nvo\<lparr>nvo_sum := nvo_sum nvo - nvo_checksum nvo\<rparr> else nvo"
  have "length (nvo_bytes ?n) = nvo_len nvo" by simp
  then have "nvs_in_range (nvo_nvs env) (nvo_address env) (length (nvo_bytes ?n))" using nvs_range_less [OF assms(2,3)] by (simp only:)
  from nvs_write_returns [OF assms(1) this, of "nvs_state ?n"] show ?thesis unfolding nvo_save_def Let_def by auto
qed

lemma store_saved:
  assumes "nvs_reliable (nvo_nvs env) cells" "nvs_in_range (nvo_nvs env) (nvo_address env) (unat HEAP_SIZE)"
    and "opts_fit nvo" "layout_ok nvo" "block_ok (used_bytes nvo)" "used_bytes nvo = [] \<or> hd (used_bytes nvo) \<noteq> 0"
    and "valid_tag tag" "safe_tag tag (used_bytes nvo)" "data \<noteq> []"
    and "dhcpopt_store (nvo_realloc_dhcpopt env) nvo tag data = (None, n)" "nvo_save env n = Some (None, nvo')"
  shows "opts_fit nvo'" "layout_ok nvo'" "stored tag data (used_bytes nvo) (used_bytes nvo')" "1 < nvo_len nvo'" "nvo_checksum nvo' = 0" "opt_data nvo' 0 \<noteq> 0"
    "\<forall>i<nvo_len nvo'. cells (nvs_state nvo') (unat (nvo_address env) * 2 ^ word_len_log2 (nvo_nvs env) + i) = nvo_bytes nvo' ! i"
proof -
  note s = nv.store_value [OF assms(3,5,7-10)]
  have a: "layout_ok n" using s assms(4) by (simp add: layout_kept_def)
  have l: "used_bytes n \<noteq> []" "hd (used_bytes n) \<noteq> 0" using s assms(6) by (auto simp: stored_def leading_def)
  then have u: "0 < used_len n" "opt_data n 0 \<noteq> 0" by (simp_all add: used_bytes_def hd_map split: if_splits)
  then have len: "1 < nvo_len n" using a s by (auto simp: opts_fit_def layout_ok_def)
  have sv: "nvo_checksum nvo' = 0" "nvo_len nvo' = nvo_len n" "opt_data nvo' = opt_data n" "used_len nvo' = used_len n" "alloc_len nvo' = alloc_len n"
    "nvs_write (nvo_nvs env) (nvo_address env) (nvo_bytes nvo') (nvs_state n) = Some (None, nvs_state nvo')"
    using save_bytes [OF assms(11)] len by simp_all
  have eq: "used_bytes nvo' = used_bytes n" using sv by (simp add: used_bytes_def)
  show "opts_fit nvo'" "stored tag data (used_bytes nvo) (used_bytes nvo')" using s sv unfolding eq by (simp_all add: opts_fit_def)
  show l': "layout_ok nvo'" using a sv by (simp add: layout_ok_def)
  show "1 < nvo_len nvo'" "nvo_checksum nvo' = 0" "opt_data nvo' 0 \<noteq> 0" using sv u len by simp_all
  have "nvs_in_range (nvo_nvs env) (nvo_address env) (length (nvo_bytes nvo'))" using nvs_range_less [OF assms(2)] l' by (simp add: layout_ok_def)
  from nvs_write_cells [OF assms(1) this sv(6)]
  show "\<forall>i<nvo_len nvo'. cells (nvs_state nvo') (unat (nvo_address env) * 2 ^ word_len_log2 (nvo_nvs env) + i) = nvo_bytes nvo' ! i"
    by (simp add: memcpy_def)
qed

lemma rescan_fetch:
  assumes "opts_fit opts" "alloc_len r = alloc_len opts" "\<forall>i<alloc_len opts. opt_data r i = opt_data opts i"
    and "valid_tag t" "option_value t (used_bytes opts) = Some v"
  shows "dhcpopt_fetch (dhcpopt_update_used_len r) t buf = (Inr (length v), take (length buf) v @ drop (length v) buf)"
proof -
  let ?o = "r\<lparr>used_len := used_len opts\<rparr>"
  have b: "used_bytes ?o = used_bytes opts" using assms(1,3) by (auto simp: used_bytes_eq opts_fit_def)
  have u: "dhcpopt_update_used_len ?o = dhcpopt_update_used_len r" by (simp add: dhcpopt_update_used_len_def)
  have "option_value t (used_bytes (dhcpopt_update_used_len r)) = Some v \<and> safe_tag t (used_bytes (dhcpopt_update_used_len r))"
    using rescan_option [of ?o t v] assms b unfolding u by (simp add: opts_fit_def)
  moreover have "block_ok (used_bytes (dhcpopt_update_used_len r))" using update_used_ok [of r] assms(1,2) by (simp add: opts_fit_def)
  ultimately show ?thesis using fetch_value [of "dhcpopt_update_used_len r" t buf] assms(4) by simp
qed

lemma saved_fetch:
  assumes dev: "nvs_reliable (nvo_nvs env) cells" "nvs_in_range (nvo_nvs env) (nvo_address env) (unat HEAP_SIZE)"
    and saved: "opts_fit nvo'" "layout_ok nvo'" "stored tag data (used_bytes nvo) (used_bytes nvo')" "1 < nvo_len nvo'" "nvo_checksum nvo' = 0" "opt_data nvo' 0 \<noteq> 0"
      "\<forall>i<nvo_len nvo'. cells (nvs_state r) (unat (nvo_address env) * 2 ^ word_len_log2 (nvo_nvs env) + i) = nvo_bytes nvo' ! i"
    and nvo: "block_ok (used_bytes nvo)" and tag: "valid_tag tag" and alloc: "realloc_ok env (nvo_allocs r)"
  shows "\<exists>r'. register_nvo env None (nvo_init env (nvo_len nvo') r) = Some (None, r') \<and>
    nvo_fetch r' tag buf = (Inr (length data), take (length buf) data @ drop (length data) buf) \<and>
    (\<forall>t. valid_tag t \<and> safe_tag t (used_bytes nvo) \<and> unrelated tag t \<and> fst (nvo_fetch nvo t buf) \<noteq> Inl ENOENT \<longrightarrow>
      nvo_fetch r' t buf = nvo_fetch nvo t buf)"
proof -
  obtain r' where r: "register_nvo env None (nvo_init env (nvo_len nvo') r) = Some (None, dhcpopt_update_used_len r')"
    "alloc_len r' = alloc_len nvo'" "\<forall>i<alloc_len nvo'. opt_data r' i = opt_data nvo' i"
    using register_saved [OF dev(1) _ saved(7)] saved(2,4-6) alloc nvs_range_less [OF dev(2), of "nvo_len nvo'"] by (auto simp: layout_ok_def)
  note f = rescan_fetch [OF saved(1) r(2,3)]
  have "nvo_fetch (dhcpopt_update_used_len r') t buf = nvo_fetch nvo t buf"
    if t: "valid_tag t" "safe_tag t (used_bytes nvo)" "unrelated tag t" "fst (nvo_fetch nvo t buf) \<noteq> Inl ENOENT" for t
  proof -
    note fv = fetch_value [OF nvo t(1,2), of buf]
    then obtain v where "option_value t (used_bytes nvo) = Some v" using t(4) by (cases "option_value t (used_bytes nvo)") (auto simp: nvo_fetch_def)
    moreover from this have "option_value t (used_bytes nvo') = Some v" using saved(3) t(1-3) by (simp add: stored_def)
    ultimately show ?thesis using f [OF t(1)] fv by (simp add: nvo_fetch_def)
  qed
  moreover have "option_value tag (used_bytes nvo') = Some data" using saved(3) by (simp add: stored_def)
  ultimately show ?thesis using r(1) f [OF tag] unfolding nvo_fetch_def by blast
qed


section \<open>A device\<close>

text \<open>A device of bytes, written in blocks of eight, with a block of options of fixed length at address 20.\<close>

definition sample_nvs :: "(nat \<Rightarrow> u8) nvs_device" where
  "sample_nvs = \<lparr>word_len_log2 = 0, nvs_size = 64, nvs_block_size = 8, nvs_dev_read = (\<lambda>a n d. Inr (map (\<lambda>i. d (unat a + i)) [0..<n])),
     nvs_dev_write = (\<lambda>a bs d. (None, memcpy d (unat a) bs))\<rparr>"

definition sample_nvo_env :: "(nat \<Rightarrow> u8) nvo_env" where
  "sample_nvo_env = \<lparr>nvo_nvs = sample_nvs, nvo_address = 20, nvo_resize = None, realloc_ok = (\<lambda>_. True), new_memory = (\<lambda>_. 170)\<rparr>"

definition sample_nvo :: "(nat \<Rightarrow> u8) nvo_block" where
  "sample_nvo = \<lparr>opt_data = (\<lambda>_. 0), used_len = 0, alloc_len = 15, nvo_len = 16, nvo_sum = 0, nvo_allocs = 1, nvs_state = (\<lambda>_. 0)\<rparr>"

lemma sample_nvs_reliable: "nvs_reliable (nvo_nvs sample_nvo_env) id" "nvs_in_range (nvo_nvs sample_nvo_env) (nvo_address sample_nvo_env) (unat HEAP_SIZE)"
  by (auto simp: nvs_reliable_def nvs_in_range_def sample_nvo_env_def sample_nvs_def HEAP_SIZE_def)

lemma sample_store_succeeds: "nvo_store sample_nvo_env sample_nvo 12 [97, 98] \<noteq> Some (Some e, nvo')"
proof -
  have e: "nvo_realloc_dhcpopt sample_nvo_env = dhcpopt_no_realloc" by (simp add: nvo_realloc_dhcpopt_def sample_nvo_env_def fun_eq_iff)
  have h: "opts_fit sample_nvo" "block_ok (used_bytes sample_nvo)" "plain 12" "[97, 98 :: u8] \<noteq> []" "layout_ok sample_nvo"
    by (simp_all add: opts_fit_def sample_nvo_def used_bytes_def block_ok_def plain_def layout_ok_def HEAP_SIZE_def)
  obtain off n where s: "set_dhcp_option dhcpopt_no_realloc sample_nvo 12 [97, 98] = (Inr off, n)"
    using set_simple_room(1) [OF h(1-4)] by (cases "set_dhcp_option dhcpopt_no_realloc sample_nvo 12 [97, 98]"; cases "fst (set_dhcp_option dhcpopt_no_realloc sample_nvo 12 [97, 98])") (auto simp: sample_nvo_def)
  then have d: "dhcpopt_store (nvo_realloc_dhcpopt sample_nvo_env) sample_nvo 12 [97, 98] = (None, n)" by (simp add: dhcpopt_store_def e)
  have "layout_ok n" using nv.store_value [OF h(1,2) _ _ h(4) d] h(5) by (simp add: layout_kept_def valid_tag_def safe_tag_def DHCP_MAX_OPTION_def DHCP_IS_ENCAP_OPT_def DHCP_ENCAPSULATOR_def)
  then show ?thesis using save_returns [OF sample_nvs_reliable, of n] d
    by (auto simp: nvo_store_def layout_ok_def sample_nvo_env_def sample_nvs_def)
qed


text \<open>
  An option that is cleared in a block of fixed length comes back with a reboot: only the used length is reduced, the bytes of the option stay in
  the block, are written to the device and are found when the block is scanned again.
\<close>

definition cleared_env :: "(nat \<Rightarrow> u8) nvo_env" where
  "cleared_env = sample_nvo_env\<lparr>nvo_nvs := sample_nvs\<lparr>nvs_block_size := 0\<rparr>\<rparr>"

definition cleared_nvo :: "(nat \<Rightarrow> u8) nvo_block" where
  "cleared_nvo = \<lparr>opt_data = (\<lambda>_. 0)(0 := 12, 1 := 1, 2 := 97), used_len = 3, alloc_len = 3, nvo_len = 4, nvo_sum = 0, nvo_allocs = 1, nvs_state = (\<lambda>_. 0)\<rparr>"

lemma clear_store: "dhcpopt_store (nvo_realloc_dhcpopt cleared_env) cleared_nvo 12 [] = (None, cleared_nvo\<lparr>used_len := 0\<rparr>)"
  by (simp add: cleared_env_def sample_nvo_env_def nvo_realloc_dhcpopt_def cleared_nvo_def dhcpopt_store_def set_dhcp_option.simps
      find_dhcp_option_with_encap_def find_loop.simps Let_def DHCP_PAD_def DHCP_END_def dhcp_option_len_def DHCP_IS_ENCAP_OPT_def
      DHCP_ENCAPSULATOR_def DHCP_OPTION_HEADER_LEN_def DHCP_MAX_LEN_def resize_dhcp_option_def expand_options_def update_encapsulator_def
      dhcpopt_no_realloc_def size_diff_def memmove_def put_option_def)

lemma cleared_setting_returns:
  "\<exists>nvo'. nvo_store cleared_env cleared_nvo 12 [] = Some (None, nvo') \<and> nvo_fetch nvo' 12 [0] = (Inl ENOENT, [0]) \<and>
    (\<exists>r'. register_nvo cleared_env None (nvo_init cleared_env 4 nvo') = Some (None, r') \<and> nvo_fetch r' 12 [0] = (Inr 1, [97]))"
proof -
  let ?n = "cleared_nvo\<lparr>used_len := 0\<rparr>"
  have dev: "nvs_reliable (nvo_nvs cleared_env) id" "nvs_in_range (nvo_nvs cleared_env) (nvo_address cleared_env) (unat HEAP_SIZE)"
    by (auto simp: nvs_reliable_def nvs_in_range_def cleared_env_def sample_nvo_env_def sample_nvs_def HEAP_SIZE_def)
  obtain nvo' where s: "nvo_save cleared_env ?n = Some (None, nvo')"
    using save_returns [OF dev, of ?n] by (auto simp: cleared_nvo_def cleared_env_def sample_nvo_env_def sample_nvs_def HEAP_SIZE_def)
  have sv: "nvo_checksum nvo' = 0" "nvo_len nvo' = 4" "opt_data nvo' = opt_data ?n" "used_len nvo' = 0" "alloc_len nvo' = 3"
    "nvs_write (nvo_nvs cleared_env) (nvo_address cleared_env) (nvo_bytes nvo') (nvs_state ?n) = Some (None, nvs_state nvo')"
    using save_bytes [OF s] by (simp_all add: cleared_nvo_def)
  have r: "nvs_in_range (nvo_nvs cleared_env) (nvo_address cleared_env) (nvo_len nvo')"
    using nvs_range_less [OF dev(2), of 4] sv(2) by (simp add: HEAP_SIZE_def)
  then have "id (nvs_state nvo') = memcpy (id (nvs_state ?n)) (unat (nvo_address cleared_env) * 2 ^ word_len_log2 (nvo_nvs cleared_env)) (nvo_bytes nvo')"
    using nvs_write_cells [OF dev(1) _ sv(6)] by simp
  then have "\<forall>i<nvo_len nvo'. id (nvs_state nvo') (unat (nvo_address cleared_env) * 2 ^ word_len_log2 (nvo_nvs cleared_env) + i) = nvo_bytes nvo' ! i"
    by (simp add: memcpy_def)
  note reg = register_saved [OF dev(1) r this]
  obtain r' where r': "register_nvo cleared_env None (nvo_init cleared_env 4 nvo') = Some (None, dhcpopt_update_used_len r')"
    "alloc_len r' = 3" "\<forall>i<3. opt_data r' i = opt_data nvo' i"
    using reg sv by (auto simp: cleared_nvo_def HEAP_SIZE_def cleared_env_def sample_nvo_env_def)
  have "used_bytes cleared_nvo = [12, 1, 97]" by (simp add: used_bytes_def cleared_nvo_def upt_rec)
  then have o: "opts_fit cleared_nvo" "valid_tag 12" "option_value 12 (used_bytes cleared_nvo) = Some [97]"
    by (simp_all add: opts_fit_def cleared_nvo_def valid_tag_def DHCP_MAX_OPTION_def DHCP_IS_ENCAP_OPT_def DHCP_ENCAPSULATOR_def option_value_def tag_value_def)
  have "nvo_fetch (dhcpopt_update_used_len r') 12 [0] = (Inr 1, [97])"
    using rescan_fetch [OF o(1) _ _ o(2,3), of r' "[0]"] r' sv(3) by (simp add: nvo_fetch_def cleared_nvo_def)
  moreover have "nvo_fetch nvo' 12 [0] = (Inl ENOENT, [0])"
    using sv(4) by (simp add: nvo_fetch_def dhcpopt_fetch_def find_dhcp_option_with_encap_def find_loop.simps DHCP_PAD_def)
  ultimately show ?thesis using s r'(1) by (simp add: nvo_store_def clear_store)
qed

end
