(* ===== verification/Bigint.thy ===== *)
theory Bigint
  imports Iobuf Digest
begin

text \<open>
  Big integers, \<open>crypto/bigint.c\<close>, \<open>arch/x86/include/bits/bigint.h\<close> and \<open>arch/x86/core/x86_bigint.c\<close>.

  A big integer is the list of its 32-bit elements, the least significant one first.  The assembly code is modelled instruction by instruction: the
  carry flag is passed along the loops.  The macros of \<open>include/ipxe/bigint.h\<close> pass the number of elements to the functions, which is the length of
  the list here.  The loops of the assembly code count down to zero before they test, so that sizes and lengths have to be positive.  A temporary
  area is as long as the code needs it.  The product is built up in memory, a function from indices to elements, because the code touches the
  element behind the result.
\<close>

unbundle bit_operations_syntax

type_synonym bigint = "u32 list"

section \<open>Instructions\<close>

definition adcl :: "u32 \<Rightarrow> u32 \<Rightarrow> bool \<Rightarrow> u32 \<times> bool" where
  "adcl src dest cf = (dest + src + of_bool cf, 2 ^ 32 \<le> unat dest + unat src + of_bool cf)"

definition sbbl :: "u32 \<Rightarrow> u32 \<Rightarrow> bool \<Rightarrow> u32 \<times> bool" where
  "sbbl src dest cf = (dest - src - of_bool cf, unat dest < unat src + of_bool cf)"

definition rcll :: "u32 \<Rightarrow> bool \<Rightarrow> u32 \<times> bool" where
  "rcll dest cf = (push_bit 1 dest OR of_bool cf, bit dest 31)"

definition rcrl :: "u32 \<Rightarrow> bool \<Rightarrow> u32 \<times> bool" where
  "rcrl dest cf = (drop_bit 1 dest OR push_bit 31 (of_bool cf), bit dest 0)"

text \<open>The high and the low half of the product.\<close>

definition mull :: "u32 \<Rightarrow> u32 \<Rightarrow> u32 \<times> u32" where
  "mull a b = (let p = (ucast a :: u64) * ucast b in (ucast (drop_bit 32 p), ucast p))"

section \<open>Elementary operations\<close>

definition bigint_required_size :: "nat \<Rightarrow> nat" where
  "bigint_required_size len = (len + 4 - 1) div 4"

definition bigint_init_raw :: "nat \<Rightarrow> bytes \<Rightarrow> bigint" where
  "bigint_init_raw sz data = dwords (rev data @ replicate (sz * 4 - length data) 0)"

definition bigint_done_raw :: "bigint \<Rightarrow> nat \<Rightarrow> bytes" where
  "bigint_done_raw value len = rev (take len (undwords value))"

fun add_loop :: "bool \<Rightarrow> bigint \<Rightarrow> bigint \<Rightarrow> bigint" where
  "add_loop cf (a # addend) (v # value) = (let (v, cf) = adcl a v cf in v # add_loop cf addend value)"
| "add_loop cf _ value = value"

definition bigint_add_raw :: "bigint \<Rightarrow> bigint \<Rightarrow> bigint" where
  "bigint_add_raw addend value = add_loop False addend value"

fun subtract_loop :: "bool \<Rightarrow> bigint \<Rightarrow> bigint \<Rightarrow> bigint" where
  "subtract_loop cf (a # subtrahend) (v # value) = (let (v, cf) = sbbl a v cf in v # subtract_loop cf subtrahend value)"
| "subtract_loop cf _ value = value"

definition bigint_subtract_raw :: "bigint \<Rightarrow> bigint \<Rightarrow> bigint" where
  "bigint_subtract_raw subtrahend value = subtract_loop False subtrahend value"

fun rol_loop :: "bool \<Rightarrow> bigint \<Rightarrow> bigint" where
  "rol_loop cf [] = []"
| "rol_loop cf (v # value) = (let (v, cf) = rcll v cf in v # rol_loop cf value)"

definition bigint_rol_raw :: "bigint \<Rightarrow> bigint" where
  "bigint_rol_raw value = rol_loop False value"

text \<open>From the most significant element down.\<close>

fun ror_loop :: "bool \<Rightarrow> bigint \<Rightarrow> bigint" where
  "ror_loop cf [] = []"
| "ror_loop cf (v # value) = (let (v, cf) = rcrl v cf in v # ror_loop cf value)"

definition bigint_ror_raw :: "bigint \<Rightarrow> bigint" where
  "bigint_ror_raw value = rev (ror_loop False (rev value))"

fun bigint_is_zero_raw :: "bigint \<Rightarrow> bool" where
  "bigint_is_zero_raw [] = True"
| "bigint_is_zero_raw (v # value) = (if v = 0 then bigint_is_zero_raw value else False)"

fun geq_loop :: "bigint \<Rightarrow> bigint \<Rightarrow> bool" where
  "geq_loop (v # value) (r # reference) = (if v = r \<and> value \<noteq> [] then geq_loop value reference else r \<le> v)"
| "geq_loop _ _ = True"

definition bigint_is_geq_raw :: "bigint \<Rightarrow> bigint \<Rightarrow> bool" where
  "bigint_is_geq_raw value reference = geq_loop (rev value) (rev reference)"

definition bigint_bit_is_set_raw :: "bigint \<Rightarrow> nat \<Rightarrow> bool" where
  "bigint_bit_is_set_raw value n = (let index = n div 32; subindex = n mod 32 in value ! index AND push_bit subindex 1 \<noteq> 0)"

fun max_set_bit_loop :: "bigint \<Rightarrow> nat \<Rightarrow> nat" where
  "max_set_bit_loop value 0 = 0"
| "max_set_bit_loop value (Suc c) =
     (if value ! c = 0 then (if c \<noteq> 0 then max_set_bit_loop value c else 0) else bsrl (value ! c) + c * 4 * 8 + 1)"

definition bigint_max_set_bit_raw :: "bigint \<Rightarrow> nat" where
  "bigint_max_set_bit_raw value = max_set_bit_loop value (length value)"

definition bigint_grow_raw :: "bigint \<Rightarrow> nat \<Rightarrow> bigint" where
  "bigint_grow_raw source dest_size = source @ replicate (dest_size - length source) 0"

definition bigint_shrink_raw :: "bigint \<Rightarrow> nat \<Rightarrow> bigint" where
  "bigint_shrink_raw source dest_size = take dest_size source"

section \<open>Multiplication\<close>

text \<open>The carry runs on through memory until it is absorbed.\<close>

partial_function (option) carry_loop :: "(nat \<Rightarrow> u32) \<Rightarrow> nat \<Rightarrow> bool \<Rightarrow> (nat \<Rightarrow> u32) option" where
  "carry_loop m index cf =
     (let (v, cf) = adcl 0 (m index) cf; m = m(index := v)
      in if cf then carry_loop m (index + 1) cf else Some m)"

definition multiply_element :: "u32 \<Rightarrow> u32 \<Rightarrow> nat \<Rightarrow> (nat \<Rightarrow> u32) \<Rightarrow> (nat \<Rightarrow> u32) option" where
  "multiply_element multiplicand_element multiplier_element index m =
     (let (edx, eax) = mull multiplicand_element multiplier_element;
          (v, cf) = adcl eax (m index) False; m = m(index := v);
          (v, cf) = adcl edx (m (index + 1)) cf; m = m(index + 1 := v)
      in carry_loop m (index + 2) cf)"

fun multiply_row :: "u32 \<Rightarrow> bigint \<Rightarrow> nat \<Rightarrow> (nat \<Rightarrow> u32) \<Rightarrow> (nat \<Rightarrow> u32) option" where
  "multiply_row multiplicand_element [] index m = Some m"
| "multiply_row multiplicand_element (multiplier_element # multiplier) index m =
     Option.bind (multiply_element multiplicand_element multiplier_element index m) (multiply_row multiplicand_element multiplier (index + 1))"

fun multiply_rows :: "bigint \<Rightarrow> bigint \<Rightarrow> nat \<Rightarrow> (nat \<Rightarrow> u32) \<Rightarrow> (nat \<Rightarrow> u32) option" where
  "multiply_rows [] multiplier index m = Some m"
| "multiply_rows (multiplicand_element # multiplicand) multiplier index m =
     Option.bind (multiply_row multiplicand_element multiplier index m) (multiply_rows multiplicand multiplier (index + 1))"

definition bigint_multiply_raw :: "bigint \<Rightarrow> bigint \<Rightarrow> (nat \<Rightarrow> u32) \<Rightarrow> (nat \<Rightarrow> u32) option" where
  "bigint_multiply_raw multiplicand multiplier m =
     multiply_rows multiplicand multiplier 0 (\<lambda>i. if i < length multiplicand * 2 then 0 else m i)"

section \<open>Modular arithmetic\<close>

text \<open>The temporary area holds the product, followed by the modulus.\<close>

fun reduce_loop :: "nat \<Rightarrow> bigint \<Rightarrow> bigint \<Rightarrow> bigint \<times> bigint" where
  "reduce_loop 0 result modulus = (result, modulus)"
| "reduce_loop (Suc n) result modulus =
     (let result = (if bigint_is_geq_raw result modulus then bigint_subtract_raw modulus result else result);
          modulus = bigint_ror_raw modulus
      in reduce_loop n result modulus)"

definition bigint_mod_multiply_raw :: "bigint \<Rightarrow> bigint \<Rightarrow> bigint \<Rightarrow> (nat \<Rightarrow> u32) \<Rightarrow> (bigint \<times> (nat \<Rightarrow> u32)) option" where
  "bigint_mod_multiply_raw multiplicand multiplier modulus tmp =
     (let sz = length multiplicand in
      Option.bind (bigint_multiply_raw multiplicand multiplier tmp) (\<lambda>tmp.
        let temp_result = map tmp [0..<sz * 2];
            temp_modulus = bigint_grow_raw modulus (sz * 2);
            rotation = int (bigint_max_set_bit_raw temp_result) - int (bigint_max_set_bit_raw temp_modulus);
            temp_modulus = (bigint_rol_raw ^^ nat rotation) temp_modulus;
            (temp_result, temp_modulus) = reduce_loop (nat (rotation + 1)) temp_result temp_modulus
        in Some (bigint_shrink_raw temp_result sz,
                 \<lambda>i. if i < sz * 2 then temp_result ! i else if i < sz * 4 then temp_modulus ! (i - sz * 2) else tmp i)))"

partial_function (option) mod_exp_loop :: "bigint \<Rightarrow> bigint \<Rightarrow> bigint \<Rightarrow> bigint \<Rightarrow> (nat \<Rightarrow> u32) \<Rightarrow> bigint option" where
  "mod_exp_loop temp_base modulus temp_exponent result tmp =
     (if bigint_is_zero_raw temp_exponent then Some result
      else
        Option.bind (if bigint_bit_is_set_raw temp_exponent 0 then bigint_mod_multiply_raw result temp_base modulus tmp else Some (result, tmp))
          (\<lambda>(result, tmp).
             Option.bind (bigint_mod_multiply_raw temp_base temp_base modulus tmp) (\<lambda>(temp_base, tmp).
               mod_exp_loop temp_base modulus (bigint_ror_raw temp_exponent) result tmp)))"

definition bigint_mod_exp_raw :: "bigint \<Rightarrow> bigint \<Rightarrow> bigint \<Rightarrow> (nat \<Rightarrow> u32) \<Rightarrow> bigint option" where
  "bigint_mod_exp_raw base modulus exponent tmp =
     mod_exp_loop base modulus exponent (bigint_init_raw (length base) [1]) tmp"

section \<open>Values\<close>

fun bigval :: "bigint \<Rightarrow> nat" where
  "bigval [] = 0"
| "bigval (v # value) = unat v + 2 ^ 32 * bigval value"

lemma bigval_less: "bigval x < 2 ^ (32 * length x)"
proof (induction x)
  case (Cons v x)
  have "unat v + 2 ^ 32 * bigval x < 2 ^ 32 * (bigval x + 1)" using unat_u32_less [of v] by simp
  also have "\<dots> \<le> 2 ^ 32 * 2 ^ (32 * length x)" using Cons by (intro mult_le_mono2) simp
  finally show ?case by (simp add: power_add)
qed simp

lemma bigval_append: "bigval (x @ y) = bigval x + 2 ^ (32 * length x) * bigval y"
  by (induction x) (simp_all add: power_add algebra_simps)

lemma bigval_replicate [simp]: "bigval (replicate n 0) = 0"
  by (induction n) simp_all

lemma bigval_take: "bigval x < 2 ^ (32 * n) \<Longrightarrow> n \<le> length x \<Longrightarrow> bigval (take n x) = bigval x"
proof -
  assume a: "bigval x < 2 ^ (32 * n)" "n \<le> length x"
  have e: "bigval x = bigval (take n x) + 2 ^ (32 * n) * bigval (drop n x)"
    using bigval_append [of "take n x" "drop n x"] a(2) by (simp add: min_absorb2)
  have "bigval (drop n x) = 0"
  proof (rule ccontr)
    assume "bigval (drop n x) \<noteq> 0"
    then have "2 ^ (32 * n) * 1 \<le> 2 ^ (32 * n) * bigval (drop n x)" by (intro mult_le_mono2) simp
    then show False using a(1) e by linarith
  qed
  then show ?thesis using e by simp
qed

section \<open>The elementary operations compute\<close>

lemma unat_sum3: "unat (v + a + of_bool cf :: u32) = (if unat v + unat a + of_bool cf < 2 ^ 32 then unat v + unat a + of_bool cf else unat v + unat a + of_bool cf - 2 ^ 32)"
proof -
  let ?s = "unat v + unat a + of_bool cf"
  have "v + a + of_bool cf = of_nat ?s" by (simp split: bool.splits)
  then have m: "unat (v + a + of_bool cf) = ?s mod 4294967296" by (simp only: unat_of_nat) (simp add: take_bit_eq_mod)
  have "(of_bool cf :: nat) \<le> 1" by simp
  then have "?s - 4294967296 < 4294967296" using unat_u32_less [of v] unat_u32_less [of a] by linarith
  then have "?s mod 4294967296 = (if ?s < 4294967296 then ?s else ?s - 4294967296)" by (simp add: mod_if)
  then show ?thesis using m by simp
qed

lemma adcl_value: "adcl a v cf = (r, cf') \<Longrightarrow> unat r + 2 ^ 32 * of_bool cf' = unat v + unat a + of_bool cf"
  using unat_sum3 [of v a cf] by (auto simp: adcl_def split: if_splits)

lemma add_loop_value:
  "length a = length v \<Longrightarrow> \<exists>cf'. bigval (add_loop cf a v) + 2 ^ (32 * length v) * of_bool cf' = bigval v + bigval a + of_bool cf"
proof (induction cf a v rule: add_loop.induct)
  case (1 cf a addend v val)
  obtain r cf1 where r: "adcl a v cf = (r, cf1)" by fastforce
  obtain cf' where "bigval (add_loop cf1 addend val) + 2 ^ (32 * length val) * of_bool cf' = bigval val + bigval addend + of_bool cf1"
    using "1.IH" [OF r [symmetric] refl] "1.prems" by auto
  then have "2 ^ 32 * bigval (add_loop cf1 addend val) + 2 ^ 32 * (2 ^ (32 * length val) * of_bool cf') = 2 ^ 32 * bigval val + 2 ^ 32 * bigval addend + 2 ^ 32 * of_bool cf1"
    by (metis distrib_left)
  then show ?case using adcl_value [OF r] r by (intro exI [of _ cf']) (simp add: power_add)
qed (auto intro: exI [of _ False] exI [of _ True])

lemma length_add_loop [simp]: "length (add_loop cf a v) = length v"
  by (induction cf a v rule: add_loop.induct) (auto split: prod.splits)

lemma sbbl_value: "sbbl a v cf = (r, cf') \<Longrightarrow> unat r + unat a + of_bool cf = unat v + 2 ^ 32 * of_bool cf'"
proof -
  assume "sbbl a v cf = (r, cf')"
  then have r: "r + a + of_bool cf = v" "cf' \<longleftrightarrow> unat v < unat a + of_bool cf" by (auto simp: sbbl_def)
  then have u: "unat v = (if unat r + unat a + of_bool cf < 2 ^ 32 then unat r + unat a + of_bool cf else unat r + unat a + of_bool cf - 2 ^ 32)"
    using unat_sum3 [of r a cf] by simp
  show ?thesis
  proof (cases cf')
    case True
    then show ?thesis using u r(2) by (cases cf) (auto split: if_splits)
  next
    case False
    then have l: "unat a + of_bool cf \<le> unat v" using r(2) by simp
    have "unat r < 2 ^ 32" by simp
    moreover have "unat v = unat r + unat a + of_bool cf - 2 ^ 32 \<or> unat r + unat a + of_bool cf < 2 ^ 32" using u by (simp split: if_splits)
    ultimately have "unat r + unat a + of_bool cf < 2 ^ 32" using l by linarith
    then show ?thesis using u False by simp
  qed
qed

lemma subtract_loop_value:
  "length a = length v \<Longrightarrow> \<exists>cf'. bigval (subtract_loop cf a v) + bigval a + of_bool cf = bigval v + 2 ^ (32 * length v) * of_bool cf'"
proof (induction cf a v rule: subtract_loop.induct)
  case (1 cf a addend v val)
  obtain r cf1 where r: "sbbl a v cf = (r, cf1)" by fastforce
  obtain cf' where "bigval (subtract_loop cf1 addend val) + bigval addend + of_bool cf1 = bigval val + 2 ^ (32 * length val) * of_bool cf'"
    using "1.IH" [OF r [symmetric] refl] "1.prems" by auto
  then have "2 ^ 32 * bigval (subtract_loop cf1 addend val) + 2 ^ 32 * bigval addend + 2 ^ 32 * of_bool cf1 = 2 ^ 32 * bigval val + 2 ^ 32 * (2 ^ (32 * length val) * of_bool cf')"
    by (metis distrib_left)
  then show ?case using sbbl_value [OF r] r by (intro exI [of _ cf']) (simp add: power_add)
qed (auto intro: exI [of _ False] exI [of _ True])

lemma length_subtract_loop [simp]: "length (subtract_loop cf a v) = length v"
  by (induction cf a v rule: subtract_loop.induct) (auto split: prod.splits)

lemma subtract_value:
  assumes "length a = length v" "bigval a \<le> bigval v"
  shows "bigval (bigint_subtract_raw a v) = bigval v - bigval a"
proof -
  obtain cf' where c: "bigval (subtract_loop False a v) + bigval a = bigval v + 2 ^ (32 * length v) * of_bool cf'"
    using subtract_loop_value [OF assms(1), of False] by auto
  have "bigval (subtract_loop False a v) < 2 ^ (32 * length v)" using bigval_less [of "subtract_loop False a v"] by simp
  then have "\<not> cf'" using c assms(2) by (cases cf') simp_all
  then show ?thesis using c by (simp add: bigint_subtract_raw_def)
qed

lemma rcll_value: "rcll v cf = (r, cf') \<Longrightarrow> unat r + 2 ^ 32 * of_bool cf' = 2 * unat v + of_bool cf"
proof -
  assume "rcll v cf = (r, cf')"
  then have r: "r = push_bit 1 v OR of_bool cf" "cf' = bit v 31" by (auto simp: rcll_def)
  have "r = v + v + of_bool cf"
  proof -
    have "push_bit 1 v AND of_bool cf = 0" by (rule bit_word_eqI) (auto simp only: bit_and_iff bit_push_bit_iff bit_of_bool_iff bit_0_eq)
    then have "r = push_bit 1 v + of_bool cf" using r(1) by (simp add: disjunctive_add_eq_or)
    then show ?thesis by (simp add: push_bit_eq_mult)
  qed
  moreover have "bit v 31 \<longleftrightarrow> 2147483648 \<le> unat v"
  proof -
    have "i = 31" if "bit v i" "31 \<le> i" for i using bit_imp_le_length [OF that(1)] that(2) by simp
    then show ?thesis using word_ge_exp_iff [of 31 v] by auto
  qed
  ultimately show ?thesis using unat_sum3 [of v v cf] r(2) by (auto split: if_splits)
qed

lemma odd_unat: "odd (unat (v :: u32)) \<longleftrightarrow> bit v 0"
  using bit_unsigned_iff [of v 0] by (simp add: bit_0)

lemma rcrl_value: "rcrl v cf = (r, cf') \<Longrightarrow> 2 * unat r + of_bool cf' = unat v + 2 ^ 32 * of_bool cf"
proof -
  assume "rcrl v cf = (r, cf')"
  then have r: "r = drop_bit 1 v OR push_bit 31 (of_bool cf)" "cf' = bit v 0" by (auto simp: rcrl_def)
  have "drop_bit 1 v AND push_bit 31 (of_bool cf) = 0" by (rule bit_word_eqI) (auto simp: bit_simps not_bit_u32)
  then have "r = drop_bit 1 v + push_bit 31 (of_bool cf)" using r(1) by (simp add: disjunctive_add_eq_or)
  moreover have h: "unat (drop_bit 1 v) = unat v div 2" using unat_drop_bit_div [of 1 v] by (simp only: power_one_right)
  moreover have c: "unat (push_bit 31 (of_bool cf) :: u32) = 2147483648 * of_bool cf" by (cases cf) simp_all
  moreover have "unat (drop_bit 1 v) < 2147483648" unfolding h using unat_u32_less [of v] by linarith
  then have "unat (drop_bit 1 v) + unat (push_bit 31 (of_bool cf) :: u32) < 4294967296" unfolding c by (cases cf) simp_all
  then have "unat (drop_bit 1 v + push_bit 31 (of_bool cf)) = unat (drop_bit 1 v) + unat (push_bit 31 (of_bool cf) :: u32)" by (rule unat_add_u32)
  ultimately have s: "unat r = unat v div 2 + 2147483648 * of_bool cf" by simp
  have "cf' \<longleftrightarrow> odd (unat v)" using r(2) odd_unat [of v] by simp
  then show ?thesis using s by (cases cf) auto
qed

lemma length_rol_loop [simp]: "length (rol_loop cf v) = length v"
  by (induction cf v rule: rol_loop.induct) (auto split: prod.splits)

lemma rol_loop_value: "\<exists>cf'. bigval (rol_loop cf v) + 2 ^ (32 * length v) * of_bool cf' = 2 * bigval v + of_bool cf"
proof (induction cf v rule: rol_loop.induct)
  case (2 cf v val)
  obtain r cf1 where r: "rcll v cf = (r, cf1)" by fastforce
  obtain cf' where "bigval (rol_loop cf1 val) + 2 ^ (32 * length val) * of_bool cf' = 2 * bigval val + of_bool cf1"
    using "2.IH" [OF r [symmetric] refl] by auto
  then have "2 ^ 32 * bigval (rol_loop cf1 val) + 2 ^ 32 * (2 ^ (32 * length val) * of_bool cf') = 2 ^ 32 * (2 * bigval val) + 2 ^ 32 * of_bool cf1"
    by (metis distrib_left)
  then show ?case using rcll_value [OF r] r by (intro exI [of _ cf']) (simp add: power_add)
qed (auto intro: exI [of _ False] exI [of _ True])

lemma rol_value: "2 * bigval v < 2 ^ (32 * length v) \<Longrightarrow> bigval (bigint_rol_raw v) = 2 * bigval v"
proof -
  assume "2 * bigval v < 2 ^ (32 * length v)"
  moreover obtain cf' where "bigval (rol_loop False v) + 2 ^ (32 * length v) * of_bool cf' = 2 * bigval v" using rol_loop_value [of False v] by auto
  ultimately show ?thesis by (cases cf') (simp_all add: bigint_rol_raw_def)
qed

lemma length_ror_loop [simp]: "length (ror_loop cf v) = length v"
  by (induction cf v rule: ror_loop.induct) (auto split: prod.splits)

lemma ror_loop_value: "\<exists>cf'. 2 * bigval (rev (ror_loop cf v)) + of_bool cf' = bigval (rev v) + 2 ^ (32 * length v) * of_bool cf"
proof (induction cf v rule: ror_loop.induct)
  case (2 cf v val)
  obtain r cf1 where r: "rcrl v cf = (r, cf1)" by fastforce
  obtain cf' where i: "2 * bigval (rev (ror_loop cf1 val)) + of_bool cf' = bigval (rev val) + 2 ^ (32 * length val) * of_bool cf1"
    using "2.IH" [OF r [symmetric] refl] by auto
  have "2 ^ (32 * length val) * (2 * unat r + of_bool cf1) = 2 ^ (32 * length val) * (unat v + 2 ^ 32 * of_bool cf)" using rcrl_value [OF r] by simp
  then show ?case using i r by (intro exI [of _ cf']) (simp add: bigval_append power_add algebra_simps)
qed (auto intro: exI [of _ False] exI [of _ True])

lemma ror_value: "bigval (bigint_ror_raw v) = bigval v div 2"
proof -
  obtain cf' where "2 * bigval (bigint_ror_raw v) + of_bool cf' = bigval v" using ror_loop_value [of False "rev v"] by (auto simp: bigint_ror_raw_def)
  then show ?thesis by (cases cf') auto
qed

lemma length_rol [simp]: "length (bigint_rol_raw v) = length v"
  by (simp add: bigint_rol_raw_def)

lemma length_ror [simp]: "length (bigint_ror_raw v) = length v"
  by (simp add: bigint_ror_raw_def)

lemma length_subtract [simp]: "length (bigint_subtract_raw a v) = length v"
  by (simp add: bigint_subtract_raw_def)

lemma is_zero_value: "bigint_is_zero_raw v \<longleftrightarrow> bigval v = 0"
  by (induction v) (auto simp: unat_eq_0)

lemma geq_loop_value: "length v = length r \<Longrightarrow> geq_loop v r \<longleftrightarrow> bigval (rev r) \<le> bigval (rev v)"
proof (induction v r rule: geq_loop.induct)
  case (1 v val r ref)
  let ?b = "2 ^ (32 * length val)"
  have l: "bigval (rev val) < ?b" "bigval (rev ref) < ?b" using bigval_less [of "rev val"] bigval_less [of "rev ref"] 1(2) by simp_all
  have e: "bigval (rev (v # val)) = bigval (rev val) + ?b * unat v" "bigval (rev (r # ref)) = bigval (rev ref) + ?b * unat r"
    using 1(2) by (simp_all add: bigval_append)
  show ?case
  proof (cases "v = r")
    case True
    then show ?thesis using 1 e by auto
  next
    case False
    have "a + ?b * m < c + ?b * n" if "m < n" "a < ?b" for a c m n :: nat
    proof -
      have "a + ?b * m < ?b * (m + 1)" using that(2) by simp
      also have "\<dots> \<le> ?b * n" using that(1) by (intro mult_le_mono2) simp
      finally show ?thesis by simp
    qed
    then have "unat v < unat r \<Longrightarrow> bigval (rev (v # val)) < bigval (rev (r # ref))" "unat r < unat v \<Longrightarrow> bigval (rev (r # ref)) < bigval (rev (v # val))"
      using l e by simp_all
    moreover have "unat v < unat r \<or> unat r < unat v" using False by (metis linorder_neqE_nat word_unat_eq_iff)
    ultimately show ?thesis using False by (auto simp: word_le_nat_alt)
  qed
qed auto

lemma geq_value: "length v = length r \<Longrightarrow> bigint_is_geq_raw v r \<longleftrightarrow> bigval r \<le> bigval v"
  using geq_loop_value [of "rev v" "rev r"] by (simp add: bigint_is_geq_raw_def)

lemma bit_0_value: "v \<noteq> [] \<Longrightarrow> bigint_bit_is_set_raw v 0 \<longleftrightarrow> odd (bigval v)"
  by (cases v) (auto simp: bigint_bit_is_set_raw_def and_one_eq odd_unat bit_0 mod2_eq_if)

lemma max_set_bit_loop_value: "c \<le> length v \<Longrightarrow> max_set_bit_loop v c = bit_length (bigval (take c v))"
proof (induction v c rule: max_set_bit_loop.induct)
  case (2 v c)
  have t: "bigval (take (Suc c) v) = bigval (take c v) + 2 ^ (32 * c) * unat (v ! c)"
    using 2(2) by (simp add: take_Suc_conv_app_nth bigval_append)
  show ?case
  proof (cases "v ! c = 0")
    case True
    then show ?thesis using 2 t by (cases "c = 0") (simp_all add: bit_length.simps [of 0])
  next
    case False
    have l: "bigval (take c v) < 2 ^ (32 * c)" using bigval_less [of "take c v"] 2(2) by (simp add: min_absorb2)
    have "0 < unat (v ! c)" using False by (simp add: unat_gt_0)
    then have "2 ^ (32 * c) * 1 \<le> bigval (take (Suc c) v)" unfolding t by (intro trans_le_add2 mult_le_mono2) simp
    then have "bit_length (bigval (take (Suc c) v)) = 32 * c + bit_length (bigval (take (Suc c) v) div 2 ^ (32 * c))" by (intro bit_length_shift) simp
    also have "bigval (take (Suc c) v) div 2 ^ (32 * c) = unat (v ! c)" unfolding t using l by simp
    finally show ?thesis using False flsl_bit_length [of "v ! c"] by (simp add: flsl_def)
  qed
qed (subst bit_length.simps, simp)

lemma max_set_bit_value: "bigint_max_set_bit_raw v = bit_length (bigval v)"
  using max_set_bit_loop_value [of "length v" v] by (simp add: bigint_max_set_bit_raw_def)

section \<open>Multiplication\<close>

definition memval :: "(nat \<Rightarrow> u32) \<Rightarrow> nat \<Rightarrow> nat" where
  "memval m n = (\<Sum>i<n. unat (m i) * 2 ^ (32 * i))"

lemma bigval_map: "bigval (map m [0..<n]) = memval m n"
  by (induction n) (simp_all add: memval_def bigval_append mult.commute)

lemma memval_upd: "i < n \<Longrightarrow> memval (m(i := v)) n + unat (m i) * 2 ^ (32 * i) = memval m n + unat v * 2 ^ (32 * i)"
proof -
  assume i: "i < n"
  have "memval f n = unat (f i) * 2 ^ (32 * i) + (\<Sum>j\<in>{..<n} - {i}. unat (f j) * 2 ^ (32 * j))" for f
    unfolding memval_def using i by (intro sum.remove) auto
  moreover have "(\<Sum>j\<in>{..<n} - {i}. unat ((m(i := v)) j) * 2 ^ (32 * j)) = (\<Sum>j\<in>{..<n} - {i}. unat (m j) * 2 ^ (32 * j))"
    by (intro sum.cong) auto
  ultimately show ?thesis by simp
qed

lemma memval_add:
  assumes "i < n" "adcl a (m i) cf = (v, cf')"
  shows "memval (m(i := v)) n + of_bool cf' * 2 ^ (32 * Suc i) = memval m n + unat a * 2 ^ (32 * i) + of_bool cf * 2 ^ (32 * i)"
proof -
  have "(unat v + 2 ^ 32 * of_bool cf') * 2 ^ (32 * i) = (unat (m i) + unat a + of_bool cf) * 2 ^ (32 * i)" using adcl_value [OF assms(2)] by simp
  then show ?thesis using memval_upd [OF assms(1), of m v] by (simp add: power_add algebra_simps)
qed

lemma carry_loop_value:
  assumes "i \<le> n" "memval m n + of_bool cf * 2 ^ (32 * i) < 2 ^ (32 * n)"
  shows "\<exists>m'. carry_loop m i cf = Some m' \<and> memval m' n = memval m n + of_bool cf * 2 ^ (32 * i) \<and> (\<forall>j\<ge>n. m' j = m j)"
  using assms
proof (induction "n - i" arbitrary: i m cf rule: less_induct)
  case less
  show ?case
  proof (cases cf)
    case False
    moreover have "\<not> 4294967296 \<le> unat (m i)" by (simp add: not_le)
    ultimately show ?thesis by (subst carry_loop.simps) (simp add: adcl_def)
  next
    case True
    obtain v cf' where v: "adcl 0 (m i) cf = (v, cf')" by fastforce
    have "i \<noteq> n" using less.prems True by auto
    then have i: "i < n" using less.prems by simp
    note a = memval_add [where m = m and i = i, OF i v]
    have "Suc i \<le> n" "n - Suc i < n - i" "memval (m(i := v)) n + of_bool cf' * 2 ^ (32 * Suc i) < 2 ^ (32 * n)" using a i less.prems by simp_all
    from less.hyps [OF this(2,1,3)] obtain m' where
      "carry_loop (m(i := v)) (Suc i) cf' = Some m'" "memval m' n = memval m n + of_bool cf * 2 ^ (32 * i)" "\<forall>j\<ge>n. m' j = (m(i := v)) j"
      using a by auto
    then show ?thesis using v i a by (subst carry_loop.simps) (cases cf'; auto)
  qed
qed

lemma mull_value: "mull a b = (hi, lo) \<Longrightarrow> unat lo + 2 ^ 32 * unat hi = unat a * unat b"
proof -
  assume m: "mull a b = (hi, lo)"
  let ?p = "(ucast a :: u64) * ucast b"
  have u: "unat (ucast x :: u64) = unat x" for x :: u32
  proof -
    have "unat x < 2 ^ 64" by (rule order.strict_trans [OF unat_u32_less]) simp
    then show ?thesis by (simp add: unsigned_ucast_eq take_bit_nat_eq_self)
  qed
  have "unat a * unat b \<le> 4294967295 * 4294967295" using unat_u32_less [of a] unat_u32_less [of b] by (intro mult_le_mono) linarith+
  then have "unat a * unat b < 2 ^ 64" by simp
  then have p: "unat ?p = unat a * unat b" using u [of a] u [of b] by (simp add: unat_word_ariths)
  then have "unat ?p div 2 ^ 32 < 2 ^ 32" using \<open>unat a * unat b < 2 ^ 64\<close> by (simp add: less_mult_imp_div_less)
  then have "unat hi = unat ?p div 2 ^ 32" using m by (auto simp: mull_def Let_def unsigned_ucast_eq unat_drop_bit_div take_bit_nat_eq_self)
  moreover have "unat lo = unat ?p mod 2 ^ 32" using m by (auto simp: mull_def Let_def unsigned_ucast_eq take_bit_eq_mod)
  ultimately show ?thesis using p mod_mult_div_eq [of "unat ?p" "2 ^ 32"] by simp
qed

lemma multiply_element_value:
  assumes "Suc i < n" "memval m n + unat a * unat b * 2 ^ (32 * i) < 2 ^ (32 * n)"
  shows "\<exists>m'. multiply_element a b i m = Some m' \<and> memval m' n = memval m n + unat a * unat b * 2 ^ (32 * i) \<and> (\<forall>j\<ge>n. m' j = m j)"
proof -
  obtain hi lo where h: "mull a b = (hi, lo)" by fastforce
  obtain v cf where v: "adcl lo (m i) False = (v, cf)" by fastforce
  obtain w cf' where w: "adcl hi ((m(i := v)) (Suc i)) cf = (w, cf')" by fastforce
  let ?m = "m(i := v, Suc i := w)"
  have "unat a * unat b * 2 ^ (32 * i) = unat lo * 2 ^ (32 * i) + unat hi * 2 ^ (32 * Suc i)"
    using arg_cong [OF mull_value [OF h], of "\<lambda>x. x * 2 ^ (32 * i)"] by (simp add: power_add algebra_simps)
  moreover have "memval (m(i := v)) n + of_bool cf * 2 ^ (32 * Suc i) = memval m n + unat lo * 2 ^ (32 * i)"
    using memval_add [where m = m and i = i, OF _ v, of n] assms(1) by simp
  moreover have "memval ?m n + of_bool cf' * 2 ^ (32 * Suc (Suc i)) = memval (m(i := v)) n + unat hi * 2 ^ (32 * Suc i) + of_bool cf * 2 ^ (32 * Suc i)"
    using memval_add [where m = "m(i := v)" and i = "Suc i", OF assms(1) w] by simp
  ultimately have s: "memval ?m n + of_bool cf' * 2 ^ (32 * Suc (Suc i)) = memval m n + unat a * unat b * 2 ^ (32 * i)" by simp
  from carry_loop_value [of "Suc (Suc i)" n ?m cf'] obtain m' where
    "carry_loop ?m (Suc (Suc i)) cf' = Some m'" "memval m' n = memval m n + unat a * unat b * 2 ^ (32 * i)" "\<forall>j\<ge>n. m' j = ?m j"
    using assms s by auto
  moreover have "?m j = m j" if "n \<le> j" for j using that assms(1) by auto
  ultimately show ?thesis using h v w by (simp add: multiply_element_def)
qed

lemma multiply_row_value:
  assumes "i + length b < n" "memval m n + unat a * bigval b * 2 ^ (32 * i) < 2 ^ (32 * n)"
  shows "\<exists>m'. multiply_row a b i m = Some m' \<and> memval m' n = memval m n + unat a * bigval b * 2 ^ (32 * i) \<and> (\<forall>j\<ge>n. m' j = m j)"
  using assms
proof (induction b arbitrary: i m)
  case (Cons x b)
  have e: "unat a * bigval (x # b) * 2 ^ (32 * i) = unat a * unat x * 2 ^ (32 * i) + unat a * bigval b * 2 ^ (32 * Suc i)"
    by (simp add: power_add algebra_simps)
  have "memval m n + unat a * unat x * 2 ^ (32 * i) < 2 ^ (32 * n)" using Cons.prems(2) unfolding e by linarith
  with multiply_element_value [of i n m a x] Cons.prems(1) obtain m1 where
    m1: "multiply_element a x i m = Some m1" "memval m1 n = memval m n + unat a * unat x * 2 ^ (32 * i)" "\<forall>j\<ge>n. m1 j = m j" by auto
  have "memval m1 n + unat a * bigval b * 2 ^ (32 * Suc i) < 2 ^ (32 * n)" using Cons.prems(2) m1(2) unfolding e by linarith
  with Cons.IH [of "Suc i" m1] Cons.prems(1) obtain m2 where
    m2: "multiply_row a b (Suc i) m1 = Some m2" "memval m2 n = memval m1 n + unat a * bigval b * 2 ^ (32 * Suc i)" "\<forall>j\<ge>n. m2 j = m1 j" by auto
  then show ?case unfolding e using m1 by simp
qed simp

lemma multiply_rows_value:
  assumes "i + length a + length b \<le> n" "memval m n + bigval a * bigval b * 2 ^ (32 * i) < 2 ^ (32 * n)"
  shows "\<exists>m'. multiply_rows a b i m = Some m' \<and> memval m' n = memval m n + bigval a * bigval b * 2 ^ (32 * i) \<and> (\<forall>j\<ge>n. m' j = m j)"
  using assms
proof (induction a arbitrary: i m)
  case (Cons x a)
  have e: "bigval (x # a) * bigval b * 2 ^ (32 * i) = unat x * bigval b * 2 ^ (32 * i) + bigval a * bigval b * 2 ^ (32 * Suc i)"
    by (simp add: power_add algebra_simps)
  have "memval m n + unat x * bigval b * 2 ^ (32 * i) < 2 ^ (32 * n)" using Cons.prems(2) unfolding e by linarith
  with multiply_row_value [of i b n m x] Cons.prems(1) obtain m1 where
    m1: "multiply_row x b i m = Some m1" "memval m1 n = memval m n + unat x * bigval b * 2 ^ (32 * i)" "\<forall>j\<ge>n. m1 j = m j" by auto
  have "memval m1 n + bigval a * bigval b * 2 ^ (32 * Suc i) < 2 ^ (32 * n)" using Cons.prems(2) m1(2) unfolding e by linarith
  with Cons.IH [of "Suc i" m1] Cons.prems(1) obtain m2 where
    m2: "multiply_rows a b (Suc i) m1 = Some m2" "memval m2 n = memval m1 n + bigval a * bigval b * 2 ^ (32 * Suc i)" "\<forall>j\<ge>n. m2 j = m1 j" by auto
  then show ?case unfolding e using m1 by simp
qed simp

text \<open>The product, in twice as many elements; what lies behind it is as before.\<close>

lemma multiply_value:
  assumes "length a = length b"
  shows "\<exists>m'. bigint_multiply_raw a b m = Some m' \<and> bigval (map m' [0..<length a * 2]) = bigval a * bigval b \<and> (\<forall>j\<ge>length a * 2. m' j = m j)"
proof -
  let ?n = "length a * 2" and ?m = "\<lambda>i. if i < length a * 2 then 0 else m i"
  have z: "memval ?m ?n = 0" by (simp add: memval_def)
  have "bigval a * bigval b < 2 ^ (32 * length a) * 2 ^ (32 * length b)" using bigval_less [of a] bigval_less [of b] by (intro mult_strict_mono) auto
  also have "\<dots> = 2 ^ (32 * ?n)" using assms by (simp flip: power_add)
  finally show ?thesis using multiply_rows_value [of 0 a b ?n ?m] assms z unfolding bigint_multiply_raw_def bigval_map by auto
qed

section \<open>Modular arithmetic\<close>

lemma rol_power_value:
  "bigval v * 2 ^ k < 2 ^ (32 * length v) \<Longrightarrow> bigval ((bigint_rol_raw ^^ k) v) = bigval v * 2 ^ k \<and> length ((bigint_rol_raw ^^ k) v) = length v"
proof (induction k)
  case (Suc k)
  then have "bigval ((bigint_rol_raw ^^ k) v) = bigval v * 2 ^ k \<and> length ((bigint_rol_raw ^^ k) v) = length v" by simp
  then show ?case using rol_value [of "(bigint_rol_raw ^^ k) v"] Suc.prems by (simp add: mult.assoc mult.left_commute)
qed simp

lemma reduce_loop_value:
  assumes "length r = length M" "bigval M = m * 2 ^ k" "0 < m" "bigval r < 2 * bigval M"
  shows "\<exists>r' M'. reduce_loop (Suc k) r M = (r', M') \<and> bigval r' = bigval r mod m \<and> length r' = length r"
  using assms
proof (induction k arbitrary: r M)
  case (0 r M)
  then show ?case using subtract_value [of M r] geq_value [of r M] by (auto simp: Let_def le_mod_geq)
next
  case (Suc k)
  let ?r = "if bigint_is_geq_raw r M then bigint_subtract_raw M r else r"
  have v: "bigval ?r = (if bigval M \<le> bigval r then bigval r - bigval M else bigval r)" "length ?r = length r"
    using Suc.prems(1) subtract_value [of M r] geq_value [of r M] by auto
  have h: "bigval (bigint_ror_raw M) = m * 2 ^ k" using Suc.prems(2) by (simp add: ror_value)
  have "bigval ?r mod m = bigval r mod m"
  proof (cases "bigval M \<le> bigval r")
    case True
    then have "bigval r = bigval ?r + m * 2 ^ Suc k" using v(1) Suc.prems(2) by simp
    then show ?thesis by (metis mod_mult_self2)
  qed (simp add: v)
  moreover have "bigval ?r < 2 * bigval (bigint_ror_raw M)" using v(1) h Suc.prems(2,4) by auto
  ultimately show ?case using Suc.IH [of ?r "bigint_ror_raw M"] h v(2) Suc.prems(1,3) by (simp add: Let_def)
qed

lemma bit_length_less: "n < 2 ^ bit_length n"
  using bit_length_bounds [of n] by (cases "n = 0") auto

lemma bit_length_le: "n < 2 ^ k \<Longrightarrow> bit_length n \<le> k"
proof (cases "n = 0")
  case False
  assume "n < 2 ^ k"
  moreover have "2 ^ (bit_length n - 1) \<le> n" using bit_length_bounds [of n] False by simp
  ultimately have "(2 :: nat) ^ (bit_length n - 1) < 2 ^ k" by linarith
  then have "bit_length n - 1 < k" by (rule power_less_imp_less_exp [rotated]) simp
  then show ?thesis by linarith
qed simp

lemma mod_multiply_value:
  assumes len: "length b = length a" "length M = length a" and m: "0 < bigval M"
  shows "\<exists>r tmp'. bigint_mod_multiply_raw a b M tmp = Some (r, tmp') \<and> length r = length a \<and> bigval r = bigval a * bigval b mod bigval M"
proof -
  let ?n = "length a * 2"
  obtain t where t: "bigint_multiply_raw a b tmp = Some t" "bigval (map t [0..<?n]) = bigval a * bigval b"
    using multiply_value [of a b tmp] len(1) by auto
  define R where "R = map t [0..<?n]"
  define G where "G = bigint_grow_raw M ?n"
  define k where "k = int (bigint_max_set_bit_raw R) - int (bigint_max_set_bit_raw G)"
  have G: "bigval G = bigval M" "length G = ?n" using len(2) by (simp_all add: G_def bigint_grow_raw_def bigval_append)
  have R: "bigval R = bigval a * bigval b" "length R = ?n" using t(2) by (simp_all add: R_def)
  let ?p = "bit_length (bigval R)" and ?q = "bit_length (bigval M)"
  have k: "k = int ?p - int ?q" by (simp add: k_def max_set_bit_value G(1))
  have q: "2 ^ (?q - 1) \<le> bigval M" "bigval M < 2 ^ ?q" "0 < ?q" using bit_length_bounds [OF m] by simp_all
  have p: "bigval R < 2 ^ ?p" "?p \<le> 32 * ?n" using bit_length_less bit_length_le [OF bigval_less [of R]] R(2) by simp_all
  define G' where "G' = (bigint_rol_raw ^^ nat k) G"
  have "\<exists>r' M'. reduce_loop (nat (k + 1)) R G' = (r', M') \<and> bigval r' = bigval R mod bigval M \<and> length r' = ?n"
  proof (cases "0 \<le> k")
    case True
    then have n: "?q + nat k = ?p" "nat (k + 1) = Suc (nat k)" using k by simp_all
    have "bigval M * 2 ^ nat k < 2 ^ ?q * 2 ^ nat k" using q(2) by simp
    also have "\<dots> = 2 ^ ?p" using n(1) by (simp flip: power_add)
    also have "\<dots> \<le> 2 ^ (32 * ?n)" using p(2) by (intro power_increasing) simp_all
    finally have G': "bigval G' = bigval M * 2 ^ nat k" "length G' = ?n" using rol_power_value [of G "nat k"] G by (simp_all add: G'_def)
    have "?p = Suc (?q - 1 + nat k)" using n(1) q(3) by simp
    then have "(2 :: nat) ^ ?p = 2 * (2 ^ (?q - 1) * 2 ^ nat k)" by (simp only: power_Suc power_add)
    also have "\<dots> \<le> 2 * bigval G'" unfolding G'(1) using q(1) by simp
    finally have "bigval R < 2 * bigval G'" using p(1) by linarith
    then show ?thesis using reduce_loop_value [of R G' "bigval M" "nat k"] G' R(2) m n(2) by simp
  next
    case False
    then have "?p \<le> ?q - 1" using k by linarith
    then have "bigval R < 2 ^ (?q - 1)" using p(1) by (meson less_le_trans one_le_numeral power_increasing)
    then have "bigval R < bigval M" using q(1) by linarith
    moreover have "nat (k + 1) = 0" using False by simp
    ultimately show ?thesis using R(2) by simp
  qed
  then obtain r' M' where r: "reduce_loop (nat (k + 1)) R G' = (r', M')" "bigval r' = bigval R mod bigval M" "length r' = ?n" by blast
  have "bigval r' < 2 ^ (32 * length a)" using r(2) mod_less_divisor [OF m, of "bigval R"] bigval_less [of M] unfolding len(2) by linarith
  then have "bigval (take (length a) r') = bigval r'" using bigval_take r(3) by simp
  then show ?thesis using t(1) r R(1) by (simp add: bigint_mod_multiply_raw_def bigint_shrink_raw_def Let_def flip: R_def G_def k_def G'_def)
qed

lemma mod_exp_loop_value:
  assumes "length R = length B" "length M = length B" "0 < bigval M" "E \<noteq> []"
  shows "\<exists>r. mod_exp_loop B M E R tmp = Some r \<and> length r = length B \<and>
    bigval r = (if bigval E = 0 then bigval R else bigval R * bigval B ^ bigval E mod bigval M)"
  using assms
proof (induction "bigval E" arbitrary: B E R tmp rule: less_induct)
  case less
  note len = less.prems(1,2) and m = less.prems(3)
  show ?case
  proof (cases "bigval E = 0")
    case True
    then show ?thesis using len by (subst mod_exp_loop.simps) (simp add: is_zero_value)
  next
    case False
    let ?m = "bigval M" and ?e = "bigval E"
    obtain R1 tmp1 where R1: "(if bigint_bit_is_set_raw E 0 then bigint_mod_multiply_raw R B M tmp else Some (R, tmp)) = Some (R1, tmp1)"
      "length R1 = length B" "bigval R1 = (if odd ?e then bigval R * bigval B mod ?m else bigval R)"
      using mod_multiply_value [of B R M tmp] len m bit_0_value [OF less.prems(4)] by (cases "odd ?e") auto
    obtain B1 tmp2 where B1: "bigint_mod_multiply_raw B B M tmp1 = Some (B1, tmp2)" "length B1 = length B" "bigval B1 = bigval B * bigval B mod ?m"
      using mod_multiply_value [of B B M tmp1] len m by auto
    have "?e div 2 < ?e" using False by simp
    moreover have "bigint_ror_raw E \<noteq> []" using less.prems(4) length_ror [of E] by (metis length_0_conv)
    ultimately obtain r where r: "mod_exp_loop B1 M (bigint_ror_raw E) R1 tmp2 = Some r" "length r = length B"
      "bigval r = (if ?e div 2 = 0 then bigval R1 else bigval R1 * bigval B1 ^ (?e div 2) mod ?m)"
      using less.hyps [of "bigint_ror_raw E" R1 B1 tmp2] R1(2) B1(2) len m by (auto simp: ror_value)
    have "bigval r = bigval R * bigval B ^ ?e mod ?m"
    proof (cases "?e div 2 = 0")
      case True
      then have "?e = 1" using False by linarith
      then show ?thesis using r(3) R1(3) by simp
    next
      case n: False
      have "bigval r = bigval R1 * (bigval B * bigval B) ^ (?e div 2) mod ?m"
        using r(3) n B1(3) by (simp add: mod_mult_right_eq [of _ "_ ^ _", symmetric] power_mod del: mod_mult_right_eq)
      also have "\<dots> = bigval R * bigval B ^ (?e mod 2) * (bigval B * bigval B) ^ (?e div 2) mod ?m"
        using R1(3) by (cases "odd ?e") (simp_all add: mod_mult_left_eq odd_iff_mod_2_eq_one)
      also have "bigval R * bigval B ^ (?e mod 2) * (bigval B * bigval B) ^ (?e div 2) = bigval R * bigval B ^ (?e mod 2 + 2 * (?e div 2))"
        by (simp only: power_add power_mult power2_eq_square mult.assoc)
      finally show ?thesis by simp
    qed
    then show ?thesis using r R1(1) B1(1) False by (subst mod_exp_loop.simps) (simp add: is_zero_value)
  qed
qed

section \<open>Raw data\<close>

fun le_value :: "bytes \<Rightarrow> nat" where
  "le_value [] = 0"
| "le_value (b # bs) = unat b + 256 * le_value bs"

text \<open>The number that a string of bytes in network byte order denotes.\<close>

definition be_value :: "bytes \<Rightarrow> nat" where
  "be_value bs = foldl (\<lambda>n b. 256 * n + unat b) 0 bs"

lemma be_value_rev: "be_value bs = le_value (rev bs)"
  by (induction bs rule: rev_induct) (simp_all add: be_value_def)

lemma le_value_append: "le_value (xs @ ys) = le_value xs + 256 ^ length xs * le_value ys"
  by (induction xs) (simp_all add: algebra_simps)

lemma le_value_zeros [simp]: "le_value (replicate n 0) = 0"
  by (induction n) simp_all

lemma le_value_less: "le_value bs < 256 ^ length bs"
proof (induction bs)
  case (Cons b bs)
  have "unat b < 256" by (rule unat_u8_less)
  then show ?case using Cons by simp
qed simp

lemma or_plus:
  assumes "unat x < 2 ^ k" "k < 32"
  shows "(x :: u32) OR push_bit k y = x + push_bit k y"
proof -
  have "\<not> bit x n" if "k \<le> n" for n using assms(1) word_ge_exp_iff [of k x] that by auto
  then have "x AND push_bit k y = 0" by (intro bit_word_eqI) (auto simp: bit_simps)
  then show ?thesis by (simp add: disjunctive_add_eq_or)
qed

lemma unat_push_u8:
  assumes "k \<le> 24"
  shows "unat (push_bit k (ucast (b :: u8)) :: u32) = 2 ^ k * unat b"
proof -
  have "2 ^ k * unat b < 2 ^ k * 256" using unat_u8_less [of b] by simp
  also have "\<dots> \<le> 2 ^ 24 * 256" using assms by (intro mult_le_mono1 power_increasing) simp_all
  finally show ?thesis unfolding unsigned_push_bit_eq by (simp add: push_bit_eq_mult take_bit_nat_eq_self mult.commute)
qed

lemma dword_value: "unat (ucast a OR push_bit 8 (ucast b) OR push_bit 16 (ucast c) OR push_bit 24 (ucast d) :: u32) = le_value [a, b, c, d]"
proof -
  have l: "unat a < 256" "unat b < 256" "unat c < 256" "unat d < 256" by (rule unat_u8_less)+
  let ?a = "ucast a :: u32" and ?b = "push_bit 8 (ucast b) :: u32" and ?c = "push_bit 16 (ucast c) :: u32" and ?d = "push_bit 24 (ucast d) :: u32"
  have v: "unat ?a = unat a" "unat ?b = 256 * unat b" "unat ?c = 65536 * unat c" "unat ?d = 16777216 * unat d"
    using unat_push_u8 [of 8 b] unat_push_u8 [of 16 c] unat_push_u8 [of 24 d] by simp_all
  have "?a OR ?b OR ?c OR ?d = ((?a OR ?b) OR ?c) OR ?d" by (simp only: or.assoc)
  moreover have ab: "?a OR ?b = ?a + ?b" "unat (?a + ?b) = unat a + 256 * unat b" using or_plus [of ?a 8] v l by (simp_all add: unat_add_u32)
  moreover have abc: "(?a + ?b) OR ?c = ?a + ?b + ?c" "unat (?a + ?b + ?c) = unat a + 256 * unat b + 65536 * unat c"
    using or_plus [of "?a + ?b" 16] v l ab(2) unat_add_u32 [of "?a + ?b" ?c] by simp_all
  moreover have "(?a + ?b + ?c) OR ?d = ?a + ?b + ?c + ?d" "unat (?a + ?b + ?c + ?d) = unat a + 256 * unat b + 65536 * unat c + 16777216 * unat d"
    using or_plus [of "?a + ?b + ?c" 24] v l abc(2) unat_add_u32 [of "?a + ?b + ?c" ?d] by simp_all
  ultimately show ?thesis by simp
qed

lemma dwords_value: "length bs = 4 * n \<Longrightarrow> bigval (dwords bs) = le_value bs \<and> length (dwords bs) = n"
proof (induction bs arbitrary: n rule: dwords.induct)
  case (1 a b c d bs)
  then show ?case using dword_value [of a b c d] by (cases n) (auto simp del: le_value.simps simp: le_value_append [of "[a, b, c, d]" bs, simplified])
qed (auto, presburger+)

lemma dword_bytes_value: "le_value (dword_bytes w) = unat w"
proof -
  have "(ucast (ucast w :: u8) OR push_bit 8 (ucast (ucast (drop_bit 8 w) :: u8)) OR push_bit 16 (ucast (ucast (drop_bit 16 w) :: u8)) OR
      push_bit 24 (ucast (ucast (drop_bit 24 w) :: u8)) :: u32) = w" (is "?w = w")
  proof (rule bit_word_eqI)
    fix n assume "n < LENGTH(32)"
    then consider "n < 8" | "8 \<le> n" "n < 16" | "16 \<le> n" "n < 24" | "24 \<le> n" "n < 32" by (cases "n < 8"; cases "n < 16"; cases "n < 24") auto
    then show "bit ?w n \<longleftrightarrow> bit w n" by cases (auto simp: bit_simps)
  qed
  then show ?thesis using dword_value [of "ucast w" "ucast (drop_bit 8 w)" "ucast (drop_bit 16 w)" "ucast (drop_bit 24 w)"] by (simp only: dword_bytes_def)
qed

lemma undwords_value: "le_value (undwords v) = bigval v"
  by (induction v) (simp_all add: undwords_def le_value_append dword_bytes_value, simp add: dword_bytes_def)

lemma init_value:
  assumes "length data \<le> 4 * n"
  shows "bigval (bigint_init_raw n data) = be_value data" "length (bigint_init_raw n data) = n"
proof -
  have "length (rev data @ replicate (n * 4 - length data) 0) = 4 * n" using assms by simp
  from dwords_value [OF this] show "bigval (bigint_init_raw n data) = be_value data" "length (bigint_init_raw n data) = n"
    by (simp_all add: bigint_init_raw_def be_value_rev le_value_append)
qed

lemma done_value:
  assumes "len \<le> 4 * length v"
  shows "be_value (bigint_done_raw v len) = bigval v mod 256 ^ len" "length (bigint_done_raw v len) = len"
proof -
  have l: "length (take len (undwords v)) = len" using assms by (simp add: length_undwords)
  have "bigval v = le_value (take len (undwords v)) + 256 ^ len * le_value (drop len (undwords v))"
    using le_value_append [of "take len (undwords v)" "drop len (undwords v)"] l undwords_value [of v] by simp
  moreover have "le_value (take len (undwords v)) < 256 ^ len" using le_value_less [of "take len (undwords v)"] l by simp
  ultimately show "be_value (bigint_done_raw v len) = bigval v mod 256 ^ len" by (simp add: bigint_done_raw_def be_value_rev)
  show "length (bigint_done_raw v len) = len" using l by (simp add: bigint_done_raw_def)
qed

text \<open>A number of given length is determined by its value.\<close>

lemma le_value_inj: "length xs = length ys \<Longrightarrow> le_value xs = le_value ys \<Longrightarrow> xs = ys"
proof (induction xs ys rule: list_induct2)
  case (Cons x xs y ys)
  have l: "unat x < 256" "unat y < 256" by (rule unat_u8_less)+
  have "unat x = (unat x + 256 * le_value xs) mod 256" "unat y = (unat y + 256 * le_value ys) mod 256" using l by simp_all
  then have "unat x = unat y" using Cons.prems unfolding le_value.simps by (simp only:)
  then show ?case using Cons by (simp add: word_unat_eq_iff)
qed simp

lemma be_value_inj: "length xs = length ys \<Longrightarrow> be_value xs = be_value ys \<Longrightarrow> xs = ys"
  using le_value_inj [of "rev xs" "rev ys"] by (simp add: be_value_rev)

lemma be_value_less: "be_value bs < 256 ^ length bs"
  using le_value_less [of "rev bs"] by (simp add: be_value_rev)

lemma mod_exp_value:
  assumes "length M = length B" "0 < bigval M" "E \<noteq> []"
  shows "\<exists>r. bigint_mod_exp_raw B M E tmp = Some r \<and> length r = length B \<and>
    bigval r = (if bigval E = 0 then 1 else bigval B ^ bigval E mod bigval M)"
proof -
  have "B \<noteq> []" using assms(1,2) by auto
  then have "length [1 :: u8] \<le> 4 * length B" by (cases B) simp_all
  from init_value [OF this] mod_exp_loop_value [of "bigint_init_raw (length B) [1]" B M E tmp] assms show ?thesis
    by (cases "bigval E = 0") (auto simp: bigint_mod_exp_raw_def be_value_def)
qed

text \<open>
  C31.  Modular exponentiation of big integers is correct.  A base and a modulus in the same number of elements and an exponent, all of them given
  as bytes in network byte order, are converted to big integers; whatever the temporary area holds, the exponentiation by repeated squaring
  returns, and its result, converted back to bytes, denotes the power modulo the modulus (or 1 for an exponent of zero).  Every instruction of the
  multiplication, the reduction by shifting and subtracting, and the loops is part of this.
\<close>

theorem bigint_mod_exp_correct:
  assumes "length base \<le> 4 * n" "length modulus \<le> 4 * n" "length exponent \<le> 4 * k" "0 < k" "0 < be_value modulus" "len \<le> 4 * n"
  shows "\<exists>result. bigint_mod_exp_raw (bigint_init_raw n base) (bigint_init_raw n modulus) (bigint_init_raw k exponent) tmp = Some result \<and>
    length (bigint_done_raw result len) = len \<and>
    be_value (bigint_done_raw result len) =
      (if be_value exponent = 0 then 1 else be_value base ^ be_value exponent mod be_value modulus) mod 256 ^ len"
proof -
  note v = init_value [OF assms(1)] init_value [OF assms(2)] init_value [OF assms(3)]
  have "bigint_init_raw k exponent \<noteq> []" using v(6) assms(4) by auto
  then obtain r where r: "bigint_mod_exp_raw (bigint_init_raw n base) (bigint_init_raw n modulus) (bigint_init_raw k exponent) tmp = Some r"
    "length r = n" "bigval r = (if be_value exponent = 0 then 1 else be_value base ^ be_value exponent mod be_value modulus)"
    using mod_exp_value [of "bigint_init_raw n modulus" "bigint_init_raw n base" "bigint_init_raw k exponent" tmp] v assms(5) by auto
  then show ?thesis using done_value [of len r] assms(6) by auto
qed

theorem bigint_mod_exp_correct_witness:
  "\<exists>result. bigint_mod_exp_raw (bigint_init_raw 2 [1, 0, 0, 0, 7]) (bigint_init_raw 2 [2, 0, 0, 0, 11]) (bigint_init_raw 1 [3]) (\<lambda>_. 0) = Some result \<and>
     be_value (bigint_done_raw result 5) = 4294967303 ^ 3 mod 8589934603"
  using bigint_mod_exp_correct [of "[1, 0, 0, 0, 7]" 2 "[2, 0, 0, 0, 11]" "[3]" 1 5 "\<lambda>_. 0"] by (auto simp: be_value_def)

end
