(* ===== verification/Mktime.thy ===== *)
theory Mktime
  imports Prelude "HOL-Library.Signed_Division" "HOL-Library.Monad_Syntax"
begin

text \<open>
  Conversion of calendar dates to seconds, \<open>core/time.c\<close>.

  The fields of \<open>struct tm\<close> and the variables of the code are of type \<open>int\<close>: every value that is computed is checked to be in the range of 32 bits
  (\<open>c_int\<close>), and a computation that leaves it has no result, \<open>None\<close>, as signed overflow is undefined in C.  Division truncates towards zero.  A
  month outside the tables is an access outside them, for which the result is \<open>None\<close>, too.  The seconds are a \<open>time_t\<close> of 64 bits, which
  cannot overflow.  The day of the week only serves the debug output, but is stored in the structure.
\<close>

record tm =
  tm_sec :: int
  tm_min :: int
  tm_hour :: int
  tm_mday :: int
  tm_mon :: int
  tm_year :: int
  tm_wday :: int
  tm_yday :: int
  tm_isdst :: int

definition c_int :: "int \<Rightarrow> int option" where
  "c_int x = (if - (2 ^ 31) \<le> x \<and> x < 2 ^ 31 then Some x else None)"

text \<open>An element of a table of constants.\<close>

definition table_at :: "int list \<Rightarrow> int \<Rightarrow> int option" where
  "table_at xs i = (if 0 \<le> i \<and> i < int (length xs) then Some (xs ! nat i) else None)"

definition is_leap_year :: "int \<Rightarrow> bool" where
  "is_leap_year year =
     (let leap_year = False;
          leap_year = (if year smod 4 = 0 then True else leap_year);
          leap_year = (if year smod 100 = 0 then False else leap_year);
          leap_year = (if year smod 400 = 100 then True else leap_year)
      in leap_year)"

definition leap_years_to_end :: "int \<Rightarrow> int option" where
  "leap_years_to_end year =
     do { leap_years \<leftarrow> c_int (0 + year sdiv 4);
          leap_years \<leftarrow> c_int (leap_years - year sdiv 100);
          y \<leftarrow> c_int (year + 300);
          c_int (leap_years + y sdiv 400) }"

definition day_of_week :: "int \<Rightarrow> int \<Rightarrow> int \<Rightarrow> int option" where
  "day_of_week year mon mday =
     do { pseudo_year \<leftarrow> (if mon < 2 then c_int (year - 1) else Some year);
          leap_years \<leftarrow> leap_years_to_end pseudo_year;
          days \<leftarrow> c_int (pseudo_year + leap_years);
          offset \<leftarrow> table_at [1, 4, 3, 6, 1, 4, 6, 2, 5, 0, 3, 5] mon;
          days \<leftarrow> c_int (days + offset);
          days \<leftarrow> c_int (days + mday);
          Some (days smod 7) }"

definition days_to_month_start :: "int list" where
  "days_to_month_start = [0, 31, 59, 90, 120, 151, 181, 212, 243, 273, 304, 334]"

definition mktime :: "tm \<Rightarrow> (int \<times> tm) option" where
  "mktime tm =
     do { yday \<leftarrow> c_int (tm_mday tm - 1);
          month_start \<leftarrow> table_at days_to_month_start (tm_mon tm);
          yday \<leftarrow> c_int (yday + month_start);
          tm \<leftarrow> Some (tm\<lparr>tm_yday := yday\<rparr>);
          yday \<leftarrow> (if 2 \<le> tm_mon tm \<and> is_leap_year (tm_year tm) then c_int (tm_yday tm + 1) else Some (tm_yday tm));
          tm \<leftarrow> Some (tm\<lparr>tm_yday := yday\<rparr>);
          wday \<leftarrow> day_of_week (tm_year tm) (tm_mon tm) (tm_mday tm);
          tm \<leftarrow> Some (tm\<lparr>tm_wday := wday\<rparr>);
          year_days \<leftarrow> c_int (365 * tm_year tm);
          days \<leftarrow> c_int (tm_yday tm + year_days);
          days \<leftarrow> c_int (days - 25567);
          last_year \<leftarrow> c_int (tm_year tm - 1);
          leap_years \<leftarrow> leap_years_to_end last_year;
          days_since_epoch \<leftarrow> c_int (days + leap_years);
          seconds \<leftarrow> c_int (tm_hour tm * 60);
          seconds \<leftarrow> c_int (seconds + tm_min tm);
          seconds \<leftarrow> c_int (seconds * 60);
          seconds_since_day \<leftarrow> c_int (seconds + tm_sec tm);
          Some (days_since_epoch * 86400 + seconds_since_day, tm) }"

section \<open>The calendar\<close>

text \<open>The Gregorian calendar: the lengths of years and months, and days since the first of January 1970, a Thursday.\<close>

definition leap :: "nat \<Rightarrow> bool" where
  "leap y \<longleftrightarrow> 4 dvd y \<and> (\<not> 100 dvd y \<or> 400 dvd y)"

definition month_len :: "nat \<Rightarrow> nat \<Rightarrow> nat" where
  "month_len y mon = (if mon = 1 then (if leap y then 29 else 28) else if mon \<in> {3, 5, 8, 10} then 30 else 31)"

definition year_len :: "nat \<Rightarrow> nat" where
  "year_len y = (\<Sum>mon<12. month_len y mon)"

definition epoch_days :: "nat \<Rightarrow> nat \<Rightarrow> nat \<Rightarrow> int" where
  "epoch_days y mon mday =
     int (\<Sum>k\<in>{1900..<y}. year_len k) - int (\<Sum>k\<in>{1900..<1970}. year_len k) + int (\<Sum>m<mon. month_len y m) + int mday - 1"

text \<open>The number of leap years from 1900 to a year, and the day of the week, without the bounds of an \<open>int\<close>.\<close>

definition leap_count :: "int \<Rightarrow> int" where
  "leap_count year = year sdiv 4 - year sdiv 100 + (year + 300) sdiv 400"

definition week_day :: "int \<Rightarrow> int \<Rightarrow> int \<Rightarrow> int" where
  "week_day year mon mday =
     (let pseudo_year = (if mon < 2 then year - 1 else year)
      in (pseudo_year + leap_count pseudo_year + [1, 4, 3, 6, 1, 4, 6, 2, 5, 0, 3, 5] ! nat mon + mday) smod 7)"

lemma year_len_eq: "year_len y = (if leap y then 366 else 365)"
  by (simp add: year_len_def month_len_def lessThan_nat_numeral lessThan_Suc)

lemma sdiv_nonneg: "0 \<le> k \<Longrightarrow> 0 < l \<Longrightarrow> k sdiv l = k div l \<and> k smod l = k mod (l :: int)"
  by (cases "k = 0") (simp_all add: signed_divide_int_def signed_modulo_int_def)

text \<open>Years are counted from 1900.\<close>

lemma leap_1900: "leap (1900 + n) \<longleftrightarrow> (4 dvd n \<and> \<not> 100 dvd n) \<or> 400 dvd n + 300"
  "100 dvd n \<Longrightarrow> 4 dvd n" "400 dvd n + 300 \<Longrightarrow> 100 dvd n"
proof -
  show c: "100 dvd n \<Longrightarrow> 4 dvd n" using dvd_trans [of 4 100 n] by simp
  have "1900 + n = 4 * 475 + n" "1900 + n = 100 * 19 + n" "1900 + n = 400 * 4 + (n + 300)" by simp_all
  then have d: "4 dvd 1900 + n \<longleftrightarrow> 4 dvd n" "100 dvd 1900 + n \<longleftrightarrow> 100 dvd n" "400 dvd 1900 + n \<longleftrightarrow> 400 dvd n + 300"
    by (metis dvd_add_right_iff dvd_triv_left)+
  show f: "400 dvd n + 300 \<Longrightarrow> 100 dvd n" using dvd_trans [of 100 400 "n + 300"] dvd_add_left_iff [of 100 300 n] by simp
  show "leap (1900 + n) \<longleftrightarrow> (4 dvd n \<and> \<not> 100 dvd n) \<or> 400 dvd n + 300" unfolding leap_def d using c f by blast
qed

lemma mod_400: "n mod 400 = 100 \<longleftrightarrow> 400 dvd n + (300 :: nat)"
proof -
  have "(n + 300) mod 400 = (n mod 400 + 300) mod 400" by (simp add: mod_add_left_eq)
  also have "\<dots> = (if n mod 400 < 100 then n mod 400 + 300 else n mod 400 - 100)"
  proof (cases "n mod 400 < 100")
    case False
    have "n mod 400 < 400" by simp
    then have "(n mod 400 - 100) mod 400 = n mod 400 - 100" by (intro mod_less) linarith
    moreover have "n mod 400 + 300 = n mod 400 - 100 + 400" using False by linarith
    ultimately show ?thesis using False by (metis mod_add_self2)
  qed simp
  finally show ?thesis unfolding dvd_eq_mod_eq_0 by (auto split: if_splits)
qed

lemma is_leap_year_iff: "is_leap_year (int n) \<longleftrightarrow> leap (1900 + n)"
proof -
  have "int n smod 4 = int (n mod 4)" "int n smod 100 = int (n mod 100)" "int n smod 400 = int (n mod 400)"
    using sdiv_nonneg [of "int n" 4] sdiv_nonneg [of "int n" 100] sdiv_nonneg [of "int n" 400] by (simp_all add: zmod_int)
  then have "is_leap_year (int n) \<longleftrightarrow> n mod 400 = 100 \<or> (n mod 100 \<noteq> 0 \<and> n mod 4 = 0)" by (auto simp: is_leap_year_def Let_def)
  then show ?thesis unfolding mod_400 leap_1900(1) dvd_eq_mod_eq_0 by auto
qed

lemma leap_years_nonneg: "leap_count (int n) = int n div 4 - int n div 100 + (int n + 300) div 400"
  using sdiv_nonneg [of "int n" 4] sdiv_nonneg [of "int n" 100] sdiv_nonneg [of "int n + 300" 400] by (simp add: leap_count_def)

lemma leap_years_ge: "0 \<le> leap_count (int n)"
proof -
  have "int n div 100 \<le> int n div 4" by (rule zdiv_mono2) simp_all
  moreover have "0 \<le> (int n + 300) div 400" by (rule div_int_pos_iff [THEN iffD2]) simp
  ultimately show ?thesis unfolding leap_years_nonneg by (rule add_nonneg_nonneg [OF diff_ge_0_iff_ge [THEN iffD2]])
qed

lemma leap_years_before: "leap_count (- 1) = 0"
  by (simp add: leap_count_def signed_divide_int_def)

lemma Suc_div_int: "0 < d \<Longrightarrow> int (Suc k) div int d = int k div int d + (if d dvd Suc k then 1 else 0)"
  unfolding zdiv_int [symmetric] dvd_eq_mod_eq_0 by (subst div_Suc) simp

lemma leap_years_step: "leap_count (int n) = leap_count (int n - 1) + (if leap (1900 + n) then 1 else 0)"
proof (cases n)
  case 0
  then show ?thesis using leap_years_before leap_years_nonneg [of 0] by (simp add: leap_def)
next
  case (Suc k)
  have s: "int (Suc k) + 300 = int (Suc (k + 300))" "int k + 300 = int (k + 300)" "400 dvd Suc (k + 300) \<longleftrightarrow> 400 dvd Suc k + 300" by simp_all
  have l: "(if 4 dvd Suc k then 1 else 0) - (if 100 dvd Suc k then 1 else 0) + (if 400 dvd Suc k + 300 then 1 else 0) = (if leap (1900 + Suc k) then 1 else 0 :: int)"
  proof -
    have ifs: "(if a then 1 else 0) - (if b then 1 else 0) + (if c then 1 else 0) = (if (a \<and> \<not> b) \<or> c then 1 else 0 :: int)" if "b \<Longrightarrow> a" "c \<Longrightarrow> b" for a b c
      using that by auto
    show ?thesis unfolding leap_1900(1) by (rule ifs, erule leap_1900(2), erule leap_1900(3))
  qed
  have e: "(a + x) - (b + y) + (c + z) = a - b + c + (x - y + z)" for a b c x y z :: int by simp
  note d = Suc_div_int [of 4, unfolded of_nat_numeral, OF zero_less_numeral] Suc_div_int [of 100, unfolded of_nat_numeral, OF zero_less_numeral]
    Suc_div_int [of 400, unfolded of_nat_numeral, OF zero_less_numeral]
  have "leap_count (int (Suc k)) = leap_count (int k) + (if leap (1900 + Suc k) then 1 else 0)"
    unfolding leap_years_nonneg s(1,2) d s(3) e l ..
  moreover have "int (Suc k) - 1 = int k" by simp
  ultimately show ?thesis unfolding Suc by (simp only:)
qed

lemma leap_years_count: "365 * int n + leap_count (int n - 1) = int (\<Sum>k\<in>{1900..<1900 + n}. year_len k)"
proof (induction n)
  case (Suc n)
  have "{1900..<1900 + Suc n} = insert (1900 + n) {1900..<1900 + n}" by auto
  then have "(\<Sum>k\<in>{1900..<1900 + Suc n}. year_len k) = year_len (1900 + n) + (\<Sum>k\<in>{1900..<1900 + n}. year_len k)" by simp
  moreover have "int (year_len (1900 + n)) = 365 + (if leap (1900 + n) then 1 else 0)" by (simp add: year_len_eq)
  ultimately show ?case using Suc leap_years_step [of n] by simp
qed (simp add: leap_years_before)

lemma epoch_year: "int (\<Sum>k\<in>{1900..<1970}. year_len k) = 25567"
  using leap_years_count [of 70] leap_years_nonneg [of 69] by simp

lemma less_12_cases: "n < 12 \<Longrightarrow> n \<in> {0, 1, 2, 3, 4, 5, 6, 7, 8, 9, 10, 11 :: nat}"
  by (simp, arith)

lemma month_start: "mon < 12 \<Longrightarrow>
  days_to_month_start ! mon + (if 2 \<le> mon \<and> leap y then 1 else 0) = int (\<Sum>m<mon. month_len y m)"
  using less_12_cases [of mon] by (auto simp: days_to_month_start_def month_len_def lessThan_nat_numeral lessThan_Suc)

text \<open>The day of the week.\<close>

lemma weekday:
  assumes "mon < 12" "1 \<le> mday"
  shows "week_day (int n) (int mon) (int mday) = (epoch_days (1900 + n) mon mday + 4) mod 7"
proof -
  let ?offset = "[1, 4, 3, 6, 1, 4, 6, 2, 5, 0, 3, 5] :: int list"
  let ?p = "if mon < 2 then int n - 1 else int n"
  have e: "epoch_days (1900 + n) mon mday = 365 * int n + leap_count (int n - 1) - 25567 + int (\<Sum>m<mon. month_len (1900 + n) m) + int mday - 1"
    unfolding epoch_days_def leap_years_count epoch_year by simp
  obtain L l where L: "leap_count (int n - 1) = L" "(if leap (1900 + n) then 1 else 0) = (l :: int)" "leap_count (int n) = L + l"
    using leap_years_step [of n] by auto
  have m: "int (\<Sum>m<mon. month_len (1900 + n) m) = days_to_month_start ! mon + (if 2 \<le> mon then l else 0)"
    using month_start [OF assms(1), of "1900 + n"] L(2) by (auto split: if_splits)
  have "(365 * int n + L - 25567 + (days_to_month_start ! mon + (if 2 \<le> mon then l else 0)) + int mday - 1 + 4) -
      (?p + leap_count ?p + ?offset ! mon + int mday) =
    7 * (52 * int n - [3652, 3648, 3644, 3640, 3635, 3631, 3627, 3622, 3618, 3613, 3609, 3605] ! mon)"
    using less_12_cases [OF assms(1)] L(1,3) by (elim insertE emptyE) (simp_all add: days_to_month_start_def)
  then have "7 dvd (365 * int n + L - 25567 + (days_to_month_start ! mon + (if 2 \<le> mon then l else 0)) + int mday - 1 + 4) -
      (?p + leap_count ?p + ?offset ! mon + int mday)" by (metis dvd_triv_left)
  then have "(?p + leap_count ?p + ?offset ! mon + int mday) mod 7 = (epoch_days (1900 + n) mon mday + 4) mod 7"
    unfolding e m L(1) by (metis mod_eq_dvd_iff)
  moreover have "0 \<le> ?p + leap_count ?p + ?offset ! mon + int mday"
  proof -
    have "0 \<le> ?offset ! mon" using less_12_cases [OF assms(1)] by (elim insertE emptyE) simp_all
    moreover have "- 1 \<le> ?p" "0 \<le> leap_count ?p" using leap_years_ge [of n] leap_years_ge [of "n - 1"] leap_years_before by (cases n; simp)+
    ultimately show ?thesis using assms(2) by linarith
  qed
  ultimately show ?thesis unfolding e using assms(1) sdiv_nonneg [of "?p + leap_count ?p + ?offset ! mon + int mday" 7]
    by (simp add: week_day_def Let_def split: if_splits)
qed

text \<open>On dates that are not too late every value is in range.\<close>

lemma c_intI: "- (2 ^ 31) \<le> x \<Longrightarrow> x < 2 ^ 31 \<Longrightarrow> c_int x = Some x"
  by (simp add: c_int_def)

lemma leap_count_le: "leap_count (int n) \<le> int n"
proof -
  have "int n div 4 \<le> int n div 2" "0 \<le> int n div 100" "(int n + 300) div 400 \<le> (int n + 1) div 2" by (auto intro!: zdiv_mono2)
  then show ?thesis unfolding leap_years_nonneg by linarith
qed

lemma leap_years_ok:
  assumes "- 1 \<le> y" "y \<le> 5000000"
  shows "leap_years_to_end y = Some (leap_count y)"
proof (cases "y = - 1")
  case True
  then show ?thesis by (simp add: leap_years_to_end_def leap_count_def c_int_def signed_divide_int_def)
next
  case False
  then have "0 \<le> y" using assms(1) by simp
  then have "0 \<le> y div 4" "y div 4 \<le> y" "0 \<le> y div 100" "y div 100 \<le> y" "0 \<le> (y + 300) div 400" "(y + 300) div 400 \<le> y + 300"
    using zdiv_mono2 [of y 1 4] zdiv_mono2 [of y 1 100] zdiv_mono2 [of "y + 300" 1 400] by (simp_all add: pos_imp_zdiv_nonneg_iff)
  then show ?thesis using \<open>0 \<le> y\<close> assms(2) sdiv_nonneg [of y 4] sdiv_nonneg [of y 100] sdiv_nonneg [of "y + 300" 400]
    by (simp add: leap_years_to_end_def leap_count_def c_int_def)
qed

lemma leap_count_prev: "0 \<le> leap_count (int n - 1) \<and> leap_count (int n - 1) \<le> int n"
  using leap_years_ge [of "n - 1"] leap_count_le [of "n - 1"] leap_years_before by (cases n) simp_all

lemma day_of_week_ok:
  assumes "mon < 12" "n \<le> 5000000" "1 \<le> mday" "mday \<le> 31"
  shows "day_of_week (int n) (int mon) (int mday) = Some (week_day (int n) (int mon) (int mday))"
proof -
  let ?o = "[1, 4, 3, 6, 1, 4, 6, 2, 5, 0, 3, 5] ! mon :: int" and ?p = "if mon < 2 then int n - 1 else int n"
  have o: "0 \<le> ?o" "?o \<le> 6" using less_12_cases [OF assms(1)] by (elim insertE emptyE; simp)+
  have p: "- 1 \<le> ?p" "?p \<le> 5000000" "0 \<le> leap_count ?p" "leap_count ?p \<le> int n"
    using assms(2) leap_count_prev [of n] leap_years_ge [of n] leap_count_le [of n] by simp_all
  have t: "table_at [1, 4, 3, 6, 1, 4, 6, 2, 5, 0, 3, 5] (int mon) = Some ?o" using assms(1) by (simp add: table_at_def)
  have "(if int mon < 2 then c_int (int n - 1) else Some (int n)) = Some ?p" using assms(2) by (simp add: c_int_def)
  then have "day_of_week (int n) (int mon) (int mday) = Some ((?p + leap_count ?p + ?o + int mday) smod 7)"
    unfolding day_of_week_def t using o p assms(2-4) by (simp add: leap_years_ok c_intI)
  then show ?thesis by (simp add: week_day_def Let_def)
qed

text \<open>
  C34.  Dates are converted correctly.  For every date in the Gregorian calendar from 1900 up to five million years later, and every time of day,
  no computation overflows an \<open>int\<close> and \<open>mktime\<close> returns the seconds since the Epoch that the lengths of the years and months before the date, the
  day and the time of day add up to, and stores the day of the year and the day of the week, counted from the Thursday on which the Epoch began.
  A month that does not exist makes it read outside its tables.
\<close>

theorem mktime_correct:
  assumes "tm_year tm = int n" "n \<le> 5000000" "tm_mday tm = int mday" "1 \<le> mday" "mday \<le> 31"
    and "tm_hour tm \<in> {0..23}" "tm_min tm \<in> {0..59}" "tm_sec tm \<in> {0..60}"
  shows "mktime tm =
    (if tm_mon tm \<in> {0..11} then
       (let mon = nat (tm_mon tm); days = epoch_days (1900 + n) mon mday
        in Some (86400 * days + 3600 * tm_hour tm + 60 * tm_min tm + tm_sec tm,
             tm\<lparr>tm_yday := int (\<Sum>m<mon. month_len (1900 + n) m) + int mday - 1, tm_wday := (days + 4) mod 7\<rparr>))
     else None)"
proof (cases "tm_mon tm \<in> {0..11}")
  case False
  then have "table_at days_to_month_start (tm_mon tm) = None" by (auto simp: table_at_def days_to_month_start_def)
  then have "mktime tm = None" using assms(3-5) by (simp add: mktime_def c_int_def)
  then show ?thesis unfolding if_not_P [OF False] .
next
  case True
  then obtain mon where mon: "tm_mon tm = int mon" "mon < 12" by (intro that [of "nat (tm_mon tm)"]) auto
  let ?s = "days_to_month_start ! mon" and ?l = "if 2 \<le> mon \<and> leap (1900 + n) then 1 else 0 :: int" and ?c = "leap_count (int n - 1)"
  have b: "0 \<le> ?s" "?s \<le> 334" using less_12_cases [OF mon(2)] by (elim insertE emptyE; simp add: days_to_month_start_def)+
  have c: "0 \<le> ?c" "?c \<le> int n" "leap_years_to_end (int n - 1) = Some ?c"
    using leap_count_prev [of n] leap_years_ok [of "int n - 1"] assms(2) by simp_all
  have t: "table_at days_to_month_start (int mon) = Some ?s" using mon(2) by (simp add: table_at_def days_to_month_start_def)
  have w: "day_of_week (int n) (int mon) (int mday) = Some ((epoch_days (1900 + n) mon mday + 4) mod 7)"
    using day_of_week_ok [OF mon(2) assms(2,4,5)] weekday [OF mon(2) assms(4)] by simp
  have e: "epoch_days (1900 + n) mon mday = 365 * int n + ?c - 25567 + (?s + ?l) + int mday - 1"
    unfolding epoch_days_def leap_years_count epoch_year month_start [OF mon(2)] by simp
  have r: "int n \<le> 5000000" "1 \<le> int mday" "int mday \<le> 31" "0 \<le> tm_hour tm" "tm_hour tm \<le> 23" "0 \<le> tm_min tm" "tm_min tm \<le> 59"
    "0 \<le> tm_sec tm" "tm_sec tm \<le> 60" using assms(2-) by auto
  define y0 y1 d0 s0 s1 s2 where v: "y0 = int mday - 1" "y1 = y0 + ?s" "d0 = 365 * int n" "s0 = tm_hour tm * 60" "s1 = s0 + tm_min tm" "s2 = s1 * 60"
  define yd where yd: "yd = (if 2 \<le> mon \<and> leap (1900 + n) then y1 + 1 else y1)"
  define d1 d2 d3 where d: "d1 = yd + d0" "d2 = d1 - 25567" "d3 = d2 + ?c"
  have ydb: "0 \<le> yd" "yd \<le> 366" using v(1,2) yd r(2,3) b by auto
  have o: "c_int (int mday - 1) = Some y0" "c_int (y0 + ?s) = Some y1" "(if 2 \<le> mon \<and> leap (1900 + n) then c_int (y1 + 1) else Some y1) = Some yd"
    "c_int (365 * int n) = Some d0" "c_int (yd + d0) = Some d1" "c_int (d1 - 25567) = Some d2" "c_int (int n - 1) = Some (int n - 1)"
    "c_int (d2 + ?c) = Some d3" "c_int (tm_hour tm * 60) = Some s0" "c_int (s0 + tm_min tm) = Some s1"
    "c_int (s1 * 60) = Some s2" "c_int (s2 + tm_sec tm) = Some (s2 + tm_sec tm)"
    using r b c(1,2) ydb v yd d by (simp_all add: c_int_def)
  have "mktime tm = Some (d3 * 86400 + (s2 + tm_sec tm), tm\<lparr>tm_yday := yd, tm_wday := (epoch_days (1900 + n) mon mday + 4) mod 7\<rparr>)"
    using assms(1,3) mon(1) by (simp add: mktime_def o t w c(3) is_leap_year_iff split del: if_split cong: if_cong)
  moreover have "yd = int (\<Sum>m<mon. month_len (1900 + n) m) + int mday - 1" using month_start [OF mon(2), of "1900 + n"] yd v(1,2) by auto
  moreover have "s2 + tm_sec tm = 3600 * tm_hour tm + 60 * tm_min tm + tm_sec tm" using v by simp
  moreover have "d3 = epoch_days (1900 + n) mon mday" unfolding e using yd v d by simp
  ultimately show ?thesis using True mon(1) by (simp add: Let_def mult.commute add.assoc)
qed

text \<open>The first of March 2000, 12:34:56.\<close>

theorem mktime_correct_witness:
  "mktime \<lparr>tm_sec = 56, tm_min = 34, tm_hour = 12, tm_mday = 1, tm_mon = 2, tm_year = 100, tm_wday = 0, tm_yday = 0, tm_isdst = 0\<rparr> =
     Some (951914096, \<lparr>tm_sec = 56, tm_min = 34, tm_hour = 12, tm_mday = 1, tm_mon = 2, tm_year = 100, tm_wday = 3, tm_yday = 60, tm_isdst = 0\<rparr>)"
proof -
  have "epoch_days 2000 2 1 = 11017"
    using leap_years_count [of 100] leap_years_nonneg [of 99] month_start [of 2 2000] unfolding epoch_days_def epoch_year
    by (simp add: days_to_month_start_def leap_def)
  then show ?thesis using mktime_correct [of _ 100 1] month_start [of 2 2000] by (simp add: days_to_month_start_def leap_def)
qed

end
