(* ===== verification/Asn1.thy ===== *)
theory Asn1
  imports Mktime Digest Iobuf
begin

text \<open>
  ASN.1 objects, \<open>crypto/asn1.c\<close> and \<open>include/ipxe/asn1.h\<close>.

  A cursor is an address and a length; the bytes it covers are in memory, a function from addresses to bytes.  Objects do not extend over the end of
  the address space and are shorter than 2 GB, so that a length fits into an \<open>int\<close>.  Errors that differ only in the text of their message are one
  error.  The table of algorithms that the linker collects is a parameter, and so is the success of an allocation.
\<close>

unbundle bit_operations_syntax

type_synonym mem = "nat \<Rightarrow> u8"

record asn1_cursor =
  cursor_data :: nat
  cursor_len :: nat

record asn1_bits =
  bits_data :: nat
  bits_len :: nat
  bits_unused :: nat

record ('p, 'd) asn1_alg =
  alg_name :: string
  alg_oid :: asn1_cursor
  alg_pubkey :: "'p option"
  alg_digest :: "'d option"

definition ASN1_END :: u32 where "ASN1_END = 0x00"
definition ASN1_BOOLEAN :: u32 where "ASN1_BOOLEAN = 0x01"
definition ASN1_INTEGER :: u32 where "ASN1_INTEGER = 0x02"
definition ASN1_BIT_STRING :: u32 where "ASN1_BIT_STRING = 0x03"
definition ASN1_OCTET_STRING :: u32 where "ASN1_OCTET_STRING = 0x04"
definition ASN1_NULL :: u32 where "ASN1_NULL = 0x05"
definition ASN1_OID :: u32 where "ASN1_OID = 0x06"
definition ASN1_UTC_TIME :: u32 where "ASN1_UTC_TIME = 0x17"
definition ASN1_GENERALIZED_TIME :: u32 where "ASN1_GENERALIZED_TIME = 0x18"
definition ASN1_SEQUENCE :: u32 where "ASN1_SEQUENCE = 0x30"
definition ASN1_ANY :: u32 where "ASN1_ANY = - 1"

text \<open>The encoding of object identifiers.\<close>

definition ASN1_OID_INITIAL :: "nat \<Rightarrow> nat \<Rightarrow> bytes" where
  "ASN1_OID_INITIAL a b = [of_nat (a * 40 + b)]"

definition ASN1_OID_SINGLE :: "nat \<Rightarrow> bytes" where
  "ASN1_OID_SINGLE v = [of_nat v AND 0x7f]"

definition ASN1_OID_DOUBLE :: "nat \<Rightarrow> bytes" where
  "ASN1_OID_DOUBLE v = (0x80 OR (of_nat (v div 2 ^ 7) AND 0x7f)) # ASN1_OID_SINGLE v"

definition ASN1_OID_TRIPLE :: "nat \<Rightarrow> bytes" where
  "ASN1_OID_TRIPLE v = (0x80 OR (of_nat (v div 2 ^ 14) AND 0x7f)) # ASN1_OID_DOUBLE v"

definition ASN1_OID_MD5 :: bytes where
  "ASN1_OID_MD5 = ASN1_OID_INITIAL 1 2 @ ASN1_OID_DOUBLE 840 @ ASN1_OID_TRIPLE 113549 @ ASN1_OID_SINGLE 2 @ ASN1_OID_SINGLE 5"

definition ASN1_OID_SHA1 :: bytes where
  "ASN1_OID_SHA1 = ASN1_OID_INITIAL 1 3 @ ASN1_OID_SINGLE 14 @ ASN1_OID_SINGLE 3 @ ASN1_OID_SINGLE 2 @ ASN1_OID_SINGLE 26"

definition ASN1_OID_SHA256 :: bytes where
  "ASN1_OID_SHA256 = ASN1_OID_INITIAL 2 16 @ ASN1_OID_DOUBLE 840 @ ASN1_OID_SINGLE 1 @ ASN1_OID_SINGLE 101 @ ASN1_OID_SINGLE 3 @
     ASN1_OID_SINGLE 4 @ ASN1_OID_SINGLE 2 @ ASN1_OID_SINGLE 1"

section \<open>Cursors\<close>

text \<open>The address of the static object that invalid cursors point to.\<close>

definition asn1_invalid_object :: nat where
  "asn1_invalid_object = 0"

definition asn1_invalidate_cursor :: "asn1_cursor \<Rightarrow> asn1_cursor" where
  "asn1_invalidate_cursor cursor = cursor\<lparr>cursor_data := asn1_invalid_object, cursor_len := 0\<rparr>"

definition asn1_type :: "mem \<Rightarrow> asn1_cursor \<Rightarrow> u32" where
  "asn1_type m cursor = ucast (m (cursor_data cursor))"

text \<open>Advancing a cursor by one byte.\<close>

definition next_byte :: "asn1_cursor \<Rightarrow> asn1_cursor" where
  "next_byte cursor = cursor\<lparr>cursor_data := cursor_data cursor + 1, cursor_len := cursor_len cursor - 1\<rparr>"

fun asn1_len_loop :: "mem \<Rightarrow> nat \<Rightarrow> u32 \<Rightarrow> asn1_cursor \<Rightarrow> u32 \<times> asn1_cursor" where
  "asn1_len_loop m 0 len cursor = (len, cursor)"
| "asn1_len_loop m (Suc len_len) len cursor =
     asn1_len_loop m len_len (push_bit 8 len OR ucast (m (cursor_data cursor))) (next_byte cursor)"

definition asn1_start :: "mem \<Rightarrow> asn1_cursor \<Rightarrow> u32 \<Rightarrow> (errno + nat) \<times> asn1_cursor" where
  "asn1_start m cursor type =
     (if cursor_len cursor < 2 then (Inl EINVAL, cursor)
      else if type \<noteq> ASN1_ANY \<and> type \<noteq> asn1_type m cursor then (Inl ENXIO, cursor)
      else
        (let cursor = next_byte cursor;
             len_byte = m (cursor_data cursor);
             (len_len, cursor) = (if len_byte AND 0x80 \<noteq> 0 then (unat (len_byte AND 0x7f), next_byte cursor) else (1, cursor))
         in if cursor_len cursor < len_len then (Inl EINVAL, cursor)
            else
              (let (len, cursor) = asn1_len_loop m len_len 0 cursor
               in if cursor_len cursor < unat len then (Inl EINVAL, cursor) else (Inr (unat len), cursor))))"

definition asn1_enter :: "mem \<Rightarrow> asn1_cursor \<Rightarrow> u32 \<Rightarrow> rc \<times> asn1_cursor" where
  "asn1_enter m cursor type =
     (case asn1_start m cursor type of
        (Inl e, cursor) \<Rightarrow> (Some e, asn1_invalidate_cursor cursor)
      | (Inr len, cursor) \<Rightarrow> (None, cursor\<lparr>cursor_len := len\<rparr>))"

definition asn1_skip_if_exists :: "mem \<Rightarrow> asn1_cursor \<Rightarrow> u32 \<Rightarrow> rc \<times> asn1_cursor" where
  "asn1_skip_if_exists m cursor type =
     (case asn1_start m cursor type of
        (Inl e, cursor) \<Rightarrow> (Some e, cursor)
      | (Inr len, cursor) \<Rightarrow>
          (let cursor = cursor\<lparr>cursor_data := cursor_data cursor + len, cursor_len := cursor_len cursor - len\<rparr>
           in if cursor_len cursor = 0 then (Some ENOENT, cursor) else (None, cursor)))"

definition asn1_skip :: "mem \<Rightarrow> asn1_cursor \<Rightarrow> u32 \<Rightarrow> rc \<times> asn1_cursor" where
  "asn1_skip m cursor type =
     (case asn1_skip_if_exists m cursor type of
        (Some e, cursor) \<Rightarrow> (Some e, asn1_invalidate_cursor cursor)
      | (None, cursor) \<Rightarrow> (None, cursor))"

definition asn1_shrink :: "mem \<Rightarrow> asn1_cursor \<Rightarrow> u32 \<Rightarrow> rc \<times> asn1_cursor" where
  "asn1_shrink m cursor type =
     (case asn1_start m cursor type of
        (Inl e, temp) \<Rightarrow> (Some e, asn1_invalidate_cursor cursor)
      | (Inr len, temp) \<Rightarrow> (None, cursor\<lparr>cursor_len := cursor_data temp + len - cursor_data cursor\<rparr>))"

definition asn1_enter_any :: "mem \<Rightarrow> asn1_cursor \<Rightarrow> rc \<times> asn1_cursor" where
  "asn1_enter_any m cursor = asn1_enter m cursor ASN1_ANY"

definition asn1_skip_any :: "mem \<Rightarrow> asn1_cursor \<Rightarrow> rc \<times> asn1_cursor" where
  "asn1_skip_any m cursor = asn1_skip m cursor ASN1_ANY"

definition asn1_shrink_any :: "mem \<Rightarrow> asn1_cursor \<Rightarrow> rc \<times> asn1_cursor" where
  "asn1_shrink_any m cursor = asn1_shrink m cursor ASN1_ANY"

section \<open>Values\<close>

definition asn1_boolean :: "mem \<Rightarrow> asn1_cursor \<Rightarrow> errno + u8" where
  "asn1_boolean m cursor =
     (let contents = snd (asn1_enter m cursor ASN1_BOOLEAN)
      in if cursor_len contents \<noteq> 1 then Inl EINVAL else Inr (m (cursor_data contents)))"

fun asn1_integer_loop :: "mem \<Rightarrow> nat \<Rightarrow> nat \<Rightarrow> u32 \<Rightarrow> errno + u32" where
  "asn1_integer_loop m data 0 value = Inr value"
| "asn1_integer_loop m data (Suc len) value =
     (let high_byte = ucast (drop_bit 24 value) :: u8
      in if high_byte \<noteq> 0x00 \<and> high_byte \<noteq> 0xff then Inl EINVAL
         else asn1_integer_loop m (data + 1) len (push_bit 8 value OR ucast (m data)))"

definition asn1_integer :: "mem \<Rightarrow> asn1_cursor \<Rightarrow> errno + u32" where
  "asn1_integer m cursor =
     (case asn1_enter m cursor ASN1_INTEGER of
        (Some e, contents) \<Rightarrow> Inl e
      | (None, contents) \<Rightarrow>
          if cursor_len contents < 1 then Inl EINVAL
          else
            (let value = scast (m (cursor_data contents)); contents = next_byte contents
             in asn1_integer_loop m (cursor_data contents) (cursor_len contents) value))"

definition asn1_bit_string :: "mem \<Rightarrow> asn1_cursor \<Rightarrow> errno + asn1_bits" where
  "asn1_bit_string m cursor =
     (case asn1_enter m cursor ASN1_BIT_STRING of
        (Some e, contents) \<Rightarrow> Inl e
      | (None, contents) \<Rightarrow>
          if cursor_len contents < 1 then Inl EINVAL
          else
            (let data = cursor_data contents + 1;
                 len = cursor_len contents - 1;
                 unused = unat (m (cursor_data contents));
                 unused_mask = drop_bit (8 - unused) 0xff;
                 last = data + len - 1
             in if 8 \<le> unused \<or> (0 < unused \<and> len = 0) \<or> m last AND unused_mask \<noteq> 0 then Inl EINVAL
                else Inr \<lparr>bits_data = data, bits_len = len, bits_unused = unused\<rparr>))"

definition asn1_integral_bit_string :: "mem \<Rightarrow> asn1_cursor \<Rightarrow> errno + asn1_bits" where
  "asn1_integral_bit_string m cursor =
     (case asn1_bit_string m cursor of
        Inl e \<Rightarrow> Inl e
      | Inr bits \<Rightarrow> if bits_unused bits \<noteq> 0 then Inl EINVAL else Inr bits)"

fun memcmp :: "mem \<Rightarrow> nat \<Rightarrow> nat \<Rightarrow> nat \<Rightarrow> int" where
  "memcmp m cs ct 0 = 0"
| "memcmp m cs ct (Suc count) =
     (let res = int (unat (m cs)) - int (unat (m ct)) in if res \<noteq> 0 then res else memcmp m (cs + 1) (ct + 1) count)"

definition asn1_compare :: "mem \<Rightarrow> asn1_cursor \<Rightarrow> asn1_cursor \<Rightarrow> int" where
  "asn1_compare m cursor1 cursor2 =
     (let difference = int (cursor_len cursor2) - int (cursor_len cursor1)
      in if difference \<noteq> 0 then difference else memcmp m (cursor_data cursor1) (cursor_data cursor2) (cursor_len cursor1))"

section \<open>Algorithms\<close>

fun asn1_find_algorithm :: "mem \<Rightarrow> ('p, 'd) asn1_alg list \<Rightarrow> asn1_cursor \<Rightarrow> ('p, 'd) asn1_alg option" where
  "asn1_find_algorithm m [] cursor = None"
| "asn1_find_algorithm m (algorithm # algorithms) cursor =
     (if asn1_compare m (alg_oid algorithm) cursor = 0 then Some algorithm else asn1_find_algorithm m algorithms cursor)"

definition asn1_algorithm :: "mem \<Rightarrow> ('p, 'd) asn1_alg list \<Rightarrow> asn1_cursor \<Rightarrow> errno + ('p, 'd) asn1_alg" where
  "asn1_algorithm m algorithms cursor =
     (let contents = snd (asn1_enter m cursor ASN1_SEQUENCE) in
      case asn1_enter m contents ASN1_OID of
        (Some e, contents) \<Rightarrow> Inl EINVAL
      | (None, contents) \<Rightarrow>
          (case asn1_find_algorithm m algorithms contents of None \<Rightarrow> Inl ENOTSUP | Some algorithm \<Rightarrow> Inr algorithm))"

definition asn1_pubkey_algorithm :: "mem \<Rightarrow> ('p, 'd) asn1_alg list \<Rightarrow> asn1_cursor \<Rightarrow> errno + ('p, 'd) asn1_alg" where
  "asn1_pubkey_algorithm m algorithms cursor =
     (case asn1_algorithm m algorithms cursor of
        Inl e \<Rightarrow> Inl e
      | Inr algorithm \<Rightarrow> if alg_pubkey algorithm = None then Inl ENOTTY else Inr algorithm)"

definition asn1_digest_algorithm :: "mem \<Rightarrow> ('p, 'd) asn1_alg list \<Rightarrow> asn1_cursor \<Rightarrow> errno + ('p, 'd) asn1_alg" where
  "asn1_digest_algorithm m algorithms cursor =
     (case asn1_algorithm m algorithms cursor of
        Inl e \<Rightarrow> Inl e
      | Inr algorithm \<Rightarrow> if alg_digest algorithm = None then Inl ENOTTY else Inr algorithm)"

definition asn1_signature_algorithm :: "mem \<Rightarrow> ('p, 'd) asn1_alg list \<Rightarrow> asn1_cursor \<Rightarrow> errno + ('p, 'd) asn1_alg" where
  "asn1_signature_algorithm m algorithms cursor =
     (case asn1_algorithm m algorithms cursor of
        Inl e \<Rightarrow> Inl e
      | Inr algorithm \<Rightarrow>
          if alg_pubkey algorithm = None then Inl ENOTTY
          else if alg_digest algorithm = None then Inl ENOTTY
          else Inr algorithm)"

section \<open>Times\<close>

definition isdigit :: "u8 \<Rightarrow> bool" where
  "isdigit c \<longleftrightarrow> 48 \<le> c \<and> c \<le> 57"

text \<open>The pairs of digits from the index on; the address and the number of the remaining bytes.\<close>

fun pairs_loop :: "mem \<Rightarrow> nat \<Rightarrow> nat \<Rightarrow> nat \<Rightarrow> nat \<Rightarrow> u8 list \<Rightarrow> errno + u8 list \<times> nat \<times> nat" where
  "pairs_loop m 0 i data remaining raw = Inr (raw, data, remaining)"
| "pairs_loop m (Suc n) i data remaining raw =
     (if remaining < 2 then if i = 7 - 1 then Inr (raw, data, remaining) else Inl EINVAL
      else
        (let tens = m data; units = m (data + 1)
         in if \<not> (isdigit tens \<and> isdigit units) then Inl EINVAL
            else pairs_loop m n (i + 1) (data + 2) (remaining - 2) (raw[i := 10 * (tens - 48) + (units - 48)])))"

text \<open>\<open>None\<close> is the outcome of \<open>mktime\<close> when it reads outside its tables.\<close>

definition asn1_generalized_time :: "mem \<Rightarrow> asn1_cursor \<Rightarrow> (errno + int) option" where
  "asn1_generalized_time m cursor =
     (let type = asn1_type m cursor in
      if type \<noteq> ASN1_UTC_TIME \<and> type \<noteq> ASN1_GENERALIZED_TIME then Some (Inl EINVAL)
      else
        (let have_century = (type = ASN1_GENERALIZED_TIME) in
         case asn1_enter m cursor type of
           (Some e, contents) \<Rightarrow> Some (Inl e)
         | (None, contents) \<Rightarrow>
             (let i = (if have_century then 0 else 1) in
              case pairs_loop m (7 - i) i (cursor_data contents) (cursor_len contents) (replicate 7 0) of
                Inl e \<Rightarrow> Some (Inl e)
              | Inr (raw, data, remaining) \<Rightarrow>
                  (let raw = (if have_century then raw else raw[0 := (if 50 \<le> raw ! 1 then 19 else 20)]) in
                   if remaining \<noteq> 1 \<or> m data \<noteq> 90 then Some (Inl EINVAL)
                   else
                     (let field = (\<lambda>i. int (unat (raw ! i)));
                          tm = \<lparr>tm_sec = field 6, tm_min = field 5, tm_hour = field 4, tm_mday = field 3, tm_mon = field 2 - 1,
                                tm_year = (field 0 - 19) * 100 + field 1, tm_wday = 0, tm_yday = 0, tm_isdst = 0\<rparr>
                      in map_option (\<lambda>(time, tm). Inr time) (mktime tm))))))"

section \<open>Builders\<close>

record asn1_builder =
  builder_data :: "bytes option"
  builder_len :: nat

function len_count :: "u32 \<Rightarrow> nat \<Rightarrow> nat" where
  "len_count temp len_len = (if temp = 0 then len_len else len_count (drop_bit 8 temp) (len_len + 1))"
  by pat_completeness auto
termination
  by (relation "measure (\<lambda>(temp, len_len). unat temp)") (auto simp: unat_drop_bit_div unat_gt_0 intro!: div_less_dividend)

function len_fill :: "u32 \<Rightarrow> nat \<Rightarrow> bytes \<Rightarrow> bytes" where
  "len_fill temp len_len bs =
     (if temp = 0 then bs else len_fill (drop_bit 8 temp) (len_len - 1) (bs[len_len := ucast (temp AND 0xff)]))"
  by pat_completeness auto
termination
  by (relation "measure (\<lambda>(temp, len_len, bs). unat temp)") (auto simp: unat_drop_bit_div unat_gt_0 intro!: div_less_dividend)

declare len_count.simps [simp del] len_fill.simps [simp del]

text \<open>The header, of which only the bytes up to the header length are used: the type, and five bytes for the length.\<close>

definition asn1_header :: "u32 \<Rightarrow> u32 \<Rightarrow> nat \<times> bytes" where
  "asn1_header type len =
     (if len < 0x80 then (2, ucast type # (replicate 5 0)[0 := ucast len])
      else
        (let len_len = len_count len 0;
             bs = (replicate 5 0)[0 := 0x80 OR of_nat len_len]
         in (2 + len_len, ucast type # len_fill len len_len bs)))"

text \<open>The data moves to the end of the buffer; the space in front of it is filled in by the callers.\<close>

definition asn1_grow :: "bool \<Rightarrow> asn1_builder \<Rightarrow> bytes \<Rightarrow> rc \<times> asn1_builder" where
  "asn1_grow alloc builder extra =
     (if builder_len builder \<noteq> 0 \<and> builder_data builder = None then (Some ENOMEM, builder)
      else if \<not> alloc then (Some ENOMEM, builder\<lparr>builder_data := None\<rparr>)
      else
        (None, builder\<lparr>builder_data := Some (extra @ (case builder_data builder of Some bs \<Rightarrow> bs | None \<Rightarrow> [])),
                builder_len := builder_len builder + length extra\<rparr>))"

definition asn1_prepend_raw :: "bool \<Rightarrow> asn1_builder \<Rightarrow> bytes \<Rightarrow> rc \<times> asn1_builder" where
  "asn1_prepend_raw alloc builder data = asn1_grow alloc builder data"

definition asn1_prepend :: "bool \<Rightarrow> asn1_builder \<Rightarrow> u32 \<Rightarrow> bytes \<Rightarrow> rc \<times> asn1_builder" where
  "asn1_prepend alloc builder type data =
     (let (header_len, header) = asn1_header type (of_nat (length data))
      in asn1_grow alloc builder (take header_len header @ data))"

definition asn1_wrap :: "bool \<Rightarrow> asn1_builder \<Rightarrow> u32 \<Rightarrow> rc \<times> asn1_builder" where
  "asn1_wrap alloc builder type =
     (let (header_len, header) = asn1_header type (of_nat (builder_len builder))
      in asn1_grow alloc builder (take header_len header))"

section \<open>Parsing stays inside the cursor\<close>

definition within :: "asn1_cursor \<Rightarrow> asn1_cursor \<Rightarrow> bool" where
  "within c c' \<longleftrightarrow> cursor_data c' \<le> cursor_data c \<and> cursor_data c + cursor_len c \<le> cursor_data c' + cursor_len c'"

definition agree :: "asn1_cursor \<Rightarrow> mem \<Rightarrow> mem \<Rightarrow> bool" where
  "agree c m m' \<longleftrightarrow> (\<forall>i. cursor_data c \<le> i \<and> i < cursor_data c + cursor_len c \<longrightarrow> m' i = m i)"

definition be_word32 :: "u32 \<Rightarrow> bytes \<Rightarrow> u32" where
  "be_word32 len bs = foldl (\<lambda>len b. push_bit 8 len OR ucast b) len bs"

lemma be_word32_single [simp]: "be_word32 0 [b] = ucast b"
  by (simp add: be_word32_def)

lemma next_byte_simps [simp]:
  "cursor_data (next_byte c) = cursor_data c + 1" "cursor_len (next_byte c) = cursor_len c - 1"
  by (simp_all add: next_byte_def)

lemma len_loop:
  "n \<le> cursor_len c \<Longrightarrow> asn1_len_loop m n len c =
    (be_word32 len (map m [cursor_data c..<cursor_data c + n]), c\<lparr>cursor_data := cursor_data c + n, cursor_len := cursor_len c - n\<rparr>)"
proof (induction n arbitrary: len c)
  case 0
  show ?case by (simp add: be_word32_def)
next
  case (Suc n)
  have "[cursor_data c..<cursor_data c + Suc n] = cursor_data c # [Suc (cursor_data c)..<Suc (cursor_data c) + n]" by (simp add: upt_rec)
  then show ?case using Suc by (simp add: be_word32_def next_byte_def)
qed

text \<open>Where the first byte of a length field leaves the parser: the number of further bytes, and where they are.\<close>

definition len_field :: "mem \<Rightarrow> asn1_cursor \<Rightarrow> nat \<times> asn1_cursor" where
  "len_field m c = (let len_byte = m (cursor_data c) in if len_byte AND 0x80 \<noteq> 0 then (unat (len_byte AND 0x7f), next_byte c) else (1, c))"

lemma asn1_start_alt:
  "asn1_start m c t =
     (if cursor_len c < 2 then (Inl EINVAL, c)
      else if t \<noteq> ASN1_ANY \<and> t \<noteq> asn1_type m c then (Inl ENXIO, c)
      else
        (case len_field m (next_byte c) of (n, c1) \<Rightarrow>
           if cursor_len c1 < n then (Inl EINVAL, c1)
           else
             (let len = unat (be_word32 0 (map m [cursor_data c1..<cursor_data c1 + n]));
                  c2 = c1\<lparr>cursor_data := cursor_data c1 + n, cursor_len := cursor_len c1 - n\<rparr>
              in if cursor_len c2 < len then (Inl EINVAL, c2) else (Inr len, c2))))"
  by (auto simp: asn1_start_def len_field_def len_loop Let_def)

lemma len_field_within:
  assumes "len_field m c = (n, c1)" "0 < cursor_len c"
  shows "cursor_data c \<le> cursor_data c1" "cursor_data c1 + cursor_len c1 = cursor_data c + cursor_len c"
  using assms by (auto simp: len_field_def Let_def split: if_splits)

lemma start_within:
  assumes "asn1_start m c t = (r, c')"
  shows "cursor_data c \<le> cursor_data c'" "cursor_data c' + cursor_len c' = cursor_data c + cursor_len c"
    "r = Inr len \<Longrightarrow> len \<le> cursor_len c'"
proof -
  obtain n c1 where f: "len_field m (next_byte c) = (n, c1)" by fastforce
  have "cursor_data c \<le> cursor_data c' \<and> cursor_data c' + cursor_len c' = cursor_data c + cursor_len c \<and> (r = Inr len \<longrightarrow> len \<le> cursor_len c')"
    using assms len_field_within [OF f] unfolding asn1_start_alt f by (auto simp: Let_def split: if_splits)
  then show "cursor_data c \<le> cursor_data c'" "cursor_data c' + cursor_len c' = cursor_data c + cursor_len c" "r = Inr len \<Longrightarrow> len \<le> cursor_len c'"
    by blast+
qed

lemma agree_map: "agree c m m' \<Longrightarrow> cursor_data c \<le> a \<Longrightarrow> b \<le> cursor_data c + cursor_len c \<Longrightarrow> map m' [a..<b] = map m [a..<b]"
  by (auto simp: agree_def)

lemma agree_within: "agree c m m' \<Longrightarrow> within c' c \<Longrightarrow> agree c' m m'"
  by (auto simp: agree_def within_def)

lemma start_local:
  assumes "agree c m m'"
  shows "asn1_start m' c t = asn1_start m c t"
proof (cases "cursor_len c < 2")
  case False
  then have b: "m' (cursor_data c) = m (cursor_data c)" "m' (cursor_data c + 1) = m (cursor_data c + 1)" using assms by (auto simp: agree_def)
  then have f': "len_field m' (next_byte c) = len_field m (next_byte c)" by (simp add: len_field_def Let_def)
  obtain n c1 where f: "len_field m (next_byte c) = (n, c1)" by fastforce
  show ?thesis
  proof (cases "cursor_len c1 < n")
    case l: False
    have "map m' [cursor_data c1..<cursor_data c1 + n] = map m [cursor_data c1..<cursor_data c1 + n]"
      using len_field_within [OF f] l False by (intro agree_map [OF assms]) simp_all
    then show ?thesis unfolding asn1_start_alt asn1_type_def b(1) f' f prod.case by (simp only:)
  qed (simp add: asn1_start_alt asn1_type_def b(1) f' f)
qed (simp add: asn1_start_alt)

lemma enter_within:
  assumes "asn1_enter m c t = (r, c')"
  shows "c' = asn1_invalidate_cursor c \<and> r \<noteq> None \<or> within c' c \<and> r = None"
proof (cases "asn1_start m c t")
  case (Pair s c1)
  then show ?thesis using assms start_within [OF Pair] by (cases s) (auto simp: asn1_enter_def within_def asn1_invalidate_cursor_def)
qed

lemma skip_if_exists_within: "within (snd (asn1_skip_if_exists m c t)) c"
proof (cases "asn1_start m c t")
  case (Pair s c1)
  then show ?thesis using start_within [OF Pair] by (cases s) (auto simp: asn1_skip_if_exists_def within_def Let_def)
qed

lemma skip_within: "snd (asn1_skip m c t) = asn1_invalidate_cursor c \<or> within (snd (asn1_skip m c t)) c"
  using skip_if_exists_within [of m c t] by (auto simp: asn1_skip_def asn1_invalidate_cursor_def split: prod.splits option.splits)

lemma shrink_within: "snd (asn1_shrink m c t) = asn1_invalidate_cursor c \<or> within (snd (asn1_shrink m c t)) c"
proof (cases "asn1_start m c t")
  case (Pair s c1)
  then show ?thesis using start_within [OF Pair] by (cases s) (auto simp: asn1_shrink_def within_def)
qed

text \<open>What the functions return depends on the bytes of the cursor only.\<close>

lemma cursor_local:
  assumes "agree c m m'"
  shows "asn1_enter m' c t = asn1_enter m c t" "asn1_skip_if_exists m' c t = asn1_skip_if_exists m c t"
    "asn1_skip m' c t = asn1_skip m c t" "asn1_shrink m' c t = asn1_shrink m c t"
  by (simp_all add: asn1_enter_def asn1_skip_if_exists_def asn1_skip_def asn1_shrink_def start_local [OF assms])

lemma integer_loop_local:
  "(\<forall>i. data \<le> i \<and> i < data + len \<longrightarrow> m' i = m i) \<Longrightarrow> asn1_integer_loop m' data len v = asn1_integer_loop m data len v"
  by (induction m data len v rule: asn1_integer_loop.induct) (simp_all add: Let_def)

lemma boolean_local: "agree c m m' \<Longrightarrow> asn1_boolean m' c = asn1_boolean m c"
proof -
  assume a: "agree c m m'"
  obtain r c1 where e: "asn1_enter m c ASN1_BOOLEAN = (r, c1)" by fastforce
  have "cursor_len c1 = 1 \<Longrightarrow> m' (cursor_data c1) = m (cursor_data c1)"
    using enter_within [OF e] a by (auto simp: agree_def within_def asn1_invalidate_cursor_def)
  then show ?thesis using cursor_local(1) [OF a, of ASN1_BOOLEAN] e by (simp add: asn1_boolean_def Let_def)
qed

lemma integer_local: "agree c m m' \<Longrightarrow> asn1_integer m' c = asn1_integer m c"
proof -
  assume a: "agree c m m'"
  obtain r c1 where e: "asn1_enter m c ASN1_INTEGER = (r, c1)" by fastforce
  show ?thesis
  proof (cases r)
    case None
    then have w: "agree c1 m m'" using enter_within [OF e] agree_within [OF a] by simp
    have "asn1_integer_loop m' (Suc (cursor_data c1)) (cursor_len c1 - 1) v = asn1_integer_loop m (Suc (cursor_data c1)) (cursor_len c1 - 1) v"
      if "0 < cursor_len c1" for v using w that by (intro integer_loop_local) (auto simp: agree_def)
    moreover have "0 < cursor_len c1 \<Longrightarrow> m' (cursor_data c1) = m (cursor_data c1)" using w by (auto simp: agree_def)
    ultimately show ?thesis using cursor_local(1) [OF a, of ASN1_INTEGER] e None by (auto simp: asn1_integer_def Let_def)
  qed (use cursor_local(1) [OF a, of ASN1_INTEGER] e in \<open>simp add: asn1_integer_def\<close>)
qed

lemma bit_string_local:
  assumes "agree c m m'"
  shows "asn1_bit_string m' c = asn1_bit_string m c"
    "asn1_bit_string m c = Inr b \<Longrightarrow> within \<lparr>cursor_data = bits_data b, cursor_len = bits_len b\<rparr> c"
proof -
  obtain r c1 where e: "asn1_enter m c ASN1_BIT_STRING = (r, c1)" by fastforce
  have l: "m' (cursor_data c1) = m (cursor_data c1)" "m' (cursor_data c1 + (cursor_len c1 - 1)) = m (cursor_data c1 + (cursor_len c1 - 1))"
    if "r = None" "1 \<le> cursor_len c1"
    using enter_within [OF e] agree_within [OF assms, of c1] that by (auto simp: agree_def)
  show "asn1_bit_string m' c = asn1_bit_string m c"
    using l cursor_local(1) [OF assms, of ASN1_BIT_STRING] e by (cases r) (auto simp: asn1_bit_string_def Let_def)
  show "within \<lparr>cursor_data = bits_data b, cursor_len = bits_len b\<rparr> c" if "asn1_bit_string m c = Inr b"
    using that e enter_within [OF e] by (auto simp: asn1_bit_string_def Let_def within_def split: option.splits if_splits)
qed

lemma memcmp_local:
  "(\<forall>i<n. m' (x + i) = m (x + i)) \<Longrightarrow> (\<forall>i<n. m' (y + i) = m (y + i)) \<Longrightarrow> memcmp m' x y n = memcmp m x y n"
proof (induction n arbitrary: x y)
  case (Suc n)
  have "\<forall>i<n. m' (x + 1 + i) = m (x + 1 + i)" "\<forall>i<n. m' (y + 1 + i) = m (y + 1 + i)"
    using Suc.prems by (auto dest: spec [of _ "Suc _"])
  then have "memcmp m' (x + 1) (y + 1) n = memcmp m (x + 1) (y + 1) n" by (rule Suc.IH)
  then show ?case using Suc.prems [THEN spec, of 0] by (simp add: Let_def)
qed simp

lemma agree_nth: "agree c m m' \<Longrightarrow> \<forall>i<cursor_len c. m' (cursor_data c + i) = m (cursor_data c + i)"
  by (simp add: agree_def)

lemma compare_local:
  "agree c m m' \<Longrightarrow> agree c' m m' \<Longrightarrow> asn1_compare m' c c' = asn1_compare m c c'"
  using memcmp_local [of "cursor_len c" m' "cursor_data c" m "cursor_data c'"] agree_nth [of c m m'] agree_nth [of c' m m']
  by (simp add: asn1_compare_def Let_def)

lemma find_algorithm_local:
  "agree c m m' \<Longrightarrow> \<forall>alg \<in> set algs. agree (alg_oid alg) m m' \<Longrightarrow> asn1_find_algorithm m' algs c = asn1_find_algorithm m algs c"
  by (induction algs) (simp_all add: compare_local [where m = m and m' = m'])

lemma algorithm_local:
  assumes "agree c m m'" "\<forall>alg \<in> set algs. agree (alg_oid alg) m m'"
  shows "asn1_algorithm m' algs c = asn1_algorithm m algs c"
proof -
  obtain r c1 where e: "asn1_enter m c ASN1_SEQUENCE = (r, c1)" by fastforce
  have a1: "agree c1 m m'"
    using enter_within [OF e] agree_within [OF assms(1), of c1] by (auto simp: agree_def asn1_invalidate_cursor_def)
  obtain r' c2 where e': "asn1_enter m c1 ASN1_OID = (r', c2)" by fastforce
  have "r' = None \<Longrightarrow> agree c2 m m'" using enter_within [OF e'] agree_within [OF a1, of c2] by simp
  then show ?thesis
    using cursor_local(1) [OF assms(1), of ASN1_SEQUENCE] cursor_local(1) [OF a1, of ASN1_OID] e e' find_algorithm_local [OF _ assms(2), of c2]
    by (cases r') (simp_all add: asn1_algorithm_def Let_def)
qed

lemma pairs_loop_local:
  "(\<forall>i. data \<le> i \<and> i < data + remaining \<longrightarrow> m' i = m i) \<Longrightarrow> pairs_loop m' n i data remaining raw = pairs_loop m n i data remaining raw"
proof (induction n arbitrary: i data remaining raw)
  case (Suc n)
  show ?case
  proof (cases "remaining < 2")
    case False
    then have "m' data = m data" "m' (data + 1) = m (data + 1)" using Suc.prems by simp_all
    moreover have "\<forall>i. data + 2 \<le> i \<and> i < data + 2 + (remaining - 2) \<longrightarrow> m' i = m i" using Suc.prems False by auto
    then have "pairs_loop m' n i' (data + 2) (remaining - 2) raw' = pairs_loop m n i' (data + 2) (remaining - 2) raw'" for i' raw'
      by (rule Suc.IH)
    ultimately show ?thesis by (simp only: pairs_loop.simps)
  qed simp
qed simp

lemma pairs_loop_end:
  "pairs_loop m n i data remaining raw = Inr (raw', data', remaining') \<Longrightarrow> data \<le> data' \<and> data' + remaining' = data + remaining"
proof (induction n arbitrary: i data remaining raw)
  case (Suc n)
  show ?case
  proof (cases "remaining < 2")
    case False
    then obtain raw1 where "pairs_loop m n (i + 1) (data + 2) (remaining - 2) raw1 = Inr (raw', data', remaining')"
      using Suc.prems by (auto simp: Let_def split: if_splits)
    from Suc.IH [OF this] False show ?thesis by auto
  qed (use Suc.prems in \<open>auto split: if_splits\<close>)
qed simp

lemma case_pairs_cong:
  "(\<And>raw data remaining. p = Inr (raw, data, remaining) \<Longrightarrow> f raw data remaining = g raw data remaining) \<Longrightarrow>
    (case p of Inl e \<Rightarrow> h e | Inr (raw, data, remaining) \<Rightarrow> f raw data remaining) = (case p of Inl e \<Rightarrow> h e | Inr (raw, data, remaining) \<Rightarrow> g raw data remaining)"
  by (cases p) auto

lemma generalized_time_local:
  assumes "agree c m m'" "0 < cursor_len c"
  shows "asn1_generalized_time m' c = asn1_generalized_time m c"
proof -
  let ?t = "asn1_type m c" and ?i = "if asn1_type m c = ASN1_GENERALIZED_TIME then 0 else 1 :: nat"
  have t: "asn1_type m' c = ?t" using assms by (simp add: asn1_type_def agree_def)
  obtain r c1 where e: "asn1_enter m c ?t = (r, c1)" by fastforce
  have e': "asn1_enter m' c ?t = (r, c1)" using cursor_local(1) [OF assms(1), of ?t] e by simp
  show ?thesis
  proof (cases r)
    case None
    then have w: "agree c1 m m'" using enter_within [OF e] agree_within [OF assms(1)] by simp
    have l: "pairs_loop m' n i (cursor_data c1) (cursor_len c1) raw = pairs_loop m n i (cursor_data c1) (cursor_len c1) raw" for n i raw
      using w by (intro pairs_loop_local) (simp add: agree_def)
    have "m' data = m data" if "pairs_loop m n i (cursor_data c1) (cursor_len c1) raw = Inr (raw', data, 1)" for n i raw raw' data
      using pairs_loop_end [OF that] w by (simp add: agree_def)
    moreover obtain p where p: "pairs_loop m (7 - ?i) ?i (cursor_data c1) (cursor_len c1) (replicate 7 0) = p" by blast
    ultimately have d: "p = Inr (raw, data, 1) \<Longrightarrow> m' data = m data" for raw data by blast
    have z: "(remaining \<noteq> 1 \<or> m' data \<noteq> 90) = (remaining \<noteq> 1 \<or> m data \<noteq> 90)" if "p = Inr (raw, data, remaining)" for raw data remaining
      using d [of raw data] that by (cases "remaining = 1") simp_all
    show ?thesis
      unfolding asn1_generalized_time_def Let_def t unfolding e e' None unfolding prod.case option.case l unfolding p
      by (rule if_cong [OF refl refl], rule case_pairs_cong, rule if_cong [OF z refl refl])
  next
    case (Some err)
    show ?thesis unfolding asn1_generalized_time_def Let_def t unfolding e e' Some unfolding prod.case option.case ..
  qed
qed

text \<open>
  C32.  Parsing is memory-safe.  Whatever bytes a cursor covers (of less than 2 GB), no function of the parser reads a byte outside it: its
  result is the same for every other contents of the memory around it.  The functions that look up an algorithm also read the object
  identifiers in the table of algorithms; \<open>asn1_generalized_time\<close> is safe for a cursor that is not empty, as it reads the type first.  The cursor
  that entering, skipping or shrinking an object leaves, and the data of a bit string, lie within the original cursor, or the cursor has been
  invalidated, which leaves no byte to read.
\<close>

theorem asn1_memory_safe:
  assumes "cursor_len c < 2 ^ 31" "\<forall>i. cursor_data c \<le> i \<and> i < cursor_data c + cursor_len c \<longrightarrow> m' i = m i"
    and "\<forall>alg \<in> set algs. \<forall>i. cursor_data (alg_oid alg) \<le> i \<and> i < cursor_data (alg_oid alg) + cursor_len (alg_oid alg) \<longrightarrow> m' i = m i"
  shows "(\<forall>f \<in> {asn1_enter, asn1_skip_if_exists, asn1_skip, asn1_shrink}. \<forall>type. f m' c type = f m c type \<and>
      (snd (f m c type) = c\<lparr>cursor_data := asn1_invalid_object, cursor_len := 0\<rparr> \<or> within (snd (f m c type)) c)) \<and>
    (\<forall>f \<in> {asn1_enter_any, asn1_skip_any, asn1_shrink_any}. f m' c = f m c \<and>
      (snd (f m c) = c\<lparr>cursor_data := asn1_invalid_object, cursor_len := 0\<rparr> \<or> within (snd (f m c)) c)) \<and>
    asn1_boolean m' c = asn1_boolean m c \<and> asn1_integer m' c = asn1_integer m c \<and>
    asn1_bit_string m' c = asn1_bit_string m c \<and> asn1_integral_bit_string m' c = asn1_integral_bit_string m c \<and>
    (\<forall>bits. asn1_bit_string m c = Inr bits \<longrightarrow> within \<lparr>cursor_data = bits_data bits, cursor_len = bits_len bits\<rparr> c) \<and>
    (\<forall>f \<in> {asn1_algorithm, asn1_pubkey_algorithm, asn1_digest_algorithm, asn1_signature_algorithm}. f m' algs c = f m algs c) \<and>
    (0 < cursor_len c \<longrightarrow> asn1_generalized_time m' c = asn1_generalized_time m c)"
proof -
  have a: "agree c m m'" using assms(2) by (simp add: agree_def)
  have t: "\<forall>alg \<in> set algs. agree (alg_oid alg) m m'" using assms(3) by (simp add: agree_def)
  have "snd (asn1_enter m c t) = asn1_invalidate_cursor c \<or> within (snd (asn1_enter m c t)) c" for t
    using enter_within [of m c t] by (cases "asn1_enter m c t") auto
  then show ?thesis
    using cursor_local [OF a] skip_if_exists_within [of m c] skip_within [of m c] shrink_within [of m c]
      boolean_local [OF a] integer_local [OF a] bit_string_local [OF a] algorithm_local [OF a t] generalized_time_local [OF a]
    by (simp add: asn1_invalidate_cursor_def asn1_integral_bit_string_def asn1_enter_any_def asn1_skip_any_def asn1_shrink_any_def
        asn1_pubkey_algorithm_def asn1_digest_algorithm_def asn1_signature_algorithm_def)
qed

definition sample_object :: mem where
  "sample_object = (\<lambda>i. if i = 8 then 0x30 else if i = 9 then 3 else if i = 10 then 2 else if i = 11 then 1 else if i = 12 then 7 else 0)"

theorem asn1_memory_safe_witness:
  "asn1_enter (sample_object(13 := 99)) \<lparr>cursor_data = 8, cursor_len = 5\<rparr> ASN1_SEQUENCE = asn1_enter sample_object \<lparr>cursor_data = 8, cursor_len = 5\<rparr> ASN1_SEQUENCE \<and>
   asn1_enter sample_object \<lparr>cursor_data = 8, cursor_len = 5\<rparr> ASN1_SEQUENCE = (None, \<lparr>cursor_data = 10, cursor_len = 3\<rparr>)"
  using asn1_memory_safe [of "\<lparr>cursor_data = 8, cursor_len = 5\<rparr>" "sample_object(13 := 99)" sample_object "[]"]
  by (simp add: asn1_enter_def asn1_start_def asn1_type_def sample_object_def ASN1_SEQUENCE_def ASN1_ANY_def)

section \<open>What is built is read back\<close>

text \<open>The bytes of a length, the most significant one first, without leading zeros.\<close>

function len_bytes :: "u32 \<Rightarrow> bytes" where
  "len_bytes temp = (if temp = 0 then [] else len_bytes (drop_bit 8 temp) @ [ucast (temp AND 0xff)])"
  by pat_completeness auto
termination
  by (relation "measure unat") (auto simp: unat_drop_bit_div unat_gt_0 intro!: div_less_dividend)

declare len_bytes.simps [simp del]

lemma len_bytes_0 [simp]: "len_bytes 0 = []"
  by (subst len_bytes.simps) simp

lemma len_count_length: "len_count temp n = n + length (len_bytes temp)"
  by (induction temp n rule: len_count.induct) (subst len_count.simps, subst len_bytes.simps, simp)

lemma length_len_bytes: "unat temp < 256 ^ k \<Longrightarrow> length (len_bytes temp) \<le> k"
proof (induction k arbitrary: temp)
  case 0
  then show ?case by (subst len_bytes.simps) (simp add: unat_eq_0)
next
  case (Suc k)
  have "unat (drop_bit 8 temp) < 256 ^ k" using Suc.prems by (simp add: unat_drop_bit_div less_mult_imp_div_less mult.commute)
  then show ?case using Suc.IH [of "drop_bit 8 temp"] by (subst len_bytes.simps) simp
qed

lemma len_fill_bytes:
  "n = length (len_bytes temp) \<Longrightarrow> n < length bs \<Longrightarrow> len_fill temp n bs = take 1 bs @ len_bytes temp @ drop (Suc n) bs"
proof (induction temp n bs rule: len_fill.induct)
  case (1 temp n bs)
  show ?case
  proof (cases "temp = 0")
    case True
    then show ?thesis using 1(2,3) by (subst len_fill.simps) (cases bs; simp)
  next
    case False
    then have e: "len_bytes temp = len_bytes (drop_bit 8 temp) @ [ucast (temp AND 0xff)]" by (subst len_bytes.simps) simp
    then obtain k where n: "n = Suc k" "k = length (len_bytes (drop_bit 8 temp))" using 1(2) by simp
    let ?bs = "bs[n := ucast (temp AND 0xff)]"
    have "len_fill (drop_bit 8 temp) k ?bs = take 1 ?bs @ len_bytes (drop_bit 8 temp) @ drop (Suc k) ?bs"
      using 1(1) [OF False] n 1(3) by simp
    moreover have "drop (Suc k) ?bs = ucast (temp AND 0xff) # drop (Suc n) bs" using n(1) 1(3) by (simp add: drop_update_swap Cons_nth_drop_Suc [symmetric] del: Cons_nth_drop_Suc)
    moreover have "take 1 ?bs = take 1 bs" using n(1) by (cases bs) simp_all
    ultimately show ?thesis using False n(1) e by (subst len_fill.simps) simp
  qed
qed

lemma be_word32_len_bytes: "be_word32 0 (len_bytes temp) = temp"
proof (induction temp rule: len_bytes.induct)
  case (1 temp)
  show ?case
  proof (cases "temp = 0")
    case True
    then show ?thesis by (subst len_bytes.simps) (simp add: be_word32_def)
  next
    case False
    have "temp AND 0xff = take_bit 8 temp" by (simp add: take_bit_eq_mask mask_eq_exp_minus_1)
    then have "push_bit 8 (drop_bit 8 temp) OR ucast (ucast (temp AND 0xff) :: u8) = temp"
      by (intro bit_word_eqI) (auto simp: bit_simps)
    then show ?thesis using 1 False by (subst len_bytes.simps) (simp add: be_word32_def)
  qed
qed

definition holds :: "mem \<Rightarrow> nat \<Rightarrow> bytes \<Rightarrow> bool" where
  "holds m a bs \<longleftrightarrow> (\<forall>i<length bs. m (a + i) = bs ! i)"

lemma holds_append [simp]: "holds m a (xs @ ys) \<longleftrightarrow> holds m a xs \<and> holds m (a + length xs) ys"
proof
  assume h: "holds m a (xs @ ys)"
  have "m (a + length xs + i) = ys ! i" if "i < length ys" for i
    using h that by (auto simp: holds_def nth_append add.assoc dest: spec [of _ "length xs + i"])
  moreover have "m (a + i) = xs ! i" if "i < length xs" for i using h that by (auto simp: holds_def nth_append dest: spec [of _ i])
  ultimately show "holds m a xs \<and> holds m (a + length xs) ys" by (simp add: holds_def)
next
  assume h: "holds m a xs \<and> holds m (a + length xs) ys"
  show "holds m a (xs @ ys)" unfolding holds_def
  proof (intro allI impI)
    fix i assume "i < length (xs @ ys)"
    then show "m (a + i) = (xs @ ys) ! i" using h spec [of "\<lambda>j. j < length ys \<longrightarrow> m (a + length xs + j) = ys ! j" "i - length xs"]
      by (cases "i < length xs") (auto simp: holds_def nth_append)
  qed
qed

lemma holds_Cons [simp]: "holds m a (x # xs) \<longleftrightarrow> m a = x \<and> holds m (Suc a) xs"
  using holds_append [of m a "[x]" xs] by (simp add: holds_def)

lemma holds_map: "holds m a bs \<Longrightarrow> map m [a..<a + length bs] = bs"
  by (rule nth_equalityI) (simp_all add: holds_def)

text \<open>An object: the header in front of the contents.\<close>

definition der_header :: "u32 \<Rightarrow> nat \<Rightarrow> bytes" where
  "der_header type len = (case asn1_header type (of_nat len) of (header_len, header) \<Rightarrow> take header_len header)"

lemma der_header_cases:
  assumes "len < 2 ^ 32"
  shows "der_header t len = (if len < 0x80 then [ucast t, of_nat len]
    else ucast t # (0x80 OR of_nat (length (len_bytes (of_nat len)))) # len_bytes (of_nat len))"
proof -
  have u: "unat (of_nat len :: u32) = len" using assms by (simp add: unat_of_nat_small)
  have s: "(of_nat len :: u32) < 0x80 \<longleftrightarrow> len < 0x80" by (simp add: word_less_nat_alt u)
  show ?thesis
  proof (cases "len < 0x80")
    case True
    have "(ucast (of_nat len :: u32) :: u8) = of_nat len" by (rule bit_word_eqI) (auto simp: bit_simps)
    then show ?thesis using True s by (simp add: der_header_def asn1_header_def eval_nat_numeral)
  next
    case False
    let ?n = "length (len_bytes (of_nat len))"
    have "unat (of_nat len :: u32) < 256 ^ 4" unfolding u using assms by simp
    then have "?n \<le> 4" by (rule length_len_bytes)
    moreover have "take 1 ((replicate 5 0)[0 := x]) = [x]" for x :: u8 by (simp add: eval_nat_numeral)
    ultimately have "len_fill (of_nat len) ?n ((replicate 5 0)[0 := 0x80 OR of_nat ?n]) =
        (0x80 OR of_nat ?n) # len_bytes (of_nat len) @ drop (Suc ?n) ((replicate 5 0)[0 := 0x80 OR of_nat ?n])"
      using len_fill_bytes [of ?n "of_nat len" "(replicate 5 0)[0 := 0x80 OR of_nat ?n]"] by simp
    then show ?thesis using False s by (simp add: der_header_def asn1_header_def len_count_length Let_def)
  qed
qed

lemma ucast_type: "(t :: u32) < 256 \<Longrightarrow> ucast (ucast t :: u8) = t"
proof -
  assume "t < 256"
  then have "unat t < 256" by (simp add: word_less_nat_alt)
  then have "unat (ucast (ucast t :: u8) :: u32) = unat t" by (simp add: unsigned_ucast_eq take_bit_u32_unat)
  then show ?thesis by (simp add: word_unat_eq_iff)
qed

lemma len_field_der:
  assumes "len < 2 ^ 32" "holds m (cursor_data c) (der_header t len)" "2 \<le> cursor_len c"
  shows "\<exists>n c1. len_field m (next_byte c) = (n, c1) \<and> be_word32 0 (map m [cursor_data c1..<cursor_data c1 + n]) = of_nat len \<and>
    c1\<lparr>cursor_data := cursor_data c1 + n, cursor_len := cursor_len c1 - n\<rparr> =
      c\<lparr>cursor_data := cursor_data c + length (der_header t len), cursor_len := cursor_len c - length (der_header t len)\<rparr>"
proof (cases "len < 0x80")
  case True
  have b: "m (Suc (cursor_data c)) = of_nat len" using assms(2) True by (simp add: der_header_cases [OF assms(1)])
  have u: "unat (of_nat len :: u8) = len" using True by (simp add: unat_of_nat take_bit_nat_eq_self)
  then have "\<not> bit (of_nat len :: u8) 7" using word_ge_exp_iff [of 7 "of_nat len :: u8"] True by auto
  then have "(of_nat len :: u8) AND 0x80 = 0" using and_exp_word [of "of_nat len :: u8" 7] by simp
  moreover have "(ucast (of_nat len :: u8) :: u32) = of_nat len" using u assms(1) by (simp add: word_unat_eq_iff unat_of_nat_small)
  ultimately show ?thesis using True b by (simp add: len_field_def Let_def der_header_cases [OF assms(1)] next_byte_def)
next
  case False
  let ?l = "len_bytes (of_nat len)"
  have "unat (of_nat len :: u32) < 256 ^ 4" using assms(1) by (simp add: unat_of_nat_small)
  moreover have "x \<le> 4 \<Longrightarrow> x \<in> {0, 1, 2, 3, 4}" for x :: nat by (simp, arith)
  ultimately have n: "length ?l \<in> {0, 1, 2, 3, 4}" using length_len_bytes [of "of_nat len" 4] by blast
  have h: "m (Suc (cursor_data c)) = 0x80 OR of_nat (length ?l)" "holds m (Suc (Suc (cursor_data c))) ?l"
    using assms(2) False by (simp_all add: der_header_cases [OF assms(1)])
  have "m (Suc (cursor_data c)) AND 0x80 \<noteq> 0 \<and> unat (m (Suc (cursor_data c)) AND 0x7f) = length ?l"
    unfolding h(1) using n by auto
  moreover have "be_word32 0 (map m [Suc (Suc (cursor_data c))..<Suc (Suc (cursor_data c)) + length ?l]) = of_nat len"
    using holds_map [OF h(2)] be_word32_len_bytes by (simp only:)
  ultimately show ?thesis using False by (simp add: len_field_def Let_def der_header_cases [OF assms(1)] next_byte_def)
qed

lemma start_der:
  assumes "t < 256" "length data < 2 ^ 32" "holds m (cursor_data c) (der_header t (length data) @ data)"
    "length (der_header t (length data) @ data) \<le> cursor_len c"
  shows "asn1_start m c t = (Inr (length data),
    c\<lparr>cursor_data := cursor_data c + length (der_header t (length data)), cursor_len := cursor_len c - length (der_header t (length data))\<rparr>)"
proof -
  have l: "2 \<le> cursor_len c" using assms(4) by (auto simp: der_header_cases [OF assms(2)] split: if_splits)
  have "m (cursor_data c) = ucast t" using assms(3) by (auto simp: der_header_cases [OF assms(2)] split: if_splits)
  then have t: "asn1_type m c = t" using ucast_type [OF assms(1)] by (simp add: asn1_type_def)
  obtain n c1 where f: "len_field m (next_byte c) = (n, c1)" "be_word32 0 (map m [cursor_data c1..<cursor_data c1 + n]) = of_nat (length data)"
    "c1\<lparr>cursor_data := cursor_data c1 + n, cursor_len := cursor_len c1 - n\<rparr> =
      c\<lparr>cursor_data := cursor_data c + length (der_header t (length data)), cursor_len := cursor_len c - length (der_header t (length data))\<rparr>"
    using len_field_der [OF assms(2) _ l] assms(3) by (metis holds_append)
  have "cursor_data c1 + n = cursor_data c + length (der_header t (length data))" using arg_cong [OF f(3), of cursor_data] by simp
  moreover have "cursor_data c1 + cursor_len c1 = cursor_data c + cursor_len c" using len_field_within(2) [OF f(1)] l by simp
  ultimately have "n \<le> cursor_len c1" using assms(4) by simp
  moreover have "unat (of_nat (length data) :: u32) = length data" using assms(2) by (simp add: unat_of_nat_small)
  ultimately show ?thesis using l t f(2) assms(4) unfolding asn1_start_alt f(1) prod.case Let_def f(3) by simp
qed

text \<open>The contents of a builder, and a cursor on them.\<close>

definition built :: "asn1_builder \<Rightarrow> bytes" where
  "built builder = (case builder_data builder of Some bs \<Rightarrow> bs | None \<Rightarrow> [])"

definition on_bytes :: "mem \<Rightarrow> asn1_cursor \<Rightarrow> bytes \<Rightarrow> bool" where
  "on_bytes m c bs \<longleftrightarrow> holds m (cursor_data c) bs \<and> cursor_len c = length bs"

lemma object_read:
  assumes "t < 256" "length data < 2 ^ 32" "on_bytes m c (der_header t (length data) @ data @ rest)"
  shows "\<exists>c1. asn1_enter m c t = (None, c1) \<and> on_bytes m c1 data"
    "\<exists>c2. asn1_shrink m c t = (None, c2) \<and> on_bytes m c2 (der_header t (length data) @ data)"
    "rest \<noteq> [] \<Longrightarrow> \<exists>c3. asn1_skip m c t = (None, c3) \<and> on_bytes m c3 rest"
proof -
  let ?h = "der_header t (length data)"
  let ?c = "c\<lparr>cursor_data := cursor_data c + length ?h, cursor_len := cursor_len c - length ?h\<rparr>"
  have s: "asn1_start m c t = (Inr (length data), ?c)" using assms(3) by (intro start_der [OF assms(1,2)]) (auto simp: on_bytes_def)
  then show "\<exists>c1. asn1_enter m c t = (None, c1) \<and> on_bytes m c1 data"
    "\<exists>c2. asn1_shrink m c t = (None, c2) \<and> on_bytes m c2 (der_header t (length data) @ data)"
    "rest \<noteq> [] \<Longrightarrow> \<exists>c3. asn1_skip m c t = (None, c3) \<and> on_bytes m c3 rest"
    using assms(3) by (auto simp: asn1_enter_def asn1_shrink_def asn1_skip_def asn1_skip_if_exists_def on_bytes_def Let_def add.assoc)
qed

text \<open>
  C33.  What a builder has built is read back.  If an object is prepended to what has been built, then a cursor on the result can enter the object,
  and covers exactly its contents then; it can skip it, and covers exactly what was built before, if that is not empty; and it can be shrunk to the
  object.  If what has been built is wrapped into an object, entering that object gives a cursor on it again.  This holds for contents of every
  length that fits into an \<open>int\<close>, with short and long length fields.
\<close>

theorem asn1_built_read_back:
  assumes "type < 256" "length data < 2 ^ 31" "length (built builder) < 2 ^ 31" "builder_len builder = length (built builder)"
    and "asn1_prepend True builder type data = (rc, prepended)" "on_bytes m c (built prepended)"
    and "asn1_wrap True builder type = (rc', wrapped)" "on_bytes m' c' (built wrapped)"
  shows "rc = None \<and> rc' = None \<and>
    (\<exists>c1. asn1_enter m c type = (None, c1) \<and> on_bytes m c1 data) \<and>
    (built builder \<noteq> [] \<longrightarrow> (\<exists>c2. asn1_skip m c type = (None, c2) \<and> on_bytes m c2 (built builder))) \<and>
    (\<exists>c3. asn1_shrink m c type = (None, c3) \<and> cursor_data c3 = cursor_data c \<and> cursor_len c3 = length (built prepended) - length (built builder)) \<and>
    (\<exists>c4. asn1_enter m' c' type = (None, c4) \<and> on_bytes m' c4 (built builder)) \<and>
    builder_len prepended = length (built prepended) \<and> builder_len wrapped = length (built wrapped)"
proof -
  have short: "length data < 2 ^ 32" "length (built builder) < 2 ^ 32" using assms(2,3) by simp_all
  have ok: "\<not> (builder_len builder \<noteq> 0 \<and> builder_data builder = None)" using assms(4) by (auto simp: built_def)
  let ?p = "der_header type (length data) @ data" and ?w = "der_header type (length (built builder))"
  have p: "rc = None" "built prepended = ?p @ built builder" "builder_len prepended = length (built prepended)"
    using assms(4,5) ok by (auto simp: asn1_prepend_def asn1_grow_def der_header_def built_def split: prod.splits)
  have w: "rc' = None" "built wrapped = ?w @ built builder" "builder_len wrapped = length (built wrapped)"
    using assms(4,7) ok by (auto simp: asn1_wrap_def asn1_grow_def der_header_def built_def split: prod.splits)
  have "on_bytes m c (der_header type (length data) @ data @ built builder)" using assms(6) p(2) by simp
  note r = object_read [OF assms(1) short(1) this]
  have "on_bytes m' c' (?w @ built builder @ [])" using assms(8) w(2) by simp
  note q = object_read(1) [OF assms(1) short(2) this]
  obtain c3 where "asn1_shrink m c type = (None, c3)" "on_bytes m c3 ?p" using r(2) by blast
  moreover from this have "cursor_data c3 = cursor_data c" by (auto simp: asn1_shrink_def split: prod.splits sum.splits)
  ultimately have "\<exists>c3. asn1_shrink m c type = (None, c3) \<and> cursor_data c3 = cursor_data c \<and> cursor_len c3 = length (built prepended) - length (built builder)"
    using p(2) by (auto simp: on_bytes_def)
  then show ?thesis using r(1,3) q p w by blast
qed

theorem asn1_built_read_back_witness:
  "\<exists>c1. asn1_enter (\<lambda>i. [2, 1, 7, 5, 0] ! i) \<lparr>cursor_data = 0, cursor_len = 5\<rparr> ASN1_INTEGER = (None, c1) \<and> on_bytes (\<lambda>i. [2, 1, 7, 5, 0] ! i) c1 [7]"
proof -
  let ?b = "\<lparr>builder_data = Some [5, 0], builder_len = 2\<rparr>"
  have five: "replicate 5 (0 :: u8) = [0, 0, 0, 0, 0]" by (simp add: eval_nat_numeral)
  have p: "asn1_prepend True ?b ASN1_INTEGER [7] = (None, \<lparr>builder_data = Some [2, 1, 7, 5, 0], builder_len = 5\<rparr>)"
    by (simp add: asn1_prepend_def asn1_header_def asn1_grow_def ASN1_INTEGER_def five)
  have w: "asn1_wrap True ?b ASN1_INTEGER = (None, \<lparr>builder_data = Some [2, 2, 5, 0], builder_len = 4\<rparr>)"
    by (simp add: asn1_wrap_def asn1_header_def asn1_grow_def ASN1_INTEGER_def five)
  show ?thesis
    using asn1_built_read_back [OF _ _ _ _ p _ w, of "\<lambda>i. [2, 1, 7, 5, 0] ! i" "\<lparr>cursor_data = 0, cursor_len = 5\<rparr>" "\<lambda>i. [2, 2, 5, 0] ! i" "\<lparr>cursor_data = 0, cursor_len = 4\<rparr>"]
    by (simp add: ASN1_INTEGER_def built_def on_bytes_def holds_def)
qed

text \<open>
  A number of five bytes that does not fit is accepted: the check of the high byte does not see that the sign changes.  A month outside the year
  makes the conversion read outside its table.
\<close>

lemma integer_overflow:
  "asn1_integer (\<lambda>i. [2, 5, 0, 0x80, 0, 0, 0] ! i) \<lparr>cursor_data = 0, cursor_len = 7\<rparr> = Inr (- (2 ^ 31))" (is "asn1_integer ?m ?c = _")
proof -
  have e: "asn1_enter ?m ?c ASN1_INTEGER = (None, \<lparr>cursor_data = 2, cursor_len = 5\<rparr>)"
    by (simp add: asn1_enter_def asn1_start_def asn1_type_def ASN1_INTEGER_def ASN1_ANY_def Let_def next_byte_def)
  have "asn1_integer_loop ?m 3 (Suc (Suc (Suc (Suc 0)))) 0 = Inr (- (2 ^ 31))" by (simp add: Let_def)
  then show ?thesis using e by (simp add: asn1_integer_def Let_def numeral_3_eq_3 eval_nat_numeral(2,3))
qed

definition month_zero :: mem where
  "month_zero = (\<lambda>i. if i = 0 then 0x17 else if i = 1 then 13 else if i = 14 then 90 else 48)"

lemma time_month_overrun: "asn1_generalized_time month_zero \<lparr>cursor_data = 0, cursor_len = 15\<rparr> = None"
proof -
  have e: "asn1_enter month_zero \<lparr>cursor_data = 0, cursor_len = 15\<rparr> ASN1_UTC_TIME = (None, \<lparr>cursor_data = 2, cursor_len = 13\<rparr>)"
    by (simp add: asn1_enter_def asn1_start_def asn1_type_def ASN1_UTC_TIME_def ASN1_ANY_def Let_def next_byte_def month_zero_def)
  have t: "asn1_type month_zero \<lparr>cursor_data = 0, cursor_len = 15\<rparr> = ASN1_UTC_TIME" by (simp add: asn1_type_def month_zero_def ASN1_UTC_TIME_def)
  have "(replicate 7 (0 :: u8))[i := 0] = replicate 7 0" for i by (cases "i < 7") (auto simp: list_eq_iff_nth_eq nth_list_update)
  then have "pairs_loop month_zero (Suc (Suc (Suc (Suc (Suc (Suc 0)))))) 1 2 13 (replicate 7 0) = Inr (replicate 7 0, 14, 1)"
    by (simp add: Let_def month_zero_def isdigit_def)
  then show ?thesis using e t
    by (simp add: asn1_generalized_time_def Let_def ASN1_UTC_TIME_def ASN1_GENERALIZED_TIME_def mktime_def c_int_def table_at_def month_zero_def eval_nat_numeral)
qed

end
