(* ===== verification/Rsa_Keys.thy ===== *)
theory Rsa_Keys
  imports Main
begin

text \<open>
  The arithmetic behind RSA keys: Fermat's little theorem, and that the private exponent undoes the public one modulo a product of distinct primes
  (RFC 3447, section 3.2, where a modulus has two or more prime factors).
\<close>

definition prime_nat :: "nat \<Rightarrow> bool" where
  "prime_nat p \<longleftrightarrow> 1 < p \<and> (\<forall>d \<in> {2..<p}. \<not> d dvd p)"

definition rsa_key :: "nat list \<Rightarrow> nat \<Rightarrow> nat \<Rightarrow> nat \<Rightarrow> bool" where
  "rsa_key primes n e d \<longleftrightarrow> n = prod_list primes \<and> distinct primes \<and> 0 < e \<and> 0 < d \<and>
     (\<forall>p \<in> set primes. prime_nat p \<and> e * d mod (p - 1) = 1 mod (p - 1))"

lemma prime_divisor: "prime_nat p \<Longrightarrow> d dvd p \<Longrightarrow> d = 1 \<or> d = p"
proof (rule ccontr)
  assume p: "prime_nat p" "d dvd p" "\<not> (d = 1 \<or> d = p)"
  then have "d \<le> p" "d \<noteq> 0" by (auto simp: prime_nat_def dvd_imp_le)
  then show False using p by (auto simp: prime_nat_def)
qed

text \<open>Trial division up to the square root.\<close>

lemma prime_natI:
  assumes "1 < p" "p < s * s" "\<forall>d \<in> {2..<s}. d < p \<longrightarrow> p mod d \<noteq> 0"
  shows "prime_nat p"
  unfolding prime_nat_def
proof (intro conjI ballI notI)
  fix d assume d: "d \<in> {2..<p}" "d dvd p"
  then obtain q where q: "p = d * q" by (elim dvdE)
  have "2 \<le> q" using d q by (cases q; cases "q - 1") auto
  moreover have "q < p" using d(1) q \<open>2 \<le> q\<close> by simp
  moreover have "d < s \<or> q < s" using assms(2) q mult_le_mono [of s d s q] by linarith
  ultimately show False using assms(3) d(1) q by (metis atLeastLessThan_iff mod_mult_self1_is_0 mod_mult_self2_is_0)
qed (use assms in simp)

lemma prime_coprime: "prime_nat p \<Longrightarrow> \<not> p dvd a \<Longrightarrow> coprime p a"
  using prime_divisor [of p "gcd p a"] by (metis coprime_iff_gcd_eq_1 gcd_dvd1 gcd_dvd2)

lemma prime_dvd_mult: "prime_nat p \<Longrightarrow> p dvd a * b \<Longrightarrow> p dvd a \<or> p dvd b"
  using prime_coprime [of p a] coprime_dvd_mult_right_iff [of p a b] by blast

lemma prime_not_dvd_fact: "prime_nat p \<Longrightarrow> k < p \<Longrightarrow> \<not> p dvd fact k"
proof (induction k)
  case 0
  then show ?case by (auto simp: prime_nat_def)
next
  case (Suc k)
  have "\<not> p dvd Suc k" using Suc.prems by (auto dest: dvd_imp_le)
  then show ?case using Suc prime_dvd_mult [of p "Suc k" "fact k"] by auto
qed

lemma prime_dvd_choose: "prime_nat p \<Longrightarrow> 0 < k \<Longrightarrow> k < p \<Longrightarrow> p dvd (p choose k)"
proof -
  assume p: "prime_nat p" "0 < k" "k < p"
  have "fact k * fact (p - k) * (p choose k) = fact p" using p(3) binomial_fact_lemma [of k p] by simp
  moreover have "p dvd fact p" using p by (intro dvd_fact) auto
  ultimately have "p dvd fact k * fact (p - k) \<or> p dvd (p choose k)" using prime_dvd_mult [OF p(1)] by metis
  then show ?thesis using prime_dvd_mult [OF p(1), of "fact k" "fact (p - k)"] prime_not_dvd_fact [OF p(1), of k] prime_not_dvd_fact [OF p(1), of "p - k"] p by auto
qed

lemma fermat: "prime_nat p \<Longrightarrow> a ^ p mod p = a mod p"
proof (induction a)
  case 0
  then show ?case by (cases p) (simp_all add: prime_nat_def)
next
  case (Suc a)
  have p: "0 < p" using Suc.prems by (simp add: prime_nat_def)
  have "(a + 1) ^ p = (\<Sum>k\<le>p. (p choose k) * a ^ k)" using binomial_ring [of a 1 p] by (simp add: mult.commute)
  also have "{..p} = insert 0 (insert p {1..<p})" using p by auto
  also have "(\<Sum>k\<in>\<dots>. (p choose k) * a ^ k) = 1 + a ^ p + (\<Sum>k\<in>{1..<p}. (p choose k) * a ^ k)" using p by simp
  finally have "(a + 1) ^ p = 1 + a ^ p + (\<Sum>k\<in>{1..<p}. (p choose k) * a ^ k)" .
  moreover have "p dvd (\<Sum>k\<in>{1..<p}. (p choose k) * a ^ k)" using prime_dvd_choose [OF Suc.prems] by (intro dvd_sum) auto
  then obtain q where "(\<Sum>k\<in>{1..<p}. (p choose k) * a ^ k) = p * q" by (elim dvdE)
  ultimately have "(a + 1) ^ p mod p = (1 + a ^ p) mod p" by simp
  also have "\<dots> = (1 + a) mod p" using Suc by (metis mod_add_right_eq)
  finally show ?case by simp
qed

lemma fermat_unit: "prime_nat p \<Longrightarrow> \<not> p dvd a \<Longrightarrow> a ^ (p - 1) mod p = 1"
proof -
  assume p: "prime_nat p" "\<not> p dvd a"
  have "a * a ^ (p - 1) = a ^ p" using p(1) by (cases p) (simp_all add: prime_nat_def)
  then have "(a * a ^ (p - 1)) mod p = a mod p" using fermat [OF p(1), of a] by simp
  moreover have pos: "1 \<le> a ^ (p - 1)" using p(2) by (cases "a = 0") simp_all
  moreover have "a \<le> a * a ^ (p - 1)" using mult_le_mono2 [OF pos, of a] by simp
  ultimately have "p dvd a * (a ^ (p - 1) - 1)" by (simp add: mod_eq_dvd_iff_nat right_diff_distrib')
  then have "p dvd a ^ (p - 1) - 1" using prime_dvd_mult [OF p(1)] p(2) by blast
  then have "a ^ (p - 1) mod p = 1 mod p" using pos by (metis mod_eq_dvd_iff_nat)
  then show ?thesis using p(1) by (simp add: prime_nat_def)
qed

lemma power_inverse_mod:
  assumes "prime_nat p" "k mod (p - 1) = 1 mod (p - 1)" "0 < k"
  shows "x ^ k mod p = x mod p"
proof (cases "p dvd x")
  case True
  then have "p dvd x ^ k" using assms(3) by (metis dvd_power dvd_trans)
  then show ?thesis using True by (metis dvd_imp_mod_0)
next
  case False
  obtain q where q: "k = 1 + (p - 1) * q"
  proof (cases "p = 2")
    case True
    then show ?thesis using assms(3) that [of "k - 1"] by simp
  next
    case False
    then have "1 < p - 1" using assms(1) by (auto simp: prime_nat_def)
    then have "k mod (p - 1) = 1" using assms(2) by simp
    then show ?thesis using that [of "k div (p - 1)"] by (metis add.commute mult_div_mod_eq)
  qed
  have "x ^ k mod p = x * (x ^ (p - 1) mod p) ^ q mod p" unfolding q power_add power_mult power_one_right by (metis mod_mult_right_eq power_mod)
  then show ?thesis using fermat_unit [OF assms(1) False] by simp
qed

lemma prod_dvd: "(\<forall>p\<in>set ps. prime_nat p \<and> p dvd x) \<Longrightarrow> distinct ps \<Longrightarrow> prod_list ps dvd x"
proof (induction ps)
  case (Cons p ps)
  have "coprime p (prod_list qs)" if "p \<notin> set qs" "\<forall>q\<in>set qs. prime_nat q" for qs
    using that
  proof (induction qs)
    case (Cons q qs)
    have "\<not> p dvd q" using prime_divisor [of q p] Cons.prems \<open>\<forall>r\<in>set (p # ps). prime_nat r \<and> r dvd x\<close> by (auto simp: prime_nat_def)
    then have "coprime p q" using prime_coprime \<open>\<forall>r\<in>set (p # ps). prime_nat r \<and> r dvd x\<close> by simp
    then show ?case using Cons by simp
  qed simp
  then show ?case using Cons by (auto intro!: divides_mult)
qed simp

lemma rsa_key_inverse:
  assumes "rsa_key primes n e d" "x < n"
  shows "(x ^ e mod n) ^ d mod n = x"
proof -
  have "(x ^ e mod n) ^ d mod n = x ^ (e * d) mod n" by (simp add: power_mod power_mult)
  also have "\<dots> = x mod n"
  proof -
    have le: "x \<le> x ^ (e * d)" using assms(1) by (cases "x = 0") (auto simp: rsa_key_def intro: self_le_power)
    have "p dvd x ^ (e * d) - x" if "p \<in> set primes" for p
      using that assms(1) power_inverse_mod [of p "e * d" x] le by (auto simp: rsa_key_def mod_eq_dvd_iff_nat)
    then have "n dvd x ^ (e * d) - x" using assms(1) prod_dvd [of primes "x ^ (e * d) - x"] by (simp add: rsa_key_def)
    then show ?thesis using le by (metis mod_eq_dvd_iff_nat)
  qed
  finally show ?thesis using assms(2) by simp
qed

end
