(* ===== verification/Rsa.thy ===== *)
theory Rsa
  imports Bigint Asn1 Rsa_Keys
begin

text \<open>
  RSA, \<open>crypto/rsa.c\<close>, with random padding from \<open>crypto/random_nz.c\<close>.

  A context holds the big integers of the key; its input and output buffers, which the code also uses for encoded messages, are values that are passed
  on, because every function is done with the old contents of a buffer before it writes the new ones.  What the temporary area holds does not matter.
  Lengths are computed as 32-bit words where the code can make them wrap around.  The source of random bytes and the success of an allocation are
  parameters.  A function has the result \<open>None\<close> if it does not return or reads outside the message.
\<close>

unbundle bit_operations_syntax

section \<open>Random non-zero bytes\<close>

partial_function (option) get_random_nz :: "('s \<Rightarrow> (errno + u8) \<times> 's) \<Rightarrow> nat \<Rightarrow> bytes \<Rightarrow> 's \<Rightarrow> ((errno + bytes) \<times> 's) option" where
  "get_random_nz rbg_generate len bytes s =
     (if len = 0 then Some (Inr bytes, s)
      else
        (case rbg_generate s of
           (Inl e, s) \<Rightarrow> Some (Inl e, s)
         | (Inr b, s) \<Rightarrow> if b \<noteq> 0 then get_random_nz rbg_generate (len - 1) (bytes @ [b]) s else get_random_nz rbg_generate len bytes s))"

section \<open>DigestInfo prefixes\<close>

text \<open>
  The digest algorithms that have a prefix, among them the hybrid of MD5 and SHA-1 of \<open>net/tls.c\<close>, and any other one with its digest size.
\<close>

datatype rsa_digest = Rsa_MD5 | Rsa_SHA1 | Rsa_SHA256 | Rsa_MD5_SHA1 | Rsa_other nat

fun rsa_digestsize :: "rsa_digest \<Rightarrow> nat" where
  "rsa_digestsize Rsa_MD5 = digestsize md5_algorithm"
| "rsa_digestsize Rsa_SHA1 = digestsize sha1_algorithm"
| "rsa_digestsize Rsa_SHA256 = digestsize sha256_algorithm"
| "rsa_digestsize Rsa_MD5_SHA1 = digestsize md5_algorithm + digestsize sha1_algorithm"
| "rsa_digestsize (Rsa_other n) = n"

definition RSA_DIGESTALGORITHM_CONTENTS :: "bytes \<Rightarrow> bytes" where
  "RSA_DIGESTALGORITHM_CONTENTS oid = [ucast ASN1_OID, of_nat (length oid)] @ oid @ [ucast ASN1_NULL, 0x00]"

definition RSA_DIGESTALGORITHM :: "bytes \<Rightarrow> bytes" where
  "RSA_DIGESTALGORITHM oid =
     [ucast ASN1_SEQUENCE, of_nat (length (RSA_DIGESTALGORITHM_CONTENTS oid))] @ RSA_DIGESTALGORITHM_CONTENTS oid"

definition RSA_DIGEST_PREFIX :: "nat \<Rightarrow> bytes" where
  "RSA_DIGEST_PREFIX digest_size = [ucast ASN1_OCTET_STRING, of_nat digest_size]"

definition RSA_DIGESTINFO_PREFIX :: "nat \<Rightarrow> bytes \<Rightarrow> bytes" where
  "RSA_DIGESTINFO_PREFIX digest_size oid =
     [ucast ASN1_SEQUENCE, of_nat (length (RSA_DIGESTALGORITHM oid) + length (RSA_DIGEST_PREFIX digest_size) + digest_size)] @
     RSA_DIGESTALGORITHM oid @ RSA_DIGEST_PREFIX digest_size"

record rsa_digestinfo_prefix =
  prefix_digest :: rsa_digest
  prefix_data :: bytes

definition rsa_md5_prefix :: rsa_digestinfo_prefix where
  "rsa_md5_prefix = \<lparr>prefix_digest = Rsa_MD5, prefix_data = RSA_DIGESTINFO_PREFIX 16 ASN1_OID_MD5\<rparr>"

definition rsa_sha1_prefix :: rsa_digestinfo_prefix where
  "rsa_sha1_prefix = \<lparr>prefix_digest = Rsa_SHA1, prefix_data = RSA_DIGESTINFO_PREFIX 20 ASN1_OID_SHA1\<rparr>"

definition rsa_sha256_prefix :: rsa_digestinfo_prefix where
  "rsa_sha256_prefix = \<lparr>prefix_digest = Rsa_SHA256, prefix_data = RSA_DIGESTINFO_PREFIX 32 ASN1_OID_SHA256\<rparr>"

definition rsa_md5_sha1_prefix :: rsa_digestinfo_prefix where
  "rsa_md5_sha1_prefix = \<lparr>prefix_digest = Rsa_MD5_SHA1, prefix_data = []\<rparr>"

text \<open>The table of prefixes that the linker collects.  No two of its entries are for the same algorithm, so that their order does not matter.\<close>

definition RSA_DIGESTINFO_PREFIXES :: "rsa_digestinfo_prefix list" where
  "RSA_DIGESTINFO_PREFIXES = [rsa_md5_prefix, rsa_sha1_prefix, rsa_sha256_prefix, rsa_md5_sha1_prefix]"

definition rsa_find_prefix :: "rsa_digest \<Rightarrow> rsa_digestinfo_prefix option" where
  "rsa_find_prefix alg = find (\<lambda>prefix. prefix_digest prefix = alg) RSA_DIGESTINFO_PREFIXES"

section \<open>Contexts\<close>

record rsa_context =
  rsa_dynamic :: bool
  modulus0 :: bigint
  rsa_size :: nat
  rsa_max :: nat
  exponent0 :: bigint
  exponent_size :: nat
  rsa_tmp :: "nat \<Rightarrow> u32"

definition rsa_free :: "rsa_context \<Rightarrow> rsa_context" where
  "rsa_free context = context\<lparr>rsa_dynamic := False\<rparr>"

text \<open>The new big integers hold what the allocated memory held.\<close>

definition rsa_alloc :: "bool \<Rightarrow> (nat \<Rightarrow> u32) \<Rightarrow> rsa_context \<Rightarrow> nat \<Rightarrow> nat \<Rightarrow> rc \<times> rsa_context" where
  "rsa_alloc alloc new_memory context modulus_len exponent_len =
     (let sz = bigint_required_size modulus_len;
          exp_size = bigint_required_size exponent_len;
          context = rsa_free context
      in if \<not> alloc then (Some ENOMEM, context)
         else
           (None, context\<lparr>rsa_dynamic := True, modulus0 := map new_memory [0..<sz], rsa_size := sz, rsa_max := modulus_len,
                    exponent0 := map new_memory [0..<exp_size], exponent_size := exp_size, rsa_tmp := new_memory\<rparr>))"

definition rsa_parse_integer :: "mem \<Rightarrow> asn1_cursor \<Rightarrow> errno + asn1_cursor" where
  "rsa_parse_integer m raw =
     (let integer = snd (asn1_enter m raw ASN1_INTEGER);
          integer = (if 1 < cursor_len integer \<and> m (cursor_data integer) = 0x00 then next_byte integer else integer)
      in if cursor_len integer = 0 then Inl EINVAL else Inr integer)"

definition rsa_parse_mod_exp :: "mem \<Rightarrow> asn1_cursor \<Rightarrow> errno + asn1_cursor \<times> asn1_cursor" where
  "rsa_parse_mod_exp m raw =
     (let cursor = snd (asn1_enter m raw ASN1_SEQUENCE);
          is_private = (asn1_type m cursor = ASN1_INTEGER);
          body = (if is_private then Inr (snd (asn1_skip_any m cursor))
                  else
                    (let cursor = snd (asn1_skip m cursor ASN1_SEQUENCE) in
                     case asn1_integral_bit_string m cursor of
                       Inl e \<Rightarrow> Inl e
                     | Inr bits \<Rightarrow> Inr (snd (asn1_enter m (cursor\<lparr>cursor_data := bits_data bits, cursor_len := bits_len bits\<rparr>) ASN1_SEQUENCE))))
      in case body of
           Inl e \<Rightarrow> Inl e
         | Inr cursor \<Rightarrow>
             (case rsa_parse_integer m cursor of
                Inl e \<Rightarrow> Inl e
              | Inr modulus \<Rightarrow>
                  (let cursor = snd (asn1_skip_any m cursor);
                       cursor = (if is_private then snd (asn1_skip m cursor ASN1_INTEGER) else cursor)
                   in case rsa_parse_integer m cursor of
                        Inl e \<Rightarrow> Inl e
                      | Inr exponent \<Rightarrow> Inr (modulus, exponent))))"

definition cursor_bytes :: "mem \<Rightarrow> asn1_cursor \<Rightarrow> bytes" where
  "cursor_bytes m cursor = map m [cursor_data cursor..<cursor_data cursor + cursor_len cursor]"

definition rsa_init :: "bool \<Rightarrow> (nat \<Rightarrow> u32) \<Rightarrow> mem \<Rightarrow> nat \<Rightarrow> nat \<Rightarrow> rc \<times> rsa_context" where
  "rsa_init alloc new_memory m key key_len =
     (let context = \<lparr>rsa_dynamic = False, modulus0 = [], rsa_size = 0, rsa_max = 0, exponent0 = [], exponent_size = 0, rsa_tmp = new_memory\<rparr> in
      case rsa_parse_mod_exp m \<lparr>cursor_data = key, cursor_len = key_len\<rparr> of
        Inl e \<Rightarrow> (Some e, context)
      | Inr (modulus, exponent) \<Rightarrow>
          (case rsa_alloc alloc new_memory context (cursor_len modulus) (cursor_len exponent) of
             (Some e, context) \<Rightarrow> (Some e, context)
           | (None, context) \<Rightarrow>
               (None, context\<lparr>modulus0 := bigint_init_raw (rsa_size context) (cursor_bytes m modulus),
                        exponent0 := bigint_init_raw (exponent_size context) (cursor_bytes m exponent)\<rparr>)))"

definition rsa_max_len :: "rsa_context \<Rightarrow> nat" where
  "rsa_max_len context = rsa_max context"

definition rsa_final :: "rsa_context \<Rightarrow> rsa_context" where
  "rsa_final context = rsa_free context"

definition rsa_match :: "mem \<Rightarrow> asn1_cursor \<Rightarrow> asn1_cursor \<Rightarrow> rc" where
  "rsa_match m private_cursor public_cursor =
     (case rsa_parse_mod_exp m private_cursor of
        Inl e \<Rightarrow> Some e
      | Inr (private_modulus, _) \<Rightarrow>
          (case rsa_parse_mod_exp m public_cursor of
             Inl e \<Rightarrow> Some e
           | Inr (public_modulus, _) \<Rightarrow> if asn1_compare m private_modulus public_modulus \<noteq> 0 then Some ENOTTY else None))"

section \<open>Cipher operations\<close>

definition rsa_cipher :: "rsa_context \<Rightarrow> bytes \<Rightarrow> bytes option" where
  "rsa_cipher context data =
     (let input = bigint_init_raw (rsa_size context) (take (rsa_max context) data)
      in map_option (\<lambda>output. bigint_done_raw output (rsa_max context))
           (bigint_mod_exp_raw input (modulus0 context) (exponent0 context) (rsa_tmp context)))"

definition rsa_encrypt ::
  "('s \<Rightarrow> (errno + u8) \<times> 's) \<Rightarrow> rsa_context \<Rightarrow> bytes \<Rightarrow> 's \<Rightarrow> ((errno + bytes) \<times> 's) option" where
  "rsa_encrypt rbg_generate context plaintext s =
     (let max_len = of_nat (rsa_max context) - 11 :: u32;
          random_nz_len = max_len - of_nat (length plaintext) + 8
      in if unat max_len < length plaintext then Some (Inl ERANGE, s)
         else
           (case get_random_nz rbg_generate (unat random_nz_len) [] s of
              None \<Rightarrow> None
            | Some (Inl e, s) \<Rightarrow> Some (Inl e, s)
            | Some (Inr random, s) \<Rightarrow>
                (let encoded = [0x00, 0x02] @ random @ [0x00] @ plaintext
                 in map_option (\<lambda>ciphertext. (Inr ciphertext, s)) (rsa_cipher context encoded))))"

text \<open>The bytes behind the first zero.\<close>

fun memchr_zero :: "bytes \<Rightarrow> bytes option" where
  "memchr_zero [] = None"
| "memchr_zero (b # bs) = (if b = 0 then Some bs else memchr_zero bs)"

definition rsa_decrypt :: "rsa_context \<Rightarrow> bytes \<Rightarrow> (errno + bytes) option" where
  "rsa_decrypt context ciphertext =
     (if length ciphertext \<noteq> rsa_max context then Some (Inl ERANGE)
      else
        (case rsa_cipher context ciphertext of
           Some (b0 # b1 # bs) \<Rightarrow>
             if b0 \<noteq> 0x00 \<or> b1 \<noteq> 0x02 then Some (Inl EINVAL)
             else (case memchr_zero bs of None \<Rightarrow> Some (Inl EINVAL) | Some plaintext \<Rightarrow> Some (Inr plaintext))
         | _ \<Rightarrow> None))"

text \<open>The bytes that are written from the start of the buffer on.\<close>

definition rsa_encode_digest :: "rsa_context \<Rightarrow> rsa_digest \<Rightarrow> bytes \<Rightarrow> errno + bytes" where
  "rsa_encode_digest context alg digest_value =
     (case rsa_find_prefix alg of
        None \<Rightarrow> Inl ENOTSUP
      | Some prefix \<Rightarrow>
          (let digestinfo_len = length (prefix_data prefix) + rsa_digestsize alg;
               max_len = of_nat (rsa_max context) - 11 :: u32;
               pad_len = max_len - of_nat digestinfo_len + 8
           in if unat max_len < digestinfo_len then Inl ERANGE
              else Inr ([0x00, 0x01] @ replicate (unat pad_len) 0xff @ [0x00] @ prefix_data prefix @ take (rsa_digestsize alg) digest_value)))"

definition rsa_sign :: "rsa_context \<Rightarrow> rsa_digest \<Rightarrow> bytes \<Rightarrow> (errno + bytes) option" where
  "rsa_sign context alg digest_value =
     (case rsa_encode_digest context alg digest_value of
        Inl e \<Rightarrow> Some (Inl e)
      | Inr encoded \<Rightarrow> map_option Inr (rsa_cipher context encoded))"

definition rsa_verify :: "rsa_context \<Rightarrow> rsa_digest \<Rightarrow> bytes \<Rightarrow> bytes \<Rightarrow> rc option" where
  "rsa_verify context alg digest_value signature =
     (if length signature \<noteq> rsa_max context then Some (Some ERANGE)
      else
        (case rsa_cipher context signature of
           None \<Rightarrow> None
         | Some expected \<Rightarrow>
             (case rsa_encode_digest context alg digest_value of
                Inl e \<Rightarrow> Some (Some e)
              | Inr actual \<Rightarrow> Some (if take (rsa_max context) actual \<noteq> take (rsa_max context) expected then Some EACCES else None))))"

section \<open>Contexts of keys\<close>

text \<open>A context that holds a key: the modulus \<open>n\<close>, whose length in bytes is the length of a message, and the exponent.\<close>

definition rsa_ready :: "rsa_context \<Rightarrow> nat \<Rightarrow> nat \<Rightarrow> bool" where
  "rsa_ready context n e \<longleftrightarrow> length (modulus0 context) = rsa_size context \<and> bigval (modulus0 context) = n \<and> rsa_max context \<le> 4 * rsa_size context \<and>
     exponent0 context \<noteq> [] \<and> bigval (exponent0 context) = e \<and> 0 < e \<and>
     0 < rsa_max context \<and> rsa_max context < 2 ^ 32 \<and> 256 ^ (rsa_max context - 1) \<le> n \<and> n < 256 ^ rsa_max context"

lemma ready_pos: "rsa_ready context n e \<Longrightarrow> 0 < n"
proof -
  assume "rsa_ready context n e"
  then have "256 ^ (rsa_max context - 1) \<le> n" by (simp add: rsa_ready_def)
  moreover have "0 < (256 :: nat) ^ (rsa_max context - 1)" by simp
  ultimately show ?thesis by linarith
qed

lemma required_size: "0 < len \<Longrightarrow> len \<le> 4 * bigint_required_size len" "0 < len \<Longrightarrow> 0 < bigint_required_size len"
  unfolding bigint_required_size_def by linarith+

lemma be_value_Cons: "be_value (b # bs) = unat b * 256 ^ length bs + be_value bs"
  by (simp add: be_value_rev le_value_append)

lemma length_cursor_bytes [simp]: "length (cursor_bytes m c) = cursor_len c"
  by (simp add: cursor_bytes_def)

text \<open>A key that is parsed makes such a context, unless its modulus starts with more than one zero or its exponent is zero.\<close>

lemma init_ready:
  assumes "rsa_init alloc new_memory m key key_len = (None, context)" "rsa_parse_mod_exp m \<lparr>cursor_data = key, cursor_len = key_len\<rparr> = Inr (modulus, exponent)"
    and "m (cursor_data modulus) \<noteq> 0" "0 < be_value (cursor_bytes m exponent)" "0 < cursor_len modulus" "cursor_len modulus < 2 ^ 32"
  shows "rsa_ready context (be_value (cursor_bytes m modulus)) (be_value (cursor_bytes m exponent))"
proof -
  have "0 < cursor_len exponent" using assms(4) by (cases "cursor_len exponent") (simp_all add: cursor_bytes_def be_value_def)
  note r = required_size [OF assms(5)] required_size [OF this]
  have "[cursor_data modulus..<cursor_data modulus + cursor_len modulus] = cursor_data modulus # [Suc (cursor_data modulus)..<cursor_data modulus + cursor_len modulus]"
    using assms(5) by (simp add: upt_rec)
  then have "be_value (cursor_bytes m modulus) = unat (m (cursor_data modulus)) * 256 ^ (cursor_len modulus - 1) + be_value (map m [Suc (cursor_data modulus)..<cursor_data modulus + cursor_len modulus])"
    by (simp add: cursor_bytes_def be_value_Cons)
  moreover have "0 < unat (m (cursor_data modulus))" using assms(3) by (simp add: unat_gt_0)
  then have "1 * 256 ^ (cursor_len modulus - 1) \<le> unat (m (cursor_data modulus)) * 256 ^ (cursor_len modulus - 1)" by (intro mult_le_mono1) simp
  ultimately have "256 ^ (cursor_len modulus - 1) \<le> be_value (cursor_bytes m modulus)" by linarith
  moreover have "be_value (cursor_bytes m modulus) < 256 ^ cursor_len modulus" using be_value_less [of "cursor_bytes m modulus"] by simp
  moreover have "bigint_init_raw (bigint_required_size (cursor_len exponent)) (cursor_bytes m exponent) \<noteq> []"
    using init_value(2) [of "cursor_bytes m exponent" "bigint_required_size (cursor_len exponent)"] r by fastforce
  ultimately show ?thesis
    using assms(1,2,4-6) r init_value [of "cursor_bytes m modulus" "bigint_required_size (cursor_len modulus)"]
      init_value [of "cursor_bytes m exponent" "bigint_required_size (cursor_len exponent)"]
    by (auto simp: rsa_init_def rsa_alloc_def rsa_free_def rsa_ready_def Let_def split: if_splits)
qed

lemma cipher_value:
  assumes "rsa_ready context n e" "length data = rsa_max context"
  shows "\<exists>out. rsa_cipher context data = Some out \<and> length out = rsa_max context \<and> be_value out = be_value data ^ e mod n"
proof -
  note r = assms(1) [unfolded rsa_ready_def]
  let ?i = "bigint_init_raw (rsa_size context) data"
  have i: "bigval ?i = be_value data" "length ?i = rsa_size context" using init_value [of data "rsa_size context"] r assms(2) by simp_all
  obtain out where o: "bigint_mod_exp_raw ?i (modulus0 context) (exponent0 context) (rsa_tmp context) = Some out" "length out = rsa_size context"
    "bigval out = be_value data ^ e mod n"
    using mod_exp_value [of "modulus0 context" ?i "exponent0 context" "rsa_tmp context"] i r ready_pos [OF assms(1)] by auto
  have "bigval out < n" using o(3) ready_pos [OF assms(1)] by simp
  then have "bigval out mod 256 ^ rsa_max context = bigval out" using r by simp
  then show ?thesis using o done_value [of "rsa_max context" out] r assms(2) by (simp add: rsa_cipher_def)
qed

text \<open>The modulus determines the length of a message.\<close>

lemma ready_max: "rsa_ready c1 n e \<Longrightarrow> rsa_ready c2 n d \<Longrightarrow> rsa_max c1 = rsa_max c2"
proof -
  have "False" if "rsa_ready c1 n e" "rsa_ready c2 n d" "rsa_max c1 < rsa_max c2" for c1 c2 e d
  proof -
    have "(256 :: nat) ^ rsa_max c1 \<le> 256 ^ (rsa_max c2 - 1)" using that(3) by (intro power_increasing) simp_all
    then show False using that(1,2) unfolding rsa_ready_def by linarith
  qed
  then show "rsa_ready c1 n e \<Longrightarrow> rsa_ready c2 n d \<Longrightarrow> ?thesis" by (metis linorder_neqE_nat)
qed

text \<open>The private key undoes the public key, on messages that start with a zero byte.\<close>

lemma cipher_inverse:
  assumes "rsa_ready c1 n e" "rsa_ready c2 n d" "rsa_key primes n e d" "length data = rsa_max c1" "hd data = 0"
  shows "\<exists>out. rsa_cipher c1 data = Some out \<and> length out = rsa_max c1 \<and> rsa_cipher c2 out = Some data"
proof -
  obtain out where o: "rsa_cipher c1 data = Some out" "length out = rsa_max c1" "be_value out = be_value data ^ e mod n"
    using cipher_value [OF assms(1,4)] by blast
  obtain b bs where d: "data = b # bs" using assms(1,4) by (cases data) (auto simp: rsa_ready_def)
  have "rsa_max c1 - 1 = length bs" using assms(4) d by simp
  then have "be_value data < 256 ^ (rsa_max c1 - 1)" using be_value_less [of bs] assms(5) d by (simp add: be_value_Cons)
  then have "be_value data < n" using assms(1) unfolding rsa_ready_def by linarith
  then have "be_value out ^ d mod n = be_value data" using rsa_key_inverse [OF assms(3)] o(3) by simp
  moreover obtain res where b: "rsa_cipher c2 out = Some res" "length res = rsa_max c2" "be_value res = be_value out ^ d mod n"
    using cipher_value [OF assms(2), of out] o(2) ready_max [OF assms(1,2)] by auto
  ultimately have "res = data" using be_value_inj assms(4) ready_max [OF assms(1,2)] by simp
  then show ?thesis using o b by simp
qed

section \<open>Encryption\<close>

definition random_nz_done :: "('s \<Rightarrow> (errno + u8) \<times> 's) \<Rightarrow> nat \<Rightarrow> bytes \<Rightarrow> 's \<Rightarrow> (errno + bytes) \<times> 's \<Rightarrow> bool" where
  "random_nz_done rng len bs s r \<longleftrightarrow> (\<forall>random. fst r = Inr random \<longrightarrow> (\<exists>x. random = bs @ x \<and> length x = len \<and> 0 \<notin> set x))"

lemma random_nz_result:
  assumes "get_random_nz rng len bs s = Some r"
  shows "random_nz_done rng len bs s r"
proof (rule get_random_nz.raw_induct [where P = random_nz_done, OF _ assms])
  fix f and rng :: "'s \<Rightarrow> (errno + u8) \<times> 's" and len bs s r
  assume IH: "\<And>rng len bs s r. f rng len bs s = Some r \<Longrightarrow> random_nz_done (rng :: 's \<Rightarrow> (errno + u8) \<times> 's) len bs s r"
    and r: "(if len = 0 then Some (Inr bs, s)
      else case rng s of (Inl e, s) \<Rightarrow> Some (Inl e, s)
        | (Inr b, s) \<Rightarrow> if b \<noteq> 0 then f rng (len - 1) (bs @ [b]) s else f rng len bs s) = Some r"
  show "random_nz_done rng len bs s r"
  proof (cases "len = 0")
    case False
    show ?thesis
    proof (cases "rng s")
      case (Pair b s1)
      show ?thesis
      proof (cases b)
        case (Inl e)
        then show ?thesis using r Pair False by (auto simp: random_nz_done_def)
      next
        case (Inr b)
        show ?thesis
        proof (cases "b = 0")
          case True
          then show ?thesis using IH [of rng len bs s1 r] r Pair Inr False by (simp add: random_nz_done_def)
        next
          case nz: False
          then have "random_nz_done rng (len - 1) (bs @ [b]) s1 r" using IH r Pair Inr False by simp
          then show ?thesis using nz False by (fastforce simp: random_nz_done_def)
        qed
      qed
    qed
  qed (use r in \<open>auto simp: random_nz_done_def\<close>)
qed

lemma memchr_zero_append: "0 \<notin> set x \<Longrightarrow> memchr_zero (x @ 0 # bs) = Some bs"
  by (induction x) auto

text \<open>The lengths in an encoded message, for a modulus of at least eleven bytes.\<close>

lemma encoded_lengths:
  assumes "rsa_ready context n e" "11 \<le> rsa_max context"
  shows "unat (of_nat (rsa_max context) - 11 :: u32) = rsa_max context - 11"
    "len + 11 \<le> rsa_max context \<Longrightarrow> unat (of_nat (rsa_max context) - 11 - of_nat len + 8 :: u32) = rsa_max context - len - 3"
proof -
  have u: "unat (of_nat (rsa_max context) :: u32) = rsa_max context" using assms(1) by (simp add: rsa_ready_def unat_of_nat_small)
  show m: "unat (of_nat (rsa_max context) - 11 :: u32) = rsa_max context - 11" using u assms(2) by (simp add: unat_sub_u32)
  assume l: "len + 11 \<le> rsa_max context"
  moreover have lt: "rsa_max context < 2 ^ 32" using assms(1) by (simp add: rsa_ready_def)
  ultimately have ul: "unat (of_nat len :: u32) = len" by (intro unat_of_nat_small) linarith
  then have "unat (of_nat (rsa_max context) - 11 - of_nat len :: u32) = rsa_max context - 11 - len" using m l unat_sub_u32 by simp
  then show "unat (of_nat (rsa_max context) - 11 - of_nat len + 8 :: u32) = rsa_max context - len - 3"
    using lt l unat_add_u32 [of "of_nat (rsa_max context) - 11 - of_nat len" 8] by simp
qed

text \<open>
  C29.  What is encrypted with a public key is decrypted with the private key.  For a modulus that is a product of distinct primes and exponents
  that are inverse to each other modulo the predecessors of the primes (RFC 3447), and a modulus of at least eleven bytes: a message that leaves
  no room for the padding is refused; a failure of the random number generator is passed on; otherwise encryption returns a message of the length
  of the modulus, and decrypting it with the private key returns the original.
\<close>

theorem rsa_decrypt_encrypt:
  assumes "rsa_ready pub n e" "rsa_ready priv n d" "rsa_key primes n e d" "11 \<le> rsa_max pub" "length plaintext < 2 ^ 32"
  shows "if rsa_max pub < length plaintext + 11 then rsa_encrypt rng pub plaintext s = Some (Inl ERANGE, s)
    else case get_random_nz rng (rsa_max pub - length plaintext - 3) [] s of
      None \<Rightarrow> rsa_encrypt rng pub plaintext s = None
    | Some (Inl err, s') \<Rightarrow> rsa_encrypt rng pub plaintext s = Some (Inl err, s')
    | Some (Inr random, s') \<Rightarrow> \<exists>ciphertext. rsa_encrypt rng pub plaintext s = Some (Inr ciphertext, s') \<and>
        length ciphertext = rsa_max pub \<and> rsa_decrypt priv ciphertext = Some (Inr plaintext)"
proof (cases "rsa_max pub < length plaintext + 11")
  case True
  then have "unat (of_nat (rsa_max pub) - 11 :: u32) < length plaintext" using encoded_lengths(1) [OF assms(1,4)] assms(4) by linarith
  then show ?thesis using True by (simp add: rsa_encrypt_def Let_def)
next
  case False
  let ?len = "rsa_max pub - length plaintext - 3"
  have l: "unat (of_nat (rsa_max pub) - 11 - of_nat (length plaintext) + 8 :: u32) = ?len" using encoded_lengths(2) [OF assms(1,4)] False by simp
  have e: "rsa_encrypt rng pub plaintext s = (case get_random_nz rng ?len [] s of
      None \<Rightarrow> None
    | Some (Inl e, s) \<Rightarrow> Some (Inl e, s)
    | Some (Inr random, s) \<Rightarrow> map_option (\<lambda>ciphertext. (Inr ciphertext, s)) (rsa_cipher pub ([0x00, 0x02] @ random @ [0x00] @ plaintext)))"
  proof -
    have "\<not> unat (of_nat (rsa_max pub) - 11 :: u32) < length plaintext" using encoded_lengths(1) [OF assms(1,4)] False by linarith
    then show ?thesis unfolding rsa_encrypt_def Let_def l by (simp only: if_False)
  qed
  show ?thesis
  proof (cases "get_random_nz rng ?len [] s")
    case (Some r)
    obtain x s' where r: "r = (x, s')" by fastforce
    show ?thesis
    proof (cases x)
      case (Inr random)
      have rn: "length random = ?len" "0 \<notin> set random" using random_nz_result [OF Some] r Inr by (auto simp: random_nz_done_def)
      let ?data = "[0x00, 0x02] @ random @ [0x00] @ plaintext"
      have "length ?data = rsa_max pub" using rn(1) False by simp
      then obtain out where "rsa_cipher pub ?data = Some out" "length out = rsa_max pub" "rsa_cipher priv out = Some ?data"
        using cipher_inverse [OF assms(1-3), of ?data] by auto
      then show ?thesis using False Some r Inr e rn(2) ready_max [OF assms(1,2)] by (simp add: rsa_decrypt_def memchr_zero_append)
    qed (use False Some r e in simp)
  qed (use False e in simp)
qed

section \<open>Signatures\<close>

lemma prefix_fits: "rsa_find_prefix alg = Some prefix \<Longrightarrow> length (prefix_data prefix) + rsa_digestsize alg < 256"
  by (auto simp: rsa_find_prefix_def RSA_DIGESTINFO_PREFIXES_def rsa_md5_prefix_def rsa_sha1_prefix_def rsa_sha256_prefix_def rsa_md5_sha1_prefix_def RSA_DIGESTINFO_PREFIX_def RSA_DIGESTALGORITHM_def
      RSA_DIGESTALGORITHM_CONTENTS_def RSA_DIGEST_PREFIX_def ASN1_OID_MD5_def ASN1_OID_SHA1_def ASN1_OID_SHA256_def ASN1_OID_INITIAL_def
      ASN1_OID_SINGLE_def ASN1_OID_DOUBLE_def ASN1_OID_TRIPLE_def md5_algorithm_def sha1_algorithm_def sha256_algorithm_def split: if_splits)

text \<open>The encoding of RFC 3447, section 9.2.\<close>

definition emsa_pkcs1 :: "nat \<Rightarrow> bytes \<Rightarrow> bytes option" where
  "emsa_pkcs1 len T = (if len < length T + 11 then None else Some ([0x00, 0x01] @ replicate (len - length T - 3) 0xff @ [0x00] @ T))"

lemma encode_digest_value:
  assumes "rsa_ready context n e" "11 \<le> rsa_max context" "length digest_value = rsa_digestsize alg"
  shows "rsa_encode_digest context alg digest_value =
    (case rsa_find_prefix alg of
       None \<Rightarrow> Inl ENOTSUP
     | Some prefix \<Rightarrow> (case emsa_pkcs1 (rsa_max context) (prefix_data prefix @ digest_value) of None \<Rightarrow> Inl ERANGE | Some encoded \<Rightarrow> Inr encoded))"
proof (cases "rsa_find_prefix alg")
  case (Some prefix)
  let ?l = "length (prefix_data prefix) + rsa_digestsize alg"
  show ?thesis
  proof (cases "rsa_max context < ?l + 11")
    case True
    then have "unat (of_nat (rsa_max context) - 11 :: u32) < ?l" using encoded_lengths(1) [OF assms(1,2)] assms(2) by linarith
    then show ?thesis using Some True assms(3) by (simp add: rsa_encode_digest_def emsa_pkcs1_def Let_def)
  next
    case False
    then show ?thesis using Some assms(3) encoded_lengths(1) [OF assms(1,2)] encoded_lengths(2) [OF assms(1,2), of ?l]
      by (simp add: rsa_encode_digest_def emsa_pkcs1_def Let_def)
  qed
qed (simp add: rsa_encode_digest_def)

lemma emsa_length: "emsa_pkcs1 len T = Some encoded \<Longrightarrow> length encoded = len \<and> hd encoded = 0"
  by (auto simp: emsa_pkcs1_def split: if_splits)

text \<open>
  C30.  Signatures are verified exactly.  With a key of at least eleven bytes, \<open>rsa_verify\<close> accepts a signature if and only if it has the length of
  the modulus and its power with the public exponent is the number that the encoding of the digest value in RFC 3447 denotes; everything else is
  rejected with an error.  With the matching private key, \<open>rsa_sign\<close> fails only for an unknown digest algorithm or a key that is too short for the
  encoding, and the signature that it returns otherwise is accepted.
\<close>

theorem rsa_signatures_exact:
  assumes "rsa_ready pub n e" "rsa_ready priv n d" "rsa_key primes n d e" "11 \<le> rsa_max pub" "length digest_value = rsa_digestsize alg"
  shows "(\<exists>rc. rsa_verify pub alg digest_value signature = Some rc \<and>
      (rc = None \<longleftrightarrow> length signature = rsa_max pub \<and>
        (\<exists>prefix encoded. rsa_find_prefix alg = Some prefix \<and> emsa_pkcs1 (rsa_max pub) (prefix_data prefix @ digest_value) = Some encoded \<and>
          be_value signature ^ e mod n = be_value encoded))) \<and>
    (case rsa_find_prefix alg of
       None \<Rightarrow> rsa_sign priv alg digest_value = Some (Inl ENOTSUP)
     | Some prefix \<Rightarrow> if rsa_max pub < length (prefix_data prefix) + length digest_value + 11 then rsa_sign priv alg digest_value = Some (Inl ERANGE)
         else \<exists>s. rsa_sign priv alg digest_value = Some (Inr s) \<and> rsa_verify pub alg digest_value s = Some None)"
proof -
  have L: "rsa_max priv = rsa_max pub" by (rule ready_max [OF assms(2,1)])
  note enc = encode_digest_value [OF assms(1,4,5)] encode_digest_value [OF assms(2) _ assms(5)]
  have v: "\<exists>rc. rsa_verify pub alg digest_value sg = Some rc \<and>
      (rc = None \<longleftrightarrow> length sg = rsa_max pub \<and>
        (\<exists>prefix encoded. rsa_find_prefix alg = Some prefix \<and> emsa_pkcs1 (rsa_max pub) (prefix_data prefix @ digest_value) = Some encoded \<and>
          be_value sg ^ e mod n = be_value encoded))" for sg
  proof (cases "length sg = rsa_max pub")
    case True
    then obtain out where o: "rsa_cipher pub sg = Some out" "length out = rsa_max pub" "be_value out = be_value sg ^ e mod n"
      using cipher_value [OF assms(1)] by blast
    show ?thesis
    proof (cases "rsa_find_prefix alg")
      case (Some prefix)
      show ?thesis
      proof (cases "emsa_pkcs1 (rsa_max pub) (prefix_data prefix @ digest_value)")
        case (Some encoded)
        have "encoded = out \<longleftrightarrow> be_value out = be_value encoded" using be_value_inj [of out encoded] emsa_length [OF Some] o(2) by auto
        then show ?thesis using True o emsa_length [OF Some] \<open>rsa_find_prefix alg = Some prefix\<close> Some enc(1) by (simp add: rsa_verify_def)
      qed (use True o Some enc(1) in \<open>simp add: rsa_verify_def\<close>)
    qed (use True o enc(1) in \<open>simp add: rsa_verify_def\<close>)
  qed (simp add: rsa_verify_def)
  moreover have "case rsa_find_prefix alg of
       None \<Rightarrow> rsa_sign priv alg digest_value = Some (Inl ENOTSUP)
     | Some prefix \<Rightarrow> if rsa_max pub < length (prefix_data prefix) + length digest_value + 11 then rsa_sign priv alg digest_value = Some (Inl ERANGE)
         else \<exists>s. rsa_sign priv alg digest_value = Some (Inr s) \<and> rsa_verify pub alg digest_value s = Some None"
  proof (cases "rsa_find_prefix alg")
    case (Some prefix)
    show ?thesis
    proof (cases "emsa_pkcs1 (rsa_max pub) (prefix_data prefix @ digest_value)")
      case None
      then show ?thesis using Some enc(2) assms(4) L by (auto simp: rsa_sign_def emsa_pkcs1_def split: if_splits)
    next
      case e: (Some encoded)
      obtain out where "rsa_cipher priv encoded = Some out" "length out = rsa_max priv" "rsa_cipher pub out = Some encoded"
        using cipher_inverse [OF assms(2,1,3), of encoded] emsa_length [OF e] L by auto
      then show ?thesis using Some e enc assms(4) L by (auto simp: rsa_sign_def rsa_verify_def emsa_pkcs1_def split: if_splits)
    qed
  qed (use enc(2) assms(4) L in \<open>simp add: rsa_sign_def\<close>)
  ultimately show ?thesis by blast
qed

section \<open>A key\<close>

text \<open>A product of small primes, with an exponent that is its own inverse.\<close>

definition sample_primes :: "nat list" where
  "sample_primes =
    [3, 5, 7, 11, 13, 17, 19, 23, 29, 31, 37, 41, 43, 53, 61, 67, 71, 73, 79, 89, 97, 101, 109, 113,
     127, 131, 151, 157, 163, 181, 193, 197, 199, 211, 241, 251, 257, 271, 281, 313, 331, 337, 353, 379, 397, 401, 421, 433,
     449, 463, 487, 491, 521]"

definition sample_modulus :: bytes where
  "sample_modulus =
    [52, 112, 148, 40, 85, 71, 16, 31, 191, 192, 77, 6, 175, 172, 144, 58, 78, 83, 95, 31, 250, 75, 107, 127,
     2, 142, 253, 178, 196, 216, 183, 94, 65, 186, 0, 189, 45, 198, 163, 16, 18, 232, 132, 101, 75]"

definition sample_exponent :: bytes where
  "sample_exponent = [12, 175, 164, 248, 255]"

definition sample_rsa :: rsa_context where
  "sample_rsa = \<lparr>rsa_dynamic = True, modulus0 = bigint_init_raw 12 sample_modulus, rsa_size = 12, rsa_max = 45,
     exponent0 = bigint_init_raw 2 sample_exponent, exponent_size = 2, rsa_tmp = (\<lambda>_. 0)\<rparr>"

lemma sample_values:
  "be_value sample_modulus = 481082074397441718310537090639628877037569193643730904838112226221236179866247061234532819155657172021699915"
  "be_value sample_exponent = 54486431999"
  by (simp_all add: be_value_def sample_modulus_def sample_exponent_def)

lemma sample_primes_prime: "list_all prime_nat sample_primes"
proof -
  have "list_all (\<lambda>p. 1 < p \<and> p < 23 * 23 \<and> list_all (\<lambda>d. d < p \<longrightarrow> p mod d \<noteq> 0) [2..<23]) sample_primes"
    by (simp add: sample_primes_def)
  moreover have "{2..<23} = set [2..<23 :: nat]" by (simp only: set_upt)
  ultimately show ?thesis using prime_natI [of _ 23] unfolding list_all_iff by blast
qed

lemma sample_key: "rsa_key sample_primes (be_value sample_modulus) (be_value sample_exponent) (be_value sample_exponent)"
proof -
  have "prod_list sample_primes = be_value sample_modulus" unfolding sample_values by (simp add: sample_primes_def)
  moreover have "distinct sample_primes" by (simp add: sample_primes_def)
  moreover have "list_all (\<lambda>p. be_value sample_exponent * be_value sample_exponent mod (p - 1) = 1 mod (p - 1)) sample_primes"
    unfolding sample_values by (simp add: sample_primes_def)
  ultimately show ?thesis using sample_primes_prime unfolding rsa_key_def list_all_iff by (simp add: sample_values)
qed

lemma sample_ready: "rsa_ready sample_rsa (be_value sample_modulus) (be_value sample_exponent)"
proof -
  have "length sample_modulus = 45" "length sample_exponent = 5" by (simp_all add: sample_modulus_def sample_exponent_def)
  then show ?thesis using init_value [of sample_modulus 12] init_value [of sample_exponent 2]
    by (auto simp: rsa_ready_def sample_rsa_def sample_values)
qed

lemma random_nz_constant: "b \<noteq> 0 \<Longrightarrow> get_random_nz (\<lambda>s. (Inr b, s)) n bs s = Some (Inr (bs @ replicate n b), s)"
  by (induction n arbitrary: bs) (subst get_random_nz.simps, simp)+

theorem rsa_decrypt_encrypt_witness:
  "\<exists>ciphertext. rsa_encrypt (\<lambda>s. (Inr 170, s)) sample_rsa [1, 2, 3] () = Some (Inr ciphertext, ()) \<and> length ciphertext = 45 \<and>
     rsa_decrypt sample_rsa ciphertext = Some (Inr [1, 2, 3])"
  using rsa_decrypt_encrypt [OF sample_ready sample_ready sample_key, of "[1, 2, 3]" "\<lambda>s. (Inr 170, s)" "()"] random_nz_constant [of 170 39 "[]" "()"]
  by (simp add: sample_rsa_def)

theorem rsa_signatures_exact_witness:
  "\<exists>s. rsa_sign sample_rsa Rsa_MD5 (replicate 16 7) = Some (Inr s) \<and> rsa_verify sample_rsa Rsa_MD5 (replicate 16 7) s = Some None"
proof -
  have "rsa_find_prefix Rsa_MD5 = Some rsa_md5_prefix" "length (prefix_data rsa_md5_prefix) = 18"
    by (simp_all add: rsa_find_prefix_def RSA_DIGESTINFO_PREFIXES_def rsa_md5_prefix_def RSA_DIGESTINFO_PREFIX_def RSA_DIGESTALGORITHM_def RSA_DIGESTALGORITHM_CONTENTS_def
        RSA_DIGEST_PREFIX_def ASN1_OID_MD5_def ASN1_OID_INITIAL_def ASN1_OID_SINGLE_def ASN1_OID_DOUBLE_def ASN1_OID_TRIPLE_def)
  moreover have "rsa_max sample_rsa = 45" by (simp add: sample_rsa_def)
  ultimately show ?thesis using rsa_signatures_exact [OF sample_ready sample_ready sample_key, of "replicate 16 7" Rsa_MD5 "[]"]
    by (simp add: md5_algorithm_def)
qed

text \<open>
  With a modulus of less than eleven bytes the lengths wrap around: the encoding of a digest for a modulus of four bytes is written far beyond the
  end of the buffer.
\<close>

lemma short_key_overrun:
  assumes "rsa_max context = 4"
  shows "\<exists>encoded. rsa_encode_digest context Rsa_MD5 (replicate 16 7) = Inr encoded \<and> 2 ^ 31 < length encoded"
  using assms by (simp add: rsa_encode_digest_def rsa_find_prefix_def RSA_DIGESTINFO_PREFIXES_def rsa_md5_prefix_def RSA_DIGESTINFO_PREFIX_def RSA_DIGESTALGORITHM_def RSA_DIGESTALGORITHM_CONTENTS_def
        RSA_DIGEST_PREFIX_def ASN1_OID_MD5_def ASN1_OID_INITIAL_def ASN1_OID_SINGLE_def ASN1_OID_DOUBLE_def ASN1_OID_TRIPLE_def md5_algorithm_def)

end
